(* ===== verification/Prelude.thy ===== *)
theory Prelude
  imports Main "HOL-Library.Sublist" "HOL-Library.Monad_Syntax"
begin

text \<open>
  Vocabulary shared by the whole development.

  The program stores every key of its database, every identifier and every string as a
  sequence of single bits. The bits are a \<open>bool list\<close>; the running balance of ones and
  zeros that the code keeps in the member \<open>_count\<close> is \<open>weight\<close>, and a sequence on
  which that balance returns to zero for the first time at its end is \<open>complete_code\<close>:
  this is how the code recognises the end of a stored value. The theory also fixes the order
  of bit sequences, the types the components share, and the lemma collections.
\<close>

named_theorems code_lens \<open>the bit codes of the encoders\<close>
named_theorems frame_simps \<open>what an update of the store leaves unchanged\<close>
named_theorems cursor_simps \<open>how cursors move\<close>

type_synonym bits = "bool list"
type_synonym index = nat

text \<open>A \<open>BString\<close> (a \<open>std::string\<close>) is a list of bytes; HOL's \<open>char\<close> is a byte.\<close>

type_synonym bstring = "char list"

text \<open>Bytes as numbers.\<close>

lemma of_char_less: "(of_char c :: nat) < 256"
  by (metis char_of_nat nat_of_char_less_256)

section \<open>Weights and complete codes\<close>

fun bit_weight :: "bool \<Rightarrow> int" where
  "bit_weight True = 1"
| "bit_weight False = - 1"

definition weight :: "bits \<Rightarrow> int" where
  "weight bs = sum_list (map bit_weight bs)"

lemma weight_Nil [simp]: "weight [] = 0"
  by (simp add: weight_def)

lemma weight_Cons [simp]: "weight (b # bs) = bit_weight b + weight bs"
  by (simp add: weight_def)

lemma weight_append [simp]: "weight (bs @ cs) = weight bs + weight cs"
  by (simp add: weight_def)

lemma bit_weight_if: "bit_weight b = (if b then 1 else - 1)"
  by (cases b) simp_all

text \<open>Every proper prefix has a balance of at least \<open>n\<close>, not counting the empty one.\<close>

definition stays_above :: "int \<Rightarrow> bits \<Rightarrow> bool" where
  "stays_above n bs \<longleftrightarrow> (\<forall>p. strict_prefix p bs \<longrightarrow> p \<noteq> [] \<longrightarrow> n \<le> weight p)"

definition complete_code :: "bits \<Rightarrow> bool" where
  "complete_code bs \<longleftrightarrow> bs \<noteq> [] \<and> weight bs = 0 \<and> stays_above 1 bs"

text \<open>
  \<open>tree_code bs\<close>: a balance of minus one, reached for the first time at the end: the bits
  of one number, read as the preorder of a binary tree.
\<close>

definition tree_code :: "bits \<Rightarrow> bool" where
  "tree_code bs \<longleftrightarrow> weight bs = - 1 \<and> (\<forall>p. strict_prefix p bs \<longrightarrow> 0 \<le> weight p)"

lemma strict_prefix_append_cases:
  assumes "strict_prefix p (bs @ cs)"
  obtains "strict_prefix p bs" | q where "p = bs @ q" and "strict_prefix q cs"
proof (cases "strict_prefix p bs")
  case False
  from assms have pre: "prefix p (bs @ cs)" and ne: "p \<noteq> bs @ cs" by (auto simp: strict_prefix_def)
  from pre False obtain q where q: "p = bs @ q" "prefix q cs"
    by (auto simp: prefix_append strict_prefix_def)
  with ne have "q \<noteq> cs" by auto
  with q have "p = bs @ q" "strict_prefix q cs" by (auto simp: strict_prefix_def)
  then show ?thesis by (rule that(2))
qed (rule that(1))

lemma strict_prefix_Cons_iff:
  "strict_prefix p (b # bs) \<longleftrightarrow> p = [] \<or> (\<exists>q. p = b # q \<and> strict_prefix q bs)"
  by (cases p) auto

lemma strict_prefix_snoc_iff: "strict_prefix p (bs @ [b]) \<longleftrightarrow> prefix p bs"
  by (auto simp: strict_prefix_def)

lemma strict_prefix_bit:
  "strict_prefix p q \<longleftrightarrow> prefix (p @ [False]) q \<or> prefix (p @ [True]) q"
proof (induction p arbitrary: q)
  case Nil
  show ?case by (cases q) auto
next
  case (Cons b p)
  then show ?case by (cases q) auto
qed

lemma tree_code_False: "tree_code [False]"
  by (auto simp: tree_code_def strict_prefix_Cons_iff)

lemma tree_code_node:
  assumes "tree_code bs" and "tree_code cs"
  shows "tree_code (True # bs @ cs)"
proof -
  have "0 \<le> weight p" if p: "strict_prefix p (True # bs @ cs)" for p
  proof (cases p)
    case (Cons b q)
    with p have b: "b = True" and q: "strict_prefix q (bs @ cs)" by auto
    from q show ?thesis
    proof (cases rule: strict_prefix_append_cases)
      case 1
      with assms(1) have "0 \<le> weight q" by (auto simp: tree_code_def)
      with Cons b show ?thesis by simp
    next
      case (2 r)
      with assms have "0 \<le> weight r" and "weight bs = - 1" by (auto simp: tree_code_def)
      with 2 have "weight q \<ge> - 1" by simp
      with Cons b show ?thesis by simp
    qed
  qed simp
  with assms show ?thesis by (auto simp: tree_code_def)
qed

lemma tree_code_complete:
  assumes "tree_code bs"
  shows "complete_code (True # bs)"
proof -
  have "1 \<le> weight p" if "strict_prefix p (True # bs)" "p \<noteq> []" for p
    using that assms by (cases p) (auto simp: tree_code_def)
  with assms show ?thesis by (auto simp: complete_code_def stays_above_def tree_code_def)
qed

lemma complete_weight: "complete_code bs \<Longrightarrow> weight bs = 0"
  by (simp add: complete_code_def)

lemma complete_prefix_nonneg:
  assumes "complete_code bs" and "prefix p bs"
  shows "0 \<le> weight p"
proof (cases "p = [] \<or> p = bs")
  case False
  with assms have "1 \<le> weight p"
    by (auto simp: complete_code_def stays_above_def strict_prefix_def)
  then show ?thesis by simp
qed (use assms in \<open>auto simp: complete_weight\<close>)

lemma concat_complete_nonneg:
  assumes "\<forall>c \<in> set cs. complete_code c"
  shows "weight (concat cs) = 0 \<and> (\<forall>p. prefix p (concat cs) \<longrightarrow> 0 \<le> weight p)"
  using assms
proof (induction cs)
  case (Cons c cs)
  then have IH: "weight (concat cs) = 0" "\<And>p. prefix p (concat cs) \<Longrightarrow> 0 \<le> weight p"
    and c: "complete_code c" by auto
  have "0 \<le> weight p" if "prefix p (c @ concat cs)" for p
    using that c IH(2) complete_prefix_nonneg [OF c] by (auto simp: prefix_append complete_weight)
  with c IH(1) show ?case by (simp add: complete_weight)
qed simp

text \<open>The shape of every compound value: a one, complete parts, a zero.\<close>

lemma complete_node:
  assumes "\<forall>c \<in> set cs. complete_code c"
  shows "complete_code (True # concat cs @ [False])"
proof -
  note * = concat_complete_nonneg [OF assms]
  have "1 \<le> weight p" if p: "strict_prefix p (True # concat cs @ [False])" "p \<noteq> []" for p
  proof -
    from p obtain q where q: "p = True # q" and "strict_prefix q (concat cs @ [False])"
      by (cases p) auto
    then have "0 \<le> weight q" using * by (simp add: strict_prefix_snoc_iff)
    with q show ?thesis by simp
  qed
  with * show ?thesis by (auto simp: complete_code_def stays_above_def)
qed

text \<open>Complete codes are prefix free, so a stored value never runs into the next one.\<close>

lemma complete_prefix_free:
  assumes "complete_code bs" and "complete_code cs" and "prefix bs cs"
  shows "bs = cs"
proof (rule ccontr)
  assume "bs \<noteq> cs"
  with assms(3) have "strict_prefix bs cs" by (simp add: strict_prefix_def)
  with assms(1,2) show False by (auto simp: complete_code_def stays_above_def)
qed

lemma complete_starts_True: "complete_code bs \<Longrightarrow> \<exists>cs. bs = True # cs"
proof (cases bs)
  case (Cons b cs)
  assume c: "complete_code bs"
  show ?thesis
  proof (cases b)
    case False
    show ?thesis
    proof (cases cs)
      case Nil
      with c Cons False show ?thesis by (simp add: complete_code_def)
    next
      case (Cons d ds)
      then have "strict_prefix [b] bs" using \<open>bs = b # cs\<close> by simp
      with c have "1 \<le> weight [b]" unfolding complete_code_def stays_above_def by blast
      with False show ?thesis by simp
    qed
  qed (simp add: Cons)
qed (simp add: complete_code_def)

section \<open>The order of bit sequences\<close>

text \<open>
  Left (a zero) before right (a one): \<open>bit_less p q\<close> says that the two sequences part at
  some point where \<open>p\<close> goes left and \<open>q\<close> goes right.
\<close>

definition bit_less :: "bits \<Rightarrow> bits \<Rightarrow> bool" where
  "bit_less p q \<longleftrightarrow> (\<exists>c u v. p = c @ False # u \<and> q = c @ True # v)"

text \<open>The same for either direction: \<open>d\<close> is the bit that counts as the smaller one.\<close>

definition dir_less :: "bool \<Rightarrow> bits \<Rightarrow> bits \<Rightarrow> bool" where
  "dir_less d p q \<longleftrightarrow> (\<exists>c u v. p = c @ d # u \<and> q = c @ (\<not> d) # v)"

lemma dir_less_False: "dir_less False p q = bit_less p q"
  by (simp add: dir_less_def bit_less_def)

lemma dir_less_True: "dir_less True p q = bit_less q p"
  by (auto simp: dir_less_def bit_less_def)

lemma dir_less_Cons: "dir_less d (a # p) (b # q) \<longleftrightarrow> (a = d \<and> b = (\<not> d)) \<or> (a = b \<and> dir_less d p q)"
  (is "?l \<longleftrightarrow> ?r")
proof
  assume ?l
  then obtain c u v where "a # p = c @ d # u" "b # q = c @ (\<not> d) # v" by (auto simp: dir_less_def)
  then show ?r by (cases c) (auto simp: dir_less_def)
next
  assume ?r
  then show ?l
  proof
    assume "a = d \<and> b = (\<not> d)"
    then have "a # p = [] @ d # p" "b # q = [] @ (\<not> d) # q" by auto
    then show ?l unfolding dir_less_def by blast
  next
    assume "a = b \<and> dir_less d p q"
    then obtain c u v where "a # p = (a # c) @ d # u" "b # q = (a # c) @ (\<not> d) # v"
      by (auto simp: dir_less_def)
    then show ?l unfolding dir_less_def by blast
  qed
qed

lemma dir_less_Nil [simp]: "\<not> dir_less d [] q" "\<not> dir_less d p []"
  by (simp_all add: dir_less_def)

lemma dir_less_append [simp]: "dir_less d (c @ p) (c @ q) = dir_less d p q"
  by (induction c) (auto simp: dir_less_Cons)

lemma dir_less_extend: "dir_less d p k \<Longrightarrow> dir_less d (p @ r) k"
proof -
  assume "dir_less d p k"
  then obtain c u v where "p = c @ d # u" "k = c @ (\<not> d) # v" by (auto simp: dir_less_def)
  then have "p @ r = c @ d # (u @ r)" "k = c @ (\<not> d) # v" by simp_all
  then show ?thesis unfolding dir_less_def by blast
qed

lemma dir_less_tails: "dir_less d p q \<Longrightarrow> dir_less d (p @ r) (q @ s)"
proof -
  assume "dir_less d p q"
  then obtain c u v where "p = c @ d # u" "q = c @ (\<not> d) # v" by (auto simp: dir_less_def)
  then have "p @ r = c @ d # (u @ r)" "q @ s = c @ (\<not> d) # (v @ s)" by simp_all
  then show ?thesis unfolding dir_less_def by blast
qed

lemma dir_less_irrefl [simp]: "\<not> dir_less d p p"
  by (induction p) (auto simp: dir_less_Cons)

lemma dir_less_trans: "dir_less d p q \<Longrightarrow> dir_less d q r \<Longrightarrow> dir_less d p r"
proof (induction p arbitrary: q r)
  case (Cons a p)
  then show ?case by (cases q; cases r) (auto simp: dir_less_Cons)
qed simp

lemma dir_less_prefix: "dir_less d p q \<Longrightarrow> \<not> prefix p q \<and> \<not> prefix q p"
proof (induction p arbitrary: q)
  case (Cons a p)
  then show ?case by (cases q) (auto simp: dir_less_Cons)
qed simp

text \<open>Two sequences are related by the order or by extension.\<close>

lemma dir_less_total: "prefix p q \<or> prefix q p \<or> dir_less d p q \<or> dir_less d q p"
proof (induction p arbitrary: q)
  case (Cons a p)
  then show ?case by (cases q) (auto simp: dir_less_Cons)
qed simp

end
