(* ===== verification/Trie_Database.thy ===== *)
theory Trie_Database
  imports Prelude
begin

text \<open>
  The storage layer: code/Database/File.hpp, Branch.hpp and DatabaseBase.hpp.

  A file is its bytes. Every access of the database is a \<open>seek\<close> followed by reads or writes, so
  the pair is one positional access here: a read copies what the file has into the caller's
  buffer and leaves the rest of the buffer as it was, a write past the end fills the hole with
  zeros. A branch is four 64 bit little endian indices. Failures of the operating system, the
  locks and the temporary file of \<open>File\<close> are outside the model: operations run one at a time.
\<close>

section \<open>Positional access\<close>

type_synonym db_file = bstring

definition file_read :: "db_file \<Rightarrow> index \<Rightarrow> bstring \<Rightarrow> bstring" where
  "file_read f off buf =
     (let got = take (length buf) (drop off f) in got @ drop (length got) buf)"

definition file_write :: "db_file \<Rightarrow> index \<Rightarrow> bstring \<Rightarrow> db_file" where
  "file_write f off bs =
     take off f @ replicate (off - length f) (CHR 0x00) @ bs @ drop (off + length bs) f"

definition region :: "db_file \<Rightarrow> index \<Rightarrow> nat \<Rightarrow> bstring" where
  "region f i n = take n (drop i f)"

lemma file_read_region: "i + length buf \<le> length f \<Longrightarrow> file_read f i buf = region f i (length buf)"
  by (simp add: file_read_def region_def)

lemma file_write_end: "file_write f (length f) bs = f @ bs"
  by (simp add: file_write_def)

lemma file_write_length: "off + length bs \<le> length f \<Longrightarrow> length (file_write f off bs) = length f"
  by (simp add: file_write_def)

lemma region_write_same:
  "off + length bs \<le> length f \<Longrightarrow> region (file_write f off bs) off (length bs) = bs"
  by (simp add: file_write_def region_def)

lemma region_write_within:
  assumes "off + length bs \<le> length f" and "n \<le> length bs"
  shows "region (file_write f off bs) off n = take n bs"
  using assms by (simp add: file_write_def region_def)

lemma region_write_other:
  assumes "off + length bs \<le> length f" and "j + n \<le> off \<or> off + length bs \<le> j"
  shows "region (file_write f off bs) j n = region f j n"
proof (rule nth_equalityI)
  have len: "length (file_write f off bs) = length f" by (rule file_write_length [OF assms(1)])
  then show "length (region (file_write f off bs) j n) = length (region f j n)"
    by (simp add: region_def)
  fix k assume "k < length (region (file_write f off bs) j n)"
  with assms show "region (file_write f off bs) j n ! k = region f j n ! k"
    by (auto simp: region_def file_write_def nth_append)
qed

lemma region_append: "j + n \<le> length f \<Longrightarrow> region (f @ bs) j n = region f j n"
  by (simp add: region_def)

lemma region_append_new: "region (f @ bs) (length f) (length bs) = bs"
  by (simp add: region_def)

section \<open>Indices and branches\<close>

fun le_bytes :: "nat \<Rightarrow> nat \<Rightarrow> bstring" where
  "le_bytes 0 v = []"
| "le_bytes (Suc n) v = char_of v # le_bytes n (v div 256)"

fun bytes_index :: "bstring \<Rightarrow> index" where
  "bytes_index [] = 0"
| "bytes_index (c # cs) = of_char c + 256 * bytes_index cs"

definition index_bytes :: "index \<Rightarrow> bstring" where
  "index_bytes v = le_bytes 8 v"

lemma le_bytes_length [simp]: "length (le_bytes n v) = n"
  by (induction n arbitrary: v) simp_all

lemma index_bytes_length [simp]: "length (index_bytes v) = 8"
  by (simp add: index_bytes_def)

lemma bytes_le_bytes: "bytes_index (le_bytes n v) = v mod 256 ^ n"
proof (induction n arbitrary: v)
  case (Suc n)
  have "v mod 256 + 256 * (v div 256 mod 256 ^ n) = v mod (256 * 256 ^ n)"
    by (simp add: mod_mult2_eq)
  with Suc show ?case by (simp add: of_char_of)
qed simp

lemma bytes_index_bytes [simp]: "v < 2 ^ 64 \<Longrightarrow> bytes_index (index_bytes v) = v"
  by (simp add: index_bytes_def bytes_le_bytes)

lemma bytes_index_less: "bytes_index bs < 256 ^ length bs"
proof (induction bs)
  case (Cons c cs)
  have "of_char c + 256 * bytes_index cs < 256 * Suc (bytes_index cs)"
    using of_char_less [of c] by (simp only: mult_Suc_right add_less_cancel_right)
  also have "\<dots> \<le> 256 * 256 ^ length cs"
    using Cons by (intro mult_le_mono2) (simp add: Suc_le_eq)
  finally show ?case by simp
qed simp

record branch =
  br_parent :: index
  br_left :: index
  br_right :: index
  br_data :: index

text \<open>The constructor from a parent.\<close>

definition branch_new :: "index \<Rightarrow> branch" where
  "branch_new p = \<lparr>br_parent = p, br_left = 0, br_right = 0, br_data = 0\<rparr>"

definition branch_dead_end :: "branch \<Rightarrow> bool" where
  "branch_dead_end b \<longleftrightarrow> br_left b = 0 \<and> br_right b = 0"

definition branch_bytes :: "branch \<Rightarrow> bstring" where
  "branch_bytes b = index_bytes (br_parent b) @ index_bytes (br_left b)
     @ index_bytes (br_right b) @ index_bytes (br_data b)"

definition bytes_branch :: "bstring \<Rightarrow> branch" where
  "bytes_branch bs = \<lparr>br_parent = bytes_index (take 8 bs), br_left = bytes_index (take 8 (drop 8 bs)),
     br_right = bytes_index (take 8 (drop 16 bs)), br_data = bytes_index (take 8 (drop 24 bs))\<rparr>"

definition branch_fits :: "branch \<Rightarrow> bool" where
  "branch_fits b \<longleftrightarrow> br_parent b < 2 ^ 64 \<and> br_left b < 2 ^ 64 \<and> br_right b < 2 ^ 64 \<and> br_data b < 2 ^ 64"

lemma branch_bytes_length [simp]: "length (branch_bytes b) = 32"
  by (simp add: branch_bytes_def)

lemma bytes_branch_bytes [simp]: "branch_fits b \<Longrightarrow> bytes_branch (branch_bytes b) = b"
  by (simp add: branch_fits_def branch_bytes_def bytes_branch_def)

lemma bytes_index_take8: "bytes_index (take 8 bs) < 2 ^ 64"
proof -
  have "bytes_index (take 8 bs) < 256 ^ length (take 8 bs)" by (rule bytes_index_less)
  also have "\<dots> \<le> 256 ^ 8" by (rule power_increasing) simp_all
  finally show ?thesis by simp
qed

lemma bytes_branch_fits: "branch_fits (bytes_branch bs)"
  using bytes_index_take8 by (simp add: branch_fits_def bytes_branch_def)

lemma branch_new_fits: "p < 2 ^ 64 \<Longrightarrow> branch_fits (branch_new p)"
  by (simp add: branch_new_def branch_fits_def)

section \<open>The operations of the database\<close>

definition database_new :: "db_file \<Rightarrow> db_file" where
  "database_new f = (if length f = 0 then file_write f 0 (branch_bytes (branch_new 0)) else f)"

definition get_branch :: "db_file \<Rightarrow> index \<Rightarrow> branch" where
  "get_branch f i = bytes_branch (file_read f i (branch_bytes (branch_new 0)))"

definition set_branch :: "index \<Rightarrow> branch \<Rightarrow> db_file \<Rightarrow> db_file" where
  "set_branch i b f = file_write f i (branch_bytes b)"

definition get_next_index :: "index \<Rightarrow> db_file \<Rightarrow> index \<times> db_file" where
  "get_next_index parent f =
     (let i = length f in (i, file_write f i (branch_bytes (branch_new parent))))"

definition allocate :: "bstring \<Rightarrow> db_file \<Rightarrow> index \<times> db_file" where
  "allocate data f =
     (let d = length f;
          f = file_write f d (index_bytes (length data))
      in (d, if data \<noteq> [] then file_write f (d + 8) data else f))"

text \<open>
  A size that could not be read in full is an uninitialised variable in the code: \<open>None\<close>.
\<close>

definition get_data :: "db_file \<Rightarrow> index \<Rightarrow> bstring option" where
  "get_data f d =
     (if d = 0 then Some []
      else if length f < d + 8 then None
      else (let n = bytes_index (file_read f d (replicate 8 (CHR 0x00)))
            in Some (file_read f (d + 8) (replicate n (CHR 0x00)))))"

definition has_data :: "db_file \<Rightarrow> index \<Rightarrow> bool" where
  "has_data f i \<longleftrightarrow> br_data (get_branch f i) \<noteq> 0"

definition overwrite_data :: "index \<Rightarrow> bstring \<Rightarrow> db_file \<Rightarrow> db_file" where
  "overwrite_data d source f =
     (let f = file_write f d (index_bytes (length source))
      in if source \<noteq> [] then file_write f (d + 8) source else f)"

definition delete_data :: "index \<Rightarrow> db_file \<Rightarrow> db_file" where
  "delete_data i f =
     (let b = get_branch f i
      in if br_data b \<noteq> 0 then set_branch i (b\<lparr>br_data := 0\<rparr>) f else f)"

text \<open>On a file whose branches form a cycle the recursion does not end, hence \<open>option\<close>.\<close>

partial_function (option) delete_branch :: "index \<Rightarrow> db_file \<Rightarrow> db_file option" where
  "delete_branch i f =
     (let f = delete_data i f;
          b = get_branch f i;
          f = (if i \<noteq> 0 then
                 (let p = get_branch f (br_parent b);
                      p = (if i = br_left p then p\<lparr>br_left := 0\<rparr>
                           else if i = br_right p then p\<lparr>br_right := 0\<rparr> else p)
                  in set_branch (br_parent b) p f)
               else f)
      in do { f \<leftarrow> (if br_left b \<noteq> 0 then delete_branch (br_left b) f else Some f);
              if br_right b \<noteq> 0 then delete_branch (br_right b) f else Some f })"

declare delete_branch.simps [code]

text \<open>\<open>stripe\<close>: the rows written, in breadth first order.\<close>

partial_function (option) stripe_loop ::
    "db_file \<Rightarrow> index list \<Rightarrow> (index \<times> index \<times> index) list \<Rightarrow> (index \<times> index \<times> index) list option" where
  "stripe_loop f queue out =
     (case queue of
        [] \<Rightarrow> Some out
      | i # queue \<Rightarrow>
          (let b = get_branch f i;
               queue = (if br_left b \<noteq> 0 then queue @ [br_left b] else queue);
               queue = (if br_right b \<noteq> 0 then queue @ [br_right b] else queue)
           in stripe_loop f queue (out @ [(i, br_left b, br_right b)])))"

declare stripe_loop.simps [code]

definition stripe :: "db_file \<Rightarrow> (index \<times> index \<times> index) list option" where
  "stripe f = stripe_loop f [0] []"

definition root_index :: index where
  "root_index = 0"

end
