(* ===== verification/Database_Invariant.thy ===== *)
theory Database_Invariant
  imports Trie_Database
begin

text \<open>
  The invariant of the database file and its preservation by every operation of
  \<open>Trie_Database\<close>. The file is a heap of extents that never overlap; \<open>N\<close> is the set of the
  offsets of the branches and \<open>E\<close> gives the length of every extent. The invariant is what makes
  the file a binary trie: children lie behind their parent, point back to it and have no
  other parent, and the data extents are disjoint from the branches and not shared.
\<close>

section \<open>The invariant\<close>

definition child :: "bool \<Rightarrow> branch \<Rightarrow> index" where
  "child b br = (if b then br_right br else br_left br)"

definition with_child :: "bool \<Rightarrow> index \<Rightarrow> branch \<Rightarrow> branch" where
  "with_child b c br = (if b then br\<lparr>br_right := c\<rparr> else br\<lparr>br_left := c\<rparr>)"

lemma with_child_simps [simp]:
  "child b (with_child b c br) = c" "child (\<not> b) (with_child b c br) = child (\<not> b) br"
  "b \<noteq> d \<Longrightarrow> child d (with_child b c br) = child d br"
  "br_parent (with_child b c br) = br_parent br" "br_data (with_child b c br) = br_data br"
  by (auto simp: child_def with_child_def)

lemma child_other_simps [simp]:
  "child b (br\<lparr>br_data := d\<rparr>) = child b br" "child b (branch_new p) = 0"
  "br_parent (branch_new p) = p" "br_data (branch_new p) = 0"
  by (auto simp: child_def branch_new_def)

definition extents_ok :: "db_file \<Rightarrow> (index \<Rightarrow> nat option) \<Rightarrow> bool" where
  "extents_ok f E \<longleftrightarrow>
     (\<forall>i n. E i = Some n \<longrightarrow> 8 \<le> n \<and> i + n \<le> length f) \<and>
     (\<forall>i n j m. E i = Some n \<longrightarrow> E j = Some m \<longrightarrow> i < j \<longrightarrow> i + n \<le> j)"

definition child_ok :: "db_file \<Rightarrow> nat set \<Rightarrow> index \<Rightarrow> index \<Rightarrow> bool" where
  "child_ok f N i c \<longleftrightarrow> c = 0 \<or> c \<in> N \<and> i < c \<and> br_parent (get_branch f c) = i"

definition data_ok :: "db_file \<Rightarrow> nat set \<Rightarrow> (index \<Rightarrow> nat option) \<Rightarrow> index \<Rightarrow> bool" where
  "data_ok f N E d \<longleftrightarrow> d = 0 \<or> d \<notin> N \<and> E d = Some (8 + bytes_index (region f d 8))"

definition node_ok :: "db_file \<Rightarrow> nat set \<Rightarrow> (index \<Rightarrow> nat option) \<Rightarrow> index \<Rightarrow> bool" where
  "node_ok f N E i \<longleftrightarrow>
     (let b = get_branch f i
      in br_parent b \<in> N \<and> (\<forall>d. child_ok f N i (child d b)) \<and>
         (child False b = child True b \<longrightarrow> child True b = 0) \<and> data_ok f N E (br_data b))"

definition db_inv :: "db_file \<Rightarrow> nat set \<Rightarrow> (index \<Rightarrow> nat option) \<Rightarrow> bool" where
  "db_inv f N E \<longleftrightarrow>
     extents_ok f E \<and> 0 \<in> N \<and> br_parent (get_branch f 0) = 0 \<and> length f \<le> 2 ^ 64 \<and>
     (\<forall>i \<in> N. E i = Some 32 \<and> node_ok f N E i) \<and>
     (\<forall>i \<in> N. \<forall>j \<in> N. br_data (get_branch f i) \<noteq> 0 \<longrightarrow>
        br_data (get_branch f i) = br_data (get_branch f j) \<longrightarrow> i = j)"

section \<open>Extents\<close>

lemma extents_apart:
  assumes "extents_ok f E" and "E i = Some n" and "E j = Some m" and "i \<noteq> j"
  shows "i + n \<le> j \<or> j + m \<le> i"
  using assms unfolding extents_ok_def by (metis linorder_neqE_nat)

lemma extents_within: "extents_ok f E \<Longrightarrow> E i = Some n \<Longrightarrow> 8 \<le> n \<and> i + n \<le> length f"
  unfolding extents_ok_def by blast

lemma extents_append:
  assumes "extents_ok f E" and "8 \<le> length bs"
  shows "extents_ok (f @ bs) (E(length f \<mapsto> length bs))"
proof -
  have w: "8 \<le> n \<and> i + n \<le> length f" if "E i = Some n" for i n
    using extents_within [OF assms(1) that] .
  have "8 \<le> n \<and> i + n \<le> length (f @ bs)" if "(E(length f \<mapsto> length bs)) i = Some n" for i n
    using that assms(2) w [of i n] by (auto split: if_splits)
  moreover have "i + n \<le> j"
    if "(E(length f \<mapsto> length bs)) i = Some n" "(E(length f \<mapsto> length bs)) j = Some m" "i < j" for i n j m
  proof -
    have "i \<noteq> length f" using that w [of j m] by (auto split: if_splits)
    with that w [of i n] assms(1) show ?thesis by (auto simp: extents_ok_def split: if_splits)
  qed
  ultimately show ?thesis unfolding extents_ok_def by blast
qed

lemma extents_length: "extents_ok f E \<Longrightarrow> length f = length g \<Longrightarrow> extents_ok g E"
  by (simp add: extents_ok_def)

text \<open>The end of the file is not an extent yet.\<close>

lemma extents_fresh: "extents_ok f E \<Longrightarrow> E (length f) = None"
  using extents_within [of f E "length f"] by (cases "E (length f)") auto

section \<open>Branches as regions\<close>

lemma get_branch_region: "i + 32 \<le> length f \<Longrightarrow> get_branch f i = bytes_branch (region f i 32)"
  using file_read_region [of i "branch_bytes (branch_new 0)" f] by (simp add: get_branch_def)

lemma get_branch_fits: "branch_fits (get_branch f i)"
  by (simp add: get_branch_def bytes_branch_fits)

lemma get_branch_cong:
  "region f i 32 = region g i 32 \<Longrightarrow> i + 32 \<le> length f \<Longrightarrow> i + 32 \<le> length g \<Longrightarrow>
   get_branch f i = get_branch g i"
  by (simp add: get_branch_region)

lemma set_branch_length [simp]: "i + 32 \<le> length f \<Longrightarrow> length (set_branch i b f) = length f"
  by (simp add: set_branch_def file_write_length)

lemma get_set_branch:
  "i + 32 \<le> length f \<Longrightarrow> branch_fits b \<Longrightarrow> get_branch (set_branch i b f) i = b"
  using region_write_same [of i "branch_bytes b" f]
  by (simp add: get_branch_region) (simp add: set_branch_def)

lemma set_branch_region:
  "i + 32 \<le> length f \<Longrightarrow> j + n \<le> i \<or> i + 32 \<le> j \<Longrightarrow> region (set_branch i b f) j n = region f j n"
  by (simp add: set_branch_def region_write_other)

section \<open>Frames\<close>

text \<open>
  \<open>frame f g E X\<close>: the bytes of all extents but those in \<open>X\<close> are the same in \<open>g\<close>.
\<close>

definition frame :: "db_file \<Rightarrow> db_file \<Rightarrow> (index \<Rightarrow> nat option) \<Rightarrow> nat set \<Rightarrow> bool" where
  "frame f g E X \<longleftrightarrow> length f \<le> length g \<and>
     (\<forall>j n. E j = Some n \<longrightarrow> j \<notin> X \<longrightarrow> region g j n = region f j n)"

lemma frame_branch:
  assumes "frame f g E X" and "extents_ok f E" and "E j = Some 32" and "j \<notin> X"
  shows "get_branch g j = get_branch f j"
proof -
  have "j + 32 \<le> length f" using extents_within [OF assms(2,3)] by simp
  with assms(1,3,4) show ?thesis by (auto simp: frame_def intro!: get_branch_cong)
qed

lemma frame_set_branch:
  assumes "extents_ok f E" and "E i = Some 32"
  shows "frame f (set_branch i b f) E {i}"
proof -
  have "region (set_branch i b f) j n = region f j n" if "E j = Some n" "j \<noteq> i" for j n
    using extents_apart [OF assms that(1)] extents_within [OF assms] that
    by (intro set_branch_region) auto
  with extents_within [OF assms] show ?thesis by (simp add: frame_def)
qed

lemma frame_append:
  assumes "extents_ok f E"
  shows "frame f (f @ bs) E {}"
  using extents_within [OF assms] by (simp add: frame_def region_append)

lemma region_prefix: "region f d n = region g d n \<Longrightarrow> m \<le> n \<Longrightarrow> region f d m = region g d m"
  unfolding region_def by (metis min.absorb1 take_take)

lemma frame_data_ok:
  assumes "frame f g E X" and "data_ok f N E d" and "d \<notin> X" and "N' \<inter> dom E \<subseteq> N"
  shows "data_ok g N' E d"
proof (cases "d = 0")
  case False
  with assms(2) have E: "d \<notin> N" "E d = Some (8 + bytes_index (region f d 8))" by (simp_all add: data_ok_def)
  with assms(1,3) have "region g d (8 + bytes_index (region f d 8)) = region f d (8 + bytes_index (region f d 8))"
    by (simp add: frame_def)
  then have "region g d 8 = region f d 8" by (rule region_prefix) simp
  with E assms(4) show ?thesis by (auto simp: data_ok_def)
qed (simp add: data_ok_def)


section \<open>The invariant, fact by fact\<close>

lemma inv_node:
  assumes "db_inv f N E" and "i \<in> N"
  shows "extents_ok f E" "E i = Some 32" "i + 32 \<le> length f" "br_parent (get_branch f i) \<in> N"
    "child_ok f N i (child d (get_branch f i))" "data_ok f N E (br_data (get_branch f i))"
    "child False (get_branch f i) = child True (get_branch f i) \<Longrightarrow> child True (get_branch f i) = 0"
proof -
  from assms show E: "extents_ok f E" "E i = Some 32" by (auto simp: db_inv_def)
  from extents_within [OF this] show "i + 32 \<le> length f" by simp
  from assms have "node_ok f N E i" by (simp add: db_inv_def)
  then show "br_parent (get_branch f i) \<in> N" "child_ok f N i (child d (get_branch f i))"
    "data_ok f N E (br_data (get_branch f i))"
    "child False (get_branch f i) = child True (get_branch f i) \<Longrightarrow> child True (get_branch f i) = 0"
    by (simp_all add: node_ok_def Let_def)
qed

lemma inv_root: "db_inv f N E \<Longrightarrow> 0 \<in> N"
  by (simp add: db_inv_def)

lemma inv_child:
  assumes "db_inv f N E" and "i \<in> N" and "child d (get_branch f i) = c" and "c \<noteq> 0"
  shows "c \<in> N" "i < c" "br_parent (get_branch f c) = i"
  using inv_node(5) [OF assms(1,2), of d] assms(3,4) by (auto simp: child_ok_def)

lemma inv_unshared:
  "db_inv f N E \<Longrightarrow> i \<in> N \<Longrightarrow> j \<in> N \<Longrightarrow> br_data (get_branch f i) \<noteq> 0 \<Longrightarrow>
   br_data (get_branch f i) = br_data (get_branch f j) \<Longrightarrow> i = j"
  by (auto simp: db_inv_def)

lemma node_ok_cong:
  assumes "node_ok f N E i" and "get_branch g i = get_branch f i" and "N \<subseteq> N'"
    and "\<And>d c. child d (get_branch f i) = c \<Longrightarrow> c \<noteq> 0 \<Longrightarrow> get_branch g c = get_branch f c"
    and "data_ok f N E (br_data (get_branch f i)) \<Longrightarrow> data_ok g N' E' (br_data (get_branch f i))"
  shows "node_ok g N' E' i"
proof -
  have "child_ok g N' i (child d (get_branch f i))" for d
    using assms(1,3,4) by (force simp: node_ok_def child_ok_def Let_def)
  with assms show ?thesis by (auto simp: node_ok_def Let_def)
qed

section \<open>Updating a branch\<close>

lemma get_branch_update:
  assumes "db_inv f N E" and "i \<in> N" and "j \<in> N" and "branch_fits b"
  shows "get_branch (set_branch i b f) j = (if j = i then b else get_branch f j)"
proof (cases "j = i")
  case True
  with get_set_branch [OF inv_node(3) [OF assms(1,2)] assms(4)] show ?thesis by simp
next
  case False
  with frame_branch [OF frame_set_branch] inv_node [OF assms(1,2)] inv_node [OF assms(1,3)]
  show ?thesis by simp
qed

lemma inv_update:
  assumes inv: "db_inv f N E" and i: "i \<in> N" and fits: "branch_fits b"
    and par: "br_parent b = br_parent (get_branch f i)"
    and kids: "\<And>d. child_ok f N i (child d b)"
    and sep: "child False b = child True b \<Longrightarrow> child True b = 0"
    and data: "data_ok f N E (br_data b)"
    and own: "\<And>j. j \<in> N \<Longrightarrow> j \<noteq> i \<Longrightarrow> br_data b \<noteq> 0 \<Longrightarrow> br_data (get_branch f j) \<noteq> br_data b"
  shows "db_inv (set_branch i b f) N E"
proof -
  let ?g = "set_branch i b f"
  note E = inv_node(1,2) [OF inv i]
  note get = get_branch_update [OF inv i _ fits]
  have len: "length ?g = length f" by (simp add: inv_node(3) [OF inv i])
  have parent: "br_parent (get_branch ?g j) = br_parent (get_branch f j)" if "j \<in> N" for j
    using get [OF that] par by simp
  have d: "data_ok f N E x \<Longrightarrow> data_ok ?g N E x" for x
    using frame_data_ok [OF frame_set_branch [OF E]] i by (force simp: data_ok_def)
  have k: "child_ok f N j c \<Longrightarrow> child_ok ?g N j c" for j c
    using parent by (auto simp: child_ok_def)
  have "node_ok ?g N E j" if j: "j \<in> N" for j
  proof (cases "j = i")
    case True
    with get [OF i] par kids sep data k d inv_node(4) [OF inv i] show ?thesis
      by (simp add: node_ok_def Let_def)
  next
    case False
    with get [OF j] inv_node [OF inv j] k d show ?thesis by (simp add: node_ok_def Let_def)
  qed
  moreover have "j = k" if "j \<in> N" "k \<in> N" "br_data (get_branch ?g j) \<noteq> 0"
    "br_data (get_branch ?g j) = br_data (get_branch ?g k)" for j k
    using that own [of j] own [of k] inv_unshared [OF inv that(1,2)] get by (auto split: if_splits)
  ultimately show ?thesis
    using inv E len parent [of 0] extents_length [OF E(1) len [symmetric]]
    unfolding db_inv_def by auto
qed

section \<open>Growing the file\<close>

lemma inv_append:
  assumes inv: "db_inv f N E" and "8 \<le> length bs" and "length f + length bs \<le> 2 ^ 64"
  shows "db_inv (f @ bs) N (E(length f \<mapsto> length bs))"
    and "\<And>j. j \<in> N \<Longrightarrow> get_branch (f @ bs) j = get_branch f j"
proof -
  let ?g = "f @ bs" and ?E = "E(length f \<mapsto> length bs)"
  have E: "extents_ok f E" using inv by (simp add: db_inv_def)
  note fresh = extents_fresh [OF E]
  show get: "get_branch ?g j = get_branch f j" if "j \<in> N" for j
    using frame_branch [OF frame_append [OF E] E] inv_node(2) [OF inv that] by simp
  have d: "data_ok ?g N ?E x" if x: "data_ok f N E x" for x
  proof -
    have "data_ok ?g N E x" using frame_data_ok [OF frame_append [OF E] x] by simp
    with fresh show ?thesis by (auto simp: data_ok_def)
  qed
  have "node_ok ?g N ?E j" if j: "j \<in> N" for j
  proof (rule node_ok_cong)
    show "node_ok f N E j" using inv j by (simp add: db_inv_def)
    show "get_branch ?g c = get_branch f c" if "child d (get_branch f j) = c" "c \<noteq> 0" for d c
      using inv_child(1) [OF inv j that] by (rule get)
  qed (simp_all add: get [OF j] d)
  moreover have "j \<noteq> length f" if "j \<in> N" for j using inv_node(2) [OF inv that] fresh by auto
  ultimately show "db_inv ?g N ?E"
    using inv extents_append [OF E assms(2)] get assms(3) unfolding db_inv_def by auto
qed

lemma inv_new_branch:
  assumes inv: "db_inv f N E" and i: "i \<in> N" and "length f + 32 \<le> 2 ^ 64"
    and new: "get_next_index i f = (n, g)"
  shows "n = length f" "n \<notin> N" "n \<noteq> 0" "length g = length f + 32"
    and "db_inv g (insert n N) (E(n \<mapsto> 32))" "get_branch g n = branch_new i"
    and "\<And>j. j \<in> N \<Longrightarrow> get_branch g j = get_branch f j"
proof -
  let ?bs = "branch_bytes (branch_new i)"
  from new show n: "n = length f" by (simp add: get_next_index_def Let_def)
  from new n have g: "g = f @ ?bs" by (simp add: get_next_index_def Let_def file_write_end)
  then show "length g = length f + 32" by simp
  have E: "extents_ok f E" using inv by (simp add: db_inv_def)
  show nN: "n \<notin> N" using inv_node(2) [OF inv, of n] extents_fresh [OF E] n by auto
  show "n \<noteq> 0" using inv_node(3) [OF inv inv_root [OF inv]] n by auto
  have inv1: "db_inv g N (E(n \<mapsto> 32))" using inv_append(1) [OF inv, of ?bs] assms(3) n g by simp
  show get: "get_branch g j = get_branch f j" if "j \<in> N" for j
    using inv_append(2) [OF inv, of ?bs j] that assms(3) g by simp
  have "i < 2 ^ 64" using inv_node(3) [OF inv i] assms(3) by simp
  then show b: "get_branch g n = branch_new i"
    using n g region_append_new [of f ?bs] by (simp add: get_branch_region branch_new_fits)
  have "data_ok g (insert n N) (E(n \<mapsto> 32)) (br_data (get_branch g j))" if "j \<in> N" for j
  proof -
    have "br_data (get_branch f j) \<noteq> n"
      using inv_node(6) [OF inv that] extents_fresh [OF E] n \<open>n \<noteq> 0\<close> by (auto simp: data_ok_def)
    with inv_node(6) [OF inv1 that] get [OF that] show ?thesis by (auto simp: data_ok_def)
  qed
  with inv1 have "node_ok g (insert n N) (E(n \<mapsto> 32)) j" if "j \<in> N" for j
    using that by (auto simp: db_inv_def intro: node_ok_cong)
  moreover have "node_ok g (insert n N) (E(n \<mapsto> 32)) n"
    using i by (simp add: node_ok_def b child_ok_def data_ok_def)
  ultimately show "db_inv g (insert n N) (E(n \<mapsto> 32))"
    using inv1 b by (auto simp: db_inv_def)
qed


section \<open>Stored data\<close>

definition node_data :: "db_file \<Rightarrow> index \<Rightarrow> bstring option" where
  "node_data f i = get_data f (br_data (get_branch f i))"

lemma get_data_region:
  assumes "extents_ok f E" and "data_ok f N E d" and "d \<noteq> 0"
  shows "get_data f d = Some (region f (d + 8) (bytes_index (region f d 8)))"
    "d + 8 + bytes_index (region f d 8) \<le> length f"
proof -
  from assms(2,3) have "E d = Some (8 + bytes_index (region f d 8))" by (simp add: data_ok_def)
  from extents_within [OF assms(1) this] show w: "d + 8 + bytes_index (region f d 8) \<le> length f" by simp
  with assms(3) show "get_data f d = Some (region f (d + 8) (bytes_index (region f d 8)))"
    using file_read_region [of d "replicate 8 (CHR 0x00)" f]
      file_read_region [of "d + 8" "replicate (bytes_index (region f d 8)) (CHR 0x00)" f]
    by (simp add: get_data_def Let_def)
qed

lemma get_data_total:
  "db_inv f N E \<Longrightarrow> i \<in> N \<Longrightarrow> \<exists>v. node_data f i = Some v"
  using get_data_region [of f E N "br_data (get_branch f i)"] inv_node [of f N E i]
  by (cases "br_data (get_branch f i) = 0") (auto simp: node_data_def get_data_def)

lemma region_shift: "region f d n = region g d n \<Longrightarrow> k + m \<le> n \<Longrightarrow> region f (d + k) m = region g (d + k) m"
proof -
  assume r: "region f d n = region g d n" and n: "k + m \<le> n"
  have "region h (d + k) m = take m (drop k (region h d n))" for h
    using n by (simp add: region_def drop_take add.commute)
  with r show ?thesis by simp
qed

lemma frame_data:
  assumes "frame f g E X" and "extents_ok f E" and "data_ok f N E d" and "d \<notin> X"
  shows "get_data g d = get_data f d"
proof (cases "d = 0")
  case False
  let ?n = "bytes_index (region f d 8)"
  note w = get_data_region [OF assms(2,3) False]
  from assms(3) False have "E d = Some (8 + ?n)" by (simp add: data_ok_def)
  with assms(1,4) have r: "region g d (8 + ?n) = region f d (8 + ?n)" by (simp add: frame_def)
  from region_prefix [OF r, of 8] have r8: "region g d 8 = region f d 8" by simp
  from region_shift [OF r, of 8 ?n] have rd: "region g (d + 8) ?n = region f (d + 8) ?n" by simp
  have "d + 8 + ?n \<le> length g" using w(2) assms(1) by (simp add: frame_def)
  with w False r8 rd show ?thesis
    using file_read_region [of d "replicate 8 (CHR 0x00)" g]
      file_read_region [of "d + 8" "replicate ?n (CHR 0x00)" g]
    by (simp add: get_data_def Let_def)
qed (simp add: get_data_def)

text \<open>\<open>same_shape\<close>: the branches and the links between them are those of before.\<close>

definition same_shape :: "db_file \<Rightarrow> db_file \<Rightarrow> nat set \<Rightarrow> bool" where
  "same_shape f g N \<longleftrightarrow> (\<forall>i \<in> N. br_parent (get_branch g i) = br_parent (get_branch f i) \<and>
     (\<forall>d. child d (get_branch g i) = child d (get_branch f i)))"

lemma same_shape_refl: "same_shape f f N"
  by (simp add: same_shape_def)

lemma same_shape_trans: "same_shape f g N \<Longrightarrow> same_shape g h N \<Longrightarrow> same_shape f h N"
  by (simp add: same_shape_def)

text \<open>Pointing a branch at an extent nobody else points at.\<close>

lemma inv_point:
  assumes inv: "db_inv f N E" and i: "i \<in> N" and "d < 2 ^ 64" and data: "data_ok f N E d"
    and own: "\<And>j. j \<in> N \<Longrightarrow> j \<noteq> i \<Longrightarrow> d \<noteq> 0 \<Longrightarrow> br_data (get_branch f j) \<noteq> d"
  defines "g \<equiv> set_branch i ((get_branch f i)\<lparr>br_data := d\<rparr>) f"
  shows "db_inv g N E" "same_shape f g N" "br_data (get_branch g i) = d" "node_data g i = get_data f d"
    and "\<And>j. j \<in> N \<Longrightarrow> j \<noteq> i \<Longrightarrow> node_data g j = node_data f j"
    and "\<And>j. j \<in> N \<Longrightarrow> j \<noteq> i \<Longrightarrow> get_branch g j = get_branch f j"
proof -
  let ?b = "(get_branch f i)\<lparr>br_data := d\<rparr>"
  have fits: "branch_fits ?b" using get_branch_fits [of f i] assms(3) by (simp add: branch_fits_def)
  show "db_inv g N E" unfolding g_def
    by (rule inv_update [OF inv i fits]) (use inv_node [OF inv i] data own in simp_all)
  note get = get_branch_update [OF inv i _ fits, folded g_def]
  then show "same_shape f g N" "br_data (get_branch g i) = d" using i by (simp_all add: same_shape_def)
  from get show "get_branch g j = get_branch f j" if "j \<in> N" "j \<noteq> i" for j using that by simp
  note E = inv_node(1,2) [OF inv i]
  have data': "get_data g x = get_data f x" if x: "data_ok f N E x" for x
  proof (cases "x = 0")
    case False
    with x i have "x \<notin> {i}" by (auto simp: data_ok_def)
    then show ?thesis unfolding g_def by (rule frame_data [OF frame_set_branch [OF E] E(1) x])
  qed (simp add: get_data_def)
  from data' [OF data] get i show "node_data g i = get_data f d" by (simp add: node_data_def)
  show "node_data g j = node_data f j" if "j \<in> N" "j \<noteq> i" for j
    using that get data' [OF inv_node(6) [OF inv that(1)]] by (simp add: node_data_def)
qed

lemma delete_data_correct:
  assumes inv: "db_inv f N E" and i: "i \<in> N"
  shows "db_inv (delete_data i f) N E" "same_shape f (delete_data i f) N"
    "br_data (get_branch (delete_data i f) i) = 0" "length (delete_data i f) = length f"
    and "\<And>j. j \<in> N \<Longrightarrow> j \<noteq> i \<Longrightarrow> node_data (delete_data i f) j = node_data f j"
    and "\<And>j. j \<in> N \<Longrightarrow> j \<noteq> i \<Longrightarrow> get_branch (delete_data i f) j = get_branch f j"
proof -
  have fits: "branch_fits ((get_branch f i)\<lparr>br_data := 0\<rparr>)"
    using get_branch_fits [of f i] by (simp add: branch_fits_def)
  show "get_branch (delete_data i f) j = get_branch f j" if "j \<in> N" "j \<noteq> i" for j
    using get_branch_update [OF inv i that(1) fits] that by (simp add: delete_data_def Let_def)
qed (use inv_point [OF inv i, of 0] inv inv_node(3) [OF inv i] in
    \<open>auto simp: delete_data_def Let_def data_ok_def same_shape_refl\<close>)

lemma allocate_correct:
  assumes inv: "db_inv f N E" and len: "length f + 8 + length v \<le> 2 ^ 64" and new: "allocate v f = (d, g)"
  shows "db_inv g N (E(d \<mapsto> 8 + length v))" "data_ok g N (E(d \<mapsto> 8 + length v)) d" "get_data g d = Some v"
    "d < 2 ^ 64" "d \<noteq> 0" "length g = length f + 8 + length v"
    and "\<And>j. j \<in> N \<Longrightarrow> get_branch g j = get_branch f j"
    and "\<And>j. j \<in> N \<Longrightarrow> node_data g j = node_data f j"
    and "\<And>j. j \<in> N \<Longrightarrow> br_data (get_branch g j) \<noteq> d"
proof -
  let ?bs = "index_bytes (length v) @ v"
  from new have d: "d = length f" by (simp add: allocate_def Let_def)
  from new have g: "g = f @ ?bs"
    using file_write_end [of "f @ index_bytes (length v)" v]
    by (auto simp: allocate_def Let_def file_write_end)
  then show "length g = length f + 8 + length v" by simp
  have E: "extents_ok f E" using inv by (simp add: db_inv_def)
  note app = inv_append [OF inv, of ?bs, folded g d]
  from app(1) len d show ig: "db_inv g N (E(d \<mapsto> 8 + length v))" by simp
  from app(2) len d show get: "get_branch g j = get_branch f j" if "j \<in> N" for j using that by simp
  show "d < 2 ^ 64" using d len by simp
  show d0: "d \<noteq> 0" using inv_node(3) [OF inv inv_root [OF inv]] d by auto
  have r: "region g d 8 = index_bytes (length v)" "region g (d + 8) (length v) = v"
    by (simp_all add: region_def d g)
  have size: "bytes_index (region g d 8) = length v" using r(1) len by simp
  have "d \<notin> N" using inv_node(2) [OF inv, of d] extents_fresh [OF E] d by auto
  with size show ok: "data_ok g N (E(d \<mapsto> 8 + length v)) d" by (simp add: data_ok_def)
  from get_data_region(1) [OF _ ok d0] ig r size show "get_data g d = Some v"
    by (simp add: db_inv_def)
  show "br_data (get_branch g j) \<noteq> d" if "j \<in> N" for j
    using inv_node(6) [OF inv that] get [OF that] extents_fresh [OF E] d d0 by (auto simp: data_ok_def)
  show "node_data g j = node_data f j" if "j \<in> N" for j
    using frame_data [OF frame_append [OF E] E inv_node(6) [OF inv that], of ?bs] get [OF that] g
    by (simp add: node_data_def)
qed

text \<open>Writing a value of the same size over the old one.\<close>

lemma overwrite_data_correct:
  assumes inv: "db_inv f N E" and i: "i \<in> N" and d: "d = br_data (get_branch f i)" "d \<noteq> 0"
    and len: "length v = bytes_index (region f d 8)"
  defines "g \<equiv> overwrite_data d v f"
  shows "db_inv g N E" "get_data g d = Some v" "length g = length f"
    and "\<And>j. j \<in> N \<Longrightarrow> get_branch g j = get_branch f j"
    and "\<And>j. j \<in> N \<Longrightarrow> j \<noteq> i \<Longrightarrow> node_data g j = node_data f j"
proof -
  note ok = inv_node(6) [OF inv i, folded d(1)]
  have E: "extents_ok f E" using inv by (simp add: db_inv_def)
  have dN: "d \<notin> N" and Ed: "E d = Some (8 + length v)" using ok d len by (simp_all add: data_ok_def)
  have w: "d + 8 + length v \<le> length f" using extents_within [OF E Ed] by simp
  let ?h = "file_write f d (index_bytes (length v))"
  have h: "length ?h = length f" "region ?h d 8 = index_bytes (length v)"
    using w file_write_length [of d "index_bytes (length v)" f]
      region_write_same [of d "index_bytes (length v)" f] by simp_all
  have g: "length g = length f" "region g d 8 = index_bytes (length v)" "region g (d + 8) (length v) = v"
    using w h file_write_length [of "d + 8" v ?h] region_write_same [of "d + 8" v ?h]
      region_write_other [of "d + 8" v ?h d 8]
    by (auto simp: g_def overwrite_data_def Let_def region_def)
  have "region g j n = region f j n" if "E j = Some n" "j \<noteq> d" for j n
  proof -
    have apart: "j + n \<le> d \<or> d + 8 + length v \<le> j" using extents_apart [OF E that(1) Ed that(2)] by linarith
    then have "region ?h j n = region f j n" using w by (intro region_write_other) auto
    moreover from apart have "region (file_write ?h (d + 8) v) j n = region ?h j n"
      using w h by (intro region_write_other) auto
    ultimately show ?thesis by (auto simp: g_def overwrite_data_def Let_def)
  qed
  with g have fr: "frame f g E {d}" by (simp add: frame_def)
  show "length g = length f" by (rule g(1))
  show get: "get_branch g j = get_branch f j" if "j \<in> N" for j
    using that dN by (intro frame_branch [OF fr E]) (auto simp: inv_node(2) [OF inv])
  have size: "bytes_index (region g d 8) = length v"
  proof -
    have "length f \<le> 2 ^ 64" using inv by (simp add: db_inv_def)
    with w g show ?thesis by simp
  qed
  have keep: "data_ok g N E x" if "data_ok f N E x" for x
    using that frame_data_ok [OF fr that] size Ed dN by (cases "x = d") (auto simp: data_ok_def)
  have "node_ok g N E j" if j: "j \<in> N" for j
  proof (rule node_ok_cong)
    show "node_ok f N E j" using inv j by (simp add: db_inv_def)
    show "get_branch g c = get_branch f c" if "child x (get_branch f j) = c" "c \<noteq> 0" for x c
      using inv_child(1) [OF inv j that] by (rule get)
  qed (simp_all add: get [OF j] keep)
  then show ig: "db_inv g N E"
    using inv get extents_length [OF E g(1) [symmetric]] g(1) unfolding db_inv_def by auto
  from get_data_region(1) [OF _ keep [OF ok] d(2)] ig size g show "get_data g d = Some v"
    by (simp add: db_inv_def)
  show "node_data g j = node_data f j" if "j \<in> N" "j \<noteq> i" for j
  proof -
    have "br_data (get_branch f j) \<noteq> d"
      using inv_unshared [OF inv i that(1)] that(2) d by metis
    with frame_data [OF fr E inv_node(6) [OF inv that(1)]] get [OF that(1)] show ?thesis
      by (simp add: node_data_def)
  qed
qed

end
