(* ===== verification/Trie_Walk.thy ===== *)
theory Trie_Walk
  imports Database_Invariant
begin

text \<open>
  What the branches of a database file mean: \<open>walk f i bs\<close> follows the bits \<open>bs\<close> down from the
  branch \<open>i\<close>. A file that satisfies the invariant is a tree, so every branch is reached by
  one sequence of bits only. The theory then gives \<open>deleteBranch\<close> its meaning: the
  sequences below the deleted branch are gone, and nothing else has changed.
\<close>

section \<open>Walks\<close>

fun walk :: "db_file \<Rightarrow> index \<Rightarrow> bits \<Rightarrow> index option" where
  "walk f i [] = Some i"
| "walk f i (b # bs) =
     (let c = child b (get_branch f i) in if c = 0 then None else walk f c bs)"

lemma walk_append: "walk f i (p @ q) = Option.bind (walk f i p) (\<lambda>j. walk f j q)"
  by (induction p arbitrary: i) (simp_all add: Let_def)

lemma walk_snoc:
  "walk f i (p @ [b]) = Some k \<longleftrightarrow> (\<exists>j. walk f i p = Some j \<and> child b (get_branch f j) = k \<and> k \<noteq> 0)"
  by (auto simp: walk_append Let_def split: bind_splits if_splits)

lemma walk_in:
  assumes "db_inv f N E" and "i \<in> N" and "walk f i p = Some j"
  shows "j \<in> N \<and> i + length p \<le> j"
  using assms(2,3)
proof (induction p arbitrary: i)
  case (Cons b p)
  then have c: "child b (get_branch f i) \<noteq> 0" and w: "walk f (child b (get_branch f i)) p = Some j"
    by (simp_all add: Let_def split: if_splits)
  from inv_child [OF assms(1) Cons.prems(1) refl c] Cons.IH [OF _ w] show ?case by auto
qed simp

lemma walk_unique:
  assumes inv: "db_inv f N E" and i: "i \<in> N" and "walk f i p = Some k" and "walk f i q = Some k"
  shows "p = q"
  using assms(3,4)
proof (induction p arbitrary: k q rule: rev_induct)
  case Nil
  with walk_in [OF inv i Nil.prems(2)] show ?case by simp
next
  case (snoc b p)
  from snoc.prems(1) obtain j where j: "walk f i p = Some j" "child b (get_branch f j) = k" "k \<noteq> 0"
    by (auto simp: walk_snoc)
  from walk_in [OF inv i snoc.prems(1)] snoc.prems(2) have "q \<noteq> []" by auto
  then obtain r e where q: "q = r @ [e]" by (cases q rule: rev_cases) auto
  with snoc.prems(2) obtain j' where j': "walk f i r = Some j'" "child e (get_branch f j') = k"
    by (auto simp: walk_snoc)
  have "j \<in> N" "j' \<in> N" using walk_in [OF inv i] j j' by blast+
  from inv_child(3) [OF inv this(1) j(2,3)] inv_child(3) [OF inv this(2) j'(2) j(3)] have "j' = j" by simp
  with j' snoc.IH [OF j(1), of r] have "p = r" by simp
  moreover have "b = e"
  proof (rule ccontr)
    assume "b \<noteq> e"
    with j j' \<open>j' = j\<close> have "child False (get_branch f j) = child True (get_branch f j)"
      by (cases b; cases e) auto
    from inv_node(7) [OF inv \<open>j \<in> N\<close> this] j \<open>child False _ = _\<close> show False by (cases b) auto
  qed
  ultimately show ?case using q by simp
qed

lemma walk_shape:
  assumes "db_inv f N E" and "same_shape f g N" and "i \<in> N"
  shows "walk g i p = walk f i p"
  using assms(3)
proof (induction p arbitrary: i)
  case (Cons b p)
  then show ?case using assms(2) inv_child(1) [OF assms(1) Cons.prems, of b]
    by (simp add: same_shape_def Let_def)
qed simp

text \<open>The paths of a branch: prefix closed and finite.\<close>

definition paths :: "db_file \<Rightarrow> index \<Rightarrow> bits set" where
  "paths f i = {p. walk f i p \<noteq> None}"

lemma paths_Nil [simp]: "[] \<in> paths f i"
  by (simp add: paths_def)

lemma paths_prefix: "p @ q \<in> paths f i \<Longrightarrow> p \<in> paths f i"
  by (auto simp: paths_def walk_append split: bind_splits)

lemma paths_finite:
  assumes "db_inv f N E" and "i \<in> N"
  shows "finite (paths f i)"
proof (rule finite_subset)
  show "paths f i \<subseteq> {p. length p \<le> length f}"
  proof
    fix p assume "p \<in> paths f i"
    then obtain j where "walk f i p = Some j" by (auto simp: paths_def)
    with walk_in [OF assms this] inv_node(3) [OF assms(1), of j] show "p \<in> {p. length p \<le> length f}" by simp
  qed
  show "finite {p :: bits. length p \<le> length f}"
    using finite_lists_length_le [of "UNIV :: bool set" "length f"] by simp
qed

lemma paths_step:
  "walk f i p = Some j \<Longrightarrow> p @ [b] \<in> paths f i \<longleftrightarrow> child b (get_branch f j) \<noteq> 0"
  by (auto simp: paths_def walk_append Let_def)

section \<open>Pruning\<close>

text \<open>\<open>prunes f g N\<close>: the links of \<open>g\<close> are links of \<open>f\<close>.\<close>

definition prunes :: "db_file \<Rightarrow> db_file \<Rightarrow> nat set \<Rightarrow> bool" where
  "prunes f g N \<longleftrightarrow> (\<forall>j \<in> N. br_parent (get_branch g j) = br_parent (get_branch f j) \<and>
     (\<forall>e. child e (get_branch g j) = 0 \<or> child e (get_branch g j) = child e (get_branch f j)))"

lemma prunes_trans: "prunes f g N \<Longrightarrow> prunes g h N \<Longrightarrow> prunes f h N"
  unfolding prunes_def by metis

lemma same_shape_prunes: "same_shape f g N \<Longrightarrow> prunes f g N"
  by (simp add: same_shape_def prunes_def)

lemma walk_prunes:
  assumes "db_inv f N E" and "prunes f g N" and "i \<in> N" and "walk g i p = Some j"
  shows "walk f i p = Some j"
  using assms(3,4)
proof (induction p arbitrary: i)
  case (Cons b p)
  from Cons.prems(2) have c: "child b (get_branch g i) \<noteq> 0" "walk g (child b (get_branch g i)) p = Some j"
    by (simp_all add: Let_def split: if_splits)
  with assms(2) Cons.prems(1) have eq: "child b (get_branch f i) = child b (get_branch g i)"
    unfolding prunes_def by metis
  with inv_child(1) [OF assms(1) Cons.prems(1) eq c(1)] c Cons.IH show ?case by (simp add: Let_def)
qed simp

definition below :: "db_file \<Rightarrow> index \<Rightarrow> nat set" where
  "below f i = {j. \<exists>p. walk f i p = Some j}"

lemma below_self: "i \<in> below f i"
  unfolding below_def using walk.simps(1) by blast

lemma below_prunes: "db_inv f N E \<Longrightarrow> prunes f g N \<Longrightarrow> i \<in> N \<Longrightarrow> below g i \<subseteq> below f i"
  using walk_prunes by (fastforce simp: below_def)

lemma below_child: "child d (get_branch f i) = c \<Longrightarrow> c \<noteq> 0 \<Longrightarrow> below f c \<subseteq> below f i"
proof
  fix j assume c: "child d (get_branch f i) = c" "c \<noteq> 0" and "j \<in> below f c"
  then obtain p where "walk f c p = Some j" by (auto simp: below_def)
  with c have "walk f i (d # p) = Some j" by (simp add: Let_def)
  then show "j \<in> below f i" unfolding below_def by blast
qed

lemma below_ge: "db_inv f N E \<Longrightarrow> i \<in> N \<Longrightarrow> j \<in> below f i \<Longrightarrow> i \<le> j"
  using walk_in by (force simp: below_def)

text \<open>
  What \<open>delete_branch\<close> of the child \<open>i\<close> on the side \<open>d\<close> of \<open>p\<close> makes of the file \<open>f\<close>.
\<close>

definition cut :: "nat set \<Rightarrow> (index \<Rightarrow> nat option) \<Rightarrow> index \<Rightarrow> bool \<Rightarrow> nat set \<Rightarrow> db_file \<Rightarrow> db_file \<Rightarrow> bool" where
  "cut N E p d X f g \<longleftrightarrow> db_inv g N E \<and> length g = length f \<and> prunes f g N \<and>
     get_branch g p = with_child d 0 (get_branch f p) \<and>
     (\<forall>j \<in> N. j \<notin> X \<longrightarrow> (j \<noteq> p \<longrightarrow> get_branch g j = get_branch f j) \<and> node_data g j = node_data f j)"

text \<open>The first step: the data of \<open>i\<close> and the link to it.\<close>

lemma cut_link:
  assumes inv: "db_inv f N E" and p: "p \<in> N" "child d (get_branch f p) = i" "i \<noteq> 0"
  defines "h \<equiv> delete_data i f"
  defines "g \<equiv> set_branch p (with_child d 0 (get_branch h p)) h"
  shows "cut N E p d {i} f g" "\<And>e. child e (get_branch g i) = child e (get_branch f i)"
proof -
  note i = inv_child [OF inv p]
  note del = delete_data_correct [OF inv i(1), folded h_def]
  have pi: "p \<noteq> i" using i(2) by simp
  let ?b = "with_child d 0 (get_branch h p)"
  have fits: "branch_fits ?b" using get_branch_fits [of h p] by (cases d) (simp_all add: branch_fits_def with_child_def)
  have ghp: "get_branch h p = get_branch f p" using del(6) [OF p(1) pi] .
  note get = get_branch_update [OF del(1) p(1) _ fits, folded g_def]
  have kid: "child_ok h N p (child e ?b)" for e
    using inv_node(5) [OF del(1) p(1), of e] by (cases "e = d") (auto simp: child_ok_def)
  have sep: "child True ?b = 0" if "child False ?b = child True ?b"
    using that by (cases d) (simp_all add: with_child_def child_def)
  have own: "br_data (get_branch h j) \<noteq> br_data ?b" if "j \<in> N" "j \<noteq> p" "br_data ?b \<noteq> 0" for j
    using inv_unshared [OF del(1) p(1) that(1)] that by (metis with_child_simps(5))
  have ig: "db_inv g N E" unfolding g_def
    by (rule inv_update [OF del(1) p(1) fits _ kid sep _ own]) (simp_all add: inv_node(6) [OF del(1) p(1)])
  have "length g = length f" using inv_node(3) [OF del(1) p(1)] del(4) by (simp add: g_def)
  moreover have "prunes f g N"
  proof -
    have "child e (get_branch g j) = 0 \<or> child e (get_branch g j) = child e (get_branch h j)"
      if "j \<in> N" for j e
      using get [OF that] by (cases "j = p"; cases "e = d") simp_all
    then have "prunes h g N" by (simp add: prunes_def get)
    with same_shape_prunes [OF del(2)] show ?thesis by (rule prunes_trans)
  qed
  moreover have "node_data g j = node_data f j" if "j \<in> N" "j \<noteq> i" for j
  proof -
    have "get_data g (br_data (get_branch h j)) = get_data h (br_data (get_branch h j))"
    proof (cases "br_data (get_branch h j) = 0")
      case False
      then have "br_data (get_branch h j) \<notin> {p}" using inv_node(6) [OF del(1) that(1)] p by (auto simp: data_ok_def)
      then show ?thesis unfolding g_def
        by (rule frame_data [OF frame_set_branch [OF inv_node(1,2) [OF del(1) p(1)]]
              inv_node(1) [OF del(1) p(1)] inv_node(6) [OF del(1) that(1)]])
    qed (simp add: get_data_def)
    with del(5) [OF that] get [OF that(1)] show ?thesis by (auto simp: node_data_def)
  qed
  ultimately show "cut N E p d {i} f g" using ig get p del(6) ghp by (auto simp: cut_def)
  show "child e (get_branch g i) = child e (get_branch f i)" for e
    using get [OF i(1)] pi del(2) i(1) by (simp add: same_shape_def)
qed


lemma cut_then:
  assumes "cut N E p d X f g" and "cut N E i e Y g h" and "i \<in> X" and "Y \<subseteq> X" and "p \<in> N" and "p \<notin> X"
  shows "cut N E p d X f h"
proof -
  from assms have "p \<noteq> i" "p \<notin> Y" by auto
  with assms show ?thesis
    unfolding cut_def by (metis prunes_trans subsetD)
qed

lemma delete_branch_step:
  assumes inv: "db_inv f N E" and p: "p \<in> N" "child d (get_branch f p) = i" "i \<noteq> 0"
  defines "g \<equiv> set_branch p (with_child d 0 (get_branch (delete_data i f) p)) (delete_data i f)"
  shows "delete_branch i f =
    do { g \<leftarrow> (if child False (get_branch f i) \<noteq> 0 then delete_branch (child False (get_branch f i)) g else Some g);
         if child True (get_branch f i) \<noteq> 0 then delete_branch (child True (get_branch f i)) g else Some g }"
proof -
  let ?h = "delete_data i f"
  note i = inv_child [OF inv p]
  note del = delete_data_correct [OF inv i(1)]
  have shape: "child e (get_branch ?h i) = child e (get_branch f i)" for e
    using del(2) i(1) by (simp add: same_shape_def)
  have b: "br_parent (get_branch ?h i) = p" "br_left (get_branch ?h i) = child False (get_branch f i)"
    "br_right (get_branch ?h i) = child True (get_branch f i)"
    using del(2) i(1,3) by (simp add: same_shape_def) (use shape [of False] shape [of True] in \<open>simp_all add: child_def\<close>)
  have "child d (get_branch ?h p) = i" using del(2) p by (simp add: same_shape_def)
  then have eq: "(if i = br_left (get_branch ?h p) then (get_branch ?h p)\<lparr>br_left := 0\<rparr>
      else if i = br_right (get_branch ?h p) then (get_branch ?h p)\<lparr>br_right := 0\<rparr> else get_branch ?h p) =
      with_child d 0 (get_branch ?h p)"
    using inv_node(7) [OF del(1) p(1)] p(3) by (cases d) (auto simp: child_def with_child_def)
  show ?thesis
    by (subst delete_branch.simps) (simp only: Let_def b eq g_def p(3) not_False_eq_True if_True simp_thms)
qed

lemma delete_branch_cut:
  assumes "db_inv f N E" and "p \<in> N" and "child d (get_branch f p) = i" and "i \<noteq> 0"
  shows "\<exists>g. delete_branch i f = Some g \<and> cut N E p d (below f i) f g"
  using assms
proof (induction "length f - i" arbitrary: i f p d rule: less_induct)
  case less
  note inv = less.prems(1) and p = less.prems(2-4)
  note i = inv_child [OF inv p]
  let ?g = "set_branch p (with_child d 0 (get_branch (delete_data i f) p)) (delete_data i f)"
  let ?l = "child False (get_branch f i)" and ?r = "child True (get_branch f i)"
  have pX: "p \<notin> below f i" using below_ge [OF inv i(1)] i(2) by force
  have small: "length h - c < length f - i"
    if "length h = length f" "child e (get_branch f i) = c" "c \<noteq> 0" for h e c
    using inv_child [OF inv i(1) that(2,3)] inv_node(3) [OF inv, of c] that(1) by auto
  have rec: "\<exists>h. delete_branch (child e (get_branch f i)) g = Some h \<and> cut N E p d (below f i) f h \<and>
      get_branch h i = with_child e 0 (get_branch g i)"
    if g: "cut N E p d (below f i) f g" and e: "child e (get_branch g i) = child e (get_branch f i)"
      "child e (get_branch f i) \<noteq> 0" for g e
  proof -
    have ig: "db_inv g N E" "length g = length f" "prunes f g N" using g by (simp_all add: cut_def)
    from less.hyps [OF small [OF ig(2) refl e(2)] ig(1) i(1) e(1) e(2)] obtain h
      where h: "delete_branch (child e (get_branch f i)) g = Some h"
        "cut N E i e (below g (child e (get_branch f i))) g h" by auto
    have "below g (child e (get_branch f i)) \<subseteq> below f i"
      using below_prunes [OF inv ig(3) inv_child(1) [OF inv i(1) refl e(2)]] below_child [OF refl e(2)] by blast
    from cut_then [OF g h(2) below_self this p(1) pX] h show ?thesis by (simp add: cut_def)
  qed
  note link = cut_link [OF inv p]
  have g: "cut N E p d (below f i) f ?g" using link(1) below_self [of i f] by (auto simp: cut_def)
  have "\<exists>h. (if ?l \<noteq> 0 then delete_branch ?l ?g else Some ?g) = Some h \<and> cut N E p d (below f i) f h \<and>
      child True (get_branch h i) = ?r"
    using rec [OF g link(2), of False] g link(2) [of True] by (cases "?l = 0") auto
  then obtain h where h: "(if ?l \<noteq> 0 then delete_branch ?l ?g else Some ?g) = Some h"
    "cut N E p d (below f i) f h" "child True (get_branch h i) = ?r" by blast
  with rec [OF h(2,3)] show ?case
    by (cases "?r = 0") (auto simp: delete_branch_step [OF inv p])
qed

text \<open>The sequences that are left are those that do not run through the deleted branch.\<close>

lemma cut_walk:
  assumes inv: "db_inv f N E" and pre: "walk f 0 pre = Some p" and i: "child d (get_branch f p) = i" "i \<noteq> 0"
    and cut: "cut N E p d (below f i) f g"
  shows "walk g 0 q = (if prefix (pre @ [d]) q then None else walk f 0 q)"
proof -
  note root = inv_root [OF inv]
  have pN: "p \<in> N" using walk_in [OF inv root pre] by simp
  have pr: "prunes f g N" using cut by (simp add: cut_def)
  have wi: "walk f 0 (pre @ [d]) = Some i" using pre i by (simp add: walk_snoc)
  have keep: "walk g 0 q = walk f 0 q" if "\<not> prefix (pre @ [d]) q" for q
    using that
  proof (induction q rule: rev_induct)
    case (snoc e q)
    then have IH: "walk g 0 q = walk f 0 q" by simp
    show ?case
    proof (cases "walk f 0 q")
      case None
      with IH show ?thesis by (simp add: walk_append)
    next
      case (Some j)
      then have jN: "j \<in> N" using walk_in [OF inv root] by blast
      have "j \<notin> below f i"
      proof
        assume "j \<in> below f i"
        then obtain r where "walk f i r = Some j" by (auto simp: below_def)
        then have "walk f 0 ((pre @ [d]) @ r) = Some j"
          using walk_append [of f 0 "pre @ [d]" r] wi by simp
        from walk_unique [OF inv root this Some] have "prefix (pre @ [d]) (q @ [e])" by auto
        with snoc.prems show False by blast
      qed
      moreover have "child e (get_branch g j) = child e (get_branch f j)" if "j = p"
      proof -
        from walk_unique [OF inv root pre] Some that have "q = pre" by blast
        with snoc.prems have "d \<noteq> e" by auto
        with cut that show ?thesis by (simp add: cut_def)
      qed
      ultimately have "child e (get_branch g j) = child e (get_branch f j)"
        using cut jN by (cases "j = p") (auto simp: cut_def)
      with IH Some show ?thesis by (simp add: walk_append Let_def)
    qed
  qed simp
  show ?thesis
  proof (cases "prefix (pre @ [d]) q")
    case True
    then obtain r where r: "q = pre @ d # r" by (auto elim: prefixE)
    have "walk g 0 pre = Some p" using keep [of pre] pre by simp
    with cut r True show ?thesis by (simp add: walk_append cut_def Let_def)
  qed (simp add: keep)
qed

end
