(* ===== verification/Power_Encoding.thy ===== *)
theory Power_Encoding
  imports Prelude
begin

text \<open>
  The class \<open>PowerEncoding\<close> (code/power-encoding/power-encoding-base.h) and the stream
  operators of code/power-encoding/encoding.h.

  A number is written as a zero bit when it is zero, and otherwise as a one bit, its binary
  logarithm and the remainder, both written the same way. The bit sink and the bit source are
  virtual members of the class: here they are the arguments \<open>wb\<close> (\<open>writeBit\<close>), \<open>rb\<close>
  (\<open>readBit\<close>) and \<open>pb\<close> (\<open>peekBit\<close>) of the definitions; \<open>None\<close> is an exception.

  The code computes the logarithm with \<open>floor(log2(value))\<close> on doubles, and the value
  read back with \<open>exp2\<close>. On values below \<open>2 ^ 48\<close> the double logarithm never rounds up
  to the next integer and all sums are exact, so that range is where \<open>power_of\<close> is the
  code's \<open>power\<close>; the theorems about stored values carry the bound \<open>double_exact\<close>.
\<close>

section \<open>power and remainder\<close>

text \<open>\<open>floor(log2(value))\<close> for a positive value.\<close>

fun power_of :: "nat \<Rightarrow> nat" where
  "power_of v = (if v < 2 then 0 else Suc (power_of (v div 2)))"

declare power_of.simps [simp del]

definition remainder :: "nat \<Rightarrow> nat \<Rightarrow> nat" where
  "remainder v p = v - 2 ^ p"

definition double_exact :: "nat \<Rightarrow> bool" where
  "double_exact v \<longleftrightarrow> v < 2 ^ 48"

lemma power_of_bounds: "0 < v \<Longrightarrow> 2 ^ power_of v \<le> v \<and> v < 2 ^ Suc (power_of v)"
proof (induction v rule: power_of.induct)
  case (1 v)
  show ?case
  proof (cases "v < 2")
    case True
    with "1.prems" show ?thesis by (simp add: power_of.simps [of v])
  next
    case False
    with "1.IH" have "2 ^ power_of (v div 2) \<le> v div 2" "v div 2 < 2 ^ Suc (power_of (v div 2))"
      by auto
    then have "2 * 2 ^ power_of (v div 2) \<le> v" "v < 2 * 2 ^ Suc (power_of (v div 2))"
      by linarith+
    with False show ?thesis by (simp add: power_of.simps [of v])
  qed
qed

lemma power_of_less: "0 < v \<Longrightarrow> power_of v < v"
  using power_of_bounds [of v] less_exp [of "power_of v"] by linarith

lemma remainder_less: "0 < v \<Longrightarrow> remainder v (power_of v) < v"
  by (simp add: remainder_def)

lemma power_remainder: "0 < v \<Longrightarrow> 2 ^ power_of v + remainder v (power_of v) = v"
  using power_of_bounds [of v] by (simp add: remainder_def)

section \<open>write\<close>

function (sequential) write_value :: "(bool \<Rightarrow> 's \<Rightarrow> 's) \<Rightarrow> nat \<Rightarrow> 's \<Rightarrow> 's" where
  "write_value wb v s =
     (if v = 0 then wb False s
      else (let p = power_of v; r = remainder v p
            in write_value wb r (write_value wb p (wb True s))))"
  by pat_completeness auto
termination
  by (relation "measure (\<lambda>(wb, v, s). v)") (auto simp: power_of_less remainder_less)

declare write_value.simps [simp del]

text \<open>The bits of a number, as the sequence of the calls of \<open>writeBit\<close>.\<close>

function number_code :: "nat \<Rightarrow> bits" where
  "number_code v =
     (if v = 0 then [False]
      else True # number_code (power_of v) @ number_code (remainder v (power_of v)))"
  by pat_completeness auto
termination
  by (relation "measure (\<lambda>v. v)") (auto simp: power_of_less remainder_less)

declare number_code.simps [simp del]

lemma write_value_code [code_lens]: "write_value wb v s = fold wb (number_code v) s"
proof (induction wb v s rule: write_value.induct)
  case (1 wb v s)
  then show ?case
    by (cases "v = 0") (simp_all add: write_value.simps [where v = v] number_code.simps [of v]
        write_value.simps [where v = 0] number_code.simps [of 0] Let_def)
qed

lemma number_code_tree: "tree_code (number_code v)"
proof (induction v rule: number_code.induct)
  case (1 v)
  then show ?case
    by (cases "v = 0") (simp_all add: number_code.simps [of v] number_code.simps [of 0]
        tree_code_False tree_code_node)
qed

lemma number_code_complete: "complete_code (True # number_code v)"
  by (rule tree_code_complete [OF number_code_tree])

section \<open>read\<close>

text \<open>
  Reading asks the source for bits until the number is whole; on a source that never ends and
  never gives a zero it does not return, hence \<open>partial_function\<close>.
\<close>

partial_function (option) read_value ::
    "('s \<Rightarrow> (bool \<times> 's) option) \<Rightarrow> 's \<Rightarrow> (nat \<times> 's) option" where
  "read_value rb s =
     do { (b, s) \<leftarrow> rb s;
          if b then
            do { (p, s) \<leftarrow> read_value rb s;
                 (r, s) \<leftarrow> read_value rb s;
                 Some (2 ^ p + r, s) }
          else Some (0, s) }"

declare read_value.simps [code]

text \<open>\<open>feeds rb s bs s'\<close>: from \<open>s\<close> the source gives the bits \<open>bs\<close> and is then in \<open>s'\<close>.\<close>

fun feeds :: "('s \<Rightarrow> (bool \<times> 's) option) \<Rightarrow> 's \<Rightarrow> bits \<Rightarrow> 's \<Rightarrow> bool" where
  "feeds rb s [] s' \<longleftrightarrow> s' = s"
| "feeds rb s (b # bs) s' \<longleftrightarrow> (\<exists>t. rb s = Some (b, t) \<and> feeds rb t bs s')"

lemma feeds_append: "feeds rb s (bs @ cs) u \<longleftrightarrow> (\<exists>t. feeds rb s bs t \<and> feeds rb t cs u)"
  by (induction bs arbitrary: s) auto

lemma read_value_code:
  assumes "feeds rb s (number_code v) t"
  shows "read_value rb s = Some (v, t)"
  using assms
proof (induction v arbitrary: s t rule: number_code.induct)
  case (1 v)
  show ?case
  proof (cases "v = 0")
    case True
    with "1.prems" show ?thesis
      by (auto simp: number_code.simps [of 0] read_value.simps [of rb s])
  next
    case False
    with "1.prems" obtain s1 s2 where "rb s = Some (True, s1)"
      and "feeds rb s1 (number_code (power_of v)) s2"
      and "feeds rb s2 (number_code (remainder v (power_of v))) t"
      by (auto simp: number_code.simps [of v] feeds_append)
    with False "1.IH" power_remainder [of v] show ?thesis
      by (simp add: read_value.simps [of rb s])
  qed
qed

section \<open>The counter\<close>

text \<open>\<open>PowerEncoding::writeBit\<close>, and the same update in \<open>readBit\<close>: the member \<open>_count\<close>.\<close>

definition count_bit :: "bool \<Rightarrow> int \<Rightarrow> int" where
  "count_bit b c = (if b then c + 1 else if 0 < c then c - 1 else c)"

definition base_read_bit :: "('s \<Rightarrow> bool option) \<Rightarrow> int \<Rightarrow> 's \<Rightarrow> (bool \<times> int) option" where
  "base_read_bit peek c s = map_option (\<lambda>b. (b, count_bit b c)) (peek s)"

text \<open>\<open>PowerEncoding::peekBit\<close> itself throws \<open>logic_error\<close>.\<close>

definition base_peek_bit :: "'s \<Rightarrow> bool option" where
  "base_peek_bit s = None"

definition count_run :: "bits \<Rightarrow> int \<Rightarrow> int" where
  "count_run bs c = fold count_bit bs c"

lemma count_run_weight:
  assumes "0 \<le> c" and "\<And>p. prefix p bs \<Longrightarrow> 0 \<le> c + weight p"
  shows "count_run bs c = c + weight bs"
  using assms
proof (induction bs arbitrary: c)
  case (Cons b bs)
  have "0 \<le> c + bit_weight b" using Cons.prems(2) [of "[b]"] by simp
  moreover from this have "count_bit b c = c + bit_weight b"
    by (simp add: count_bit_def bit_weight_if split: if_splits)
  moreover have "0 \<le> (c + bit_weight b) + weight p" if "prefix p bs" for p
    using Cons.prems(2) [of "b # p"] that by simp
  ultimately show ?case using Cons.IH [of "c + bit_weight b"] by (simp add: count_run_def)
qed (simp add: count_run_def)

lemma count_run_complete: "complete_code bs \<Longrightarrow> 0 \<le> c \<Longrightarrow> count_run bs c = c"
  using count_run_weight [of c bs] complete_prefix_nonneg [of bs] by (simp add: complete_weight)

end
