(* ===== verification/Encoding.thy ===== *)
theory Encoding
  imports Power_Encoding
begin

text \<open>
  The stream operators of code/power-encoding/encoding.h over any \<open>PowerEncoding\<close>: a
  value is a one bit and the number, a string is a one bit, its characters and a zero bit.
  The class \<open>EncodeToStream\<close> is the sink and source over text streams of \<open>0\<close> and \<open>1\<close>.

  The interface a reader relies on is the locale \<open>bit_source\<close>: \<open>peekBit\<close> announces the bit
  the next \<open>readBit\<close> returns. Every reader of the development is proved once in it.
\<close>

section \<open>Writers\<close>

definition put_value :: "(bool \<Rightarrow> 's \<Rightarrow> 's) \<Rightarrow> nat \<Rightarrow> 's \<Rightarrow> 's" where
  "put_value wb v s = write_value wb v (wb True s)"

definition put_char :: "(bool \<Rightarrow> 's \<Rightarrow> 's) \<Rightarrow> char \<Rightarrow> 's \<Rightarrow> 's" where
  "put_char wb c s = write_value wb (of_char c) (wb True s)"

definition put_string :: "(bool \<Rightarrow> 's \<Rightarrow> 's) \<Rightarrow> bstring \<Rightarrow> 's \<Rightarrow> 's" where
  "put_string wb str s = wb False (fold (put_char wb) str (wb True s))"

definition value_code :: "nat \<Rightarrow> bits" where
  "value_code v = True # number_code v"

definition string_code :: "bstring \<Rightarrow> bits" where
  "string_code str = True # concat (map (\<lambda>c. value_code (of_char c)) str) @ [False]"

lemma put_value_code [code_lens]: "put_value wb v s = fold wb (value_code v) s"
  by (simp add: put_value_def value_code_def code_lens)

lemma put_char_code [code_lens]: "put_char wb c s = fold wb (value_code (of_char c)) s"
  by (simp add: put_char_def value_code_def code_lens)

lemma put_chars_code:
  "fold (put_char wb) str s = fold wb (concat (map (\<lambda>c. value_code (of_char c)) str)) s"
  by (induction str arbitrary: s) (simp_all add: code_lens)

lemma put_string_code [code_lens]: "put_string wb str s = fold wb (string_code str) s"
  by (simp add: put_string_def string_code_def put_chars_code)

lemma value_code_complete: "complete_code (value_code v)"
  by (simp add: value_code_def number_code_complete)

lemma string_code_complete: "complete_code (string_code str)"
  unfolding string_code_def by (rule complete_node) (auto simp: value_code_complete)

section \<open>Readers\<close>

definition get_value :: "('s \<Rightarrow> (bool \<times> 's) option) \<Rightarrow> 's \<Rightarrow> (nat \<times> 's) option" where
  "get_value rb s = do { (_, s) \<leftarrow> rb s; read_value rb s }"

definition get_char :: "('s \<Rightarrow> (bool \<times> 's) option) \<Rightarrow> 's \<Rightarrow> (char \<times> 's) option" where
  "get_char rb s = do { (_, s) \<leftarrow> rb s; (n, s) \<leftarrow> read_value rb s; Some (char_of n, s) }"

text \<open>The loop of the string reader: characters are read while the next bit is a one.\<close>

partial_function (option) get_chars ::
    "('s \<Rightarrow> (bool \<times> 's) option) \<Rightarrow> ('s \<Rightarrow> bool option) \<Rightarrow> bstring \<Rightarrow> 's \<Rightarrow> (bstring \<times> 's) option" where
  "get_chars rb pb acc s =
     do { b \<leftarrow> pb s;
          if b then do { (c, s) \<leftarrow> get_char rb s; get_chars rb pb (acc @ [c]) s }
          else Some (acc, s) }"

declare get_chars.simps [code]

definition get_string ::
    "('s \<Rightarrow> (bool \<times> 's) option) \<Rightarrow> ('s \<Rightarrow> bool option) \<Rightarrow> 's \<Rightarrow> (bstring \<times> 's) option" where
  "get_string rb pb s =
     do { (_, s) \<leftarrow> rb s;
          (str, s) \<leftarrow> get_chars rb pb [] s;
          (_, s) \<leftarrow> rb s;
          Some (str, s) }"

lemma get_value_code:
  "feeds rb s (value_code v) t \<Longrightarrow> get_value rb s = Some (v, t)"
  by (auto simp: get_value_def value_code_def read_value_code)

lemma get_char_code:
  "feeds rb s (value_code (of_char c)) t \<Longrightarrow> get_char rb s = Some (c, t)"
  by (auto simp: get_char_def value_code_def read_value_code)

locale bit_source =
  fixes rb :: "'s \<Rightarrow> (bool \<times> 's) option"
    and pb :: "'s \<Rightarrow> bool option"
    and ok :: "'s \<Rightarrow> bool"
  assumes peek_read: "ok s \<Longrightarrow> rb s = Some (b, t) \<Longrightarrow> pb s = Some b"
    and ok_read: "ok s \<Longrightarrow> rb s = Some (b, t) \<Longrightarrow> ok t"
begin

lemma feeds_ok: "ok s \<Longrightarrow> feeds rb s bs t \<Longrightarrow> ok t"
  by (induction bs arbitrary: s) (auto dest: ok_read)

lemma get_chars_code:
  assumes "ok s" and "feeds rb s (concat (map (\<lambda>c. value_code (of_char c)) str) @ [False]) t"
  shows "\<exists>u. get_chars rb pb acc s = Some (acc @ str, u) \<and> rb u = Some (False, t)"
  using assms
proof (induction str arbitrary: s acc)
  case Nil
  then show ?case by (auto simp: get_chars.simps [of rb pb acc s] dest: peek_read)
next
  case (Cons c str)
  from Cons.prems(2) obtain u where u: "feeds rb s (value_code (of_char c)) u"
    and rest: "feeds rb u (concat (map (\<lambda>c. value_code (of_char c)) str) @ [False]) t"
    by (auto simp: feeds_append)
  from u Cons.prems(1) have "pb s = Some True" by (auto simp: value_code_def dest: peek_read)
  moreover from Cons.prems(1) u have "ok u" by (rule feeds_ok)
  ultimately show ?case using Cons.IH [OF _ rest, of "acc @ [c]"] get_char_code [OF u]
    by (simp add: get_chars.simps [of rb pb acc s])
qed

lemma get_string_code:
  assumes "ok s" and "feeds rb s (string_code str) t"
  shows "get_string rb pb s = Some (str, t)"
proof -
  from assms obtain u where u: "rb s = Some (True, u)" "ok u"
    and "feeds rb u (concat (map (\<lambda>c. value_code (of_char c)) str) @ [False]) t"
    by (auto simp: string_code_def dest: ok_read)
  then obtain v where "get_chars rb pb [] u = Some (str, v)" "rb v = Some (False, t)"
    using get_chars_code [of u str t "[]"] by auto
  with u show ?thesis by (simp add: get_string_def)
qed

end

text \<open>A list of bits is itself a source; hence the codes determine what was encoded.\<close>

fun list_read :: "bits \<Rightarrow> (bool \<times> bits) option" where
  "list_read [] = None"
| "list_read (b # bs) = Some (b, bs)"

definition list_peek :: "bits \<Rightarrow> bool option" where
  "list_peek bs = map_option fst (list_read bs)"

interpretation list_source: bit_source list_read list_peek "\<lambda>_. True"
  by unfold_locales (auto simp: list_peek_def)

lemma list_feeds: "feeds list_read (bs @ cs) bs cs"
  by (induction bs) simp_all

lemma string_code_inject: "string_code s = string_code t \<longleftrightarrow> s = t"
proof
  assume eq: "string_code s = string_code t"
  have read: "get_string list_read list_peek (string_code u @ []) = Some (u, [])" for u
    by (rule list_source.get_string_code [OF TrueI list_feeds])
  from read [of s] read [of t] show "s = t" unfolding eq by simp
qed simp

lemma value_code_inject: "value_code v = value_code w \<longleftrightarrow> v = w"
proof
  assume eq: "value_code v = value_code w"
  have read: "get_value list_read (value_code u @ []) = Some (u, [])" for u
    by (rule get_value_code [OF list_feeds])
  from read [of v] read [of w] show "v = w" unfolding eq by simp
qed simp

section \<open>EncodeToStream\<close>

text \<open>
  The input stream is its unread characters and its \<open>eof\<close> flag, the output stream what was
  written. Extracting a \<open>char\<close> skips white space first, which \<open>peek\<close> does not; extracting from
  an exhausted stream leaves the target variable indeterminate, here \<open>None\<close>.
\<close>

record encode_stream =
  es_in :: bstring
  es_eof :: bool
  es_out :: bstring
  es_count :: int

definition is_space :: "char \<Rightarrow> bool" where
  "is_space c \<longleftrightarrow> c = CHR '' '' \<or> c = CHR 0x09 \<or> c = CHR 0x0A \<or> c = CHR 0x0B \<or> c = CHR 0x0C \<or> c = CHR 0x0D"

definition es_write_bit :: "bool \<Rightarrow> encode_stream \<Rightarrow> encode_stream" where
  "es_write_bit b s = s\<lparr>es_out := es_out s @ [if b then CHR ''1'' else CHR ''0''],
                         es_count := count_bit b (es_count s)\<rparr>"

definition es_peek_bit :: "encode_stream \<Rightarrow> bool option" where
  "es_peek_bit s = Some (case es_in s of [] \<Rightarrow> True | c # _ \<Rightarrow> c \<noteq> CHR ''0'')"

definition es_read_bit :: "encode_stream \<Rightarrow> (bool \<times> encode_stream) option" where
  "es_read_bit s =
     (if es_eof s then Some (False, s)
      else do { (_, c) \<leftarrow> base_read_bit es_peek_bit (es_count s) s;
                (case dropWhile is_space (es_in s) of
                   [] \<Rightarrow> None
                 | x # xs \<Rightarrow> Some (x \<noteq> CHR ''0'', s\<lparr>es_in := xs, es_count := c\<rparr>)) })"

definition es_ok :: "encode_stream \<Rightarrow> bool" where
  "es_ok s \<longleftrightarrow> \<not> es_eof s \<and> set (es_in s) \<subseteq> {CHR ''0'', CHR ''1''}"

lemma not_space_digit [simp]: "\<not> is_space CHR ''0''" "\<not> is_space CHR ''1''"
  by (simp_all add: is_space_def)

lemma es_read_bit_Cons:
  "es_ok s \<Longrightarrow> es_in s = x # xs \<Longrightarrow>
   es_read_bit s = Some (x \<noteq> CHR ''0'',
     s\<lparr>es_in := xs, es_count := count_bit (x \<noteq> CHR ''0'') (es_count s)\<rparr>)"
  by (auto simp: es_ok_def es_read_bit_def es_peek_bit_def base_read_bit_def)

lemma es_read_bit_Nil: "es_ok s \<Longrightarrow> es_in s = [] \<Longrightarrow> es_read_bit s = None"
  by (simp add: es_ok_def es_read_bit_def es_peek_bit_def base_read_bit_def)

interpretation es: bit_source es_read_bit es_peek_bit es_ok
proof
  fix s b t assume s: "es_ok s" and r: "es_read_bit s = Some (b, t)"
  then obtain x xs where "es_in s = x # xs" by (cases "es_in s") (auto simp: es_read_bit_Nil)
  with s r show "es_peek_bit s = Some b" "es_ok t"
    by (auto simp: es_read_bit_Cons es_peek_bit_def es_ok_def)
qed

definition bit_digit :: "bool \<Rightarrow> char" where
  "bit_digit b = (if b then CHR ''1'' else CHR ''0'')"

lemma es_write_bits:
  "fold es_write_bit bs s = s\<lparr>es_out := es_out s @ map bit_digit bs, es_count := count_run bs (es_count s)\<rparr>"
  by (induction bs arbitrary: s) (simp_all add: es_write_bit_def bit_digit_def count_run_def)

lemma es_feeds:
  assumes "\<not> es_eof s" and "es_in s = map bit_digit bs"
  shows "feeds es_read_bit s bs (s\<lparr>es_in := [], es_count := count_run bs (es_count s)\<rparr>)"
  using assms
proof (induction bs arbitrary: s)
  case (Cons b bs)
  then have "es_ok s" by (auto simp: es_ok_def bit_digit_def)
  with Cons.prems have "es_read_bit s = Some (b, s\<lparr>es_in := map bit_digit bs, es_count := count_bit b (es_count s)\<rparr>)"
    by (simp add: es_read_bit_Cons bit_digit_def)
  with Cons.IH [of "s\<lparr>es_in := map bit_digit bs, es_count := count_bit b (es_count s)\<rparr>"] Cons.prems
  show ?case by (simp add: count_run_def)
qed (simp add: count_run_def)

text \<open>
  Property C36: a string written to a text stream of bits and read back from exactly what was
  written is the same string; the whole input is consumed, and writer and reader both leave the
  counter of the encoding where it was.
\<close>

theorem encode_stream_string_roundtrip:
  assumes "0 \<le> es_count w" and "0 \<le> es_count r" and "es_out w = []" and "\<not> es_eof r"
    and "w' = put_string es_write_bit str w"
    and "es_in r = es_out w'"
  shows "get_string es_read_bit es_peek_bit r = Some (str, r\<lparr>es_in := []\<rparr>) \<and> es_count w' = es_count w"
proof -
  from assms(3,5) have out: "es_out w' = map bit_digit (string_code str)"
    and c: "es_count w' = count_run (string_code str) (es_count w)"
    by (simp_all add: put_string_code es_write_bits)
  from assms out have "feeds es_read_bit r (string_code str) (r\<lparr>es_in := []\<rparr>)"
    using es_feeds [of r "string_code str"] by (simp add: count_run_complete string_code_complete)
  moreover from assms out have "es_ok r" by (auto simp: es_ok_def bit_digit_def)
  ultimately show ?thesis
    using c assms(1) by (simp add: es.get_string_code count_run_complete string_code_complete)
qed

theorem encode_stream_string_roundtrip_witness:
  "get_string es_read_bit es_peek_bit
     \<lparr>es_in = es_out (put_string es_write_bit ''Hi'' \<lparr>es_in = [], es_eof = False, es_out = [], es_count = 0\<rparr>),
      es_eof = False, es_out = [], es_count = 0\<rparr> =
   Some (''Hi'', \<lparr>es_in = [], es_eof = False, es_out = [], es_count = 0\<rparr>)"
  using encode_stream_string_roundtrip
    [of "\<lparr>es_in = [], es_eof = False, es_out = [], es_count = 0\<rparr>"
        "\<lparr>es_in = es_out (put_string es_write_bit ''Hi'' \<lparr>es_in = [], es_eof = False, es_out = [], es_count = 0\<rparr>),
          es_eof = False, es_out = [], es_count = 0\<rparr>" _ "''Hi''"]
  by simp

end
