(* ===== verification/Bit_Stack.thy ===== *)
theory Bit_Stack
  imports Encoding
begin

text \<open>
  The class \<open>Stack\<close> (code/Miscellaneous/Stack.hpp): a vector of bits that is at once a sink
  and a source of the power encoding.

  State: the bits, the read iterator \<open>_it\<close> (an index into the bits; \<open>None\<close> when the vector
  has grown or shrunk since the iterator was set, which invalidates it), and \<open>_count\<close>.
\<close>

record bit_stack =
  st_bits :: bits
  st_it :: "nat option"
  st_count :: int

definition stack_new :: bit_stack where
  "stack_new = \<lparr>st_bits = [], st_it = Some 0, st_count = 0\<rparr>"

text \<open>The copy constructor copies the bits only; assignment keeps the target's counter.\<close>

definition stack_copy :: "bit_stack \<Rightarrow> bit_stack" where
  "stack_copy s = \<lparr>st_bits = st_bits s, st_it = Some 0, st_count = 0\<rparr>"

definition stack_assign :: "bit_stack \<Rightarrow> bit_stack \<Rightarrow> bit_stack" where
  "stack_assign lhs rhs = lhs\<lparr>st_bits := st_bits rhs, st_it := Some 0\<rparr>"

definition stack_eq :: "bit_stack \<Rightarrow> bit_stack \<Rightarrow> bool" where
  "stack_eq l r \<longleftrightarrow> st_bits l = st_bits r"

definition stack_push_back :: "bool \<Rightarrow> bit_stack \<Rightarrow> bit_stack" where
  "stack_push_back b s = s\<lparr>st_bits := st_bits s @ [b], st_it := None, st_count := count_bit b (st_count s)\<rparr>"

text \<open>\<open>writeBit\<close> pushes the bit, which counts it, and then counts it once more.\<close>

definition stack_write_bit :: "bool \<Rightarrow> bit_stack \<Rightarrow> bit_stack" where
  "stack_write_bit b s =
     (let s = stack_push_back b s in s\<lparr>st_count := count_bit b (st_count s)\<rparr>)"

text \<open>\<open>last\<close> and \<open>pop_back\<close> of an empty vector are undefined.\<close>

definition stack_last :: "bit_stack \<Rightarrow> bool option" where
  "stack_last s = (if st_bits s = [] then None else Some (last (st_bits s)))"

definition stack_pop_back :: "bit_stack \<Rightarrow> bit_stack option" where
  "stack_pop_back s =
     do { b \<leftarrow> stack_last s;
          let c = (if b \<and> 0 < st_count s then st_count s - 1
                   else if \<not> b then st_count s + 1 else st_count s);
          Some (s\<lparr>st_bits := butlast (st_bits s), st_it := None, st_count := c\<rparr>) }"

definition stack_is_eof :: "bit_stack \<Rightarrow> bool option" where
  "stack_is_eof s = map_option (\<lambda>i. i = length (st_bits s)) (st_it s)"

definition stack_peek_bit :: "bit_stack \<Rightarrow> bool option" where
  "stack_peek_bit s =
     map_option (\<lambda>i. if i = length (st_bits s) then False else st_bits s ! i) (st_it s)"

definition stack_read_bit :: "bit_stack \<Rightarrow> (bool \<times> bit_stack) option" where
  "stack_read_bit s =
     do { b \<leftarrow> stack_peek_bit s;
          (_, c) \<leftarrow> base_read_bit stack_peek_bit (st_count s) s;
          i \<leftarrow> st_it s;
          Some (b, s\<lparr>st_it := Some (if i \<noteq> length (st_bits s) then Suc i else i), st_count := c\<rparr>) }"

definition stack_reset :: "bit_stack \<Rightarrow> bit_stack" where
  "stack_reset s = s\<lparr>st_it := Some 0, st_count := 0\<rparr>"

definition stack_clear :: "bit_stack \<Rightarrow> bit_stack" where
  "stack_clear s = (stack_reset s)\<lparr>st_bits := [], st_it := None\<rparr>"

definition stack_append :: "bit_stack \<Rightarrow> bit_stack \<Rightarrow> bit_stack" where
  "stack_append s other = s\<lparr>st_bits := st_bits s @ st_bits other, st_it := None\<rparr>"

definition stack_str :: "bit_stack \<Rightarrow> bstring" where
  "stack_str s = map bit_digit (st_bits s)"

text \<open>\<open>contains\<close>: the written value is the next thing the iterator would read.\<close>

fun bits_match :: "bits \<Rightarrow> bits \<Rightarrow> bool" where
  "bits_match [] rest = True"
| "bits_match (b # bs) [] = False"
| "bits_match (b # bs) (r # rest) = (r = b \<and> bits_match bs rest)"

definition stack_contains :: "(bit_stack \<Rightarrow> bit_stack) \<Rightarrow> bit_stack \<Rightarrow> bool option" where
  "stack_contains put s =
     map_option (\<lambda>i. bits_match (st_bits (put stack_new)) (drop i (st_bits s))) (st_it s)"

lemma bits_match_prefix: "bits_match bs rest \<longleftrightarrow> prefix bs rest"
  by (induction bs rest rule: bits_match.induct) auto

text \<open>A stack written to another encoding, and one read from it until that one is balanced.\<close>

definition put_stack :: "(bool \<Rightarrow> 's \<Rightarrow> 's) \<Rightarrow> bit_stack \<Rightarrow> 's \<Rightarrow> 's" where
  "put_stack wb st s = fold wb (st_bits st) s"

partial_function (option) get_stack_loop ::
    "('s \<Rightarrow> (bool \<times> 's) option) \<Rightarrow> ('s \<Rightarrow> int) \<Rightarrow> bit_stack \<Rightarrow> 's \<Rightarrow> (bit_stack \<times> 's) option" where
  "get_stack_loop rb cnt st s =
     do { (b, s) \<leftarrow> rb s;
          let st = stack_push_back b st;
          if 0 < cnt s then get_stack_loop rb cnt st s else Some (st, s) }"

declare get_stack_loop.simps [code]

definition get_stack ::
    "('s \<Rightarrow> (bool \<times> 's) option) \<Rightarrow> ('s \<Rightarrow> int) \<Rightarrow> 's \<Rightarrow> (bit_stack \<times> 's) option" where
  "get_stack rb cnt s =
     map_option (\<lambda>(st, s). (stack_reset st, s)) (get_stack_loop rb cnt stack_new s)"

section \<open>Counting\<close>

lemma stack_push_bits [simp]: "st_bits (stack_push_back b s) = st_bits s @ [b]"
  by (simp add: stack_push_back_def)

lemma stack_push_count [simp]: "st_count (stack_push_back b s) = count_bit b (st_count s)"
  by (simp add: stack_push_back_def)

lemma stack_write_bits [simp]: "st_bits (fold stack_write_bit bs s) = st_bits s @ bs"
  by (induction bs arbitrary: s) (simp_all add: stack_write_bit_def Let_def)

text \<open>Writing counts every bit twice, which still returns to zero with the code.\<close>

lemma stack_write_count:
  assumes "0 \<le> st_count s" and "\<And>p. prefix p bs \<Longrightarrow> 0 \<le> st_count s + 2 * weight p"
  shows "st_count (fold stack_write_bit bs s) = st_count s + 2 * weight bs"
  using assms
proof (induction bs arbitrary: s)
  case (Cons b bs)
  let ?s = "stack_write_bit b s"
  have "0 \<le> st_count s + 2 * bit_weight b" using Cons.prems(2) [of "[b]"] by simp
  with Cons.prems(1) have c: "st_count ?s = st_count s + 2 * bit_weight b"
    by (cases b) (simp_all add: stack_write_bit_def Let_def count_bit_def)
  have "0 \<le> st_count ?s + 2 * weight p" if "prefix p bs" for p
    using Cons.prems(2) [of "b # p"] that c by simp
  with Cons.IH [of ?s] c \<open>0 \<le> st_count s + 2 * bit_weight b\<close> show ?case by simp
qed simp

lemma stack_write_complete:
  assumes "complete_code bs"
  shows "st_count (fold stack_write_bit bs stack_new) = 0"
  using stack_write_count [of stack_new bs] complete_prefix_nonneg [OF assms] complete_weight [OF assms]
  by (simp add: stack_new_def)

text \<open>
  \<open>balanced\<close>: the counter is the weight of the bits, and never had to be held at zero.
  Pushing keeps it, and popping takes the counter back to what it was.
\<close>

definition balanced :: "bit_stack \<Rightarrow> bool" where
  "balanced s \<longleftrightarrow> st_count s = weight (st_bits s) \<and> (\<forall>p. prefix p (st_bits s) \<longrightarrow> 0 \<le> weight p)"

lemma balanced_new: "balanced stack_new"
  by (simp add: balanced_def stack_new_def)

lemma balanced_push:
  assumes "balanced s" and "0 \<le> weight (st_bits s @ [b])"
  shows "balanced (stack_push_back b s)"
proof -
  have "0 \<le> weight (st_bits s)" using assms(1) unfolding balanced_def by blast
  with assms show ?thesis
    by (cases b) (auto simp: balanced_def count_bit_def)
qed

lemma balanced_pop:
  assumes "balanced s" and "st_bits s = bs @ [b]"
  shows "\<exists>t. stack_last s = Some b \<and> stack_pop_back s = Some t \<and> st_bits t = bs \<and> balanced t"
proof -
  have "0 \<le> weight bs" using assms unfolding balanced_def by (metis prefixI)
  with assms show ?thesis
    by (cases b) (auto simp: stack_pop_back_def stack_last_def balanced_def Let_def)
qed

section \<open>The stack as a source\<close>

definition stack_ok :: "bit_stack \<Rightarrow> bool" where
  "stack_ok s \<longleftrightarrow> (\<exists>i \<le> length (st_bits s). st_it s = Some i)"

interpretation stack: bit_source stack_read_bit stack_peek_bit stack_ok
  by unfold_locales (auto simp: stack_read_bit_def stack_ok_def split: option.splits bind_splits)

text \<open>Reading never runs dry: past the end the stack gives zeros.\<close>

lemma stack_read_total: "stack_ok s \<Longrightarrow> \<exists>b t. stack_read_bit s = Some (b, t)"
  by (auto simp: stack_ok_def stack_read_bit_def stack_peek_bit_def base_read_bit_def)

lemma stack_feeds:
  assumes "st_it s = Some (length pre)" and "st_bits s = pre @ bs @ post"
  shows "feeds stack_read_bit s bs
           (s\<lparr>st_it := Some (length pre + length bs), st_count := count_run bs (st_count s)\<rparr>)"
  using assms
proof (induction bs arbitrary: s pre)
  case (Cons b bs)
  let ?t = "s\<lparr>st_it := Some (length (pre @ [b])), st_count := count_bit b (st_count s)\<rparr>"
  from Cons.prems have "stack_read_bit s = Some (b, ?t)"
    by (simp add: stack_read_bit_def stack_peek_bit_def base_read_bit_def)
  moreover have "feeds stack_read_bit ?t bs
      (?t\<lparr>st_it := Some (length (pre @ [b]) + length bs), st_count := count_run bs (st_count ?t)\<rparr>)"
    using Cons.prems by (intro Cons.IH) simp_all
  ultimately show ?case by (simp add: count_run_def)
qed (simp add: count_run_def)

lemma get_stack_loop_code:
  assumes "feeds rb s bs t" and "bs \<noteq> []"
    and cnt: "\<And>p u. strict_prefix p bs \<Longrightarrow> p \<noteq> [] \<Longrightarrow> feeds rb s p u \<Longrightarrow> 0 < cnt u" and "cnt t \<le> 0"
  shows "\<exists>st'. get_stack_loop rb cnt st s = Some (st', t) \<and> st_bits st' = st_bits st @ bs"
  using assms
proof (induction bs arbitrary: s st)
  case (Cons b bs)
  from Cons.prems(1) obtain u where u: "rb s = Some (b, u)" and rest: "feeds rb u bs t" by auto
  show ?case
  proof (cases "bs = []")
    case True
    with u rest Cons.prems(4) show ?thesis by (simp add: get_stack_loop.simps [of rb cnt st s] Let_def)
  next
    case False
    have "0 < cnt u" using Cons.prems(3) [of "[b]" u] u False by (cases bs) simp_all
    moreover have "0 < cnt w" if "strict_prefix p bs" "p \<noteq> []" "feeds rb u p w" for p w
      using Cons.prems(3) [of "b # p" w] that u by simp
    from Cons.IH [OF rest False this Cons.prems(4), where st = "stack_push_back b st"]
    have "\<exists>st'. get_stack_loop rb cnt (stack_push_back b st) u = Some (st', t)
            \<and> st_bits st' = st_bits (stack_push_back b st) @ bs" by simp
    ultimately show ?thesis using u by (simp add: get_stack_loop.simps [of rb cnt st s] Let_def)
  qed
qed simp

end
