(* ===== verification/Stack_Data.thy ===== *)
theory Stack_Data
  imports Bit_Stack
begin

text \<open>
  The byte form of a \<open>Stack\<close> (code/Miscellaneous/Stack.hpp): \<open>toData\<close> packs the bits, most
  significant first, and fills the last byte with zeros; the constructor from bytes drops that
  filling again by stopping where the balance of the bits would become negative. The main lemma
  is that nothing is lost for the codes the program stores.
\<close>

section \<open>Bytes and bits\<close>

text \<open>\<open>bits[7 - bitCount]\<close>: at most eight bits, most significant first, the rest zero.\<close>

definition pack_byte :: "bits \<Rightarrow> char" where
  "pack_byte bs =
     (let p = bs @ replicate (8 - length bs) False
      in Char (p ! 7) (p ! 6) (p ! 5) (p ! 4) (p ! 3) (p ! 2) (p ! 1) (p ! 0))"

fun unpack_byte :: "char \<Rightarrow> bits" where
  "unpack_byte (Char b0 b1 b2 b3 b4 b5 b6 b7) = [b7, b6, b5, b4, b3, b2, b1, b0]"

lemma length_8_cases:
  assumes "length bs = 8"
  obtains a b c d e f g h where "bs = [a, b, c, d, e, f, g, h]"
  using assms by (auto simp: numeral_eq_Suc length_Suc_conv)

lemma unpack_pack_byte:
  assumes "length bs \<le> 8"
  shows "unpack_byte (pack_byte bs) = bs @ replicate (8 - length bs) False"
proof -
  have "length (bs @ replicate (8 - length bs) False) = 8" using assms by simp
  then obtain a b c d e f g h where "bs @ replicate (8 - length bs) False = [a, b, c, d, e, f, g, h]"
    by (rule length_8_cases)
  then show ?thesis by (simp add: pack_byte_def Let_def)
qed

section \<open>toData\<close>

text \<open>The loop: the bits still to come, those of the current byte, the bytes so far.\<close>

fun to_data_loop :: "bits \<Rightarrow> bits \<Rightarrow> bstring \<Rightarrow> bstring" where
  "to_data_loop [] cur out = (if cur \<noteq> [] then out @ [pack_byte cur] else out)"
| "to_data_loop (b # bs) cur out =
     (let cur = cur @ [b]
      in if length cur = 8 then to_data_loop bs [] (out @ [pack_byte cur])
         else to_data_loop bs cur out)"

definition stack_to_data :: "bit_stack \<Rightarrow> bstring" where
  "stack_to_data s = to_data_loop (st_bits s) [] []"

lemma to_data_loop_bits:
  assumes "length cur < 8"
  shows "\<exists>n < 8. concat (map unpack_byte (to_data_loop bs cur out)) =
           concat (map unpack_byte out) @ cur @ bs @ replicate n False"
  using assms
proof (induction bs cur out rule: to_data_loop.induct)
  case (1 cur out)
  show ?case
  proof (cases "cur = []")
    case False
    with 1 show ?thesis by (intro exI [of _ "8 - length cur"]) (simp add: unpack_pack_byte)
  qed simp
next
  case (2 b bs cur out)
  show ?case
  proof (cases "length (cur @ [b]) = 8")
    case True
    with "2.IH"(1) [OF refl] obtain n where "n < 8" and
      "concat (map unpack_byte (to_data_loop bs [] (out @ [pack_byte (cur @ [b])]))) =
       concat (map unpack_byte out) @ unpack_byte (pack_byte (cur @ [b])) @ bs @ replicate n False"
      by auto
    with True show ?thesis
      by (intro exI [of _ n]) (simp add: unpack_pack_byte Let_def del: append_assoc
          add: append_assoc [symmetric])
  next
    case False
    with "2.IH"(2) [OF refl] "2.prems" obtain n where "n < 8" and
      "concat (map unpack_byte (to_data_loop bs (cur @ [b]) out)) =
       concat (map unpack_byte out) @ (cur @ [b]) @ bs @ replicate n False"
      by (auto simp: less_Suc_eq)
    with False show ?thesis by (intro exI [of _ n]) (simp add: Let_def)
  qed
qed

section \<open>fromData\<close>

fun from_data_loop :: "bits \<Rightarrow> int \<Rightarrow> bit_stack \<Rightarrow> bit_stack" where
  "from_data_loop [] c s = s"
| "from_data_loop (b # bs) c s =
     (if 0 \<le> c then
        (let c = c + bit_weight b
         in from_data_loop bs c (if 0 \<le> c then stack_push_back b s else s))
      else from_data_loop bs c s)"

definition stack_from_data :: "bstring \<Rightarrow> bit_stack" where
  "stack_from_data data =
     (from_data_loop (concat (map unpack_byte data)) 0 stack_new)\<lparr>st_it := Some 0\<rparr>"

lemma from_data_loop_negative: "c < 0 \<Longrightarrow> from_data_loop bs c s = s"
  by (induction bs) simp_all

lemma from_data_loop_keep:
  assumes "0 \<le> c" and "\<And>p. prefix p bs \<Longrightarrow> 0 \<le> c + weight p"
  shows "from_data_loop (bs @ rest) c s = from_data_loop rest (c + weight bs) (fold stack_push_back bs s)"
  using assms
proof (induction bs arbitrary: c s)
  case (Cons b bs)
  have "0 \<le> c + bit_weight b" using Cons.prems(2) [of "[b]"] by simp
  moreover have "0 \<le> (c + bit_weight b) + weight p" if "prefix p bs" for p
    using Cons.prems(2) [of "b # p"] that by simp
  ultimately show ?case
    using Cons.IH [of "c + bit_weight b" "stack_push_back b s"] Cons.prems(1)
    by (simp add: Let_def add.assoc)
qed simp

lemma from_data_loop_zeros: "from_data_loop (replicate n False) 0 s = s"
  by (cases n) (simp_all add: from_data_loop_negative)

lemma fold_push_bits: "st_bits (fold stack_push_back bs s) = st_bits s @ bs"
  by (induction bs arbitrary: s) simp_all

lemma fold_push_count: "st_count (fold stack_push_back bs s) = count_run bs (st_count s)"
  by (induction bs arbitrary: s) (simp_all add: count_run_def)

lemma stack_data_restore:
  assumes "\<forall>c \<in> set cs. complete_code c" and "st_bits s = concat cs"
  shows "stack_from_data (stack_to_data s) = \<lparr>st_bits = st_bits s, st_it = Some 0, st_count = 0\<rparr>"
proof -
  note w = concat_complete_nonneg [OF assms(1)]
  obtain n where "concat (map unpack_byte (stack_to_data s)) = concat cs @ replicate n False"
    using to_data_loop_bits [of "[]" "st_bits s" "[]"] assms(2) by (auto simp: stack_to_data_def)
  moreover have "from_data_loop (concat cs @ replicate n False) 0 stack_new =
      from_data_loop (replicate n False) (weight (concat cs)) (fold stack_push_back (concat cs) stack_new)"
    using from_data_loop_keep [of 0 "concat cs" "replicate n False" stack_new] w by simp
  moreover have "count_run (concat cs) 0 = 0" using count_run_weight [of 0 "concat cs"] w by simp
  ultimately have "stack_from_data (stack_to_data s) =
      (fold stack_push_back (concat cs) stack_new)\<lparr>st_it := Some 0\<rparr>"
    using w by (simp add: stack_from_data_def from_data_loop_zeros)
  moreover have "st_count (fold stack_push_back (concat cs) stack_new) = 0"
    using \<open>count_run (concat cs) 0 = 0\<close> by (simp add: fold_push_count stack_new_def)
  moreover have "st_bits (fold stack_push_back (concat cs) stack_new) = st_bits s"
    using assms(2) by (simp add: fold_push_bits stack_new_def)
  ultimately show ?thesis by simp
qed

text \<open>
  Property C32: the bits of any sequence of complete values survive \<open>toData\<close> and \<open>fromData\<close>
  unchanged: the zeros that fill the last byte are dropped and nothing else is, and the restored
  stack reads from its beginning with a counter of zero.
\<close>

theorem stack_data_roundtrip:
  assumes "\<forall>c \<in> set cs. complete_code c" and "st_bits s = concat cs"
  shows "stack_from_data (stack_to_data s) = \<lparr>st_bits = st_bits s, st_it = Some 0, st_count = 0\<rparr>"
  using assms by (rule stack_data_restore)

theorem stack_data_roundtrip_witness:
  "stack_from_data (stack_to_data \<lparr>st_bits = [True, False] @ [True, False], st_it = None, st_count = 5\<rparr>)
   = \<lparr>st_bits = [True, False, True, False], st_it = Some 0, st_count = 0\<rparr>"
  using stack_data_roundtrip [of "[[True, False], [True, False]]"
      "\<lparr>st_bits = [True, False] @ [True, False], st_it = None, st_count = 5\<rparr>"]
    tree_code_complete [OF tree_code_False] by simp

end
