(* ===== verification/Base64_Codec.thy ===== *)
theory Base64_Codec
  imports Prelude
begin

unbundle bit_operations_syntax

text \<open>
  The base 64 streams of code/Miscellaneous/Base64.hpp: an encoder that buffers three bytes, and
  a decoder that collects four sextets. Bytes and sextets are natural numbers; the shifts and
  masks are those of the code.
\<close>

section \<open>Encoding\<close>

definition base64_chars :: bstring where
  "base64_chars = ''ABCDEFGHIJKLMNOPQRSTUVWXYZabcdefghijklmnopqrstuvwxyz0123456789+/''"

definition encode_chunk :: "bstring \<Rightarrow> bstring" where
  "encode_chunk chunk =
     (let b1 = (of_char (chunk ! 0) :: nat);
          b2 = (if 1 < length chunk then of_char (chunk ! 1) else 0);
          b3 = (if 2 < length chunk then of_char (chunk ! 2) else 0)
      in [base64_chars ! drop_bit 2 b1,
          base64_chars ! (push_bit 4 (b1 AND 3) OR drop_bit 4 b2),
          if 1 < length chunk then base64_chars ! (push_bit 2 (b2 AND 15) OR drop_bit 6 b3) else CHR ''='',
          if 2 < length chunk then base64_chars ! (b3 AND 63) else CHR ''=''])"

text \<open>\<open>overflow\<close>: one byte into the buffer; a full buffer is encoded. State: buffer, output.\<close>

definition base64_overflow :: "char \<Rightarrow> bstring \<times> bstring \<Rightarrow> bstring \<times> bstring" where
  "base64_overflow c st =
     (let buffer = fst st @ [c]
      in if length buffer = 3 then ([], snd st @ encode_chunk buffer) else (buffer, snd st))"

definition base64_sync :: "bstring \<times> bstring \<Rightarrow> bstring \<times> bstring" where
  "base64_sync st = (if fst st \<noteq> [] then ([], snd st @ encode_chunk (fst st)) else st)"

definition to_base64 :: "bstring \<Rightarrow> bstring" where
  "to_base64 s = snd (base64_sync (fold base64_overflow s ([], [])))"

section \<open>Decoding\<close>

text \<open>\<open>decodeChar\<close>; \<open>None\<close> is the code's minus one.\<close>

definition decode_char :: "char \<Rightarrow> nat option" where
  "decode_char c =
     (let n = (of_char c :: nat)
      in if 65 \<le> n \<and> n \<le> 90 then Some (n - 65)
         else if 97 \<le> n \<and> n \<le> 122 then Some (n - 97 + 26)
         else if 48 \<le> n \<and> n \<le> 57 then Some (n - 48 + 52)
         else if c = CHR ''+'' then Some 62
         else if c = CHR ''/'' then Some 63
         else if c = CHR ''='' then Some 64
         else None)"

definition decode_quad :: "nat list \<Rightarrow> bstring" where
  "decode_quad q =
     (let b0 = push_bit 2 (q ! 0) OR drop_bit 4 (q ! 1);
          b1 = push_bit 4 (q ! 1 AND 15) OR drop_bit 2 (q ! 2);
          b2 = push_bit 6 (q ! 2 AND 3) OR q ! 3
      in [char_of b0] @ (if q ! 2 \<noteq> 64 then [char_of b1] else [])
                      @ (if q ! 3 \<noteq> 64 then [char_of b2] else []))"

text \<open>State: the sextets collected so far and the output. \<open>None\<close>: invalid character.\<close>

definition decode_base64_stream :: "char \<Rightarrow> nat list \<times> bstring \<Rightarrow> (nat list \<times> bstring) option" where
  "decode_base64_stream c st =
     do { val \<leftarrow> decode_char c;
          let q = fst st @ [val];
          Some (if length q = 4 then ([], snd st @ decode_quad q) else (q, snd st)) }"

fun decode_base64_chars :: "bstring \<Rightarrow> nat list \<times> bstring \<Rightarrow> (nat list \<times> bstring) option" where
  "decode_base64_chars [] st = Some st"
| "decode_base64_chars (c # cs) st = do { st \<leftarrow> decode_base64_stream c st; decode_base64_chars cs st }"

definition from_base64 :: "bstring \<Rightarrow> bstring option" where
  "from_base64 s = map_option snd (decode_base64_chars s ([], []))"

section \<open>Correctness\<close>

lemma decode_encode_char: "n < 64 \<Longrightarrow> decode_char (base64_chars ! n) = Some n"
proof -
  have all: "list_all (\<lambda>(i, c). decode_char c = Some i) (enumerate 0 base64_chars)"
    by (simp add: base64_chars_def decode_char_def)
  assume n: "n < 64"
  moreover have len: "length base64_chars = 64" by (simp add: base64_chars_def)
  ultimately have "(n, base64_chars ! n) \<in> set (enumerate 0 base64_chars)"
    by (metis add_0 length_enumerate nth_enumerate_eq nth_mem)
  with all show ?thesis by (auto simp: list_all_iff)
qed

lemma decode_pad: "decode_char CHR ''='' = Some 64"
  by (simp add: decode_char_def)

lemma or_high_low:
  fixes a b :: nat
  assumes "b < 2 ^ k"
  shows "push_bit k a OR b = a * 2 ^ k + b"
proof -
  have "push_bit k a AND take_bit k b = 0"
    by (rule bit_eqI) (auto simp: bit_and_iff bit_push_bit_iff bit_take_bit_iff)
  with assms have "push_bit k a AND b = 0" by (simp add: take_bit_nat_eq_self)
  then show ?thesis by (simp add: disjunctive_add_eq_or [symmetric] push_bit_eq_mult)
qed

lemma and_low: "(a :: nat) AND 3 = a mod 4" "a AND 15 = a mod 16" "a AND 63 = a mod 64"
  using take_bit_eq_mask [of 2 a] take_bit_eq_mask [of 4 a] take_bit_eq_mask [of 6 a]
  by (simp_all add: take_bit_eq_mod mask_eq_exp_minus_1)

text \<open>The four sextets of a chunk, as sums.\<close>

lemma sextet_sums:
  fixes b1 b2 b3 :: nat
  assumes "b1 < 256" "b2 < 256" "b3 < 256"
  shows "drop_bit 2 b1 = b1 div 4"
    and "push_bit 4 (b1 AND 3) OR drop_bit 4 b2 = (b1 mod 4) * 16 + b2 div 16"
    and "push_bit 2 (b2 AND 15) OR drop_bit 6 b3 = (b2 mod 16) * 4 + b3 div 64"
    and "b3 AND 63 = b3 mod 64"
  using assms by (simp_all add: or_high_low and_low drop_bit_eq_div)

lemma quad_sums:
  fixes a b c d :: nat
  assumes "a < 64" "b < 64" "c < 64" "d < 64"
  shows "push_bit 2 a OR drop_bit 4 b = a * 4 + b div 16"
    and "push_bit 4 (b AND 15) OR drop_bit 2 c = (b mod 16) * 16 + c div 4"
    and "push_bit 6 (c AND 3) OR d = (c mod 4) * 64 + d"
  using assms by (simp_all add: or_high_low and_low drop_bit_eq_div)

lemma decode_four:
  assumes "decode_char a = Some p" "decode_char b = Some q" "decode_char c = Some r" "decode_char d = Some t"
  shows "decode_base64_chars (a # b # c # d # rest) ([], out) =
         decode_base64_chars rest ([], out @ decode_quad [p, q, r, t])"
  using assms by (simp add: decode_base64_stream_def)

lemma encode_chunk_sextets:
  fixes a b c :: char
  defines "x \<equiv> of_char a :: nat" and "y \<equiv> of_char b :: nat" and "z \<equiv> of_char c :: nat"
  shows "encode_chunk [a] = [base64_chars ! (x div 4), base64_chars ! (x mod 4 * 16), CHR ''='', CHR ''='']"
    and "encode_chunk [a, b] = [base64_chars ! (x div 4), base64_chars ! (x mod 4 * 16 + y div 16),
           base64_chars ! (y mod 16 * 4), CHR ''='']"
    and "encode_chunk [a, b, c] = [base64_chars ! (x div 4), base64_chars ! (x mod 4 * 16 + y div 16),
           base64_chars ! (y mod 16 * 4 + z div 64), base64_chars ! (z mod 64)]"
proof -
  have less: "x < 256" "y < 256" "z < 256" by (simp_all add: x_def y_def z_def of_char_less)
  show "encode_chunk [a] = [base64_chars ! (x div 4), base64_chars ! (x mod 4 * 16), CHR ''='', CHR ''='']"
    using sextet_sums [OF less(1), of 0 0] by (simp only: encode_chunk_def Let_def x_def) simp
  show "encode_chunk [a, b] = [base64_chars ! (x div 4), base64_chars ! (x mod 4 * 16 + y div 16),
           base64_chars ! (y mod 16 * 4), CHR ''='']"
    using sextet_sums [OF less(1,2), of 0] by (simp add: encode_chunk_def Let_def flip: x_def y_def)
  show "encode_chunk [a, b, c] = [base64_chars ! (x div 4), base64_chars ! (x mod 4 * 16 + y div 16),
           base64_chars ! (y mod 16 * 4 + z div 64), base64_chars ! (z mod 64)]"
    using sextet_sums [OF less] by (simp add: encode_chunk_def Let_def flip: x_def y_def z_def)
qed

text \<open>A byte is put together again from the parts the sextets hold.\<close>

lemma byte_splits:
  fixes x y z :: nat
  assumes "y < 256" "z < 256"
  shows "x div 4 * 4 + (x mod 4 * 16 + y div 16) div 16 = x"
    and "(x mod 4 * 16 + y div 16) mod 16 * 16 + (y mod 16 * 4 + z div 64) div 4 = y"
    and "(y mod 16 * 4 + z div 64) mod 4 * 64 + z mod 64 = z"
proof -
  have y: "y div 16 < 16" and z: "z div 64 < 4" using assms by auto
  show "x div 4 * 4 + (x mod 4 * 16 + y div 16) div 16 = x" using y by simp
  have "(x mod 4 * 16 + y div 16) mod 16 = y div 16" "(y mod 16 * 4 + z div 64) div 4 = y mod 16"
    using y z by simp_all
  then show "(x mod 4 * 16 + y div 16) mod 16 * 16 + (y mod 16 * 4 + z div 64) div 4 = y" by simp
  have "(y mod 16 * 4 + z div 64) mod 4 = z div 64" using z by simp
  then show "(y mod 16 * 4 + z div 64) mod 4 * 64 + z mod 64 = z" by simp
qed

lemma sextet_less:
  fixes x y :: nat
  assumes "x < 256" "y < 256"
  shows "x div 4 < 64" "x mod 4 * 16 + y div 16 < 64" "x mod 4 * 16 < 64"
    "x mod 16 * 4 + y div 64 < 64" "x mod 16 * 4 < 64" "x mod 64 < 64"
proof -
  have "x mod 4 < 4" "x mod 16 < 16" "y div 16 < 16" "y div 64 < 4" using assms by auto
  then show "x mod 4 * 16 + y div 16 < 64" "x mod 4 * 16 < 64"
    "x mod 16 * 4 + y div 64 < 64" "x mod 16 * 4 < 64" by linarith+
  show "x div 4 < 64" "x mod 64 < 64" using assms by auto
qed

lemma decode_quad_bytes:
  assumes "x < 256" "y < 256" "z < 256"
  shows "decode_quad [x div 4, x mod 4 * 16, 64, 64] = [char_of x]"
    and "decode_quad [x div 4, x mod 4 * 16 + y div 16, y mod 16 * 4, 64] = [char_of x, char_of y]"
    and "decode_quad [x div 4, x mod 4 * 16 + y div 16, y mod 16 * 4 + z div 64, z mod 64] =
         [char_of x, char_of y, char_of z]"
proof -
  note s = sextet_less [OF assms(1,2)] sextet_less [OF assms(2,3)] sextet_less [OF assms(3,1)]
  show "decode_quad [x div 4, x mod 4 * 16, 64, 64] = [char_of x]"
    using quad_sums(1) [OF s(1,3), of 0 0] byte_splits(1) [of 0 0 x] by (simp add: decode_quad_def Let_def)
  show "decode_quad [x div 4, x mod 4 * 16 + y div 16, y mod 16 * 4, 64] = [char_of x, char_of y]"
    using quad_sums(1,2) [OF s(1,2,11), of 0] byte_splits(1) [OF assms(2,3), of x]
      byte_splits(2) [OF assms(2), of 0 x] s(11)
    by (simp add: decode_quad_def Let_def)
  show "decode_quad [x div 4, x mod 4 * 16 + y div 16, y mod 16 * 4 + z div 64, z mod 64] =
         [char_of x, char_of y, char_of z]"
    using quad_sums [OF s(1,2,10,18)] byte_splits(1,2) [OF assms(2,3), of x] byte_splits(3) [OF assms(2,3)] s(10)
      s(18) [THEN less_imp_neq]
    by (simp add: decode_quad_def Let_def)
qed

text \<open>A chunk of one, two or three bytes survives the trip through four characters.\<close>

lemma decode_chunk:
  "decode_base64_chars (encode_chunk [a] @ rest) ([], out) = decode_base64_chars rest ([], out @ [a])"
  "decode_base64_chars (encode_chunk [a, b] @ rest) ([], out) = decode_base64_chars rest ([], out @ [a, b])"
  "decode_base64_chars (encode_chunk [a, b, c] @ rest) ([], out) =
   decode_base64_chars rest ([], out @ [a, b, c])"
proof -
  note l = of_char_less [of a] of_char_less [of b] of_char_less [of c]
  note s = sextet_less [OF l(1,2)] sextet_less [OF l(2,3)] sextet_less [OF l(3,1)]
  note d = decode_encode_char
  show "decode_base64_chars (encode_chunk [a] @ rest) ([], out) = decode_base64_chars rest ([], out @ [a])"
    using decode_four [OF d [OF s(1)] d [OF s(3)] decode_pad decode_pad] decode_quad_bytes(1) [OF l]
    by (simp add: encode_chunk_sextets)
  show "decode_base64_chars (encode_chunk [a, b] @ rest) ([], out) = decode_base64_chars rest ([], out @ [a, b])"
    using decode_four [OF d [OF s(1)] d [OF s(2)] d [OF s(11)] decode_pad] decode_quad_bytes(2) [OF l]
    by (simp add: encode_chunk_sextets)
  show "decode_base64_chars (encode_chunk [a, b, c] @ rest) ([], out) =
        decode_base64_chars rest ([], out @ [a, b, c])"
    using decode_four [OF d [OF s(1)] d [OF s(2)] d [OF s(10)] d [OF s(18)]] decode_quad_bytes(3) [OF l]
    by (simp add: encode_chunk_sextets)
qed

lemma base64_output:
  "snd (base64_sync (fold base64_overflow s (buf, out))) =
   out @ snd (base64_sync (fold base64_overflow s (buf, [])))"
proof (induction s arbitrary: buf out)
  case (Cons c s)
  show ?case
    using Cons.IH [of "[]" "out @ encode_chunk (buf @ [c])"] Cons.IH [of "[]" "encode_chunk (buf @ [c])"]
      Cons.IH [of "buf @ [c]" out]
    by (simp add: base64_overflow_def Let_def)
qed (simp add: base64_sync_def)

lemma to_base64_chunk:
  "to_base64 [] = []" "to_base64 [a] = encode_chunk [a]" "to_base64 [a, b] = encode_chunk [a, b]"
  "to_base64 (a # b # c # s) = encode_chunk [a, b, c] @ to_base64 s"
  using base64_output [of s "[]" "encode_chunk [a, b, c]"]
  by (simp_all add: to_base64_def base64_sync_def base64_overflow_def)

lemma decode_to_base64:
  "decode_base64_chars (to_base64 s) ([], out) = Some ([], out @ s)"
proof (induction s arbitrary: out rule: length_induct)
  case (1 s)
  consider "s = []" | a where "s = [a]" | a b where "s = [a, b]" | a b c r where "s = a # b # c # r"
    by (cases s; cases "tl s"; cases "tl (tl s)") auto
  then show ?case
  proof cases
    case 1
    then show ?thesis by (simp add: to_base64_chunk)
  next
    case (2 a)
    then show ?thesis using decode_chunk(1) [of a "[]"] by (simp add: to_base64_chunk)
  next
    case (3 a b)
    then show ?thesis using decode_chunk(2) [of a b "[]"] by (simp add: to_base64_chunk)
  next
    case (4 a b c r)
    then have "decode_base64_chars (to_base64 r) ([], out @ [a, b, c]) = Some ([], (out @ [a, b, c]) @ r)"
      using "1.IH" by simp
    with 4 show ?thesis by (simp add: to_base64_chunk decode_chunk)
  qed
qed

text \<open>
  Property C33: decoding what the encoder wrote gives back the bytes, whatever they are and
  whatever padding their number needs.
\<close>

theorem base64_roundtrip: "from_base64 (to_base64 s) = Some s"
  by (simp add: from_base64_def decode_to_base64)

end
