(* ===== verification/Identifiers.thy ===== *)
theory Identifiers
  imports Stack_Data Base64_Codec
begin

text \<open>
  Identifiers (code/Id/Id.hpp): a \<open>Timestamp\<close> is a clock reading and an increment that tells
  apart the timestamps of one millisecond; an \<open>Id\<close> is a name and a timestamp. Both are written
  to any encoding as a one, their parts and a zero; the key of an \<open>Id\<close> is the base 64 form of
  its bits. The clock is not under src: its readings are arguments of the definitions. The
  members in shared memory are the state \<open>id_memory\<close>; the scoped lock makes one creation of a
  timestamp atomic, so a history is a sequence of creations.
\<close>

record timestamp =
  ts_milliseconds :: nat
  ts_increment :: nat

record id_memory =
  last_milliseconds :: nat
  last_increment :: nat

section \<open>Creation\<close>

definition increment :: "nat \<Rightarrow> id_memory \<Rightarrow> nat \<times> id_memory" where
  "increment ms m =
     (let inc = (if last_milliseconds m < ms then 0 else (last_increment m + 1) mod 2 ^ 64)
      in (inc, \<lparr>last_milliseconds = ms, last_increment = inc\<rparr>))"

definition timestamp_new :: "nat \<Rightarrow> id_memory \<Rightarrow> timestamp \<times> id_memory" where
  "timestamp_new now m =
     (let (inc, m) = increment now m
      in (\<lparr>ts_milliseconds = now, ts_increment = inc\<rparr>, m))"

fun timestamps_new :: "nat list \<Rightarrow> id_memory \<Rightarrow> timestamp list" where
  "timestamps_new [] m = []"
| "timestamps_new (now # clock) m =
     (let (t, m) = timestamp_new now m in t # timestamps_new clock m)"

definition timestamp_eq :: "timestamp \<Rightarrow> timestamp \<Rightarrow> bool" where
  "timestamp_eq a b \<longleftrightarrow> ts_milliseconds a = ts_milliseconds b \<and> ts_increment a = ts_increment b"

section \<open>Writing and reading\<close>

definition put_timestamp :: "(bool \<Rightarrow> 's \<Rightarrow> 's) \<Rightarrow> timestamp \<Rightarrow> 's \<Rightarrow> 's" where
  "put_timestamp wb t s =
     wb False (put_value wb (ts_increment t) (put_value wb (ts_milliseconds t) (wb True s)))"

text \<open>\<open>None\<close> is the exception \<open>Invalid timestamp\<close>.\<close>

definition get_timestamp :: "('s \<Rightarrow> (bool \<times> 's) option) \<Rightarrow> 's \<Rightarrow> (timestamp \<times> 's) option" where
  "get_timestamp rb s =
     do { (b, s) \<leftarrow> rb s;
          if b then
            do { (ms, s) \<leftarrow> get_value rb s;
                 (inc, s) \<leftarrow> get_value rb s;
                 (b, s) \<leftarrow> rb s;
                 if \<not> b then Some (\<lparr>ts_milliseconds = ms, ts_increment = inc\<rparr>, s) else None }
          else None }"

definition timestamp_code :: "timestamp \<Rightarrow> bits" where
  "timestamp_code t = True # concat [value_code (ts_milliseconds t), value_code (ts_increment t)] @ [False]"

lemma put_timestamp_code [code_lens]: "put_timestamp wb t s = fold wb (timestamp_code t) s"
  by (simp add: put_timestamp_def timestamp_code_def code_lens)

lemma timestamp_code_complete: "complete_code (timestamp_code t)"
  unfolding timestamp_code_def by (rule complete_node) (auto simp: value_code_complete)

lemma get_timestamp_code: "feeds rb s (timestamp_code t) u \<Longrightarrow> get_timestamp rb s = Some (t, u)"
  by (fastforce simp: get_timestamp_def timestamp_code_def feeds_append dest: get_value_code)

definition timestamp_to_data :: "timestamp \<Rightarrow> bstring" where
  "timestamp_to_data t = stack_to_data (put_timestamp stack_write_bit t stack_new)"

definition timestamp_from_data :: "bstring \<Rightarrow> timestamp option" where
  "timestamp_from_data data = map_option fst (get_timestamp stack_read_bit (stack_from_data data))"

section \<open>Identifiers\<close>

record id =
  id_key :: bstring
  id_name :: bstring
  id_timestamp :: timestamp

definition id_eq :: "id \<Rightarrow> id \<Rightarrow> bool" where
  "id_eq a b \<longleftrightarrow> timestamp_eq (id_timestamp a) (id_timestamp b) \<and> id_name a = id_name b"

definition put_id :: "(bool \<Rightarrow> 's \<Rightarrow> 's) \<Rightarrow> id \<Rightarrow> 's \<Rightarrow> 's" where
  "put_id wb i s =
     wb False (put_timestamp wb (id_timestamp i) (put_string wb (id_name i) (wb True s)))"

definition get_id ::
    "('s \<Rightarrow> (bool \<times> 's) option) \<Rightarrow> ('s \<Rightarrow> bool option) \<Rightarrow> id \<Rightarrow> 's \<Rightarrow> (id \<times> 's) option" where
  "get_id rb pb i s =
     do { (b, s) \<leftarrow> rb s;
          if b then
            do { (name, s) \<leftarrow> get_string rb pb s;
                 (t, s) \<leftarrow> get_timestamp rb s;
                 (b, s) \<leftarrow> rb s;
                 if \<not> b then Some (i\<lparr>id_name := name, id_timestamp := t\<rparr>, s) else None }
          else None }"

definition id_code :: "id \<Rightarrow> bits" where
  "id_code i = True # concat [string_code (id_name i), timestamp_code (id_timestamp i)] @ [False]"

lemma put_id_code [code_lens]: "put_id wb i s = fold wb (id_code i) s"
  by (simp add: put_id_def id_code_def code_lens)

lemma id_code_complete: "complete_code (id_code i)"
  unfolding id_code_def
  by (rule complete_node) (auto simp: string_code_complete timestamp_code_complete)

context bit_source
begin

lemma get_id_code:
  assumes "ok s" and "feeds rb s (id_code i) t"
  shows "get_id rb pb j s = Some (j\<lparr>id_name := id_name i, id_timestamp := id_timestamp i\<rparr>, t)"
proof -
  from assms obtain u v w where "rb s = Some (True, u)" "feeds rb u (string_code (id_name i)) v"
    and v: "feeds rb v (timestamp_code (id_timestamp i)) w" "rb w = Some (False, t)"
    by (auto simp: id_code_def feeds_append)
  moreover from this assms have "get_string rb pb u = Some (id_name i, v)"
    by (auto intro: get_string_code dest: ok_read)
  ultimately show ?thesis by (simp add: get_id_def get_timestamp_code [OF v(1)])
qed

end

definition id_to_data :: "id \<Rightarrow> bstring" where
  "id_to_data i = stack_to_data (put_id stack_write_bit i stack_new)"

text \<open>\<open>fresh\<close> is the \<open>Id\<close> that the default constructor makes before it is read into.\<close>

definition id_from_data :: "id \<Rightarrow> bstring \<Rightarrow> id option" where
  "id_from_data fresh data =
     map_option fst (get_id stack_read_bit stack_peek_bit fresh (stack_from_data data))"

text \<open>\<open>None\<close> is the \<open>logic_error\<close> for an encoding that is out of balance.\<close>

definition create_key :: "id \<Rightarrow> bstring option" where
  "create_key i =
     (let s = put_id stack_write_bit i stack_new
      in if st_count s \<noteq> 0 then None else Some (to_base64 (stack_to_data s)))"

text \<open>\<open>key()\<close>: created on demand and kept.\<close>

definition id_get_key :: "id \<Rightarrow> (bstring \<times> id) option" where
  "id_get_key i =
     (if length (id_key i) = 0 then map_option (\<lambda>k. (k, i\<lparr>id_key := k\<rparr>)) (create_key i)
      else Some (id_key i, i))"

definition decode_key :: "bstring \<Rightarrow> id option" where
  "decode_key key =
     do { raw \<leftarrow> from_base64 key;
          let s = stack_from_data raw;
          (b, s) \<leftarrow> stack_read_bit s;
          if b then
            do { (name, s) \<leftarrow> get_string stack_read_bit stack_peek_bit s;
                 (t, s) \<leftarrow> get_timestamp stack_read_bit s;
                 (b, s) \<leftarrow> stack_read_bit s;
                 if \<not> b then Some \<lparr>id_key = key, id_name = name, id_timestamp = t\<rparr> else None }
          else None }"

section \<open>Round trips\<close>

lemma data_feeds:
  assumes "complete_code bs" and "st_bits s = bs"
  shows "\<exists>t. feeds stack_read_bit (stack_from_data (stack_to_data s)) bs t"
    and "stack_ok (stack_from_data (stack_to_data s))"
proof -
  have eq: "stack_from_data (stack_to_data s) = \<lparr>st_bits = bs, st_it = Some 0, st_count = 0\<rparr>"
    using stack_data_restore [of "[bs]" s] assms by simp
  show "\<exists>t. feeds stack_read_bit (stack_from_data (stack_to_data s)) bs t"
    unfolding eq using stack_feeds [of "\<lparr>st_bits = bs, st_it = Some 0, st_count = 0\<rparr>" "[]" bs "[]"]
    by auto
  show "stack_ok (stack_from_data (stack_to_data s))" by (simp add: eq stack_ok_def)
qed

lemma written_bits:
  "st_bits (put_timestamp stack_write_bit t stack_new) = timestamp_code t"
  "st_bits (put_id stack_write_bit i stack_new) = id_code i"
  by (simp_all add: code_lens stack_new_def)

lemma decode_key_eq:
  "decode_key key = do { raw \<leftarrow> from_base64 key;
     (i, _) \<leftarrow> get_id stack_read_bit stack_peek_bit \<lparr>id_key = key, id_name = [], id_timestamp = t0\<rparr>
                 (stack_from_data raw);
     Some i }"
  by (auto simp: decode_key_def get_id_def Let_def split: bind_splits)


text \<open>What the double arithmetic of the codec demands of the numbers in an identifier.\<close>

definition timestamp_exact :: "timestamp \<Rightarrow> bool" where
  "timestamp_exact t \<longleftrightarrow> double_exact (ts_milliseconds t) \<and> double_exact (ts_increment t)"

lemma timestamp_restore: "timestamp_from_data (timestamp_to_data t) = Some t"
proof -
  let ?s = "put_timestamp stack_write_bit t stack_new"
  obtain u where "feeds stack_read_bit (stack_from_data (stack_to_data ?s)) (timestamp_code t) u"
    using data_feeds(1) [OF timestamp_code_complete written_bits(1)] by blast
  then show ?thesis by (simp add: timestamp_from_data_def timestamp_to_data_def get_timestamp_code)
qed

lemma id_restore:
  "\<exists>u. get_id stack_read_bit stack_peek_bit j (stack_from_data (id_to_data i)) =
    Some (j\<lparr>id_name := id_name i, id_timestamp := id_timestamp i\<rparr>, u)"
proof -
  let ?s = "put_id stack_write_bit i stack_new"
  obtain u where u: "feeds stack_read_bit (stack_from_data (stack_to_data ?s)) (id_code i) u"
    using data_feeds(1) [OF id_code_complete written_bits(2)] by blast
  have "stack_ok (stack_from_data (stack_to_data ?s))"
    by (rule data_feeds(2) [OF id_code_complete written_bits(2)])
  from stack.get_id_code [OF this u] show ?thesis by (auto simp: id_to_data_def)
qed

lemma create_key_eq: "create_key i = Some (to_base64 (id_to_data i))"
  using stack_write_complete [OF id_code_complete, of i]
  by (simp add: create_key_def id_to_data_def code_lens Let_def)

lemma decode_create_key:
  "decode_key (to_base64 (id_to_data i)) = Some (i\<lparr>id_key := to_base64 (id_to_data i)\<rparr>)"
proof -
  obtain u where "get_id stack_read_bit stack_peek_bit
      \<lparr>id_key = to_base64 (id_to_data i), id_name = [], id_timestamp = \<lparr>ts_milliseconds = 0, ts_increment = 0\<rparr>\<rparr>
      (stack_from_data (id_to_data i)) =
    Some (\<lparr>id_key = to_base64 (id_to_data i), id_name = id_name i, id_timestamp = id_timestamp i\<rparr>, u)"
    using id_restore [where i = i and j = "\<lparr>id_key = to_base64 (id_to_data i), id_name = [],
      id_timestamp = \<lparr>ts_milliseconds = 0, ts_increment = 0\<rparr>\<rparr>"] by auto
  then show ?thesis
    by (simp add: decode_key_eq [where ?t0.0 = "\<lparr>ts_milliseconds = 0, ts_increment = 0\<rparr>"]
        from_base64_def decode_to_base64)
qed

text \<open>
  The bytes of a timestamp or of an identifier read back as the same timestamp and
  the same name, whatever the name holds.
\<close>

theorem id_data_roundtrip:
  assumes "timestamp_exact (id_timestamp i)"
  shows "timestamp_from_data (timestamp_to_data (id_timestamp i)) = Some (id_timestamp i) \<and>
    (\<exists>j. id_from_data fresh (id_to_data i) = Some j \<and> id_eq i j)"
  using id_restore [of fresh i]
  by (auto simp: timestamp_restore id_from_data_def id_eq_def timestamp_eq_def)

theorem id_data_roundtrip_witness:
  "timestamp_from_data (timestamp_to_data \<lparr>ts_milliseconds = 5, ts_increment = 2\<rparr>)
     = Some \<lparr>ts_milliseconds = 5, ts_increment = 2\<rparr>"
  using id_data_roundtrip [of "\<lparr>id_key = [], id_name = ''bee'',
      id_timestamp = \<lparr>ts_milliseconds = 5, ts_increment = 2\<rparr>\<rparr>"]
  by (simp add: timestamp_exact_def double_exact_def)

text \<open>
  Property C34: a key never fails to be created, it is kept, and decoding it gives the identifier
  it was created from.
\<close>

theorem id_key_roundtrip:
  assumes "timestamp_exact (id_timestamp i)" and "id_key i = []"
  shows "\<exists>key j. id_get_key i = Some (key, j) \<and> id_eq i j \<and> id_key j = key \<and>
           decode_key key = Some j"
proof -
  have "id_get_key i = Some (to_base64 (id_to_data i), i\<lparr>id_key := to_base64 (id_to_data i)\<rparr>)"
    using assms(2) by (simp add: id_get_key_def create_key_eq)
  then show ?thesis by (simp add: decode_create_key id_eq_def timestamp_eq_def)
qed

theorem id_key_roundtrip_witness:
  "\<exists>key j. id_get_key \<lparr>id_key = [], id_name = ''bee'', id_timestamp = \<lparr>ts_milliseconds = 5, ts_increment = 0\<rparr>\<rparr>
     = Some (key, j) \<and> decode_key key = Some j"
  using id_key_roundtrip [of "\<lparr>id_key = [], id_name = ''bee'',
      id_timestamp = \<lparr>ts_milliseconds = 5, ts_increment = 0\<rparr>\<rparr>"]
  by (auto simp: timestamp_exact_def double_exact_def)

section \<open>Uniqueness of timestamps\<close>

definition ts_less :: "timestamp \<Rightarrow> timestamp \<Rightarrow> bool" where
  "ts_less a b \<longleftrightarrow> ts_milliseconds a < ts_milliseconds b \<or>
     ts_milliseconds a = ts_milliseconds b \<and> ts_increment a < ts_increment b"

lemma ts_less_trans: "ts_less a b \<Longrightarrow> ts_less b c \<Longrightarrow> ts_less a c"
  by (auto simp: ts_less_def)

lemma timestamps_new_above:
  assumes "sorted (last_milliseconds m # clock)" and "last_increment m + length clock < 2 ^ 64"
  shows "sorted_wrt ts_less
    (\<lparr>ts_milliseconds = last_milliseconds m, ts_increment = last_increment m\<rparr> # timestamps_new clock m)"
  using assms
proof (induction clock arbitrary: m)
  case (Cons now clock)
  obtain t m' where new: "timestamp_new now m = (t, m')" by force
  let ?last = "\<lparr>ts_milliseconds = last_milliseconds m, ts_increment = last_increment m\<rparr>"
  from new Cons.prems have t: "t = \<lparr>ts_milliseconds = last_milliseconds m', ts_increment = last_increment m'\<rparr>"
    and m': "last_milliseconds m' = now" "last_increment m' \<le> Suc (last_increment m)"
    and less: "ts_less ?last t"
    by (auto simp: timestamp_new_def increment_def Let_def ts_less_def split: if_splits)
  from Cons.prems m' have "sorted_wrt ts_less (t # timestamps_new clock m')"
    unfolding t by (intro Cons.IH) auto
  with less show ?case by (auto simp: new intro: ts_less_trans)
qed simp

text \<open>
  Property C35: as long as the clock does not step back, the timestamps handed out are strictly
  increasing, so no two are equal, also within one millisecond (for fewer than \<open>2 ^ 64\<close> of them).
\<close>

theorem timestamps_strictly_increasing:
  assumes "sorted (last_milliseconds m # clock)" and "last_increment m + length clock < 2 ^ 64"
  shows "sorted_wrt ts_less (timestamps_new clock m) \<and>
    sorted_wrt (\<lambda>a b. \<not> timestamp_eq a b) (timestamps_new clock m)"
proof -
  have less: "sorted_wrt ts_less (timestamps_new clock m)"
    using timestamps_new_above [OF assms] by simp
  moreover from less have "sorted_wrt (\<lambda>a b. \<not> timestamp_eq a b) (timestamps_new clock m)"
    by (rule sorted_wrt_mono_rel [rotated]) (auto simp: ts_less_def timestamp_eq_def)
  ultimately show ?thesis by simp
qed

theorem timestamps_strictly_increasing_witness:
  "sorted_wrt ts_less (timestamps_new [7, 7, 9] \<lparr>last_milliseconds = 7, last_increment = 3\<rparr>)"
  using timestamps_strictly_increasing [of "\<lparr>last_milliseconds = 7, last_increment = 3\<rparr>" "[7, 7, 9]"]
  by simp

text \<open>
  The condition on the clock is needed: when the clock steps back by one millisecond
  and returns, a timestamp is handed out twice.
\<close>

theorem timestamp_repeats_after_step_back:
  "\<exists>a b c. timestamps_new [8, 7, 8] \<lparr>last_milliseconds = 7, last_increment = 0\<rparr> = [a, b, c]
     \<and> timestamp_eq a c"
  by (simp add: timestamp_new_def increment_def timestamp_eq_def)

end
