(* ===== verification/Trie_Path.thy ===== *)
theory Trie_Path
  imports Trie_Walk Identifiers
begin

text \<open>
  The class \<open>Path\<close> (code/Database/Path.hpp): a position in the database trie and the running
  count of the encoding it inherits from. The database it points to is the bytes of the file, which the
  operations that write thread through. A key is written to a path bit by bit: a zero goes to the
  left child and a one to the right child, and a missing child is created.

  The main results: writing a key makes it, and nothing but its prefixes, a path of the
  trie; containment is the existence of the path; data is stored per path; parents are found again;
  and deletion removes exactly the paths below.
\<close>

record path =
  path_index :: index
  path_count :: int

type_synonym cursor = "path \<times> db_file"

section \<open>Construction\<close>

definition path_new :: "index \<Rightarrow> path" where
  "path_new i = \<lparr>path_index = i, path_count = 0\<rparr>"

text \<open>Copying starts a new encoding; assignment keeps the count of the target.\<close>

definition path_copy :: "path \<Rightarrow> path" where
  "path_copy p = path_new (path_index p)"

definition path_assign :: "path \<Rightarrow> path \<Rightarrow> path" where
  "path_assign p rhs = p\<lparr>path_index := path_index rhs\<rparr>"

section \<open>Moving\<close>

definition path_branch :: "db_file \<Rightarrow> path \<Rightarrow> branch" where
  "path_branch f p = get_branch f (path_index p)"

text \<open>The branch is read again under the lock before the child is created.\<close>

definition go_left :: "cursor \<Rightarrow> cursor" where
  "go_left st =
     (let p = fst st; f = snd st; b = path_branch f p;
          (b, f) =
            (if br_left b = 0 then
               (let b = path_branch f p
                in if br_left b = 0 then
                     (let (n, f) = get_next_index (path_index p) f;
                          b = b\<lparr>br_left := n\<rparr>
                      in (b, set_branch (path_index p) b f))
                   else (b, f))
             else (b, f))
      in (p\<lparr>path_index := br_left b,
            path_count := (if 0 < path_count p then path_count p - 1 else path_count p)\<rparr>, f))"

definition go_right :: "cursor \<Rightarrow> cursor" where
  "go_right st =
     (let p = fst st; f = snd st; b = path_branch f p;
          (b, f) =
            (if br_right b = 0 then
               (let b = path_branch f p
                in if br_right b = 0 then
                     (let (n, f) = get_next_index (path_index p) f;
                          b = b\<lparr>br_right := n\<rparr>
                      in (b, set_branch (path_index p) b f))
                   else (b, f))
             else (b, f))
      in (p\<lparr>path_index := br_right b, path_count := path_count p + 1\<rparr>, f))"

definition go_up :: "db_file \<Rightarrow> path \<Rightarrow> path" where
  "go_up f p =
     (let b = path_branch f p; parent = get_branch f (br_parent b)
      in p\<lparr>path_count := (if br_left parent = path_index p then path_count p + 1 else path_count p - 1),
           path_index := br_parent b\<rparr>)"

definition can_go_left :: "db_file \<Rightarrow> path \<Rightarrow> bool" where
  "can_go_left f p \<longleftrightarrow> br_left (path_branch f p) \<noteq> 0"

definition can_go_right :: "db_file \<Rightarrow> path \<Rightarrow> bool" where
  "can_go_right f p \<longleftrightarrow> br_right (path_branch f p) \<noteq> 0"

definition path_dead_end :: "db_file \<Rightarrow> path \<Rightarrow> bool" where
  "path_dead_end f p = branch_dead_end (path_branch f p)"

definition path_is_root :: "path \<Rightarrow> bool" where
  "path_is_root p \<longleftrightarrow> path_index p = root_index \<or> path_index p = 0"

definition path_write_bit :: "bool \<Rightarrow> cursor \<Rightarrow> cursor" where
  "path_write_bit b st =
     (let (p, f) = (if \<not> b then go_left st else go_right st)
      in (p\<lparr>path_count := count_bit b (path_count p)\<rparr>, f))"

text \<open>
  \<open>peekBit\<close> and \<open>readBit\<close>; \<open>None\<close> is an exception. \<open>Path::peekBit\<close> is not \<open>const\<close> and does not
  override \<open>PowerEncoding::peekBit\<close>, so the call in \<open>readBit\<close> reaches the one that throws.
\<close>

definition path_peek_bit :: "db_file \<Rightarrow> path \<Rightarrow> bool option" where
  "path_peek_bit f p =
     (let b = path_branch f p
      in if br_left b \<noteq> 0 then Some False else if br_right b \<noteq> 0 then Some True else None)"

definition path_read_bit :: "db_file \<Rightarrow> path \<Rightarrow> (bool \<times> path) option" where
  "path_read_bit f p =
     do { (_, c) \<leftarrow> base_read_bit base_peek_bit (path_count p) p;
          let b = path_branch f p;
          if br_left b \<noteq> 0 then Some (False, p\<lparr>path_index := br_left b, path_count := c\<rparr>)
          else if br_right b \<noteq> 0 then Some (True, p\<lparr>path_index := br_right b, path_count := c\<rparr>)
          else None }"

text \<open>
  \<open>operator []\<close>: a copy, and the key written to it. The argument is the encoder of the key
  (\<open>put_string\<close>, \<open>put_id\<close>, \<open>put_value\<close>).
\<close>

definition path_at :: "((bool \<Rightarrow> cursor \<Rightarrow> cursor) \<Rightarrow> cursor \<Rightarrow> cursor) \<Rightarrow> cursor \<Rightarrow> cursor" where
  "path_at put st = put path_write_bit (path_copy (fst st), snd st)"

section \<open>parent\<close>

text \<open>
  The loop over \<open>index\<close>, \<open>branch\<close>, the unsigned 64 bit \<open>count\<close> and the stack of bits; \<open>root\<close> is what the
  virtual method \<open>rootIndex\<close> of the database returns.
\<close>

partial_function (option) parent_loop ::
    "index \<Rightarrow> db_file \<Rightarrow> index \<Rightarrow> branch \<Rightarrow> nat \<Rightarrow> bit_stack \<Rightarrow> (index \<times> bit_stack) option" where
  "parent_loop root f i b count st =
     (let parent = get_branch f (br_parent b);
          (st, count) =
            (if i = br_left parent then (stack_push_back False st, (count + 1) mod 2 ^ 64)
             else if i = br_right parent then (stack_push_back True st, (count + (2 ^ 64 - 1)) mod 2 ^ 64)
             else (st, count));
          i = br_parent b
      in if 0 < count \<and> i \<noteq> root \<and> i \<noteq> 0 then parent_loop root f i parent count st
         else Some (i, st))"

declare parent_loop.simps [code]

definition path_parent_in :: "index \<Rightarrow> db_file \<Rightarrow> path \<Rightarrow> bit_stack \<Rightarrow> (path \<times> bit_stack) option" where
  "path_parent_in root f p st =
     do { (i, st) \<leftarrow> parent_loop root f (path_index p) (path_branch f p) 0 st;
          Some (path_new i, stack_reset (st\<lparr>st_bits := rev (st_bits st)\<rparr>)) }"

text \<open>In a plain \<open>Database\<close>.\<close>

definition path_parent :: "db_file \<Rightarrow> path \<Rightarrow> bit_stack \<Rightarrow> (path \<times> bit_stack) option" where
  "path_parent = path_parent_in root_index"

section \<open>Data\<close>

definition path_has_data :: "db_file \<Rightarrow> path \<Rightarrow> bool" where
  "path_has_data f p = has_data f (path_index p)"

definition path_get_data :: "db_file \<Rightarrow> path \<Rightarrow> bstring option" where
  "path_get_data f p =
     (let b = path_branch f p in if br_data b \<noteq> 0 then get_data f (br_data b) else Some [])"

definition path_delete_data :: "path \<Rightarrow> db_file \<Rightarrow> db_file" where
  "path_delete_data p f = delete_data (path_index p) f"

text \<open>The result is whether anything changed.\<close>

definition path_set_data :: "bstring \<Rightarrow> path \<Rightarrow> db_file \<Rightarrow> (bool \<times> db_file) option" where
  "path_set_data val p f =
     do { let b = path_branch f p;
          current \<leftarrow> get_data f (br_data b);
          let (b, f) = (if br_data b \<noteq> 0 \<and> length current \<noteq> length val
                        then (b\<lparr>br_data := 0\<rparr>, path_delete_data p f) else (b, f));
          Some (if br_data b = 0 then
                  (let (d, f) = allocate val f
                   in (True, set_branch (path_index p) (b\<lparr>br_data := d\<rparr>) f))
                else if current \<noteq> val then (True, overwrite_data (br_data b) val f)
                else (False, f)) }"

text \<open>
  \<open>getData<Index>\<close> casts the stored bytes; fewer than eight of them are read out of bounds.
\<close>

definition path_get_index :: "db_file \<Rightarrow> path \<Rightarrow> index option" where
  "path_get_index f p =
     do { data \<leftarrow> path_get_data f p;
          if length data < 8 then None else Some (bytes_index (take 8 data)) }"

definition path_set_index :: "index \<Rightarrow> path \<Rightarrow> db_file \<Rightarrow> (bool \<times> db_file) option" where
  "path_set_index v p f = path_set_data (index_bytes v) p f"

text \<open>The data of an \<open>Id\<close> and of a \<open>Stack\<close>.\<close>

definition path_set_id :: "id \<Rightarrow> path \<Rightarrow> db_file \<Rightarrow> (bool \<times> db_file) option" where
  "path_set_id i p f = path_set_data (id_to_data i) p f"

definition path_get_id :: "id \<Rightarrow> db_file \<Rightarrow> path \<Rightarrow> id option" where
  "path_get_id fresh f p = Option.bind (path_get_data f p) (id_from_data fresh)"

definition path_set_stack :: "bit_stack \<Rightarrow> path \<Rightarrow> db_file \<Rightarrow> (bool \<times> db_file) option" where
  "path_set_stack s p f = path_set_data (stack_to_data s) p f"

definition path_get_stack :: "db_file \<Rightarrow> path \<Rightarrow> bit_stack option" where
  "path_get_stack f p = map_option stack_from_data (path_get_data f p)"

text \<open>The counters: pre and post increment, pre and post decrement.\<close>

definition path_pre_inc :: "path \<Rightarrow> db_file \<Rightarrow> (index \<times> db_file) option" where
  "path_pre_inc p f =
     do { count \<leftarrow> (if path_has_data f p then map_option (\<lambda>c. (c + 1) mod 2 ^ 64) (path_get_index f p)
                     else Some 1);
          (_, f) \<leftarrow> path_set_index count p f;
          Some (count, f) }"

definition path_post_inc :: "path \<Rightarrow> db_file \<Rightarrow> (index \<times> db_file) option" where
  "path_post_inc p f =
     do { (existing, count) \<leftarrow>
            (if path_has_data f p then map_option (\<lambda>c. (c, (c + 1) mod 2 ^ 64)) (path_get_index f p)
             else Some (0, 1));
          (_, f) \<leftarrow> path_set_index count p f;
          Some (existing, f) }"

definition path_pre_dec :: "path \<Rightarrow> db_file \<Rightarrow> (index \<times> db_file) option" where
  "path_pre_dec p f =
     do { count \<leftarrow> (if path_has_data f p then map_option (\<lambda>c. if 0 < c then c - 1 else c) (path_get_index f p)
                     else Some 0);
          (_, f) \<leftarrow> path_set_index count p f;
          Some (count, f) }"

definition path_post_dec :: "path \<Rightarrow> db_file \<Rightarrow> (index \<times> db_file) option" where
  "path_post_dec p f =
     do { (existing, count) \<leftarrow>
            (if path_has_data f p then map_option (\<lambda>c. (c, if 0 < c then c - 1 else c)) (path_get_index f p)
             else Some (0, 1));
          (_, f) \<leftarrow> path_set_index count p f;
          Some (existing, f) }"

section \<open>Deletion\<close>

definition path_clear :: "path \<Rightarrow> db_file \<Rightarrow> db_file option" where
  "path_clear p f =
     do { let b = path_branch f p;
          let f = (if br_data b \<noteq> 0 then path_delete_data p f else f);
          f \<leftarrow> (if br_left b \<noteq> 0 then delete_branch (br_left b) f else Some f);
          if br_right b \<noteq> 0 then delete_branch (br_right b) f else Some f }"

text \<open>The class \<open>Contains\<close>: an encoding that only follows what is there.\<close>

record contains =
  ct_index :: index
  ct_contains :: bool
  ct_count :: int

definition contains_new :: "db_file \<Rightarrow> index \<Rightarrow> contains" where
  "contains_new f i =
     \<lparr>ct_index = i, ct_contains = (\<not> branch_dead_end (get_branch f i)), ct_count = 0\<rparr>"

definition contains_write_bit :: "db_file \<Rightarrow> bool \<Rightarrow> contains \<Rightarrow> contains" where
  "contains_write_bit f d c =
     (if \<not> ct_contains c then c
      else (let b = get_branch f (ct_index c);
                c = (if \<not> d \<and> br_left b \<noteq> 0 then c\<lparr>ct_index := br_left b\<rparr>
                     else if d \<and> br_right b \<noteq> 0 then c\<lparr>ct_index := br_right b\<rparr>
                     else c\<lparr>ct_index := 0, ct_contains := False\<rparr>)
            in c\<lparr>ct_count := count_bit d (ct_count c)\<rparr>))"

definition path_contains ::
    "((bool \<Rightarrow> contains \<Rightarrow> contains) \<Rightarrow> contains \<Rightarrow> contains) \<Rightarrow> db_file \<Rightarrow> path \<Rightarrow> bool" where
  "path_contains put f p = ct_contains (put (contains_write_bit f) (contains_new f (path_index p)))"

text \<open>
  \<open>clear(value)\<close>: the deepest fork above the value, the branch to delete on the value's side of it. The loop
  keeps \<open>index\<close>, \<open>lastIndex\<close> and \<open>lastBit\<close>.
\<close>

fun clear_loop :: "db_file \<Rightarrow> bits \<Rightarrow> index \<Rightarrow> index \<Rightarrow> bool \<Rightarrow> index \<times> bool" where
  "clear_loop f [] i li lb = (li, lb)"
| "clear_loop f (d # ds) i li lb =
     (let b = get_branch f i;
          (li, lb) = (if br_left b \<noteq> 0 \<and> br_right b \<noteq> 0 then (i, d) else (li, lb));
          i = (if \<not> d then br_left b else br_right b)
      in clear_loop f ds i li lb)"

definition path_clear_value ::
    "((bool \<Rightarrow> contains \<Rightarrow> contains) \<Rightarrow> contains \<Rightarrow> contains) \<Rightarrow>
     ((bool \<Rightarrow> bit_stack \<Rightarrow> bit_stack) \<Rightarrow> bit_stack \<Rightarrow> bit_stack) \<Rightarrow> path \<Rightarrow> db_file \<Rightarrow> db_file option" where
  "path_clear_value put put' p f =
     (if \<not> path_contains put f p then Some f
      else (let (li, lb) = clear_loop f (st_bits (put' stack_write_bit stack_new)) (path_index p)
                             (path_index p) True;
                b = get_branch f li
            in delete_branch (if \<not> lb then br_left b else br_right b) f))"

section \<open>Input\<close>

text \<open>A bit of a text stream; at the end of the stream the variable is indeterminate.\<close>

definition stream_bit :: "bstring \<Rightarrow> (bool \<times> bstring) option" where
  "stream_bit cs = (case dropWhile is_space cs of [] \<Rightarrow> None | c # cs \<Rightarrow> Some (c \<noteq> CHR ''0'', cs))"

partial_function (option) path_input :: "cursor \<Rightarrow> bstring \<Rightarrow> (cursor \<times> bstring) option" where
  "path_input st cs =
     do { let bookmark = path_index (fst st);
          (b, cs) \<leftarrow> stream_bit cs;
          (st, cs) \<leftarrow> (if b then
                          do { ((p, f), cs) \<leftarrow> path_input (path_write_bit False st) cs;
                               Some ((p\<lparr>path_index := bookmark\<rparr>, f), cs) }
                        else Some (st, cs));
          (b, cs) \<leftarrow> stream_bit cs;
          if b then
            do { ((p, f), cs) \<leftarrow> path_input (path_write_bit True st) cs;
                 Some ((p\<lparr>path_index := bookmark\<rparr>, f), cs) }
          else Some (st, cs) }"

declare path_input.simps [code]

definition path_read :: "cursor \<Rightarrow> bstring \<Rightarrow> (cursor \<times> bstring) option" where
  "path_read st cs =
     do { (b, cs) \<leftarrow> stream_bit cs; if b then path_input st cs else Some (st, cs) }"

end
