(* ===== verification/Path_Facts.thy ===== *)
theory Path_Facts
  imports Trie_Path
begin

text \<open>
  Correctness of the operations of \<open>Path\<close> (theory \<open>Trie_Path\<close>) on a database file that
  satisfies the invariant: insertion, containment, movement up and down, parents and data.
\<close>

section \<open>Growing a trie\<close>

text \<open>
  \<open>grown f N E g N' E'\<close>: \<open>g\<close> has all branches of \<open>f\<close>, with the links and the data they had, and its
  new branches hold no data and lead to no old branch.
\<close>

definition grown ::
    "db_file \<Rightarrow> nat set \<Rightarrow> db_file \<Rightarrow> nat set \<Rightarrow> bool" where
  "grown f N g N' \<longleftrightarrow> N \<subseteq> N' \<and>
     (\<forall>j \<in> N. br_data (get_branch g j) = br_data (get_branch f j) \<and> node_data g j = node_data f j \<and>
        (\<forall>e. child e (get_branch f j) \<noteq> 0 \<longrightarrow> child e (get_branch g j) = child e (get_branch f j))) \<and>
     (\<forall>j \<in> N' - N. br_data (get_branch g j) = 0) \<and>
     (\<forall>j \<in> N'. \<forall>e. child e (get_branch g j) \<in> N - {0} \<longrightarrow>
        j \<in> N \<and> child e (get_branch f j) = child e (get_branch g j))"

lemma grown_refl: "grown f N f N"
  by (simp add: grown_def)

lemma grownD:
  assumes "grown f N g N'"
  shows "N \<subseteq> N'"
    and "j \<in> N \<Longrightarrow> br_data (get_branch g j) = br_data (get_branch f j)"
    and "j \<in> N \<Longrightarrow> node_data g j = node_data f j"
    and "j \<in> N \<Longrightarrow> child e (get_branch f j) \<noteq> 0 \<Longrightarrow> child e (get_branch g j) = child e (get_branch f j)"
    and "j \<in> N' \<Longrightarrow> j \<notin> N \<Longrightarrow> br_data (get_branch g j) = 0"
    and "j \<in> N' \<Longrightarrow> child e (get_branch g j) = c \<Longrightarrow> c \<in> N \<Longrightarrow> c \<noteq> 0 \<Longrightarrow> j \<in> N"
    and "j \<in> N' \<Longrightarrow> child e (get_branch g j) = c \<Longrightarrow> c \<in> N \<Longrightarrow> c \<noteq> 0 \<Longrightarrow> child e (get_branch f j) = c"
proof -
  from assms have sub: "N \<subseteq> N'" and new: "\<forall>j \<in> N' - N. br_data (get_branch g j) = 0"
    and keep: "\<forall>j \<in> N. br_data (get_branch g j) = br_data (get_branch f j) \<and> node_data g j = node_data f j \<and>
        (\<forall>e. child e (get_branch f j) \<noteq> 0 \<longrightarrow> child e (get_branch g j) = child e (get_branch f j))"
    and old: "\<forall>j \<in> N'. \<forall>e. child e (get_branch g j) \<in> N - {0} \<longrightarrow>
        j \<in> N \<and> child e (get_branch f j) = child e (get_branch g j)"
    unfolding grown_def by blast+
  show "N \<subseteq> N'" by (rule sub)
  show "br_data (get_branch g j) = br_data (get_branch f j)" "node_data g j = node_data f j" if "j \<in> N"
    using keep that by blast+
  show "child e (get_branch g j) = child e (get_branch f j)" if "j \<in> N" "child e (get_branch f j) \<noteq> 0"
    using keep that by blast
  show "br_data (get_branch g j) = 0" if "j \<in> N'" "j \<notin> N" using new that by blast
  show "j \<in> N" "child e (get_branch f j) = c"
    if "j \<in> N'" "child e (get_branch g j) = c" "c \<in> N" "c \<noteq> 0"
    using old [rule_format, of j e] that by simp_all
qed

lemma grownI:
  assumes "N \<subseteq> N'" and "\<And>j. j \<in> N \<Longrightarrow> br_data (get_branch g j) = br_data (get_branch f j)"
    and "\<And>j. j \<in> N \<Longrightarrow> node_data g j = node_data f j"
    and "\<And>j e. j \<in> N \<Longrightarrow> child e (get_branch f j) \<noteq> 0 \<Longrightarrow> child e (get_branch g j) = child e (get_branch f j)"
    and "\<And>j. j \<in> N' \<Longrightarrow> j \<notin> N \<Longrightarrow> br_data (get_branch g j) = 0"
    and "\<And>j e. j \<in> N' \<Longrightarrow> child e (get_branch g j) \<in> N - {0} \<Longrightarrow>
      j \<in> N \<and> child e (get_branch f j) = child e (get_branch g j)"
  shows "grown f N g N'"
  unfolding grown_def
proof (intro conjI ballI allI impI)
  show "br_data (get_branch g j) = 0" if "j \<in> N' - N" for j using that assms(5) by blast
  show "j \<in> N" "child e (get_branch f j) = child e (get_branch g j)"
    if "j \<in> N'" "child e (get_branch g j) \<in> N - {0}" for j e
    using assms(6) [OF that] by blast+
qed (rule assms; assumption)+

lemma grown_trans:
  assumes fg: "grown f N g M" and gh: "grown g M h L"
  shows "grown f N h L"
proof -
  note sub = grownD(1) [OF fg] grownD(1) [OF gh]
  have "br_data (get_branch h j) = br_data (get_branch f j)" "node_data h j = node_data f j" if "j \<in> N" for j
    using that sub grownD(2,3) [OF fg that] grownD(2,3) [OF gh, of j] by auto
  moreover have "child e (get_branch h j) = child e (get_branch f j)"
    if "j \<in> N" "child e (get_branch f j) \<noteq> 0" for j e
    using that(2) sub(1) grownD(4) [OF fg that] grownD(4) [OF gh subsetD [OF sub(1) that(1)], of e] by simp
  moreover have "br_data (get_branch h j) = 0" if "j \<in> L" "j \<notin> N" for j
    using that grownD(5) [OF gh that(1)] grownD(2) [OF gh, of j] grownD(5) [OF fg _ that(2)]
    by (cases "j \<in> M") auto
  moreover have "j \<in> N \<and> child e (get_branch f j) = child e (get_branch h j)"
    if j: "j \<in> L" "child e (get_branch h j) \<in> N - {0}" for j e
  proof -
    from j sub have c: "child e (get_branch h j) \<in> M" "child e (get_branch h j) \<noteq> 0" by auto
    note g = grownD(6,7) [OF gh j(1) refl c]
    from j have c': "child e (get_branch h j) \<in> N" by simp
    from grownD(6,7) [OF fg g c' c(2)] show ?thesis by simp
  qed
  ultimately show ?thesis using sub unfolding grown_def by blast
qed

lemma walk_grown:
  assumes "db_inv f N E" and "grown f N g N'" and "i \<in> N" and "walk f i p = Some j"
  shows "walk g i p = Some j"
  using assms(3,4)
proof (induction p arbitrary: i)
  case (Cons b p)
  then have c: "child b (get_branch f i) \<noteq> 0" "walk f (child b (get_branch f i)) p = Some j"
    by (simp_all add: Let_def split: if_splits)
  with assms(2) Cons.prems(1) have "child b (get_branch g i) = child b (get_branch f i)"
    by (simp add: grown_def)
  with Cons.IH [OF inv_child(1) [OF assms(1) Cons.prems(1) refl c(1)] c(2)] c(1) show ?case
    by (simp add: Let_def)
qed simp

section \<open>One step down\<close>

definition go_dir :: "bool \<Rightarrow> cursor \<Rightarrow> cursor" where
  "go_dir b st = (if \<not> b then go_left st else go_right st)"

lemma go_dir_cases:
  fixes b p f
  defines "c \<equiv> child b (path_branch f p)"
  defines "n \<equiv> length f"
  defines "m \<equiv> (if b then path_count p + 1 else if 0 < path_count p then path_count p - 1 else path_count p)"
  shows "c \<noteq> 0 \<Longrightarrow> go_dir b (p, f) = (p\<lparr>path_index := c, path_count := m\<rparr>, f)"
    and "c = 0 \<Longrightarrow> go_dir b (p, f) = (p\<lparr>path_index := n, path_count := m\<rparr>,
           set_branch (path_index p) (with_child b n (path_branch f p)) (snd (get_next_index (path_index p) f)))"
  unfolding c_def n_def m_def
  by (cases b; simp add: go_dir_def go_left_def go_right_def Let_def child_def with_child_def get_next_index_def)+

lemma path_write_bit_go: "path_write_bit b st =
    ((fst (go_dir b st))\<lparr>path_count := count_bit b (path_count (fst (go_dir b st)))\<rparr>, snd (go_dir b st))"
  by (simp add: path_write_bit_def go_dir_def split_beta)

text \<open>A step from the path \<open>pre\<close>: the paths gain at most \<open>pre @ [b]\<close>.\<close>

lemma go_dir_step:
  assumes inv: "db_inv f N E" and pre: "walk f 0 pre = Some (path_index p)" and len: "length f + 32 \<le> 2 ^ 64"
    and go: "go_dir b (p, f) = (q, g)"
  shows "\<exists>N' E'. db_inv g N' E' \<and> grown f N g N' \<and> length g \<le> length f + 32 \<and>
    walk g 0 (pre @ [b]) = Some (path_index q) \<and> paths g 0 = insert (pre @ [b]) (paths f 0)"
proof (cases "child b (path_branch f p) = 0")
  case False
  with go go_dir_cases(1) [of b f p] have "g = f" "path_index q = child b (path_branch f p)" by auto
  moreover from this False pre have "walk f 0 (pre @ [b]) = Some (path_index q)"
    by (auto simp: walk_snoc path_branch_def)
  ultimately show ?thesis using inv grown_refl [of f N] by (auto simp: paths_def)
next
  case True
  define i where "i = path_index p"
  define n where "n = length f"
  obtain h where new: "get_next_index i f = (n, h)"
    by (simp add: get_next_index_def n_def Let_def)
  note root = inv_root [OF inv]
  from walk_in [OF inv root pre] have i: "i \<in> N" by (simp add: i_def)
  note nb = inv_new_branch [OF inv i len new]
  let ?b = "with_child b n (get_branch f i)"
  from go go_dir_cases(2) [of b f p] True new have g: "g = set_branch i ?b h" and q: "path_index q = n"
    by (auto simp: i_def n_def path_branch_def)
  have i': "i \<in> insert n N" and ghi: "get_branch h i = get_branch f i" using i nb(7) by auto
  have "n < 2 ^ 64" using len by (simp add: n_def)
  then have fits: "branch_fits ?b"
    using get_branch_fits [of f i] by (cases b) (auto simp: branch_fits_def with_child_def)
  note get = get_branch_update [OF nb(5) i' _ fits, folded g]
  have i_n: "i < n" using inv_node(3) [OF inv i] by (simp add: n_def)
  have kid: "child_ok h (insert n N) i (child e ?b)" for e
    using inv_node(5) [OF nb(5) i', of e] i_n nb(6) ghi by (cases "e = b") (auto simp: child_ok_def)
  have other: "child (\<not> b) (get_branch f i) \<noteq> n"
    using inv_child(1) [OF inv i refl] nb(2,3) by fastforce
  have sep: "child True ?b = 0" if "child False ?b = child True ?b"
    using that other by (cases b) (auto simp: with_child_def child_def)
  have own: "br_data (get_branch h j) \<noteq> br_data ?b" if "j \<in> insert n N" "j \<noteq> i" "br_data ?b \<noteq> 0" for j
    using inv_unshared [OF nb(5) i' that(1)] that ghi by (metis with_child_simps(5))
  have ig: "db_inv g (insert n N) (E(n \<mapsto> 32))" unfolding g
    by (rule inv_update [OF nb(5) i' fits _ kid sep _ own])
      (simp_all add: ghi [symmetric] inv_node(6) [OF nb(5) i'])
  have data: "node_data g j = node_data f j" if j: "j \<in> N" for j
  proof -
    have E: "extents_ok f E" using inv by (simp add: db_inv_def)
    have d: "data_ok f N E (br_data (get_branch f j))" by (rule inv_node(6) [OF inv j])
    have j': "j \<in> insert n N" using j by simp
    have "get_data h (br_data (get_branch f j)) = get_data f (br_data (get_branch f j))"
      using frame_data [OF frame_append [OF E] E d, of "branch_bytes (branch_new i)"] new
      by (auto simp: get_next_index_def n_def file_write_end Let_def)
    moreover have "get_data g (br_data (get_branch f j)) = get_data h (br_data (get_branch f j))"
    proof (cases "br_data (get_branch f j) = 0")
      case False
      note dh = inv_node(6) [OF nb(5) j']
      from dh False i' nb(7) [OF j] have "br_data (get_branch h j) \<notin> {i}" by (auto simp: data_ok_def)
      from frame_data [OF frame_set_branch [OF inv_node(1,2) [OF nb(5) i']] inv_node(1) [OF nb(5) i'] dh this]
      show ?thesis using nb(7) [OF j] by (simp add: g)
    qed (simp add: get_data_def)
    ultimately show ?thesis using get [OF j'] nb(7) [OF j] i by (auto simp: node_data_def ghi)
  qed
  have gr: "grown f N g (insert n N)"
  proof -
    have none: "child b (get_branch f i) = 0" using True by (simp add: i_def path_branch_def)
    have keep: "child e (get_branch g j) = child e (get_branch f j)"
      if "j \<in> N" "child e (get_branch f j) \<noteq> 0" for j e
      using that get [of j] nb(7) [OF that(1)] none by (cases "e = b") auto
    have same: "br_data (get_branch g j) = br_data (get_branch f j)" if "j \<in> N" for j
      using that get [of j] nb(7) [OF that] by auto
    have new: "br_data (get_branch g j) = 0" if "j \<in> insert n N" "j \<notin> N" for j
      using that get [of n] nb(6) i_n by auto
    have old: "j \<in> N \<and> child e (get_branch f j) = child e (get_branch g j)"
      if j: "j \<in> insert n N" "child e (get_branch g j) \<in> N - {0}" for j e
    proof (cases "j = i")
      case True
      have "e \<noteq> b"
      proof
        assume "e = b"
        with True get [OF i'] j(2) nb(2) show False by simp
      qed
      with True get [OF i'] i show ?thesis by simp
    next
      case False
      with get [OF j(1)] j nb(6) have "j \<noteq> n" by auto
      with False j(1) get [OF j(1)] nb(7) [of j] show ?thesis by simp
    qed
    have "N \<subseteq> insert n N" by blast
    from grownI [OF this same data keep new old] show ?thesis .
  qed
  have wn: "walk g 0 (pre @ [b]) = Some n"
    using walk_grown [OF inv gr root pre] get [OF i'] nb(3) by (simp add: walk_snoc i_def)
  have "q \<in> insert (pre @ [b]) (paths f 0)" if "q \<in> paths g 0" for q
    using that
  proof (induction q rule: rev_induct)
    case (snoc e q)
    then obtain j where j: "walk g 0 q = Some j" "child e (get_branch g j) \<noteq> 0"
      by (auto simp: paths_def walk_snoc)
    from snoc paths_prefix [of q "[e]"] have "q = pre @ [b] \<or> q \<in> paths f 0" by auto
    then show ?case
    proof
      assume "q = pre @ [b]"
      with wn j have "j = n" by simp
      with j(2) get [of n] nb(6) i_n show ?thesis by auto
    next
      assume "q \<in> paths f 0"
      then obtain k where k: "walk f 0 q = Some k" by (auto simp: paths_def)
      with walk_grown [OF inv gr root k] j have kj: "k = j" by simp
      with walk_in [OF inv root k] have jN: "j \<in> N" by simp
      show ?thesis
      proof (cases "j = i \<and> e = b")
        case True
        with walk_unique [OF inv root k, of pre] pre kj show ?thesis by (simp add: i_def)
      next
        case False
        with get [of j] jN nb(7) [OF jN] j(2) ghi have "child e (get_branch f j) \<noteq> 0"
          by (auto split: if_splits)
        with k kj show ?thesis by (simp add: paths_step)
      qed
    qed
  qed simp
  moreover have "paths f 0 \<subseteq> paths g 0" using walk_grown [OF inv gr root] by (auto simp: paths_def)
  moreover have "pre @ [b] \<in> paths g 0" using wn by (simp add: paths_def)
  ultimately have "paths g 0 = insert (pre @ [b]) (paths f 0)" by blast
  with ig gr wn nb(4) q inv_node(3) [OF nb(5) i'] show ?thesis
    by (intro exI [of _ "insert n N"] exI [of _ "E(n \<mapsto> 32)"]) (simp add: g)
qed


section \<open>Writing a key\<close>

lemma path_write_bits:
  assumes "db_inv f N E" and "walk f 0 pre = Some (path_index p)" and "length f + 32 * length bs \<le> 2 ^ 64"
    and "fold path_write_bit bs (p, f) = (q, g)"
  shows "\<exists>N' E'. db_inv g N' E' \<and> grown f N g N' \<and> length g \<le> length f + 32 * length bs \<and>
    walk g 0 (pre @ bs) = Some (path_index q) \<and> paths g 0 = paths f 0 \<union> {r. prefix r (pre @ bs)}"
  using assms
proof (induction bs arbitrary: f N E pre p)
  case Nil
  then have "paths f 0 = paths f 0 \<union> {r. prefix r pre}" by (auto simp: paths_def walk_append split: bind_splits elim!: prefixE)
  with Nil grown_refl [of f N] show ?case by auto
next
  case (Cons b bs)
  obtain p1 f1 where go: "go_dir b (p, f) = (p1, f1)" by force
  let ?p1 = "p1\<lparr>path_count := count_bit b (path_count p1)\<rparr>"
  from go_dir_step [OF Cons.prems(1,2) _ go] Cons.prems(3) obtain N1 E1 where
    s: "db_inv f1 N1 E1" "grown f N f1 N1" "length f1 \<le> length f + 32"
      "walk f1 0 (pre @ [b]) = Some (path_index ?p1)" "paths f1 0 = insert (pre @ [b]) (paths f 0)" by auto
  have fold: "fold path_write_bit bs (?p1, f1) = (q, g)"
    using Cons.prems(4) by (simp add: path_write_bit_go [of b "(p, f)"] go)
  have len: "length f1 + 32 * length bs \<le> 2 ^ 64" using Cons.prems(3) s(3) by simp
  from Cons.IH [OF s(1,4) len fold] obtain N' E' where
    "db_inv g N' E'" "grown f1 N1 g N'" "length g \<le> length f1 + 32 * length bs"
    "walk g 0 (pre @ b # bs) = Some (path_index q)"
    "paths g 0 = insert (pre @ [b]) (paths f 0) \<union> {r. prefix r (pre @ b # bs)}"
    by (auto simp: s(5))
  moreover have "prefix (pre @ [b]) (pre @ b # bs)" by simp
  ultimately show ?case using grown_trans [OF s(2)] s(3)
    by (intro exI [of _ N'] exI [of _ E']) auto
qed

lemma path_at_bits:
  assumes "\<And>st. put path_write_bit st = fold path_write_bit bs st"
  shows "path_at put (p, f) = fold path_write_bit bs (path_copy p, f)"
  using assms by (simp add: path_at_def)

section \<open>Containment\<close>

lemma contains_bits:
  "ct_contains c \<Longrightarrow> ct_contains (fold (contains_write_bit f) bs c) \<longleftrightarrow> walk f (ct_index c) bs \<noteq> None"
  "\<not> ct_contains c \<Longrightarrow> fold (contains_write_bit f) bs c = c"
proof -
  have stop: "\<not> ct_contains c \<Longrightarrow> fold (contains_write_bit f) ds c = c" for c ds
    by (induction ds) (simp_all add: contains_write_bit_def)
  then show "\<not> ct_contains c \<Longrightarrow> fold (contains_write_bit f) bs c = c" .
  show "ct_contains c \<Longrightarrow> ct_contains (fold (contains_write_bit f) bs c) \<longleftrightarrow> walk f (ct_index c) bs \<noteq> None"
  proof (induction bs arbitrary: c)
    case (Cons b bs c)
    let ?c = "contains_write_bit f b c" and ?i = "child b (get_branch f (ct_index c))"
    show ?case
    proof (cases "?i = 0")
      case True
      with Cons.prems have "\<not> ct_contains ?c"
        by (cases b) (simp_all add: contains_write_bit_def child_def Let_def)
      with True stop [OF this] show ?thesis by simp
    next
      case False
      with Cons.prems have "ct_contains ?c" "ct_index ?c = ?i"
        by (cases b; simp add: contains_write_bit_def child_def Let_def)+
      with False Cons.IH [of ?c] show ?thesis by (simp add: Let_def)
    qed
  qed simp
qed

lemma path_contains_bits:
  assumes "\<And>st. put (contains_write_bit f) st = fold (contains_write_bit f) bs st" and "bs \<noteq> []"
  shows "path_contains put f p \<longleftrightarrow> walk f (path_index p) bs \<noteq> None"
proof (cases "branch_dead_end (get_branch f (path_index p))")
  case True
  then have "walk f (path_index p) bs = None"
    using assms(2) by (cases bs) (auto simp: branch_dead_end_def child_def Let_def)
  with True assms(1) contains_bits(2) [of "contains_new f (path_index p)" f bs] show ?thesis
    by (simp add: path_contains_def contains_new_def)
next
  case False
  with assms(1) contains_bits(1) [of "contains_new f (path_index p)" f bs] show ?thesis
    by (simp add: path_contains_def contains_new_def)
qed

lemma path_contains_string:
  "path_contains (\<lambda>wb. put_string wb key) f p \<longleftrightarrow> walk f (path_index p) (string_code key) \<noteq> None"
  using path_contains_bits [of "\<lambda>wb. put_string wb key" f "string_code key" p] string_code_complete [of key]
  by (auto simp: code_lens complete_code_def)

section \<open>Moving up\<close>

lemma go_up_step:
  assumes inv: "db_inv f N E" and "walk f 0 (pre @ [b]) = Some (path_index p)"
  shows "walk f 0 pre = Some (path_index (go_up f p))"
    and "path_count (go_up f p) = path_count p - bit_weight b"
proof -
  from assms(2) obtain i where i: "walk f 0 pre = Some i" "child b (get_branch f i) = path_index p" "path_index p \<noteq> 0"
    by (auto simp: walk_snoc)
  have iN: "i \<in> N" using walk_in [OF inv inv_root [OF inv] i(1)] by simp
  note k = inv_child(3) [OF inv iN i(2,3)]
  with i show "walk f 0 pre = Some (path_index (go_up f p))"
    by (simp add: go_up_def path_branch_def Let_def)
  have "br_left (get_branch f i) = path_index p \<longleftrightarrow> \<not> b"
    using i(2,3) inv_node(7) [OF inv iN] by (cases b) (auto simp: child_def)
  with k show "path_count (go_up f p) = path_count p - bit_weight b"
    by (simp add: go_up_def path_branch_def Let_def bit_weight_if)
qed

lemma parent_loop_prefix:
  assumes inv: "db_inv f N E" and i: "i \<in> N" and code: "complete_code bs"
    and root: "\<And>c. strict_prefix c bs \<Longrightarrow> c \<noteq> [] \<Longrightarrow> walk f i c \<noteq> Some root"
    and "prefix r bs" and "r \<noteq> []" and "walk f i r = Some k"
  shows "parent_loop root f k (get_branch f k) (nat (weight r)) st = Some (i, fold stack_push_back (rev r) st)"
  using assms(5-7)
proof (induction r arbitrary: k st rule: rev_induct)
  case (snoc b r)
  from snoc.prems(3) obtain j where j: "walk f i r = Some j" "child b (get_branch f j) = k" "k \<noteq> 0"
    by (auto simp: walk_snoc)
  have jN: "j \<in> N" "i + length r \<le> j" using walk_in [OF inv i j(1)] by auto
  note k = inv_child [OF inv jN(1) j(2,3)]
  have left: "k = br_left (get_branch f j) \<longleftrightarrow> \<not> b" and right: "b \<Longrightarrow> k = br_right (get_branch f j)"
    using j(2,3) inv_node(7) [OF inv jN(1)] by (cases b; auto simp: child_def)+
  have pr: "prefix r bs" "strict_prefix r bs" using snoc.prems(1) by (auto elim!: prefixE simp: strict_prefix_def)
  have w: "0 \<le> weight r" "0 \<le> weight r + bit_weight b" and pos: "r \<noteq> [] \<Longrightarrow> 1 \<le> weight r"
    using complete_prefix_nonneg [OF code pr(1)] complete_prefix_nonneg [OF code snoc.prems(1)] code pr(2)
    by (auto simp: complete_code_def stays_above_def)
  have "weight r \<le> int (length r)" by (induction r) (auto simp: bit_weight_if)
  moreover have "length r < 2 ^ 64"
    using jN k(2) inv_node(3) [OF inv k(1)] inv by (auto simp: db_inv_def)
  ultimately have small: "nat (weight r) < 2 ^ 64" by linarith
  define c where "c = nat (weight (r @ [b]))"
  have count: "b \<Longrightarrow> (c + (2 ^ 64 - 1)) mod 2 ^ 64 = nat (weight r)"
    "\<not> b \<Longrightarrow> (c + 1) mod 2 ^ 64 = nat (weight r)"
  proof -
    assume b
    then have "c + (2 ^ 64 - 1) = nat (weight r) + 2 ^ 64" using w(1) by (simp add: c_def)
    with small show "(c + (2 ^ 64 - 1)) mod 2 ^ 64 = nat (weight r)" by simp
  next
    assume "\<not> b"
    with w have "c + 1 = nat (weight r)" by (simp add: c_def)
    with small show "(c + 1) mod 2 ^ 64 = nat (weight r)" by simp
  qed
  have step: "parent_loop root f k (get_branch f k) c st =
      (if 0 < nat (weight r) \<and> j \<noteq> root \<and> j \<noteq> 0 then parent_loop root f j (get_branch f j) (nat (weight r)) (stack_push_back b st)
       else Some (j, stack_push_back b st))"
  proof (cases b)
    case True
    with left have l: "(k = br_left (get_branch f j)) = False" by simp
    note r = eqTrueI [OF right [OF True]]
    show ?thesis
      by (subst parent_loop.simps)
        (simp only: Let_def k(3) l r if_True if_False prod.case count(1) [OF True] simp_thms True)
  next
    case False
    with left have l: "(k = br_left (get_branch f j)) = True" by simp
    show ?thesis
      by (subst parent_loop.simps)
        (simp only: Let_def k(3) l if_True if_False prod.case count(2) [OF False] simp_thms False)
  qed
  show ?case
  proof (cases "r = []")
    case True
    with j(1) step show ?thesis by (simp add: c_def)
  next
    case False
    have "0 < j" using jN(2) False by (cases r) auto
    moreover have "j \<noteq> root" using root [OF pr(2) False] j(1) by blast
    ultimately show ?thesis using snoc.IH [OF pr(1) False j(1)] pos [OF False] step
      by (simp add: c_def del: weight_append)
  qed
qed simp

lemma path_parent_in_complete:
  assumes "db_inv f N E" and "i \<in> N" and "complete_code bs" and "walk f i bs = Some (path_index p)"
    and "\<And>c. strict_prefix c bs \<Longrightarrow> c \<noteq> [] \<Longrightarrow> walk f i c \<noteq> Some root"
  shows "\<exists>st. path_parent_in root f p stack_new = Some (path_new i, st) \<and> st_bits st = bs \<and> st_it st = Some 0 \<and>
    st_count st = 0"
proof -
  have "bs \<noteq> []" "weight bs = 0" using assms(3) by (auto simp: complete_code_def)
  with parent_loop_prefix [OF assms(1-3,5) _ _ assms(4), of stack_new] show ?thesis
    by (simp add: path_parent_in_def path_branch_def stack_reset_def fold_push_bits stack_new_def)
qed

lemma path_parent_complete:
  assumes "db_inv f N E" and "i \<in> N" and "complete_code bs" and "walk f i bs = Some (path_index p)"
  shows "\<exists>st. path_parent f p stack_new = Some (path_new i, st) \<and> st_bits st = bs \<and> st_it st = Some 0 \<and>
    st_count st = 0"
proof -
  have "walk f i c \<noteq> Some root_index" if "c \<noteq> []" for c
    using walk_in [OF assms(1,2), of c] that by (auto simp: root_index_def)
  then show ?thesis using path_parent_in_complete [OF assms, of root_index] by (simp add: path_parent_def)
qed

section \<open>The database as a dictionary\<close>

text \<open>
  What a file stores, seen from outside: a finite map from the bits of paths to byte strings. The
  operations of \<open>Path\<close> are operations on this map and on the set of paths.
\<close>

definition value_at :: "db_file \<Rightarrow> index \<Rightarrow> bstring option" where
  "value_at f i = (if has_data f i then node_data f i else None)"

definition entry :: "db_file \<Rightarrow> bits \<Rightarrow> bstring option" where
  "entry f q = Option.bind (walk f 0 q) (value_at f)"

lemma value_at_cong:
  "br_data (get_branch g i) = br_data (get_branch f i) \<Longrightarrow> node_data g i = node_data f i \<Longrightarrow>
   value_at g i = value_at f i"
  by (simp add: value_at_def has_data_def)

lemma entry_walk: "walk f 0 q = Some i \<Longrightarrow> entry f q = value_at f i"
  by (simp add: entry_def)

text \<open>A file of the same shape: only the entry of the one branch can differ.\<close>

lemma entry_point:
  assumes inv: "db_inv f N E" and shape: "same_shape f g N" and pre: "walk f 0 pre = Some i"
    and other: "\<And>j. j \<in> N \<Longrightarrow> j \<noteq> i \<Longrightarrow> value_at g j = value_at f j"
  shows "entry g = (entry f)(pre := value_at g i)"
proof
  fix q
  note w = walk_shape [OF inv shape inv_root [OF inv]]
  show "entry g q = ((entry f)(pre := value_at g i)) q"
  proof (cases "walk f 0 q")
    case None
    with pre w show ?thesis by (auto simp: entry_def)
  next
    case (Some j)
    with walk_in [OF inv inv_root [OF inv]] have "j \<in> N" by blast
    with Some other [of j] pre w walk_unique [OF inv inv_root [OF inv] Some, of pre] show ?thesis
      by (cases "j = i") (auto simp: entry_def)
  qed
qed

lemma paths_shape: "db_inv f N E \<Longrightarrow> same_shape f g N \<Longrightarrow> paths g 0 = paths f 0"
  using walk_shape inv_root by (fastforce simp: paths_def)

lemma walk_grown_old:
  assumes "db_inv g N' E'" and "grown f N g N'" and "walk g 0 q = Some j" and "j \<in> N"
  shows "walk f 0 q = Some j"
  using assms(3,4)
proof (induction q arbitrary: j rule: rev_induct)
  case (snoc e q)
  then obtain k where k: "walk g 0 q = Some k" "child e (get_branch g k) = j" "j \<noteq> 0"
    by (auto simp: walk_snoc)
  from walk_in [OF assms(1) inv_root [OF assms(1)] k(1)] have "k \<in> N'" by simp
  note old = grownD(6,7) [OF assms(2) this k(2) snoc.prems(2) k(3)]
  with snoc.IH [OF k(1)] k(3) show ?case by (simp add: walk_snoc)
qed simp

lemma entry_grown:
  assumes inv: "db_inv f N E" and inv': "db_inv g N' E'" and gr: "grown f N g N'"
  shows "entry g = entry f"
proof
  fix q
  note root = inv_root [OF inv]
  show "entry g q = entry f q"
  proof (cases "walk f 0 q")
    case (Some i)
    from walk_in [OF inv root Some] have "i \<in> N" by simp
    with gr have "value_at g i = value_at f i" by (intro value_at_cong) (simp_all add: grownD)
    with Some walk_grown [OF inv gr root Some] show ?thesis by (simp add: entry_def)
  next
    case None
    have "value_at g j = None" if j: "walk g 0 q = Some j" for j
    proof -
      have "j \<in> N'" using walk_in [OF inv' inv_root [OF inv'] j] by simp
      moreover have "j \<notin> N" using walk_grown_old [OF inv' gr j] None by auto
      ultimately show ?thesis using grownD(5) [OF gr] by (simp add: value_at_def has_data_def)
    qed
    with None show ?thesis by (cases "walk g 0 q") (simp_all add: entry_def)
  qed
qed

lemma entry_cut:
  assumes inv: "db_inv f N E" and pre: "walk f 0 pre = Some p" and i: "child d (get_branch f p) = i" "i \<noteq> 0"
    and cut: "cut N E p d (below f i) f g"
  shows "entry g q = (if prefix (pre @ [d]) q then None else entry f q)"
proof (cases "prefix (pre @ [d]) q \<or> walk f 0 q = None")
  case True
  with cut_walk [OF assms] show ?thesis by (auto simp: entry_def)
next
  case False
  then obtain j where j: "walk f 0 q = Some j" "\<not> prefix (pre @ [d]) q" by auto
  have jN: "j \<in> N" using walk_in [OF inv inv_root [OF inv] j(1)] by simp
  have "j \<notin> below f i"
  proof
    assume "j \<in> below f i"
    then obtain r where "walk f i r = Some j" by (auto simp: below_def)
    with pre i have "walk f 0 (pre @ d # r) = Some j" by (simp add: walk_append Let_def)
    from walk_unique [OF inv inv_root [OF inv] this j(1)] have "prefix (pre @ [d]) q" by auto
    with j(2) show False by simp
  qed
  with cut jN have "node_data g j = node_data f j" "get_branch g p = with_child d 0 (get_branch f p)"
    "j \<noteq> p \<Longrightarrow> get_branch g j = get_branch f j"
    by (simp_all add: cut_def)
  then have "value_at g j = value_at f j" by (intro value_at_cong) (cases "j = p"; simp)+
  with j cut_walk [OF assms] show ?thesis by (simp add: entry_def)
qed

section \<open>Data of a path\<close>

lemma path_get_data_entry:
  assumes "db_inv f N E" and "walk f 0 pre = Some (path_index p)"
  shows "path_get_data f p = Some (case entry f pre of None \<Rightarrow> [] | Some v \<Rightarrow> v)"
    and "path_has_data f p \<longleftrightarrow> entry f pre \<noteq> None"
proof -
  have "path_index p \<in> N" using walk_in [OF assms(1) inv_root [OF assms(1)] assms(2)] by simp
  from get_data_total [OF assms(1) this] obtain v where "node_data f (path_index p) = Some v" ..
  with assms(2) show "path_get_data f p = Some (case entry f pre of None \<Rightarrow> [] | Some v \<Rightarrow> v)"
    "path_has_data f p \<longleftrightarrow> entry f pre \<noteq> None"
    by (auto simp: path_get_data_def path_branch_def entry_def value_at_def has_data_def node_data_def
        path_has_data_def Let_def)
qed

lemma path_delete_data_entry:
  assumes inv: "db_inv f N E" and pre: "walk f 0 pre = Some (path_index p)"
  shows "db_inv (path_delete_data p f) N E" "paths (path_delete_data p f) 0 = paths f 0"
    and "entry (path_delete_data p f) = (entry f)(pre := None)"
proof -
  let ?g = "delete_data (path_index p) f"
  have i: "path_index p \<in> N" using walk_in [OF inv inv_root [OF inv] pre] by simp
  note del = delete_data_correct [OF inv i]
  show "db_inv (path_delete_data p f) N E" "paths (path_delete_data p f) 0 = paths f 0"
    using del(1) paths_shape [OF inv del(2)] by (simp_all add: path_delete_data_def)
  have "value_at ?g (path_index p) = None" using del(3) by (simp add: value_at_def has_data_def)
  moreover have "value_at ?g j = value_at f j" if "j \<in> N" "j \<noteq> path_index p" for j
    using del(5,6) [OF that] by (intro value_at_cong) simp_all
  ultimately show "entry (path_delete_data p f) = (entry f)(pre := None)"
    using entry_point [OF inv del(2) pre] by (simp add: path_delete_data_def)
qed

end
