(* ===== verification/Path_Data.thy ===== *)
theory Path_Data
  imports Path_Facts
begin

text \<open>
  The properties of \<open>Path\<close> as a dictionary: keys are inserted, found, given data and
  cleared. \<open>store_ok f\<close> hides the sets of the invariant; \<open>at_path f p pre\<close> says that the
  path object \<open>p\<close> stands at the bits \<open>pre\<close> of the trie.
\<close>

definition store_ok :: "db_file \<Rightarrow> bool" where
  "store_ok f \<longleftrightarrow> (\<exists>N E. db_inv f N E)"

definition at_path :: "db_file \<Rightarrow> path \<Rightarrow> bits \<Rightarrow> bool" where
  "at_path f p pre \<longleftrightarrow> walk f 0 pre = Some (path_index p)"

lemma at_path_node: "db_inv f N E \<Longrightarrow> at_path f p pre \<Longrightarrow> path_index p \<in> N"
  using walk_in inv_root unfolding at_path_def by blast

lemma at_path_walk: "at_path f p pre \<Longrightarrow> walk f (path_index p) q = walk f 0 (pre @ q)"
  by (simp add: at_path_def walk_append)

text \<open>A new file has the root and nothing else.\<close>

lemma database_new_bytes: "database_new [] = branch_bytes (branch_new 0)"
  by (simp add: database_new_def file_write_def)

lemma database_new_root: "get_branch (database_new []) 0 = branch_new 0"
  by (simp add: database_new_bytes get_branch_region region_def branch_new_fits)

lemma database_new_inv: "db_inv (database_new []) {0} [0 \<mapsto> 32]"
  using database_new_root
  by (auto simp: db_inv_def node_ok_def child_ok_def data_ok_def extents_ok_def database_new_bytes)

lemma database_new_ok: "store_ok (database_new [])"
  using database_new_inv by (auto simp: store_ok_def)

lemma database_new_paths: "paths (database_new []) 0 = {[]}"
proof -
  have "walk (database_new []) 0 q = None" if "q \<noteq> []" for q
    using that database_new_root by (cases q) (auto simp: Let_def)
  then show ?thesis by (fastforce simp: paths_def)
qed

lemma database_new_entry: "entry (database_new []) = Map.empty"
proof
  fix q
  show "entry (database_new []) q = None"
    using database_new_root database_new_paths
    by (cases q) (auto simp: entry_def value_at_def has_data_def Let_def)
qed

section \<open>setData\<close>

lemma path_set_data_entry:
  assumes inv: "db_inv f N E" and pre: "at_path f p pre" and len: "length f + 8 + length v \<le> 2 ^ 64"
  shows "\<exists>r g E'. path_set_data v p f = Some (r, g) \<and> db_inv g N E' \<and> paths g 0 = paths f 0 \<and>
    entry g = (entry f)(pre \<mapsto> v) \<and> (r \<longleftrightarrow> entry f pre \<noteq> Some v) \<and> same_shape f g N \<and>
    length g \<le> length f + 8 + length v"
proof -
  let ?i = "path_index p" and ?b = "get_branch f (path_index p)"
  have i: "?i \<in> N" by (rule at_path_node [OF inv pre])
  have walk: "walk f 0 pre = Some ?i" using pre by (simp add: at_path_def)
  obtain cur where cur: "get_data f (br_data ?b) = Some cur"
    using get_data_total [OF inv i] by (auto simp: node_data_def)
  have before: "entry f pre = (if br_data ?b = 0 then None else Some cur)"
    using cur by (simp add: entry_walk [OF walk] value_at_def has_data_def node_data_def)
  text \<open>A new extent: from a file \<open>h\<close> of the same shape whose branch has no data.\<close>
  have fresh: "\<exists>g E'. (let (d, h) = allocate v h in (True, set_branch ?i (?b\<lparr>br_data := d\<rparr>) h)) = (True, g) \<and>
      db_inv g N E' \<and> same_shape f g N \<and> value_at g ?i = Some v \<and> length g = length f + 8 + length v \<and>
      (\<forall>j \<in> N. j \<noteq> ?i \<longrightarrow> value_at g j = value_at f j)"
    if h: "db_inv h N E" "same_shape f h N" "length h = length f" "\<forall>j \<in> N. j \<noteq> ?i \<longrightarrow> value_at h j = value_at f j"
      and hb: "\<And>d. (get_branch h ?i)\<lparr>br_data := d\<rparr> = ?b\<lparr>br_data := d\<rparr>" for h
  proof -
    obtain d k where al: "allocate v h = (d, k)" by force
    note a = allocate_correct [OF h(1) _ al]
    have l: "length h + 8 + length v \<le> 2 ^ 64" using len h(3) by simp
    note pt = inv_point [OF a(1) [OF l] i a(4) [OF l] a(2) [OF l] a(9) [OF l]]
    have kb: "(get_branch k ?i)\<lparr>br_data := d\<rparr> = ?b\<lparr>br_data := d\<rparr>" using a(7) [OF l i] hb by simp
    let ?g = "set_branch ?i (?b\<lparr>br_data := d\<rparr>) k"
    note pt' = pt [unfolded kb]
    have "same_shape f k N" using h(2) a(7) [OF l] by (simp add: same_shape_def)
    then have "same_shape f ?g N" using pt'(2) by (rule same_shape_trans)
    moreover have "value_at ?g ?i = Some v"
      using pt'(3,4) a(3,5) [OF l] i by (simp add: value_at_def has_data_def)
    moreover have "value_at ?g j = value_at f j" if "j \<in> N" "j \<noteq> ?i" for j
    proof -
      have "value_at ?g j = value_at h j"
        using pt'(5,6) [OF _ that(1) that(2)] a(7,8) [OF l that(1)] that i by (intro value_at_cong) simp_all
      with h(4) that show ?thesis by simp
    qed
    moreover have "length ?g = length f + 8 + length v"
      using a(6) [OF l] h(3) inv_node(3) [OF h(1) i] by simp
    ultimately show ?thesis using al pt'(1) i by auto
  qed
  have finish: ?thesis if "path_set_data v p f = Some (r, g)" "db_inv g N E'" "same_shape f g N"
      "value_at g ?i = Some v" "\<forall>j \<in> N. j \<noteq> ?i \<longrightarrow> value_at g j = value_at f j" "r \<longleftrightarrow> entry f pre \<noteq> Some v"
      "length g \<le> length f + 8 + length v" for r g E'
    using that entry_point [OF inv that(3) walk] paths_shape [OF inv that(3)] by (intro exI) auto
  consider (none) "br_data ?b = 0" | (resize) "br_data ?b \<noteq> 0" "length cur \<noteq> length v"
    | (over) "br_data ?b \<noteq> 0" "length cur = length v" "cur \<noteq> v" | (same) "br_data ?b \<noteq> 0" "cur = v" by blast
  then show ?thesis
  proof cases
    case none
    have vals: "\<forall>j \<in> N. j \<noteq> ?i \<longrightarrow> value_at f j = value_at f j" by simp
    from none have "path_set_data v p f = Some (let (d, h) = allocate v f in (True, set_branch ?i (?b\<lparr>br_data := d\<rparr>) h))"
      using cur by (simp add: path_set_data_def path_branch_def Let_def split_beta)
    with fresh [OF inv same_shape_refl refl vals refl] before none show ?thesis
      by (elim exE conjE) (rule finish, auto)
  next
    case resize
    let ?h = "delete_data ?i f"
    note del = delete_data_correct [OF inv i]
    have gb: "get_branch ?h ?i = ?b\<lparr>br_data := 0\<rparr>"
      using resize get_branch_update [OF inv i i] get_branch_fits [of f ?i]
      by (simp add: delete_data_def Let_def branch_fits_def)
    have vals: "\<forall>j \<in> N. j \<noteq> ?i \<longrightarrow> value_at ?h j = value_at f j"
      using del(5,6) by (intro ballI impI value_at_cong) simp_all
    have run: "path_set_data v p f =
        Some (let (d, h) = allocate v ?h in (True, set_branch ?i (?b\<lparr>br_data := d\<rparr>) h))"
      using cur resize by (simp add: path_set_data_def path_branch_def path_delete_data_def Let_def split_beta)
    have "(get_branch ?h ?i)\<lparr>br_data := d\<rparr> = ?b\<lparr>br_data := d\<rparr>" for d using gb by simp
    from fresh [OF del(1,2,4) vals this] run before resize show ?thesis
      by (elim exE conjE) (rule finish, auto)
  next
    case over
    note ok = inv_node(6) [OF inv i]
    have size: "length v = bytes_index (region f (br_data ?b) 8)"
      using get_data_region [OF inv_node(1) [OF inv i] ok over(1)] cur over(2) by (auto simp: region_def)
    note ow = overwrite_data_correct [OF inv i refl over(1) size]
    let ?g = "overwrite_data (br_data ?b) v f"
    have "path_set_data v p f = Some (True, ?g)"
      using cur over by (simp add: path_set_data_def path_branch_def Let_def)
    moreover have "same_shape f ?g N" using ow(4) by (simp add: same_shape_def)
    moreover have "value_at ?g ?i = Some v"
      using ow(2,4) i over(1) by (simp add: value_at_def has_data_def node_data_def)
    moreover have "value_at ?g j = value_at f j" if "j \<in> N" "j \<noteq> ?i" for j
      using ow(4,5) that by (intro value_at_cong) simp_all
    ultimately show ?thesis using ow(1,3) before over by (intro finish) auto
  next
    case same
    then have "path_set_data v p f = Some (False, f)"
      using cur by (simp add: path_set_data_def path_branch_def Let_def)
    with same before inv same_shape_refl [of f N] cur show ?thesis
      by (intro finish) (auto simp: value_at_def has_data_def node_data_def)
  qed
qed


section \<open>Clearing\<close>

lemma clear_side:
  assumes inv: "db_inv f N E" and pre: "walk f 0 pre = Some i" and c: "child d (get_branch f i) = c"
  shows "\<exists>g. (if c \<noteq> 0 then delete_branch c f else Some f) = Some g \<and> db_inv g N E \<and>
    (\<forall>q. walk g 0 q = (if prefix (pre @ [d]) q then None else walk f 0 q)) \<and>
    (\<forall>q. entry g q = (if prefix (pre @ [d]) q then None else entry f q)) \<and>
    child (\<not> d) (get_branch g i) = child (\<not> d) (get_branch f i)"
proof (cases "c = 0")
  case True
  have "walk f 0 q = None" if "prefix (pre @ [d]) q" for q
    using that pre True by (auto elim!: prefixE simp: walk_append Let_def c)
  with True inv show ?thesis by (auto simp: entry_def)
next
  case False
  have i: "i \<in> N" using walk_in [OF inv inv_root [OF inv] pre] by simp
  from delete_branch_cut [OF inv i c False]
  obtain g where g: "delete_branch c f = Some g" "cut N E i d (below f c) f g" by blast
  note w = cut_walk [OF inv pre c False g(2)]
    entry_cut [OF inv pre c False g(2)]
  have "child (\<not> d) (get_branch g i) = child (\<not> d) (get_branch f i)" using g(2) by (simp add: cut_def)
  with g w False show ?thesis by (auto simp: cut_def)
qed

lemma path_clear_entry:
  assumes inv: "db_inv f N E" and at: "at_path f p pre"
  shows "\<exists>g. path_clear p f = Some g \<and> db_inv g N E \<and>
    (\<forall>q. walk g 0 q = (if strict_prefix pre q then None else walk f 0 q)) \<and>
    entry g = (\<lambda>q. if prefix pre q then None else entry f q)"
proof -
  let ?i = "path_index p"
  have pre: "walk f 0 pre = Some ?i" using at by (simp add: at_path_def)
  have iN: "?i \<in> N" by (rule at_path_node [OF inv at])
  define f1 where "f1 = (if br_data (get_branch f ?i) \<noteq> 0 then path_delete_data p f else f)"
  note del = path_delete_data_entry [OF inv pre]
  have shape: "same_shape f f1 N"
    using delete_data_correct(2) [OF inv iN] same_shape_refl by (simp add: f1_def path_delete_data_def)
  have f1: "db_inv f1 N E" "entry f1 = (entry f)(pre := None)"
    using del(1,3) inv entry_walk [OF pre] by (auto simp: f1_def value_at_def has_data_def fun_eq_iff)
  have w1: "walk f1 0 q = walk f 0 q" for q by (rule walk_shape [OF inv shape inv_root [OF inv]])
  have kids: "child d (get_branch f1 ?i) = child d (get_branch f ?i)" for d
    using shape iN by (simp add: same_shape_def)
  have pre1: "walk f1 0 pre = Some ?i" using w1 pre by simp
  from clear_side [OF f1(1) pre1 kids [of False]] w1 kids [of True] obtain f2 where f2:
    "(if child False (get_branch f ?i) \<noteq> 0 then delete_branch (child False (get_branch f ?i)) f1 else Some f1) = Some f2"
    "db_inv f2 N E" "\<forall>q. walk f2 0 q = (if prefix (pre @ [False]) q then None else walk f 0 q)"
    "\<forall>q. entry f2 q = (if prefix (pre @ [False]) q then None else entry f1 q)"
    "child True (get_branch f2 ?i) = child True (get_branch f ?i)" by auto
  have pre2: "walk f2 0 pre = Some ?i" using f2(3) pre by simp
  from clear_side [OF f2(2) pre2 f2(5)] obtain g where g:
    "(if child True (get_branch f ?i) \<noteq> 0 then delete_branch (child True (get_branch f ?i)) f2 else Some f2) = Some g"
    "db_inv g N E" "\<forall>q. walk g 0 q = (if prefix (pre @ [True]) q then None else walk f2 0 q)"
    "\<forall>q. entry g q = (if prefix (pre @ [True]) q then None else entry f2 q)" by auto
  have ext: "strict_prefix pre q \<longleftrightarrow> prefix (pre @ [False]) q \<or> prefix (pre @ [True]) q" for q
    by (rule strict_prefix_bit)
  have kk: "br_left (get_branch f ?i) = child False (get_branch f ?i)"
    "br_right (get_branch f ?i) = child True (get_branch f ?i)" by (simp_all add: child_def)
  have "path_clear p f = Some g"
    by (simp only: path_clear_def Let_def path_branch_def kk f1_def [symmetric] f2(1) g(1) Option.bind.bind_lunit)
  moreover have "walk g 0 q = (if strict_prefix pre q then None else walk f 0 q)" for q
    using g(3) f2(3) by (simp add: ext)
  moreover have "entry g q = (if prefix pre q then None else entry f q)" for q
    using g(4) f2(4) f1(2) ext [of q] by (auto simp: strict_prefix_def)
  ultimately show ?thesis using g(2) by blast
qed

text \<open>\<open>no_forks f i bs\<close>: below \<open>i\<close> nothing branches off the bits \<open>bs\<close>.\<close>

fun no_forks :: "db_file \<Rightarrow> index \<Rightarrow> bits \<Rightarrow> bool" where
  "no_forks f i [] \<longleftrightarrow> True"
| "no_forks f i (d # ds) \<longleftrightarrow> child (\<not> d) (get_branch f i) = 0 \<and> no_forks f (child d (get_branch f i)) ds"

lemma no_forks_comparable:
  "no_forks f i bs \<Longrightarrow> walk f i q \<noteq> None \<Longrightarrow> prefix q bs \<or> prefix bs q"
proof (induction bs arbitrary: i q)
  case (Cons d ds)
  show ?case
  proof (cases q)
    case (Cons e r)
    with Cons.prems have "e = d" by (cases "e = d") (auto simp: Let_def)
    with Cons Cons.IH [of "child d (get_branch f i)" r] Cons.prems show ?thesis
      by (auto simp: Let_def split: if_splits)
  qed simp
qed simp

lemma clear_loop_fork:
  assumes "walk f i bs = Some k"
  shows "(clear_loop f bs i li lb = (li, lb) \<and> no_forks f i bs) \<or>
    (\<exists>c d rest m. bs = c @ d # rest \<and> walk f i c = Some m \<and> clear_loop f bs i li lb = (m, d) \<and>
       no_forks f (child d (get_branch f m)) rest)"
  using assms
proof (induction bs arbitrary: i li lb)
  case (Cons d ds)
  let ?c = "child d (get_branch f i)"
  from Cons.prems have c: "?c \<noteq> 0" "walk f ?c ds = Some k" by (simp_all add: Let_def split: if_splits)
  have fork: "br_left (get_branch f i) \<noteq> 0 \<and> br_right (get_branch f i) \<noteq> 0 \<longleftrightarrow>
      child (\<not> d) (get_branch f i) \<noteq> 0"
    using c(1) by (cases d) (auto simp: child_def)
  have nxt: "(if \<not> d then br_left (get_branch f i) else br_right (get_branch f i)) = ?c"
    by (simp add: child_def)
  have deeper: "\<exists>c e rest m. d # ds = c @ e # rest \<and> walk f i c = Some m \<and> x = (m, e) \<and>
      no_forks f (child e (get_branch f m)) rest"
    if "ds = c' @ e # rest" "walk f ?c c' = Some m" "x = (m, e)" "no_forks f (child e (get_branch f m)) rest"
    for c' e rest m x
    using that c(1) by (intro exI [of _ "d # c'"] exI [of _ e] exI [of _ rest] exI [of _ m]) (simp add: Let_def)
  show ?case
  proof (cases "child (\<not> d) (get_branch f i) = 0")
    case True
    with fork have "(br_left (get_branch f i) \<noteq> 0 \<and> br_right (get_branch f i) \<noteq> 0) = False" by blast
    then have "clear_loop f (d # ds) i li lb = clear_loop f ds ?c li lb"
      by (simp only: clear_loop.simps Let_def nxt if_False prod.case)
    with Cons.IH [OF c(2), of li lb] True deeper show ?thesis by auto
  next
    case False
    with fork have "(br_left (get_branch f i) \<noteq> 0 \<and> br_right (get_branch f i) \<noteq> 0) = True" by blast
    then have eq: "clear_loop f (d # ds) i li lb = clear_loop f ds ?c i d"
      by (simp only: clear_loop.simps Let_def nxt if_True prod.case)
    from Cons.IH [OF c(2), of i d] show ?thesis
    proof
      assume "clear_loop f ds ?c i d = (i, d) \<and> no_forks f ?c ds"
      with eq show ?thesis by (intro disjI2 exI [of _ "[]"] exI [of _ d] exI [of _ ds] exI [of _ i]) simp
    qed (use deeper eq in auto)
  qed
qed simp

lemma path_clear_value_bits:
  assumes inv: "db_inv f N E" and at: "at_path f p pre" and code: "complete_code bs"
    and put: "\<And>st. put (contains_write_bit f) st = fold (contains_write_bit f) bs st"
    and put': "\<And>st. put' stack_write_bit st = fold stack_write_bit bs st"
    and here: "walk f 0 (pre @ bs) \<noteq> None"
  shows "\<exists>g c. path_clear_value put put' p f = Some g \<and> db_inv g N E \<and> c \<noteq> [] \<and> prefix c bs \<and>
    (\<forall>q. walk g 0 q = (if prefix (pre @ c) q then None else walk f 0 q)) \<and>
    (\<forall>q. entry g q = (if prefix (pre @ c) q then None else entry f q)) \<and>
    (\<forall>q. complete_code q \<longrightarrow> prefix c q \<longrightarrow> walk f 0 (pre @ q) \<noteq> None \<longrightarrow> q = bs)"
proof -
  let ?i = "path_index p"
  note w = at_path_walk [OF at]
  from here w obtain k where k: "walk f ?i bs = Some k" by fastforce
  have ne: "bs \<noteq> []" using code by (simp add: complete_code_def)
  obtain m d where md: "clear_loop f bs ?i ?i True = (m, d)" by force
  have "\<exists>c rest. bs = c @ d # rest \<and> walk f ?i c = Some m \<and> no_forks f (child d (get_branch f m)) rest"
  proof (cases "clear_loop f bs ?i ?i True = (?i, True) \<and> no_forks f ?i bs")
    case True
    moreover obtain cs where "bs = True # cs" using complete_starts_True [OF code] by blast
    ultimately show ?thesis using md by (intro exI [of _ "[]"] exI [of _ cs]) simp
  next
    case False
    with clear_loop_fork [OF k, of ?i True] md show ?thesis by auto
  qed
  then obtain c rest where c: "bs = c @ d # rest" "walk f ?i c = Some m"
    "no_forks f (child d (get_branch f m)) rest" by blast
  have wm: "walk f 0 (pre @ c) = Some m" using c(2) w by simp
  have ch: "child d (get_branch f m) \<noteq> 0" using k c(1,2) by (auto simp: walk_append Let_def split: if_splits)
  from clear_side [OF inv wm refl, of d] ch obtain g where g:
    "delete_branch (child d (get_branch f m)) f = Some g" "db_inv g N E"
    "\<forall>q. walk g 0 q = (if prefix (pre @ c @ [d]) q then None else walk f 0 q)"
    "\<forall>q. entry g q = (if prefix (pre @ c @ [d]) q then None else entry f q)" by auto
  have "path_contains put f p" using path_contains_bits [of put f bs p] put ne k by simp
  then have "path_clear_value put put' p f = Some g"
    using put' md g(1) by (cases d) (simp_all add: path_clear_value_def stack_new_def child_def Let_def)
  moreover have "q = bs"
    if q: "complete_code q" "prefix (c @ [d]) q" "walk f 0 (pre @ q) \<noteq> None" for q
  proof -
    from q(2) obtain r where r: "q = c @ d # r" by (auto elim: prefixE)
    with q(3) have "walk f 0 ((pre @ c) @ d # r) \<noteq> None" by simp
    then have "walk f (child d (get_branch f m)) r \<noteq> None"
      unfolding walk_append [of f 0 "pre @ c"] wm using ch by (simp add: Let_def)
    from no_forks_comparable [OF c(3) this] r c(1) have "prefix q bs \<or> prefix bs q" by auto
    with complete_prefix_free code q(1) show ?thesis by blast
  qed
  moreover have "prefix (c @ [d]) bs" using c(1) by simp
  ultimately show ?thesis using g(2-4) by (intro exI [of _ g] exI [of _ "c @ [d]"]) auto
qed

end
