(* ===== verification/Path_Properties.thy ===== *)
theory Path_Properties
  imports Path_Data
begin

text \<open>
  The contract of \<open>Path\<close>, over the paths and the entries of the database: what \<open>operator []\<close>,
  \<open>contains\<close>, \<open>setData\<close>, \<open>getData\<close>, \<open>deleteData\<close>, \<open>clear\<close>, \<open>parent\<close>, \<open>goUp\<close> and the counters do to
  them. Keys are strings here; any other key type has the same theorems over its own code. The
  bounds say that the file stays below \<open>2 ^ 64\<close> bytes.
\<close>

lemma fresh_database: "store_ok (database_new [])" "at_path (database_new []) (path_new 0) []"
  "length (database_new []) = 32"
  using database_new_ok by (simp_all add: at_path_def path_new_def database_new_bytes)

text \<open>A short key fits into a new file.\<close>

lemma fresh_room: "length (database_new []) + 32 * length (string_code ''k'') \<le> 2 ^ 64"
proof -
  have "length (string_code ''k'') < 100" by code_simp
  then show ?thesis by (simp add: fresh_database(3))
qed

lemma at_path_grown:
  "db_inv f N E \<Longrightarrow> grown f N g N' \<Longrightarrow> at_path f p pre \<Longrightarrow> at_path g p pre"
  using walk_grown inv_root unfolding at_path_def by blast

section \<open>Keys\<close>

lemma path_at_code:
  assumes "db_inv f N E" and "at_path f p pre" and "length f + 32 * length bs \<le> 2 ^ 64"
    and "\<And>st. put path_write_bit st = fold path_write_bit bs st"
  shows "\<exists>q g N' E'. path_at put (p, f) = (q, g) \<and> db_inv g N' E' \<and> grown f N g N' \<and>
    at_path g q (pre @ bs) \<and> paths g 0 = paths f 0 \<union> {r. prefix r (pre @ bs)} \<and>
    entry g = entry f \<and> length g \<le> length f + 32 * length bs"
proof -
  obtain q g where run: "fold path_write_bit bs (path_copy p, f) = (q, g)" by force
  have "walk f 0 pre = Some (path_index (path_copy p))"
    using assms(2) by (simp add: at_path_def path_copy_def path_new_def)
  from path_write_bits [OF assms(1) this assms(3) run] obtain N' E' where
    *: "db_inv g N' E'" "grown f N g N'" "walk g 0 (pre @ bs) = Some (path_index q)"
      "paths g 0 = paths f 0 \<union> {r. prefix r (pre @ bs)}" "length g \<le> length f + 32 * length bs" by blast
  moreover have "path_at put (p, f) = (q, g)" using run by (simp add: path_at_def assms(4))
  moreover have "entry g = entry f" by (rule entry_grown [OF assms(1) *(1,2)])
  ultimately show ?thesis by (auto simp: at_path_def)
qed

lemma path_at_string:
  assumes "db_inv f N E" and "at_path f p pre" and "length f + 32 * length (string_code key) \<le> 2 ^ 64"
  shows "\<exists>q g N' E'. path_at (\<lambda>wb. put_string wb key) (p, f) = (q, g) \<and> db_inv g N' E' \<and> grown f N g N' \<and>
    at_path g q (pre @ string_code key) \<and> paths g 0 = paths f 0 \<union> {r. prefix r (pre @ string_code key)} \<and>
    entry g = entry f"
  using path_at_code [OF assms, of "\<lambda>wb. put_string wb key"] by (simp add: code_lens) blast

lemma contains_string_paths:
  assumes "at_path f p pre"
  shows "path_contains (\<lambda>wb. put_string wb key) f p \<longleftrightarrow> pre @ string_code key \<in> paths f 0"
  by (simp add: path_contains_string at_path_walk [OF assms] paths_def)

text \<open>A file with one key.\<close>

definition one_key :: cursor where
  "one_key = path_at (\<lambda>wb. put_string wb ''k'') (path_new 0, database_new [])"

lemma one_key_ok:
  "store_ok (snd one_key)" "at_path (snd one_key) (path_new 0) []"
  "at_path (snd one_key) (fst one_key) (string_code ''k'')"
  "path_contains (\<lambda>wb. put_string wb ''k'') (snd one_key) (path_new 0)"
proof -
  from path_at_string [OF database_new_inv fresh_database(2) fresh_room] obtain q g N' E' where
    k: "one_key = (q, g)" "db_inv g N' E'" "grown (database_new []) {0} g N'" "at_path g q (string_code ''k'')"
      "paths g 0 = paths (database_new []) 0 \<union> {r. prefix r (string_code ''k'')}"
    by (auto simp: one_key_def)
  have eq: "snd one_key = g" "fst one_key = q" by (simp_all add: k(1))
  show "store_ok (snd one_key)" "at_path (snd one_key) (fst one_key) (string_code ''k'')"
    unfolding eq store_ok_def using k(2,4) by blast+
  show at: "at_path (snd one_key) (path_new 0) []"
    unfolding eq by (rule at_path_grown [OF database_new_inv k(3) fresh_database(2)])
  show "path_contains (\<lambda>wb. put_string wb ''k'') (snd one_key) (path_new 0)"
    unfolding contains_string_paths [OF at] unfolding eq k(5) by simp
qed

text \<open>
  Property C15: \<open>path[key]\<close> leads to the bits of the key below the path; the trie gains this path and its
  prefixes and nothing else, and no stored value changes.
\<close>

theorem path_insert:
  assumes "store_ok f" and "at_path f p pre" and "length f + 32 * length (string_code key) \<le> 2 ^ 64"
  shows "\<exists>q g. path_at (\<lambda>wb. put_string wb key) (p, f) = (q, g) \<and> store_ok g \<and>
    at_path g q (pre @ string_code key) \<and> paths g 0 = paths f 0 \<union> {r. prefix r (pre @ string_code key)} \<and>
    entry g = entry f"
  using assms(1) path_at_string [OF _ assms(2,3)] unfolding store_ok_def by blast

theorem path_insert_witness:
  "\<exists>q g. path_at (\<lambda>wb. put_string wb ''k'') (path_new 0, database_new []) = (q, g) \<and>
     at_path g q (string_code ''k'') \<and> paths g 0 = {[]} \<union> {r. prefix r (string_code ''k'')}"
  using path_insert [OF fresh_database(1,2) fresh_room] by (auto simp: database_new_paths)

text \<open>
  Property C16: after \<open>path[key]\<close> the path contains \<open>key\<close>, and every other string exactly when it
  contained it before.
\<close>

theorem path_contains_after_insert:
  assumes "store_ok f" and "at_path f p pre" and "length f + 32 * length (string_code key) \<le> 2 ^ 64"
    and "path_at (\<lambda>wb. put_string wb key) (p, f) = (q, g)"
  shows "path_contains (\<lambda>wb. put_string wb k) g p \<longleftrightarrow> k = key \<or> path_contains (\<lambda>wb. put_string wb k) f p"
proof -
  from assms(1) obtain N E where inv: "db_inv f N E" by (auto simp: store_ok_def)
  from path_at_string [OF inv assms(2,3)] assms(4) obtain N' E' where
    g: "db_inv g N' E'" "grown f N g N'"
      "paths g 0 = paths f 0 \<union> {r. prefix r (pre @ string_code key)}" by auto
  have at: "at_path g p pre" by (rule at_path_grown [OF inv g(2) assms(2)])
  have "prefix (string_code k) (string_code key) \<longleftrightarrow> k = key"
    using complete_prefix_free [OF string_code_complete string_code_complete, of k key] string_code_inject
    by auto
  with g(3) show ?thesis
    by (auto simp: contains_string_paths [OF at] contains_string_paths [OF assms(2)])
qed

theorem path_contains_after_insert_witness:
  "path_contains (\<lambda>wb. put_string wb ''k'')
     (snd (path_at (\<lambda>wb. put_string wb ''k'') (path_new 0, database_new []))) (path_new 0)"
proof -
  obtain q g where "path_at (\<lambda>wb. put_string wb ''k'') (path_new 0, database_new []) = (q, g)" by force
  with path_contains_after_insert [OF fresh_database(1,2) fresh_room this, of "''k''"] show ?thesis by simp
qed


section \<open>Data\<close>

lemma at_path_paths: "at_path f p pre \<Longrightarrow> pre \<in> paths f 0"
  by (simp add: at_path_def paths_def)

lemma set_data_step:
  assumes "store_ok f" and "at_path f p pre" and "length f + 8 + length v \<le> 2 ^ 64"
  shows "\<exists>g. path_set_data v p f = Some (entry f pre \<noteq> Some v, g) \<and> store_ok g \<and>
    paths g 0 = paths f 0 \<and> entry g = (entry f)(pre \<mapsto> v) \<and> (\<forall>q r. at_path f q r \<longrightarrow> at_path g q r) \<and>
    length g \<le> length f + 8 + length v"
proof -
  from assms(1) obtain N E where inv: "db_inv f N E" by (auto simp: store_ok_def)
  from path_set_data_entry [OF inv assms(2,3)] obtain r g E' where
    g: "path_set_data v p f = Some (r, g)" "db_inv g N E'" "paths g 0 = paths f 0"
      "entry g = (entry f)(pre \<mapsto> v)" "r \<longleftrightarrow> entry f pre \<noteq> Some v" "same_shape f g N"
      "length g \<le> length f + 8 + length v" by blast
  have "at_path g q r" if "at_path f q r" for q r
    using that walk_shape [OF inv g(6) inv_root [OF inv]] by (simp add: at_path_def)
  with g show ?thesis by (auto simp: store_ok_def)
qed

lemma get_data_step:
  assumes "store_ok f" and "at_path f p pre"
  shows "path_get_data f p = Some (case entry f pre of None \<Rightarrow> [] | Some v \<Rightarrow> v)"
    and "path_has_data f p \<longleftrightarrow> entry f pre \<noteq> None"
  using assms path_get_data_entry unfolding store_ok_def at_path_def by blast+

text \<open>
  Property C17: \<open>setData\<close> stores the value at its path and changes no other entry and no path, whether
  it allocates, reallocates because the size differs, or overwrites in place; it reports
  whether the stored value has changed; \<open>getData\<close> reads the value back, and every other path reads what it read
  before.
\<close>

theorem path_set_get_data:
  assumes "store_ok f" and "at_path f p pre" and "length f + 8 + length v \<le> 2 ^ 64"
  shows "\<exists>g. path_set_data v p f = Some (entry f pre \<noteq> Some v, g) \<and> store_ok g \<and>
    paths g 0 = paths f 0 \<and> entry g = (entry f)(pre \<mapsto> v) \<and>
    path_has_data g p \<and> path_get_data g p = Some v \<and>
    (\<forall>q r. at_path f q r \<and> r \<noteq> pre \<longrightarrow>
       path_get_data g q = path_get_data f q \<and> path_has_data g q = path_has_data f q)"
proof -
  from set_data_step [OF assms] obtain g where
    g: "path_set_data v p f = Some (entry f pre \<noteq> Some v, g)" "store_ok g" "paths g 0 = paths f 0"
      "entry g = (entry f)(pre \<mapsto> v)" "\<forall>q r. at_path f q r \<longrightarrow> at_path g q r" by blast
  with get_data_step [OF g(2), of p pre] assms(2) have "path_get_data g p = Some v" "path_has_data g p" by simp_all
  moreover have "path_get_data g q = path_get_data f q" "path_has_data g q = path_has_data f q"
    if "at_path f q r" "r \<noteq> pre" for q r
    using get_data_step [OF g(2), of q r] get_data_step [OF assms(1) that(1)] g(4,5) that by auto
  ultimately show ?thesis using g by blast
qed

theorem path_set_get_data_witness:
  "\<exists>g. path_set_data ''honey'' (path_new 0) (database_new []) = Some (True, g) \<and>
     path_get_data g (path_new 0) = Some ''honey''"
  using path_set_get_data [OF fresh_database(1,2), of "''honey''"]
  by (auto simp: fresh_database(3) database_new_entry)

text \<open>
  \<open>deleteData\<close> removes the value of its path and nothing else.
\<close>

theorem path_delete_data_removes:
  assumes "store_ok f" and "at_path f p pre"
  shows "store_ok (path_delete_data p f) \<and> paths (path_delete_data p f) 0 = paths f 0 \<and>
    entry (path_delete_data p f) = (entry f)(pre := None)"
  using assms path_delete_data_entry unfolding store_ok_def at_path_def by blast

theorem path_delete_data_removes_witness:
  "entry (path_delete_data (path_new 0) (database_new [])) = Map.empty"
  using path_delete_data_removes [OF fresh_database(1,2)] by (simp add: database_new_entry)

text \<open>
  Property C19: \<open>clear()\<close> returns, removes the value of the path and every path below it with its
  values, and leaves all other paths and values as they were.
\<close>

theorem path_clear_removes:
  assumes "store_ok f" and "at_path f p pre"
  shows "\<exists>g. path_clear p f = Some g \<and> store_ok g \<and> paths g 0 = {q \<in> paths f 0. \<not> strict_prefix pre q} \<and>
    entry g = (\<lambda>q. if prefix pre q then None else entry f q)"
proof -
  from assms(1) obtain N E where inv: "db_inv f N E" by (auto simp: store_ok_def)
  from path_clear_entry [OF inv assms(2)] show ?thesis by (fastforce simp: store_ok_def paths_def)
qed

theorem path_clear_removes_witness:
  "\<exists>g. path_clear (path_new 0) (database_new []) = Some g \<and> paths g 0 = {[]}"
  using path_clear_removes [OF fresh_database(1,2)] by (auto simp: database_new_paths)

text \<open>
  Property C18: \<open>clear(key)\<close> returns and removes exactly the key: afterwards the path contains the
  strings it contained before, but not \<open>key\<close>, and everything stored below another string is still there.
  (The code cuts the trie at the deepest fork above the key.)
\<close>

theorem path_clear_key:
  assumes "store_ok f" and "at_path f p pre"
  shows "\<exists>g. path_clear_value (\<lambda>wb. put_string wb key) (\<lambda>wb. put_string wb key) p f = Some g \<and>
    store_ok g \<and> at_path g p pre \<and>
    (\<forall>k. path_contains (\<lambda>wb. put_string wb k) g p \<longleftrightarrow> k \<noteq> key \<and> path_contains (\<lambda>wb. put_string wb k) f p) \<and>
    (\<forall>k r. k \<noteq> key \<longrightarrow> entry g (pre @ string_code k @ r) = entry f (pre @ string_code k @ r))"
proof (cases "walk f 0 (pre @ string_code key) = None")
  case True
  then have "\<not> path_contains (\<lambda>wb. put_string wb key) f p"
    by (simp add: contains_string_paths [OF assms(2)] paths_def)
  with assms show ?thesis by (auto simp: path_clear_value_def)
next
  case False
  from assms(1) obtain N E where inv: "db_inv f N E" by (auto simp: store_ok_def)
  let ?put = "\<lambda>wb. put_string wb key"
  from path_clear_value_bits [OF inv assms(2) string_code_complete [of key], where put = ?put and put' = ?put,
      OF put_string_code put_string_code False]
  obtain g c where run: "path_clear_value ?put ?put p f = Some g" and g: "db_inv g N E"
    and c: "c \<noteq> []" "prefix c (string_code key)"
    and walk: "\<And>q. walk g 0 q = (if prefix (pre @ c) q then None else walk f 0 q)"
    and ent: "\<And>q. entry g q = (if prefix (pre @ c) q then None else entry f q)"
    and only: "\<And>q. complete_code q \<Longrightarrow> prefix c q \<Longrightarrow> walk f 0 (pre @ q) \<noteq> None \<Longrightarrow> q = string_code key"
    by blast
  have at: "at_path g p pre" using assms(2) c(1) walk by (auto simp: at_path_def)
  have only_k: "k = key" if "prefix c (string_code k)" "walk f 0 (pre @ string_code k) \<noteq> None" for k
    using only [OF string_code_complete that] string_code_inject by simp
  have contains: "path_contains (\<lambda>wb. put_string wb k) g p \<longleftrightarrow>
      k \<noteq> key \<and> path_contains (\<lambda>wb. put_string wb k) f p" for k
    using only_k [of k] c(2) walk [of "pre @ string_code k"]
    by (auto simp: contains_string_paths [OF at] contains_string_paths [OF assms(2)] paths_def)
  have "entry g (pre @ string_code k @ r) = entry f (pre @ string_code k @ r)" if "k \<noteq> key" for k r
  proof (cases "prefix c (string_code k @ r)")
    case True
    have "\<not> prefix (string_code k) c"
      using that c(2) complete_prefix_free [OF string_code_complete string_code_complete, of k key]
        string_code_inject prefix_order.trans by blast
    with True have "prefix c (string_code k)" by (auto simp: prefix_append)
    with only_k that have "walk f 0 (pre @ string_code k) = None" by blast
    then have "walk f 0 ((pre @ string_code k) @ r) = None" by (simp only: walk_append [of f 0 "pre @ string_code k"] bind.simps)
    then have "entry f (pre @ string_code k @ r) = None" by (simp add: entry_def)
    with ent show ?thesis by simp
  qed (simp add: ent)
  with run g at contains show ?thesis by (auto simp: store_ok_def)
qed

theorem path_clear_key_witness:
  "path_contains (\<lambda>wb. put_string wb ''k'') (snd one_key) (path_new 0) \<and>
   (\<exists>g. path_clear_value (\<lambda>wb. put_string wb ''k'') (\<lambda>wb. put_string wb ''k'') (path_new 0) (snd one_key) = Some g
     \<and> \<not> path_contains (\<lambda>wb. put_string wb ''k'') g (path_new 0))"
  using path_clear_key [OF one_key_ok(1,2), of "''k''"] one_key_ok(4) by auto

section \<open>Moving up\<close>

text \<open>
  Property C28: \<open>goUp\<close> undoes a step: it returns to the path the bit came from and takes the bit back from
  the counter, and going down the same side again leads to the same branch without changing the file.
\<close>

theorem path_go_up_undoes:
  assumes "store_ok f" and "at_path f p (pre @ [b])"
  shows "at_path f (go_up f p) pre \<and> path_count (go_up f p) = path_count p - bit_weight b \<and>
    (\<exists>q. go_dir b (go_up f p, f) = (q, f) \<and> path_index q = path_index p)"
proof -
  from assms(1) obtain N E where inv: "db_inv f N E" by (auto simp: store_ok_def)
  have w: "walk f 0 (pre @ [b]) = Some (path_index p)" using assms(2) by (simp add: at_path_def)
  note up = go_up_step [OF inv w]
  from w up(1) have "child b (path_branch f (go_up f p)) = path_index p" "path_index p \<noteq> 0"
    by (auto simp: walk_snoc path_branch_def)
  then have "\<exists>q. go_dir b (go_up f p, f) = (q, f) \<and> path_index q = path_index p"
    using go_dir_cases(1) [of b f "go_up f p"] by auto
  with up show ?thesis by (simp add: at_path_def)
qed

theorem path_go_up_undoes_witness:
  "path_count (go_up (snd one_key) (fst one_key)) = path_count (fst one_key) + 1"
proof -
  have "\<exists>pre. string_code ''k'' = pre @ [False]" by (simp add: string_code_def)
  with one_key_ok(3) obtain pre where "at_path (snd one_key) (fst one_key) (pre @ [False])" by auto
  from path_go_up_undoes [OF one_key_ok(1) this] show ?thesis by simp
qed

text \<open>
  Property C27: \<open>parent\<close> finds the path a key was applied to, and the bits of the key, from the position
  alone: the loop stops exactly where the key began.
\<close>

theorem path_parent_of_key:
  assumes "store_ok f" and "at_path f p pre" and "at_path f q (pre @ string_code key)"
  shows "\<exists>st. path_parent f q stack_new = Some (path_new (path_index p), st) \<and>
    get_string stack_read_bit stack_peek_bit st =
      Some (key, st\<lparr>st_it := Some (length (string_code key)), st_count := 0\<rparr>)"
proof -
  from assms(1) obtain N E where inv: "db_inv f N E" by (auto simp: store_ok_def)
  have i: "path_index p \<in> N" by (rule at_path_node [OF inv assms(2)])
  have w: "walk f (path_index p) (string_code key) = Some (path_index q)"
    using assms(3) at_path_walk [OF assms(2)] by (simp add: at_path_def)
  from path_parent_complete [OF inv i string_code_complete w] obtain st where
    st: "path_parent f q stack_new = Some (path_new (path_index p), st)" "st_bits st = string_code key"
      "st_it st = Some 0" "st_count st = 0" by blast
  have "feeds stack_read_bit st (string_code key) (st\<lparr>st_it := Some (length (string_code key)), st_count := 0\<rparr>)"
    using stack_feeds [of st "[]" "string_code key" "[]"] st count_run_complete [OF string_code_complete]
    by simp
  with stack.get_string_code [of st] st show ?thesis by (auto simp: stack_ok_def)
qed

theorem path_parent_of_key_witness:
  "\<exists>st. path_parent (snd one_key) (fst one_key) stack_new = Some (path_new 0, st)"
  using path_parent_of_key [OF one_key_ok(1,2), of "fst one_key" "''k''"] one_key_ok(3)
  by (auto simp: path_new_def)


section \<open>Counters and typed data\<close>

text \<open>The counter of a path: missing data counts as zero.\<close>

definition counter_is :: "db_file \<Rightarrow> bits \<Rightarrow> nat \<Rightarrow> bool" where
  "counter_is f pre c \<longleftrightarrow> c < 2 ^ 64 \<and>
     (entry f pre = Some (index_bytes c) \<or> entry f pre = None \<and> c = 0)"

lemma counter_read:
  assumes "store_ok f" and "at_path f p pre" and "counter_is f pre c"
  shows "path_has_data f p \<Longrightarrow> path_get_index f p = Some c" and "\<not> path_has_data f p \<Longrightarrow> c = 0"
  using get_data_step [OF assms(1,2)] assms(3) by (auto simp: counter_is_def path_get_index_def)

lemma counter_write:
  assumes "store_ok f" and "at_path f p pre" and "length f + 16 \<le> 2 ^ 64" and "c < 2 ^ 64"
  shows "\<exists>r g. path_set_index c p f = Some (r, g) \<and> store_ok g \<and> at_path g p pre \<and>
    entry g = (entry f)(pre \<mapsto> index_bytes c) \<and> counter_is g pre c"
proof -
  have "length f + 8 + length (index_bytes c) \<le> 2 ^ 64" using assms(3) by simp
  from set_data_step [OF assms(1,2) this] assms(2,4) show ?thesis
    by (auto simp: path_set_index_def counter_is_def)
qed

text \<open>
  Property C29: \<open>++path\<close> and \<open>path++\<close> add one to the counter of the path (modulo \<open>2 ^ 64\<close>), counting from zero when
  there is none, and return the new and the old value; no other entry changes.
\<close>

theorem path_increment:
  assumes "store_ok f" and "at_path f p pre" and "length f + 16 \<le> 2 ^ 64" and "counter_is f pre c"
  defines "c' \<equiv> (c + 1) mod 2 ^ 64"
  shows "\<exists>g. path_pre_inc p f = Some (c', g) \<and> path_post_inc p f = Some (c, g) \<and> store_ok g \<and>
    at_path g p pre \<and> entry g = (entry f)(pre \<mapsto> index_bytes c') \<and> counter_is g pre c'"
proof -
  from counter_write [OF assms(1-3), of c'] obtain r g where
    g: "path_set_index c' p f = Some (r, g)" "store_ok g" "at_path g p pre"
      "entry g = (entry f)(pre \<mapsto> index_bytes c')" "counter_is g pre c'"
    by (auto simp: c'_def)
  have "path_pre_inc p f = Some (c', g)" "path_post_inc p f = Some (c, g)"
    using counter_read [OF assms(1,2,4)] g(1)
    by (cases "path_has_data f p"; simp add: path_pre_inc_def path_post_inc_def c'_def)+
  with g show ?thesis by blast
qed

theorem path_increment_witness:
  "\<exists>g. path_pre_inc (path_new 0) (database_new []) = Some (1, g) \<and> counter_is g [] 1"
  using path_increment [OF fresh_database(1,2), of 0]
  by (auto simp: fresh_database(3) counter_is_def database_new_entry)

text \<open>
  \<open>--path\<close> subtracts one and stops at zero; \<open>path--\<close> does the same to a counter that exists
  and returns the old value.
\<close>

theorem path_decrement:
  assumes "store_ok f" and "at_path f p pre" and "length f + 16 \<le> 2 ^ 64" and "counter_is f pre c"
  shows "\<exists>g. path_pre_dec p f = Some (c - 1, g) \<and> (path_has_data f p \<longrightarrow> path_post_dec p f = Some (c, g)) \<and>
    store_ok g \<and> at_path g p pre \<and> entry g = (entry f)(pre \<mapsto> index_bytes (c - 1))"
proof -
  have "c - 1 < 2 ^ 64" using assms(4) by (auto simp: counter_is_def)
  from counter_write [OF assms(1-3) this] obtain r g where
    g: "path_set_index (c - 1) p f = Some (r, g)" "store_ok g" "at_path g p pre"
      "entry g = (entry f)(pre \<mapsto> index_bytes (c - 1))" by blast
  have "path_pre_dec p f = Some (c - 1, g)" "path_has_data f p \<longrightarrow> path_post_dec p f = Some (c, g)"
    using counter_read [OF assms(1,2,4)] g(1)
    by (cases "path_has_data f p"; cases c; simp add: path_pre_dec_def path_post_dec_def)+
  with g show ?thesis by blast
qed

theorem path_decrement_witness:
  "\<exists>g. path_pre_dec (path_new 0) (database_new []) = Some (0, g) \<and>
     entry g = [[] \<mapsto> index_bytes 0]"
  using path_decrement [OF fresh_database(1,2), of 0]
  by (auto simp: fresh_database(3) counter_is_def database_new_entry)

text \<open>
  Without a counter, \<open>path--\<close> does not behave like \<open>--path\<close>: it stores one where the other
  stores zero.
\<close>

theorem path_post_decrement_missing:
  assumes "store_ok f" and "at_path f p pre" and "length f + 16 \<le> 2 ^ 64" and "entry f pre = None"
  shows "\<exists>g h. path_post_dec p f = Some (0, g) \<and> counter_is g pre 1 \<and>
    path_pre_dec p f = Some (0, h) \<and> counter_is h pre 0"
proof -
  have none: "\<not> path_has_data f p" using get_data_step(2) [OF assms(1,2)] assms(4) by simp
  from counter_write [OF assms(1-3), of 0] counter_write [OF assms(1-3), of 1]
  obtain r g s h where "path_set_index 0 p f = Some (r, g)" "counter_is g pre 0"
    "path_set_index 1 p f = Some (s, h)" "counter_is h pre 1" by auto
  with none show ?thesis by (simp add: path_post_dec_def path_pre_dec_def)
qed

theorem path_post_decrement_missing_witness:
  "\<exists>g. path_post_dec (path_new 0) (database_new []) = Some (0, g) \<and> counter_is g [] 1"
  using path_post_decrement_missing [OF fresh_database(1,2)]
  by (auto simp: fresh_database(3) database_new_entry)

text \<open>
  An identifier stored at a path is read back equal, and a stack of complete values is read back bit by
  bit.
\<close>

theorem path_typed_data_roundtrip:
  assumes "store_ok f" and "at_path f p pre" and "length f + 8 + length (id_to_data i) \<le> 2 ^ 64"
    and "length f + 8 + length (stack_to_data s) \<le> 2 ^ 64"
    and "timestamp_exact (id_timestamp i)" and "st_bits s = concat cs" and "\<forall>c \<in> set cs. complete_code c"
  shows "(\<exists>r g j. path_set_id i p f = Some (r, g) \<and> path_get_id fresh g p = Some j \<and> id_eq i j) \<and>
    (\<exists>r g. path_set_stack s p f = Some (r, g) \<and>
       path_get_stack g p = Some \<lparr>st_bits = st_bits s, st_it = Some 0, st_count = 0\<rparr>)"
proof
  have read: "path_get_data g p = Some v" if "store_ok g" "\<forall>q r. at_path f q r \<longrightarrow> at_path g q r"
      "entry g = (entry f)(pre \<mapsto> v)" for g v
    using get_data_step(1) [OF that(1), of p pre] that assms(2) by simp
  from set_data_step [OF assms(1-3)] read id_restore [of fresh i]
  show "\<exists>r g j. path_set_id i p f = Some (r, g) \<and> path_get_id fresh g p = Some j \<and> id_eq i j"
    by (fastforce simp: path_set_id_def path_get_id_def id_from_data_def id_eq_def timestamp_eq_def)
  from set_data_step [OF assms(1,2,4)] read stack_data_restore [OF assms(7,6)]
  show "\<exists>r g. path_set_stack s p f = Some (r, g) \<and>
      path_get_stack g p = Some \<lparr>st_bits = st_bits s, st_it = Some 0, st_count = 0\<rparr>"
    by (fastforce simp: path_set_stack_def path_get_stack_def)
qed

theorem path_typed_data_roundtrip_witness:
  "\<exists>r g. path_set_stack stack_new (path_new 0) (database_new []) = Some (r, g) \<and>
     path_get_stack g (path_new 0) = Some \<lparr>st_bits = [], st_it = Some 0, st_count = 0\<rparr>"
proof -
  let ?i = "\<lparr>id_key = [], id_name = ''b'', id_timestamp = \<lparr>ts_milliseconds = 5, ts_increment = 0\<rparr>\<rparr>"
  have "length (id_to_data ?i) < 100" by code_simp
  then show ?thesis
    using path_typed_data_roundtrip [OF fresh_database(1,2), of ?i stack_new "[]"]
    by (simp add: fresh_database(3) timestamp_exact_def double_exact_def stack_new_def stack_to_data_def)
qed

end
