(* ===== verification/Path_Cursor.thy ===== *)
theory Path_Cursor
  imports Bit_Stack
begin

text \<open>
  The abstract class \<open>PathBase\<close> (code/Database/PathBase.hpp): the pure virtual methods as a record
  of functions on the state of the object (a move is \<open>None\<close> where the code would be undefined), and the algorithms \<open>next\<close>, \<open>previous\<close>, \<open>goToMin\<close> and
  \<open>goToMax\<close> over them. In the code \<open>previous\<close> is \<open>next\<close> with left and right exchanged, and
  \<open>goToMax\<close> is \<open>goToMin\<close> so; the definitions have the side \<open>d\<close> that is tried first as an argument
  (\<open>False\<close> is left). The loops end when the trie is finite, hence \<open>option\<close>.
\<close>

record 's path_ops =
  can_left :: "'s \<Rightarrow> bool"
  can_right :: "'s \<Rightarrow> bool"
  move_left :: "'s \<Rightarrow> 's option"
  move_right :: "'s \<Rightarrow> 's option"
  move_up :: "'s \<Rightarrow> 's option"
  copy_path :: "'s \<Rightarrow> 's"

definition can_move :: "'s path_ops \<Rightarrow> bool \<Rightarrow> 's \<Rightarrow> bool" where
  "can_move ops d s = (if d then can_right ops s else can_left ops s)"

definition move :: "'s path_ops \<Rightarrow> bool \<Rightarrow> 's \<Rightarrow> 's option" where
  "move ops d s = (if d then move_right ops s else move_left ops s)"

definition dead_end :: "'s path_ops \<Rightarrow> 's \<Rightarrow> bool" where
  "dead_end ops s \<longleftrightarrow> \<not> (can_left ops s \<or> can_right ops s)"

section \<open>The algorithms\<close>

text \<open>The loop that follows the first side; the result says whether a complete value was reached.\<close>

partial_function (option) follow_first ::
    "'s path_ops \<Rightarrow> bool \<Rightarrow> 's \<Rightarrow> bit_stack \<Rightarrow> (bool \<times> 's \<times> bit_stack) option" where
  "follow_first ops d s st =
     (if can_move ops d s then
        do { let st = stack_push_back d st;
             s \<leftarrow> move ops d s;
             if st_count st = 0 then Some (True, s, st) else follow_first ops d s st }
      else if can_move ops (\<not> d) s then
        do { let st = stack_push_back (\<not> d) st;
             s \<leftarrow> move ops (\<not> d) s;
             if st_count st = 0 then Some (True, s, st) else follow_first ops d s st }
      else Some (False, s, st))"

declare follow_first.simps [code]

text \<open>The loop that goes up to the first turn not taken yet, takes it and follows the first side.\<close>

partial_function (option) climb ::
    "'s path_ops \<Rightarrow> bool \<Rightarrow> 's \<Rightarrow> bit_stack \<Rightarrow> (bool \<times> 's \<times> bit_stack) option" where
  "climb ops d s st =
     (if st_bits st = [] then Some (False, s, st)
      else do { b \<leftarrow> stack_last st;
                st \<leftarrow> stack_pop_back st;
                s \<leftarrow> move_up ops s;
                if can_move ops (\<not> d) s \<and> b = d then
                  do { s \<leftarrow> move ops (\<not> d) s;
                       (found, s, st) \<leftarrow> follow_first ops d s (stack_push_back (\<not> d) st);
                       if found then Some (True, s, st) else climb ops d s st }
                else climb ops d s st })"

declare climb.simps [code]

text \<open>
  \<open>next\<close> calls \<open>goToMin\<close> on an empty stack, and \<open>goToMin\<close> calls \<open>next\<close> at a dead end; here
  the call of \<open>goToMin\<close> is written out.
\<close>

partial_function (option) seek ::
    "'s path_ops \<Rightarrow> bool \<Rightarrow> 's \<Rightarrow> bit_stack \<Rightarrow> (bool \<times> 's \<times> bit_stack) option" where
  "seek ops d s st =
     (if st_bits st = [] then
        if dead_end ops s then Some (False, s, st)
        else do { (found, s, st) \<leftarrow> follow_first ops d s st;
                  if found then Some (True, s, st) else seek ops d s st }
      else climb ops d s st)"

declare seek.simps [code]

definition go_to_end ::
    "'s path_ops \<Rightarrow> bool \<Rightarrow> 's \<Rightarrow> bit_stack \<Rightarrow> (bool \<times> 's \<times> bit_stack) option" where
  "go_to_end ops d s st =
     do { (found, s, st) \<leftarrow> follow_first ops d s st;
          if found then Some (True, s, st) else seek ops d s st }"

definition path_next :: "'s path_ops \<Rightarrow> 's \<Rightarrow> bit_stack \<Rightarrow> (bool \<times> 's \<times> bit_stack) option" where
  "path_next ops = seek ops False"

definition path_previous :: "'s path_ops \<Rightarrow> 's \<Rightarrow> bit_stack \<Rightarrow> (bool \<times> 's \<times> bit_stack) option" where
  "path_previous ops = seek ops True"

definition go_to_min :: "'s path_ops \<Rightarrow> 's \<Rightarrow> bit_stack \<Rightarrow> (bool \<times> 's \<times> bit_stack) option" where
  "go_to_min ops = go_to_end ops False"

definition go_to_max :: "'s path_ops \<Rightarrow> 's \<Rightarrow> bit_stack \<Rightarrow> (bool \<times> 's \<times> bit_stack) option" where
  "go_to_max ops = go_to_end ops True"

text \<open>
  The versions that read the item; \<open>get\<close> is the reader of its type (\<open>operator >>\<close>). \<open>min\<close> and \<open>max\<close> work on a copy
  of the path and start from a new stack; their \<open>Some None\<close> is the answer that there is no value.
\<close>

definition next_item ::
    "(bit_stack \<Rightarrow> ('t \<times> bit_stack) option) \<Rightarrow> 's path_ops \<Rightarrow> 's \<Rightarrow> bit_stack \<Rightarrow> 't \<Rightarrow>
     (bool \<times> 's \<times> bit_stack \<times> 't) option" where
  "next_item get ops s st item =
     do { (result, s, st) \<leftarrow> path_next ops s st;
          if result then do { (item, st) \<leftarrow> get (stack_reset st); Some (True, s, st, item) }
          else Some (False, s, st, item) }"

definition previous_item ::
    "(bit_stack \<Rightarrow> ('t \<times> bit_stack) option) \<Rightarrow> 's path_ops \<Rightarrow> 's \<Rightarrow> bit_stack \<Rightarrow> 't \<Rightarrow>
     (bool \<times> 's \<times> bit_stack \<times> 't) option" where
  "previous_item get ops s st item =
     do { (result, s, st) \<leftarrow> path_previous ops s st;
          if result then do { (item, st) \<leftarrow> get (stack_reset st); Some (True, s, st, item) }
          else Some (False, s, st, item) }"

definition path_min :: "(bit_stack \<Rightarrow> ('t \<times> bit_stack) option) \<Rightarrow> 's path_ops \<Rightarrow> 's \<Rightarrow> 't option option" where
  "path_min get ops s =
     do { (result, s, st) \<leftarrow> go_to_min ops (copy_path ops s) stack_new;
          if result then map_option (\<lambda>(item, st). Some item) (get (stack_reset st)) else Some None }"

definition path_max :: "(bit_stack \<Rightarrow> ('t \<times> bit_stack) option) \<Rightarrow> 's path_ops \<Rightarrow> 's \<Rightarrow> 't option option" where
  "path_max get ops s =
     do { (result, s, st) \<leftarrow> go_to_max ops (copy_path ops s) stack_new;
          if result then map_option (\<lambda>(item, st). Some item) (get (stack_reset st)) else Some None }"

section \<open>Paths that are still open\<close>

text \<open>Bits that do not contain a complete value yet, and could become one.\<close>

definition open_path :: "bits \<Rightarrow> bool" where
  "open_path p \<longleftrightarrow> (\<forall>q. prefix q p \<longrightarrow> q \<noteq> [] \<longrightarrow> 1 \<le> weight q)"

lemma open_Nil [simp]: "open_path []"
  by (simp add: open_path_def)

lemma open_prefix: "open_path p \<Longrightarrow> prefix q p \<Longrightarrow> open_path q"
  unfolding open_path_def using prefix_order.trans by blast

lemma open_snoc: "open_path (p @ [b]) \<longleftrightarrow> open_path p \<and> 1 \<le> weight (p @ [b])"
  by (auto simp: open_path_def)

lemma complete_open: "complete_code p \<Longrightarrow> strict_prefix q p \<Longrightarrow> open_path q"
  unfolding complete_code_def stays_above_def open_path_def
  using prefix_order.le_less_trans by blast

lemma complete_not_open: "complete_code p \<Longrightarrow> prefix p q \<Longrightarrow> \<not> open_path q"
  unfolding open_path_def complete_code_def by fastforce

lemma open_snoc_complete:
  assumes "open_path p" and "weight (p @ [b]) = 0"
  shows "complete_code (p @ [b])"
  using assms unfolding complete_code_def stays_above_def open_path_def
  by (auto simp: strict_prefix_snoc_iff)

text \<open>
  \<open>reached p\<close>: what a search may stand on: an open path or a complete value.
\<close>

definition reached :: "bits \<Rightarrow> bool" where
  "reached p \<longleftrightarrow> open_path p \<or> complete_code p"

lemma reached_snoc: "reached (p @ [b]) \<Longrightarrow> open_path p"
  unfolding reached_def using open_snoc complete_open [of "p @ [b]" p] by (auto simp: strict_prefix_def)


section \<open>Prefix closed sets\<close>

definition prefix_closed :: "bits set \<Rightarrow> bool" where
  "prefix_closed T \<longleftrightarrow> (\<forall>q r. q @ r \<in> T \<longrightarrow> q \<in> T)"

lemma prefix_closedD: "prefix_closed T \<Longrightarrow> q @ r \<in> T \<Longrightarrow> q \<in> T"
  unfolding prefix_closed_def by blast

section \<open>Values in order\<close>

text \<open>A descent that goes right only where it cannot go left (for \<open>d = False\<close>).\<close>

definition first_only :: "bits set \<Rightarrow> bool \<Rightarrow> bits \<Rightarrow> bits \<Rightarrow> bool" where
  "first_only T d p r \<longleftrightarrow> (\<forall>u v. r = u @ (\<not> d) # v \<longrightarrow> p @ u @ [d] \<notin> T)"

lemma first_only_Nil: "first_only T d p []"
  by (simp add: first_only_def)

lemma first_only_Cons:
  assumes "first_only T d (p @ [b]) r" and "b = d \<or> p @ [d] \<notin> T"
  shows "first_only T d p (b # r)"
proof -
  have "p @ u @ [d] \<notin> T" if "b # r = u @ (\<not> d) # v" for u v
    using that assms by (cases u) (auto simp: first_only_def)
  then show ?thesis by (simp add: first_only_def)
qed

text \<open>Nothing in the trie comes before a first descent and branches off it.\<close>

lemma first_only_least:
  assumes closed: "prefix_closed T" and "first_only T d p r" and "prefix p q" and "q \<in> T"
  shows "\<not> dir_less d q (p @ r)"
proof
  assume "dir_less d q (p @ r)"
  moreover from assms(3) obtain q' where q': "q = p @ q'" by (auto elim: prefixE)
  ultimately have "dir_less d q' r" by simp
  then obtain c u v where "q' = c @ d # u" "r = c @ (\<not> d) # v" by (auto simp: dir_less_def)
  with q' assms(2,4) prefix_closedD [OF closed, of "p @ c @ [d]" u] show False by (auto simp: first_only_def)
qed

text \<open>The complete values of a trie.\<close>

definition keys :: "bits set \<Rightarrow> bits set" where
  "keys T = {q \<in> T. complete_code q}"

text \<open>
  \<open>next\<close> never meets a complete value at the branch it turns into, since it turns right and values end in
  a zero. \<open>previous\<close> turns left, and its loop does not look at the count before it follows on: it needs that
  no value is the left sibling of a branch.
\<close>

definition turn_safe :: "bool \<Rightarrow> bits set \<Rightarrow> bool" where
  "turn_safe d T \<longleftrightarrow> (d \<longrightarrow> (\<forall>p. p @ [True] \<in> T \<longrightarrow> p @ [False] \<in> T \<longrightarrow> \<not> complete_code (p @ [False])))"

definition next_key :: "bool \<Rightarrow> bits set \<Rightarrow> bits \<Rightarrow> bool \<Rightarrow> bits \<Rightarrow> bool" where
  "next_key d T p found q \<longleftrightarrow>
     (if found then q \<in> keys T \<and> dir_less d p q \<and> (\<forall>k \<in> keys T. dir_less d p k \<longrightarrow> k = q \<or> dir_less d q k)
      else q = [] \<and> (\<forall>k \<in> keys T. \<not> dir_less d p k))"

lemma next_key_unique:
  assumes "next_key d T p f q" and "next_key d T p g r"
  shows "f = g \<and> q = r"
proof (cases f; cases g)
  assume f g
  with assms have "r = q \<or> dir_less d q r" "q = r \<or> dir_less d r q" by (simp_all add: next_key_def)
  with dir_less_trans [of d q r q] dir_less_irrefl \<open>f\<close> \<open>g\<close> show ?thesis by blast
next
  assume f "\<not> g"
  with assms show ?thesis by (auto simp: next_key_def)
next
  assume "\<not> f" g
  with assms show ?thesis by (auto simp: next_key_def)
next
  assume "\<not> f" "\<not> g"
  with assms show ?thesis by (simp add: next_key_def)
qed

lemma dir_less_snoc:
  "dir_less d (p @ [b]) k \<longleftrightarrow> dir_less d p k \<or> b = d \<and> prefix (p @ [\<not> d]) k"
proof (induction p arbitrary: k)
  case Nil
  show ?case by (cases k) (auto simp: dir_less_Cons)
next
  case (Cons a p)
  then show ?case by (cases k) (auto simp: dir_less_Cons)
qed

lemma next_key_up:
  assumes "\<And>k. k \<in> keys T \<Longrightarrow> dir_less d (p @ [b]) k \<longleftrightarrow> dir_less d p k" and "next_key d T p found q"
  shows "next_key d T (p @ [b]) found q"
  using assms by (auto simp: next_key_def)

text \<open>The values below a first descent that reached a value, or a dead end.\<close>

lemma keys_at_descent:
  assumes closed: "prefix_closed T" and "first_only T d p r" and k: "k \<in> keys T" "prefix p k"
    and stop: "complete_code (p @ r) \<or> open_path (p @ r) \<and> (\<forall>b. p @ r @ [b] \<notin> T)"
  shows "k = p @ r \<and> complete_code (p @ r) \<or> dir_less d (p @ r) k"
proof -
  have kT: "k \<in> T" "complete_code k" using k(1) by (simp_all add: keys_def)
  have "\<not> dir_less d k (p @ r)" by (rule first_only_least [OF closed assms(2) k(2) kT(1)])
  with dir_less_total [of k "p @ r" d] consider "prefix k (p @ r)" | "prefix (p @ r) k" | "dir_less d (p @ r) k"
    by blast
  then show ?thesis
  proof cases
    case 1
    with complete_not_open [OF kT(2)] stop have "complete_code (p @ r)" by blast
    with complete_prefix_free [OF kT(2) this 1] show ?thesis by simp
  next
    case 2
    show ?thesis
    proof (cases "complete_code (p @ r)")
      case True
      with complete_prefix_free [OF True kT(2) 2] show ?thesis by simp
    next
      case False
      with stop have leaf: "open_path (p @ r)" "\<forall>b. (p @ r) @ [b] \<notin> T" by simp_all
      from 2 obtain v where v: "k = (p @ r) @ v" by (auto elim: prefixE)
      show ?thesis
      proof (cases v)
        case Nil
        with v complete_not_open [OF kT(2), of "p @ r"] leaf(1) show ?thesis by simp
      next
        case (Cons b w)
        with v kT(1) prefix_closedD [OF closed, of "(p @ r) @ [b]" w] leaf(2) show ?thesis by simp
      qed
    qed
  qed simp
qed

definition first_key :: "bool \<Rightarrow> bits set \<Rightarrow> bool \<Rightarrow> bits \<Rightarrow> bool" where
  "first_key d T found q \<longleftrightarrow>
     (if found then q \<in> keys T \<and> (\<forall>k \<in> keys T. k = q \<or> dir_less d q k) else q = [] \<and> keys T = {})"

section \<open>The contract of a path\<close>

text \<open>
  What a subclass of \<open>PathBase\<close> promises: \<open>den s T p\<close> says that the object in state \<open>s\<close> stands at the
  bits \<open>p\<close> of the finite trie \<open>T\<close>, in which no sequence has more zeros than ones; the virtual methods
  move about in \<open>T\<close>.
\<close>

locale path_cursor =
  fixes ops :: "'s path_ops"
    and den :: "'s \<Rightarrow> bits set \<Rightarrow> bits \<Rightarrow> bool"
  assumes den_here: "den s T p \<Longrightarrow> p \<in> T"
    and den_finite: "den s T p \<Longrightarrow> finite T"
    and den_prefix: "den s T p \<Longrightarrow> prefix_closed T"
    and den_weight: "den s T p \<Longrightarrow> q \<in> T \<Longrightarrow> 0 \<le> weight q"
    and den_can: "den s T p \<Longrightarrow> can_move ops d s \<longleftrightarrow> p @ [d] \<in> T"
    and den_move: "den s T p \<Longrightarrow> p @ [d] \<in> T \<Longrightarrow> \<exists>s'. move ops d s = Some s' \<and> den s' T (p @ [d])"
    and den_up: "den s T (p @ [d]) \<Longrightarrow> \<exists>s'. move_up ops s = Some s' \<and> den s' T p"
    and den_copy: "den s T [] \<Longrightarrow> den (copy_path ops s) T []"
begin

definition stands :: "'s \<Rightarrow> bit_stack \<Rightarrow> bits set \<Rightarrow> bits \<Rightarrow> bool" where
  "stands s st T p \<longleftrightarrow> den s T p \<and> st_bits st = p \<and> balanced st"

lemma stands_start: "den s T [] \<Longrightarrow> stands s stack_new T []"
  by (simp add: stands_def balanced_new) (simp add: stack_new_def)

lemma stands_count: "stands s st T p \<Longrightarrow> st_count st = weight p"
  by (auto simp: stands_def balanced_def)

lemma stands_move:
  assumes "stands s st T p" and "p @ [d] \<in> T"
  shows "\<exists>s'. move ops d s = Some s' \<and> stands s' (stack_push_back d st) T (p @ [d])"
proof -
  have den: "den s T p" and st: "st_bits st = p" "balanced st" using assms(1) by (simp_all add: stands_def)
  have "balanced (stack_push_back d st)"
    using den_weight [OF den assms(2)] st by (intro balanced_push) simp_all
  with den_move [OF den assms(2)] st show ?thesis by (auto simp: stands_def)
qed

lemma stands_up:
  assumes "stands s st T (p @ [d])"
  shows "\<exists>s' st'. stack_last st = Some d \<and> stack_pop_back st = Some st' \<and> move_up ops s = Some s' \<and>
    stands s' st' T p"
  using assms den_up balanced_pop [of st p d] unfolding stands_def by blast

lemma follow_first_spec:
  assumes "stands s st T p" and "open_path p"
  shows "\<exists>found s' st' r. follow_first ops d s st = Some (found, s', st') \<and> stands s' st' T (p @ r) \<and>
    first_only T d p r \<and>
    (if found then complete_code (p @ r) else open_path (p @ r) \<and> (\<forall>b. p @ r @ [b] \<notin> T))"
  using assms
proof (induction "card {q \<in> T. strict_prefix p q}" arbitrary: s st p rule: less_induct)
  case less
  have den: "den s T p" using less.prems(1) by (simp add: stands_def)
  have can: "can_move ops b s \<longleftrightarrow> p @ [b] \<in> T" for b using den_can [OF den] .
  text \<open>One step to the side \<open>b\<close>, and the rest of the loop.\<close>
  have step: "\<exists>found s' st' r. do { let st = stack_push_back b st; s \<leftarrow> move ops b s;
        if st_count st = 0 then Some (True, s, st) else follow_first ops d s st } = Some (found, s', st') \<and>
      stands s' st' T (p @ r) \<and> first_only T d p r \<and>
      (if found then complete_code (p @ r) else open_path (p @ r) \<and> (\<forall>b. p @ r @ [b] \<notin> T))"
    if b: "p @ [b] \<in> T" "b = d \<or> p @ [d] \<notin> T" for b
  proof -
    let ?st = "stack_push_back b st"
    from stands_move [OF less.prems(1) b(1)] obtain u where mv: "move ops b s = Some u"
      and st: "stands u ?st T (p @ [b])" by blast
    have c: "st_count ?st = weight (p @ [b])" by (rule stands_count [OF st])
    show ?thesis
    proof (cases "weight (p @ [b]) = 0")
      case True
      with st c open_snoc_complete [OF less.prems(2) True] first_only_Cons [OF first_only_Nil b(2)]
      show ?thesis by (intro exI [of _ True] exI [of _ u] exI [of _ ?st] exI [of _ "[b]"]) (simp add: Let_def mv)
    next
      case False
      with den_weight [OF den b(1)] less.prems(2) have op: "open_path (p @ [b])" by (simp add: open_snoc)
      have "{q \<in> T. strict_prefix (p @ [b]) q} \<subset> {q \<in> T. strict_prefix p q}"
      proof (rule psubsetI)
        have "strict_prefix p (p @ [b])" by (simp add: strict_prefix_def)
        then show "{q \<in> T. strict_prefix (p @ [b]) q} \<subseteq> {q \<in> T. strict_prefix p q}"
          using prefix_order.less_trans by blast
        show "{q \<in> T. strict_prefix (p @ [b]) q} \<noteq> {q \<in> T. strict_prefix p q}"
          using b(1) \<open>strict_prefix p (p @ [b])\<close> by blast
      qed
      then have "card {q \<in> T. strict_prefix (p @ [b]) q} < card {q \<in> T. strict_prefix p q}"
        using den_finite [OF den] by (intro psubset_card_mono) simp_all
      from less.hyps [OF this st op] obtain found s' st' r where
        f: "follow_first ops d u ?st = Some (found, s', st')" "stands s' st' T (p @ b # r)"
          "first_only T d (p @ [b]) r"
          "if found then complete_code (p @ b # r) else open_path (p @ b # r) \<and> (\<forall>e. p @ (b # r) @ [e] \<notin> T)"
        unfolding append_assoc append.simps by blast
      with c False first_only_Cons [OF f(3) b(2)] show ?thesis
        by (intro exI [of _ found] exI [of _ s'] exI [of _ st'] exI [of _ "b # r"]) (simp add: Let_def mv)
    qed
  qed
  show ?case
  proof (cases "p @ [d] \<in> T")
    case True
    with step [of d] can show ?thesis by (simp add: follow_first.simps [of ops d s st])
  next
    case no: False
    show ?thesis
    proof (cases "p @ [\<not> d] \<in> T")
      case True
      with step [of "\<not> d"] can no show ?thesis by (simp add: follow_first.simps [of ops d s st])
    next
      case False
      then have "p @ [b] \<notin> T" for b using no by (cases "b = d") auto
      with less.prems can first_only_Nil show ?thesis
        by (intro exI [of _ False] exI [of _ s] exI [of _ st] exI [of _ "[]"])
          (simp add: follow_first.simps [of ops d s st])
    qed
  qed
qed

lemma climb_spec:
  assumes "stands s st T p" and "reached p" and "turn_safe d T"
  shows "\<exists>found s' st' q. climb ops d s st = Some (found, s', st') \<and> stands s' st' T q \<and> next_key d T p found q"
  using assms
proof (induction "(card {q \<in> T. dir_less d p q}, length p)" arbitrary: s st p
    rule: wf_induct_rule [OF wf_lex_prod [OF wf_less_than wf_less_than]])
  case less: (1 p s st)
  have den: "den s T p" and bits: "st_bits st = p" using less.prems(1) by (simp_all add: stands_def)
  note closed = den_prefix [OF den]
  have fin: "finite {q \<in> T. P q}" for P using den_finite [OF den] by simp
  show ?case
  proof (cases p rule: rev_cases)
    case Nil
    with bits less.prems show ?thesis
      by (intro exI [of _ False] exI [of _ s] exI [of _ st] exI [of _ "[]"])
        (simp add: climb.simps [of ops d s st] next_key_def)
  next
    case (snoc pp b)
    then obtain s1 st1 where st1: "stack_last st = Some b" "stack_pop_back st = Some st1"
      "stands s1 st1 T pp" and up: "move_up ops s = Some s1" using stands_up less.prems(1) by blast
    have op: "open_path pp" using less.prems(2) snoc reached_snoc by blast
    have can: "can_move ops (\<not> d) s1 \<longleftrightarrow> pp @ [\<not> d] \<in> T"
      using den_can st1(3) by (simp add: stands_def)
    show ?thesis
    proof (cases "pp @ [\<not> d] \<in> T \<and> b = d")
      case False
      have run: "climb ops d s st = climb ops d s1 st1"
        using st1 up bits snoc can False by (subst climb.simps) (auto simp: Let_def)
      have same: "dir_less d (pp @ [b]) k \<longleftrightarrow> dir_less d pp k" if "k \<in> keys T" for k
        using that False prefix_closedD [OF closed] by (auto simp: dir_less_snoc keys_def elim!: prefixE)
      have sub: "{q \<in> T. dir_less d pp q} \<subseteq> {q \<in> T. dir_less d p q}"
        using snoc by (auto simp: dir_less_snoc)
      have "((card {q \<in> T. dir_less d pp q}, length pp), (card {q \<in> T. dir_less d p q}, length p))
          \<in> less_than <*lex*> less_than"
        using card_mono [OF fin sub] snoc by auto
      from less.hyps [OF this st1(3) _ less.prems(3)] op obtain found s' st' q where
        c: "climb ops d s1 st1 = Some (found, s', st')" "stands s' st' T q" "next_key d T pp found q"
        by (auto simp: reached_def)
      have "next_key d T (pp @ [b]) found q" by (rule next_key_up [OF same c(3)])
      moreover from run c(1) have "climb ops d s st = Some (found, s', st')" by simp
      ultimately show ?thesis using c(2) unfolding snoc by blast
    next
      case True
      let ?t = "pp @ [\<not> d]" and ?st2 = "stack_push_back (\<not> d) st1"
      from stands_move [OF st1(3)] True obtain s2 where mv: "move ops (\<not> d) s1 = Some s2"
        and st2: "stands s2 ?st2 T ?t" by blast
      have pT: "pp @ [d] \<in> T" using den_here [OF den] snoc True by simp
      have "weight ?t \<noteq> 0"
      proof
        assume w: "weight ?t = 0"
        have code: "complete_code ?t" by (rule open_snoc_complete [OF op w])
        show False
        proof (cases d)
          case True
          with code less.prems(3) pT \<open>pp @ [\<not> d] \<in> T \<and> b = d\<close> show False by (auto simp: turn_safe_def)
        next
          case False
          from den_weight [OF den, of pp] prefix_closedD [OF closed pT] w False show False by simp
        qed
      qed
      with den_weight [OF den, of ?t] True op have opt: "open_path ?t" by (simp add: open_snoc)
      from follow_first_spec [OF st2 opt, of d] obtain found s3 st3 r where
        f: "follow_first ops d s2 ?st2 = Some (found, s3, st3)" "stands s3 st3 T (?t @ r)" "first_only T d ?t r"
          "if found then complete_code (?t @ r) else open_path (?t @ r) \<and> (\<forall>b. ?t @ r @ [b] \<notin> T)" by blast
      have stop: "complete_code (?t @ r) \<or> open_path (?t @ r) \<and> (\<forall>b. ?t @ r @ [b] \<notin> T)"
        using f(4) by (auto split: if_splits)
      have run: "climb ops d s st = (if found then Some (True, s3, st3) else climb ops d s3 st3)"
        using st1 up mv bits snoc can True f(1) by (subst climb.simps) (auto simp: Let_def)
      have inT: "?t @ r \<in> T" using f(2) den_here by (auto simp: stands_def)
      have after: "dir_less d p (?t @ r)" using snoc True by (simp add: dir_less_Cons)
      have later: "k = ?t @ r \<and> complete_code (?t @ r) \<or> dir_less d (?t @ r) k"
        if "k \<in> keys T" "dir_less d p k" for k
      proof (cases "prefix ?t k")
        case True
        with keys_at_descent [OF closed f(3) that(1) _ stop] show ?thesis by blast
      next
        case False
        with that(2) snoc have "dir_less d pp k" by (auto simp: dir_less_snoc)
        then have "dir_less d (pp @ (\<not> d) # r) k" by (rule dir_less_extend)
        then show ?thesis by simp
      qed
      show ?thesis
      proof (cases found)
        case True
        with f(4) inT after later have "next_key d T p True (?t @ r)" by (auto simp: next_key_def keys_def)
        with run f(2) True show ?thesis by auto
      next
        case False
        with f(4) have op3: "open_path (?t @ r)" by simp
        then have nc: "\<not> complete_code (?t @ r)" using complete_not_open by blast
        have sub: "{q \<in> T. dir_less d (?t @ r) q} \<subset> {q \<in> T. dir_less d p q}"
        proof (rule psubsetI)
          show "{q \<in> T. dir_less d (?t @ r) q} \<subseteq> {q \<in> T. dir_less d p q}"
            using dir_less_trans [OF after] by blast
          show "{q \<in> T. dir_less d (?t @ r) q} \<noteq> {q \<in> T. dir_less d p q}"
            using inT after dir_less_irrefl by blast
        qed
        then have "((card {q \<in> T. dir_less d (?t @ r) q}, length (?t @ r)), (card {q \<in> T. dir_less d p q}, length p))
            \<in> less_than <*lex*> less_than"
          using psubset_card_mono [OF fin sub] by simp
        from less.hyps [OF this f(2) _ less.prems(3)] op3 obtain found' s' st' q where
          c: "climb ops d s3 st3 = Some (found', s', st')" "stands s' st' T q" "next_key d T (?t @ r) found' q"
          by (auto simp: reached_def)
        have same: "dir_less d p k \<longleftrightarrow> dir_less d (?t @ r) k" if "k \<in> keys T" for k
          using later [OF that] nc dir_less_trans [OF after] by blast
        then have "next_key d T p found' q" using c(3) after dir_less_trans unfolding next_key_def
          by (smt (verit) after dir_less_trans)
        with run False c show ?thesis by auto
      qed
    qed
  qed
qed

lemma end_spec:
  assumes "stands s st T []" and "turn_safe d T" and "\<not> dead_end ops s"
  shows "\<exists>found s' st' q s1 st1 f1. follow_first ops d s st = Some (f1, s1, st1) \<and>
    (if f1 then Some (True, s1, st1) else climb ops d s1 st1) = Some (found, s', st') \<and>
    (\<not> f1 \<longrightarrow> st_bits st1 \<noteq> []) \<and> stands s' st' T q \<and> first_key d T found q"
proof -
  from follow_first_spec [OF assms(1) open_Nil, of d] obtain f1 s1 st1 r where
    f: "follow_first ops d s st = Some (f1, s1, st1)" "stands s1 st1 T r" "first_only T d [] r"
      "if f1 then complete_code r else open_path r \<and> (\<forall>b. r @ [b] \<notin> T)"
    unfolding append_Nil by blast
  have den: "den s T []" using assms(1) by (simp add: stands_def)
  have rT: "r \<in> T" using f(2) den_here unfolding stands_def by blast
  have stop: "complete_code ([] @ r) \<or> open_path ([] @ r) \<and> (\<forall>b. [] @ r @ [b] \<notin> T)"
    using f(4) by (auto split: if_splits)
  have later: "k = r \<and> complete_code r \<or> dir_less d r k" if "k \<in> keys T" for k
    using keys_at_descent [OF den_prefix [OF den] f(3) that _ stop] by simp
  show ?thesis
  proof (cases f1)
    case True
    with f(4) rT later have "first_key d T True r" by (auto simp: first_key_def keys_def)
    with f(1,2) True show ?thesis
      by (intro exI [of _ True] exI [of _ s1] exI [of _ st1] exI [of _ r] exI [of _ s1] exI [of _ st1]
          exI [of _ True]) simp
  next
    case False
    with f(4) have leaf: "open_path r" "\<forall>b. r @ [b] \<notin> T" by simp_all
    have nc: "\<not> complete_code r" using leaf(1) complete_not_open by blast
    have "r \<noteq> []"
    proof
      assume "r = []"
      with leaf(2) den_can [OF den] assms(3) show False
        by (auto simp: dead_end_def can_move_def split: if_splits) (metis append_Nil)+
    qed
    moreover have "st_bits st1 = r" using f(2) by (simp add: stands_def)
    moreover from climb_spec [OF f(2) _ assms(2)] leaf(1) obtain found s' st' q where
      c: "climb ops d s1 st1 = Some (found, s', st')" "stands s' st' T q" "next_key d T r found q"
      by (auto simp: reached_def)
    moreover have "first_key d T found q" using c(3) later nc by (auto simp: first_key_def next_key_def)
    ultimately show ?thesis using f(1) False
      by (intro exI [of _ found] exI [of _ s'] exI [of _ st'] exI [of _ q] exI [of _ s1] exI [of _ st1]
          exI [of _ False]) simp
  qed
qed

lemma seek_start:
  assumes "den s T []" and "st_bits st = []" and "balanced st" and "turn_safe d T"
  shows "\<exists>found s' st' q. seek ops d s st = Some (found, s', st') \<and> stands s' st' T q \<and> first_key d T found q"
proof (cases "dead_end ops s")
  case True
  have st: "stands s st T []" using assms by (simp add: stands_def)
  have "keys T = {}"
  proof (rule equals0I)
    fix k assume "k \<in> keys T"
    then obtain b v where "b # v \<in> T" by (cases k) (auto simp: keys_def complete_code_def)
    with prefix_closedD [OF den_prefix [OF assms(1)], of "[b]" v] have "[b] \<in> T" by simp
    with den_can [OF assms(1), of b] True show False by (cases b) (simp_all add: dead_end_def can_move_def)
  qed
  with st True assms(2) show ?thesis
    by (intro exI [of _ False] exI [of _ s] exI [of _ st] exI [of _ "[]"])
      (simp add: seek.simps [of ops d s st] first_key_def)
next
  case False
  have st: "stands s st T []" using assms by (simp add: stands_def)
  from end_spec [OF st assms(4) False] obtain found s' st' q s1 st1 f1 where
    e: "follow_first ops d s st = Some (f1, s1, st1)"
      "(if f1 then Some (True, s1, st1) else climb ops d s1 st1) = Some (found, s', st')"
      "\<not> f1 \<longrightarrow> st_bits st1 \<noteq> []" "stands s' st' T q" "first_key d T found q" by blast
  have "seek ops d s st = Some (found, s', st')"
    using e(1-3) False assms(2) by (cases f1) (simp_all add: seek.simps [of ops d s st] seek.simps [of ops d s1 st1])
  with e(4,5) show ?thesis by blast
qed

lemma go_to_end_start:
  assumes "den s T []" and "turn_safe d T"
  shows "\<exists>found s' st' q. go_to_end ops d s stack_new = Some (found, s', st') \<and> stands s' st' T q \<and>
    first_key d T found q"
proof (cases "dead_end ops s")
  case True
  then have "go_to_end ops d s stack_new = seek ops d s stack_new"
    by (simp add: go_to_end_def follow_first.simps [of ops d s stack_new] dead_end_def can_move_def)
  with seek_start [OF assms(1) _ balanced_new assms(2)] show ?thesis by (simp add: stack_new_def)
next
  case False
  from end_spec [OF stands_start [OF assms(1)] assms(2) False] obtain found s' st' q s1 st1 f1 where
    e: "follow_first ops d s stack_new = Some (f1, s1, st1)"
      "(if f1 then Some (True, s1, st1) else climb ops d s1 st1) = Some (found, s', st')"
      "\<not> f1 \<longrightarrow> st_bits st1 \<noteq> []" "stands s' st' T q" "first_key d T found q" by blast
  have "go_to_end ops d s stack_new = Some (found, s', st')"
    using e(1-3) by (cases f1) (simp_all add: go_to_end_def seek.simps [of ops d s1 st1])
  with e(4,5) show ?thesis by blast
qed

lemma seek_next:
  assumes "stands s st T p" and "complete_code p" and "turn_safe d T"
  shows "\<exists>found s' st' q. seek ops d s st = Some (found, s', st') \<and> stands s' st' T q \<and> next_key d T p found q"
proof -
  have "st_bits st \<noteq> []" using assms(1,2) by (auto simp: stands_def complete_code_def)
  with climb_spec [OF assms(1) _ assms(3)] assms(2) show ?thesis
    by (simp add: seek.simps [of ops d s st] reached_def)
qed

end

end
