(* ===== verification/Path_Iterable.thy ===== *)
theory Path_Iterable
  imports Path_Cursor Stack_Data Base64_Codec
begin

text \<open>
  The iterators over the values of a path (code/Database/Iterable.hpp): an iterator owns a copy of the
  path, the bits of the current value and the value read from them. \<open>get\<close> is the reader of the item
  type and \<open>item\<close> its default value; \<open>None\<close> is an exception (\<open>InvalidStackException\<close>) or undefined behaviour.
\<close>

record ('s, 't) iterator =
  it_path :: "'s option"
  it_item :: 't
  it_stack :: bit_stack
  it_is_end :: bool

section \<open>Forward iterators\<close>

definition iterator_end :: "'t \<Rightarrow> ('s, 't) iterator" where
  "iterator_end item = \<lparr>it_path = None, it_item = item, it_stack = stack_new, it_is_end = True\<rparr>"

definition iterator_begin ::
    "(bit_stack \<Rightarrow> ('t \<times> bit_stack) option) \<Rightarrow> 's path_ops \<Rightarrow> 's \<Rightarrow> 't \<Rightarrow> ('s, 't) iterator option" where
  "iterator_begin get ops s item =
     do { (result, s, st, item) \<leftarrow> next_item get ops (copy_path ops s) stack_new item;
          Some \<lparr>it_path = Some s, it_item = item, it_stack = st, it_is_end = (\<not> result)\<rparr> }"

text \<open>The constructor from a stack follows its bits, with an unsigned count, and moves on to the next value.\<close>

fun follow_bits :: "'s path_ops \<Rightarrow> bits \<Rightarrow> 's \<Rightarrow> nat \<Rightarrow> ('s \<times> nat) option" where
  "follow_bits ops [] s count = Some (s, count)"
| "follow_bits ops (b # bs) s count =
     (if \<not> b \<and> can_left ops s then
        do { s \<leftarrow> move_left ops s; follow_bits ops bs s ((count + (2 ^ 64 - 1)) mod 2 ^ 64) }
      else if b \<and> can_right ops s then
        do { s \<leftarrow> move_right ops s; follow_bits ops bs s ((count + 1) mod 2 ^ 64) }
      else None)"

definition iterator_from ::
    "(bit_stack \<Rightarrow> ('t \<times> bit_stack) option) \<Rightarrow> 's path_ops \<Rightarrow> 's \<Rightarrow> bit_stack \<Rightarrow> 't \<Rightarrow>
     ('s, 't) iterator option" where
  "iterator_from get ops s st item =
     do { (s, count) \<leftarrow> follow_bits ops (st_bits st) (copy_path ops s) 0;
          if count \<noteq> 0 then None
          else do { (result, s, st, item) \<leftarrow> next_item get ops s (stack_copy st) item;
                    Some \<lparr>it_path = Some s, it_item = item, it_stack = st, it_is_end = (\<not> result)\<rparr> } }"

definition iterator_from_key ::
    "(bit_stack \<Rightarrow> ('t \<times> bit_stack) option) \<Rightarrow> 's path_ops \<Rightarrow> 's \<Rightarrow> bstring \<Rightarrow> 't \<Rightarrow>
     ('s, 't) iterator option" where
  "iterator_from_key get ops s key item =
     do { raw \<leftarrow> from_base64 key;
          let st = stack_from_data raw;
          if st_count st \<noteq> 0 then None else iterator_from get ops s st item }"

definition iterator_next ::
    "(bit_stack \<Rightarrow> ('t \<times> bit_stack) option) \<Rightarrow> 's path_ops \<Rightarrow> ('s, 't) iterator \<Rightarrow> ('s, 't) iterator option" where
  "iterator_next get ops it =
     do { s \<leftarrow> it_path it;
          (result, s, st, item) \<leftarrow> next_item get ops s (it_stack it) (it_item it);
          Some (it\<lparr>it_path := Some s, it_item := item, it_stack := st, it_is_end := \<not> result\<rparr>) }"

definition iterator_copy :: "'s path_ops \<Rightarrow> ('s, 't) iterator \<Rightarrow> ('s, 't) iterator" where
  "iterator_copy ops it = it\<lparr>it_path := map_option (copy_path ops) (it_path it), it_stack := stack_copy (it_stack it)\<rparr>"

text \<open>Postfix increment: a copy of before, and the moved iterator.\<close>

definition iterator_post_next ::
    "(bit_stack \<Rightarrow> ('t \<times> bit_stack) option) \<Rightarrow> 's path_ops \<Rightarrow> ('s, 't) iterator \<Rightarrow>
     (('s, 't) iterator \<times> ('s, 't) iterator) option" where
  "iterator_post_next get ops it = map_option (\<lambda>it'. (iterator_copy ops it, it')) (iterator_next get ops it)"

definition iterator_eq :: "('s, 't) iterator \<Rightarrow> ('s, 't) iterator \<Rightarrow> bool" where
  "iterator_eq a b = stack_eq (it_stack a) (it_stack b)"

definition iterator_to_data :: "('s, 't) iterator \<Rightarrow> bstring" where
  "iterator_to_data it = stack_to_data (it_stack it)"

definition iterator_to_key :: "('s, 't) iterator \<Rightarrow> bstring" where
  "iterator_to_key it = to_base64 (iterator_to_data it)"

section \<open>Reverse iterators\<close>

definition reverse_begin ::
    "(bit_stack \<Rightarrow> ('t \<times> bit_stack) option) \<Rightarrow> 's path_ops \<Rightarrow> 's \<Rightarrow> 't \<Rightarrow> ('s, 't) iterator option" where
  "reverse_begin get ops s item =
     do { (result, s, st, item) \<leftarrow> previous_item get ops (copy_path ops s) stack_new item;
          Some \<lparr>it_path = Some s, it_item = item, it_stack = st, it_is_end = (\<not> result)\<rparr> }"

definition reverse_next ::
    "(bit_stack \<Rightarrow> ('t \<times> bit_stack) option) \<Rightarrow> 's path_ops \<Rightarrow> ('s, 't) iterator \<Rightarrow> ('s, 't) iterator option" where
  "reverse_next get ops it =
     do { s \<leftarrow> it_path it;
          (result, s, st, item) \<leftarrow> previous_item get ops s (it_stack it) (it_item it);
          Some (it\<lparr>it_path := Some s, it_item := item, it_stack := st, it_is_end := \<not> result\<rparr>) }"

section \<open>Loops over all values\<close>

text \<open>\<open>for (item : iterable)\<close>: until the iterator equals \<open>end()\<close>; the items seen are collected.\<close>

partial_function (option) iterate ::
    "(('s, 't) iterator \<Rightarrow> ('s, 't) iterator option) \<Rightarrow> 't \<Rightarrow> ('s, 't) iterator \<Rightarrow> 't list \<Rightarrow> 't list option" where
  "iterate step item it acc =
     (if iterator_eq it (iterator_end item) then Some acc
      else do { it' \<leftarrow> step it; iterate step item it' (acc @ [it_item it]) })"

declare iterate.simps [code]

definition iterate_all ::
    "(bit_stack \<Rightarrow> ('t \<times> bit_stack) option) \<Rightarrow> 's path_ops \<Rightarrow> 's \<Rightarrow> 't \<Rightarrow> 't list option" where
  "iterate_all get ops s item =
     do { it \<leftarrow> iterator_begin get ops s item; iterate (iterator_next get ops) item it [] }"

definition iterate_reverse ::
    "(bit_stack \<Rightarrow> ('t \<times> bit_stack) option) \<Rightarrow> 's path_ops \<Rightarrow> 's \<Rightarrow> 't \<Rightarrow> 't list option" where
  "iterate_reverse get ops s item =
     do { it \<leftarrow> reverse_begin get ops s item; iterate (reverse_next get ops) item it [] }"

text \<open>\<open>Path::childCount\<close> (code/Database/Path.hpp): \<open>while (next(stack)) ++count\<close>.\<close>

partial_function (option) count_next :: "'s path_ops \<Rightarrow> 's \<Rightarrow> bit_stack \<Rightarrow> nat \<Rightarrow> nat option" where
  "count_next ops s st n =
     do { (found, s, st) \<leftarrow> path_next ops s st;
          if found then count_next ops s st (n + 1) else Some n }"

declare count_next.simps [code]

definition child_count :: "'s path_ops \<Rightarrow> 's \<Rightarrow> nat option" where
  "child_count ops s = count_next ops s stack_new 0"

section \<open>Correctness\<close>

text \<open>\<open>get\<close> reads the item \<open>dec q\<close> from the bits of each of the values \<open>q\<close>.\<close>

definition reads_items :: "(bit_stack \<Rightarrow> ('t \<times> bit_stack) option) \<Rightarrow> (bits \<Rightarrow> 't) \<Rightarrow> bits set \<Rightarrow> bool" where
  "reads_items get dec K \<longleftrightarrow> (\<forall>st. st_bits st \<in> K \<longrightarrow>
     (\<exists>st'. get (stack_reset st) = Some (dec (st_bits st), st') \<and> st_bits st' = st_bits st \<and> st_count st' = 0))"

text \<open>The values after \<open>p\<close>, in order.\<close>

definition ordered_keys :: "bool \<Rightarrow> bits set \<Rightarrow> bits list \<Rightarrow> bool" where
  "ordered_keys d K ks \<longleftrightarrow> set ks = K \<and> sorted_wrt (dir_less d) ks"

lemma ordered_keys_Cons:
  assumes "ordered_keys d {k \<in> K. dir_less d q k} ks" and "q \<in> K" and "\<And>k. k \<in> K \<Longrightarrow> k = q \<or> dir_less d q k"
  shows "ordered_keys d K (q # ks)"
  using assms by (auto simp: ordered_keys_def)

lemma ordered_keys_distinct: "ordered_keys d K ks \<Longrightarrow> distinct ks"
  unfolding ordered_keys_def by (metis dir_less_irrefl distinct_conv_nth nth_mem sorted_wrt_iff_nth_less linorder_neqE_nat)

lemma ordered_keys_card: "ordered_keys d K ks \<Longrightarrow> length ks = card K"
  using ordered_keys_distinct [of d K ks] by (auto simp: ordered_keys_def distinct_card)


text \<open>Both directions at once.\<close>

definition seek_item ::
    "bool \<Rightarrow> (bit_stack \<Rightarrow> ('t \<times> bit_stack) option) \<Rightarrow> 's path_ops \<Rightarrow> 's \<Rightarrow> bit_stack \<Rightarrow> 't \<Rightarrow>
     (bool \<times> 's \<times> bit_stack \<times> 't) option" where
  "seek_item d get ops s st item = (if d then previous_item get ops s st item else next_item get ops s st item)"

definition seek_step ::
    "bool \<Rightarrow> (bit_stack \<Rightarrow> ('t \<times> bit_stack) option) \<Rightarrow> 's path_ops \<Rightarrow> ('s, 't) iterator \<Rightarrow> ('s, 't) iterator option" where
  "seek_step d get ops it = (if d then reverse_next get ops it else iterator_next get ops it)"

lemma seek_item_eq: "seek_item d get ops s st item =
    do { (result, s, st) \<leftarrow> seek ops d s st;
         if result then do { (item, st) \<leftarrow> get (stack_reset st); Some (True, s, st, item) }
         else Some (False, s, st, item) }"
  by (cases d) (simp_all add: seek_item_def next_item_def previous_item_def path_next_def path_previous_def)

lemma seek_step_eq: "seek_step d get ops it =
    do { s \<leftarrow> it_path it;
         (result, s, st, item) \<leftarrow> seek_item d get ops s (it_stack it) (it_item it);
         Some (it\<lparr>it_path := Some s, it_item := item, it_stack := st, it_is_end := \<not> result\<rparr>) }"
  by (cases d) (simp_all add: seek_step_def seek_item_def iterator_next_def reverse_next_def)

context path_cursor
begin

lemma keys_finite: "den s T p \<Longrightarrow> finite (keys T)"
  using den_finite by (simp add: keys_def)

text \<open>Reading the item leaves the stack standing at the same value.\<close>

lemma stands_item:
  assumes "stands s st T q" and "q \<in> keys T" and "reads_items get dec (keys T)"
  shows "\<exists>st'. get (stack_reset st) = Some (dec q, st') \<and> stands s st' T q"
proof -
  from assms obtain st' where st': "get (stack_reset st) = Some (dec q, st')" "st_bits st' = q" "st_count st' = 0"
    unfolding reads_items_def stands_def by blast
  have "weight q = 0" using assms(2) by (simp add: keys_def complete_code_def)
  with st' assms(1) have "stands s st' T q" by (simp add: stands_def balanced_def)
  with st' show ?thesis by blast
qed

lemma seek_item_result:
  assumes "seek ops d s st = Some (found, s', st')" and "stands s' st' T q" and "found \<Longrightarrow> q \<in> keys T"
    and "reads_items get dec (keys T)"
  shows "\<exists>st''. seek_item d get ops s st item = Some (found, s', st'', if found then dec q else item) \<and>
    stands s' st'' T q"
proof (cases found)
  case True
  from stands_item [OF assms(2) assms(3) [OF True] assms(4)] obtain st'' where
    "get (stack_reset st') = Some (dec q, st'')" "stands s' st'' T q" by blast
  with assms(1) True show ?thesis by (simp add: seek_item_eq)
qed (use assms in \<open>simp add: seek_item_eq\<close>)

lemma iterate_spec:
  assumes "stands s st T q" and "q \<in> keys T" and "turn_safe d T" and "reads_items get dec (keys T)"
    and "it_path it = Some s" and "it_stack it = st" and "it_item it = dec q"
  shows "\<exists>ks. ordered_keys d {k \<in> keys T. dir_less d q k} ks \<and>
    iterate (seek_step d get ops) item it acc = Some (acc @ map dec (q # ks))"
  using assms(1,2,5-7)
proof (induction "card {k \<in> keys T. dir_less d q k}" arbitrary: s st q it acc rule: less_induct)
  case less
  let ?after = "\<lambda>q. {k \<in> keys T. dir_less d q k}"
  have code: "complete_code q" using less.prems(2) by (simp add: keys_def)
  have fin: "finite (?after q)" using keys_finite less.prems(1) by (auto simp: stands_def)
  from seek_next [OF less.prems(1) code assms(3)] obtain found s' st' q' where
    n: "seek ops d s st = Some (found, s', st')" "stands s' st' T q'" "next_key d T q found q'" by blast
  have inK: "q' \<in> keys T" if found using n(3) that by (simp add: next_key_def)
  from seek_item_result [OF n(1,2) inK assms(4), of "dec q"] obtain st'' where
    st'': "seek_item d get ops s st (dec q) = Some (found, s', st'', if found then dec q' else dec q)"
      "stands s' st'' T q'" by blast
  define it' where "it' = it\<lparr>it_path := Some s', it_item := if found then dec q' else dec q, it_stack := st'',
    it_is_end := \<not> found\<rparr>"
  have step: "seek_step d get ops it = Some it'"
    using less.prems st''(1) by (simp add: seek_step_eq it'_def)
  have "q \<noteq> []" using code by (simp add: complete_code_def)
  then have run: "iterate (seek_step d get ops) item it acc =
      iterate (seek_step d get ops) item it' (acc @ [dec q])"
    using less.prems step by (subst iterate.simps)
      (auto simp: iterator_eq_def iterator_end_def stack_eq_def stack_new_def stands_def)
  show ?case
  proof (cases found)
    case False
    with n(3) have "?after q = {}" "q' = []" by (auto simp: next_key_def)
    then have "iterate (seek_step d get ops) item it' (acc @ [dec q]) = Some (acc @ [dec q])"
      using st''(2) by (subst iterate.simps)
        (simp add: it'_def iterator_eq_def iterator_end_def stack_eq_def stack_new_def stands_def)
    with run \<open>?after q = {}\<close> show ?thesis by (intro exI [of _ "[]"]) (simp add: ordered_keys_def)
  next
    case True
    have q': "q' \<in> keys T" "dir_less d q q'" "\<And>k. k \<in> ?after q \<Longrightarrow> k = q' \<or> dir_less d q' k"
      using n(3) True by (auto simp: next_key_def)
    have sub: "?after q' \<subset> ?after q"
    proof (rule psubsetI)
      show "?after q' \<subseteq> ?after q" using dir_less_trans [OF q'(2)] by blast
      show "?after q' \<noteq> ?after q" using q'(1,2) dir_less_irrefl by blast
    qed
    have it': "it_path it' = Some s'" "it_stack it' = st''" "it_item it' = dec q'" by (simp_all add: it'_def True)
    from less.hyps [OF psubset_card_mono [OF fin sub] st''(2) q'(1) it', of "acc @ [dec q]"] obtain ks where
      ks: "ordered_keys d (?after q') ks"
        "iterate (seek_step d get ops) item it' (acc @ [dec q]) = Some ((acc @ [dec q]) @ map dec (q' # ks))" by blast
    have "{k \<in> ?after q. dir_less d q' k} = ?after q'" using q'(2) dir_less_trans by blast
    with ks(1) q' have "ordered_keys d (?after q) (q' # ks)" by (intro ordered_keys_Cons) auto
    with run ks(2) show ?thesis by (intro exI [of _ "q' # ks"]) simp
  qed
qed

lemma iterate_from_start:
  assumes "den s T []" and "turn_safe d T" and "reads_items get dec (keys T)"
  shows "\<exists>ks it. ordered_keys d (keys T) ks \<and>
    seek_item d get ops (copy_path ops s) stack_new item = Some it \<and>
    iterate (seek_step d get ops) item \<lparr>it_path = Some (fst (snd it)), it_item = snd (snd (snd it)),
      it_stack = fst (snd (snd it)), it_is_end = (\<not> fst it)\<rparr> [] = Some (map dec ks)"
proof -
  have den: "den (copy_path ops s) T []" by (rule den_copy [OF assms(1)])
  from seek_start [OF den _ balanced_new assms(2)] obtain found s' st' q where
    n: "seek ops d (copy_path ops s) stack_new = Some (found, s', st')" "stands s' st' T q" "first_key d T found q"
    by (auto simp: stack_new_def)
  have inK: "q \<in> keys T" if found using n(3) that by (simp add: first_key_def)
  from seek_item_result [OF n(1,2) inK assms(3), of item] obtain st'' where
    st'': "seek_item d get ops (copy_path ops s) stack_new item = Some (found, s', st'', if found then dec q else item)"
      "stands s' st'' T q" by blast
  show ?thesis
  proof (cases found)
    case True
    with n(3) have q: "q \<in> keys T" "\<And>k. k \<in> keys T \<Longrightarrow> k = q \<or> dir_less d q k" by (auto simp: first_key_def)
    from iterate_spec [OF st''(2) q(1) assms(2,3), of "\<lparr>it_path = Some s', it_item = dec q, it_stack = st'', it_is_end = False\<rparr>"
        item "[]"]
    obtain ks where ks: "ordered_keys d {k \<in> keys T. dir_less d q k} ks"
      "iterate (seek_step d get ops) item \<lparr>it_path = Some s', it_item = dec q, it_stack = st'', it_is_end = False\<rparr> []
        = Some (map dec (q # ks))" by auto
    from ordered_keys_Cons [OF ks(1) q] ks(2) st''(1) True show ?thesis
      by (intro exI [of _ "q # ks"] exI [of _ "(True, s', st'', dec q)"]) simp
  next
    case False
    with n(3) have "q = []" "keys T = {}" by (auto simp: first_key_def)
    then show ?thesis using st'' False
      by (intro exI [of _ "[]"] exI [of _ "(False, s', st'', item)"])
        (subst iterate.simps, simp add: ordered_keys_def iterator_eq_def iterator_end_def stack_eq_def stack_new_def stands_def)
  qed
qed

lemma iterate_all_spec:
  assumes "den s T []" and "reads_items get dec (keys T)"
  shows "\<exists>ks. ordered_keys False (keys T) ks \<and> iterate_all get ops s item = Some (map dec ks)"
proof -
  have "seek_step False get ops = iterator_next get ops" by (rule ext) (simp add: seek_step_def)
  with iterate_from_start [OF assms(1) _ assms(2), of False item] show ?thesis
    by (auto simp: turn_safe_def iterate_all_def iterator_begin_def seek_item_def)
qed

lemma iterate_reverse_spec:
  assumes "den s T []" and "turn_safe True T" and "reads_items get dec (keys T)"
  shows "\<exists>ks. ordered_keys True (keys T) ks \<and> iterate_reverse get ops s item = Some (map dec ks)"
proof -
  have "seek_step True get ops = reverse_next get ops" by (rule ext) (simp add: seek_step_def)
  with iterate_from_start [OF assms(1-3), of item] show ?thesis
    by (auto simp: iterate_reverse_def reverse_begin_def seek_item_def)
qed

lemma count_next_spec:
  assumes "stands s st T q" and "q \<in> keys T"
  shows "count_next ops s st n = Some (n + card {k \<in> keys T. dir_less False q k})"
  using assms
proof (induction "card {k \<in> keys T. dir_less False q k}" arbitrary: s st q n rule: less_induct)
  case less
  let ?after = "\<lambda>q. {k \<in> keys T. dir_less False q k}"
  have code: "complete_code q" using less.prems(2) by (simp add: keys_def)
  have fin: "finite (?after p)" for p using keys_finite less.prems(1) by (auto simp: stands_def)
  have safe: "turn_safe False T" by (simp add: turn_safe_def)
  from seek_next [OF less.prems(1) code safe] obtain found s' st' q' where
    n: "path_next ops s st = Some (found, s', st')" "stands s' st' T q'" "next_key False T q found q'"
    unfolding path_next_def by blast
  show ?case
  proof (cases found)
    case False
    with n(3) have "?after q = {}" by (auto simp: next_key_def)
    with n(1) False show ?thesis by (subst count_next.simps) (simp del: Collect_empty_eq)
  next
    case True
    have q': "q' \<in> keys T" "dir_less False q q'" "\<And>k. k \<in> ?after q \<Longrightarrow> k = q' \<or> dir_less False q' k"
      using n(3) True by (auto simp: next_key_def)
    have eq: "?after q = insert q' (?after q')" using q' dir_less_trans by blast
    have "card (?after q) = Suc (card (?after q'))" unfolding eq using fin by (simp add: card_insert_if)
    with less.hyps [OF _ n(2) q'(1), of "n + 1"] n(1) True show ?thesis
      by (subst count_next.simps) simp
  qed
qed

lemma child_count_spec:
  assumes "den s T []"
  shows "child_count ops s = Some (card (keys T))"
proof -
  have safe: "turn_safe False T" by (simp add: turn_safe_def)
  from seek_start [OF assms _ balanced_new safe] obtain found s' st' q where
    n: "path_next ops s stack_new = Some (found, s', st')" "stands s' st' T q" "first_key False T found q"
    by (auto simp: stack_new_def path_next_def)
  show ?thesis
  proof (cases found)
    case True
    with n(3) have q: "q \<in> keys T" "\<And>k. k \<in> keys T \<Longrightarrow> k = q \<or> dir_less False q k" by (auto simp: first_key_def)
    have fin: "finite {k \<in> keys T. dir_less False q k}" using keys_finite [OF assms] by simp
    have eq: "keys T = insert q {k \<in> keys T. dir_less False q k}" using q by blast
    have "card (keys T) = Suc (card {k \<in> keys T. dir_less False q k})"
      by (subst eq) (use fin in \<open>simp add: card_insert_if\<close>)
    with n(1) True count_next_spec [OF n(2) q(1), of 1] show ?thesis
      by (simp add: child_count_def count_next.simps [of ops s])
  qed (use n in \<open>simp add: child_count_def count_next.simps [of ops s] first_key_def\<close>)
qed

text \<open>Following the bits of a path; the unsigned count is their weight modulo \<open>2 ^ 64\<close>.\<close>

lemma follow_bits_spec:
  assumes "den s T p" and "p @ bs \<in> T"
  shows "\<exists>s'. follow_bits ops bs s c = Some (s', if bs = [] then c else nat ((int c + weight bs) mod 2 ^ 64)) \<and>
    den s' T (p @ bs)"
  using assms
proof (induction bs arbitrary: s p c)
  case (Cons b bs)
  have step: "p @ [b] \<in> T" using prefix_closedD [OF den_prefix [OF Cons.prems(1)], of "p @ [b]" bs] Cons.prems(2) by simp
  let ?c = "if b then (c + 1) mod 2 ^ 64 else (c + (2 ^ 64 - 1)) mod 2 ^ 64"
  have can: "can_move ops b s" using den_can [OF Cons.prems(1)] step by simp
  from den_move [OF Cons.prems(1) step] obtain u where u: "move ops b s = Some u" "den u T (p @ [b])" by blast
  have run: "follow_bits ops (b # bs) s c = follow_bits ops bs u ?c"
    using can u(1) by (cases b) (simp_all add: can_move_def move_def)
  have c: "int ?c = (int c + bit_weight b) mod 2 ^ 64"
  proof (cases b)
    case True
    then show ?thesis by (simp add: zmod_int add.commute)
  next
    case False
    have "(int c + (2 ^ 64 - 1)) mod 2 ^ 64 = ((int c - 1) + 2 ^ 64) mod 2 ^ 64" by (simp add: algebra_simps)
    also have "\<dots> = (int c - 1) mod 2 ^ 64" by (rule mod_add_self2)
    finally show ?thesis using False by (simp add: zmod_int)
  qed
  from Cons.IH [OF u(2), of ?c] Cons.prems(2) obtain s' where
    s': "follow_bits ops bs u ?c =
        Some (s', if bs = [] then ?c else nat ((int ?c + weight bs) mod 2 ^ 64))" "den s' T (p @ b # bs)" by auto
  have "(if bs = [] then ?c else nat ((int ?c + weight bs) mod 2 ^ 64)) =
      nat ((int c + weight (b # bs)) mod 2 ^ 64)"
  proof (cases "bs = []")
    case True
    have "?c = nat (int ?c)" by (rule nat_int [symmetric])
    with True c show ?thesis by (simp only: weight_Cons weight_Nil if_True add_0_right simp_thms)
  next
    case False
    have "(int ?c + weight bs) mod 2 ^ 64 = (int c + bit_weight b + weight bs) mod 2 ^ 64"
      unfolding c by (rule mod_add_left_eq)
    with False show ?thesis by (simp only: weight_Cons add.assoc if_False simp_thms)
  qed
  with run s' show ?case by auto
qed simp

text \<open>Resuming from a key continues behind the value of the key.\<close>

lemma resume_spec:
  assumes "den s T []" and "stands u st T q" and "q \<in> keys T" and "reads_items get dec (keys T)"
    and "it_path it = Some u" and "it_stack it = st"
  shows "\<exists>it' it''. iterator_from_key get ops s (iterator_to_key it) item = Some it' \<and>
    iterator_next get ops it = Some it'' \<and> iterator_eq it' it'' \<and> it_is_end it' = it_is_end it'' \<and>
    (\<not> it_is_end it' \<longrightarrow> it_item it' = it_item it'')"
proof -
  have q: "complete_code q" "q \<in> T" "weight q = 0" "q \<noteq> []" "st_bits st = q"
    using assms(2,3) by (simp_all add: keys_def complete_code_def stands_def)
  have safe: "turn_safe False T" by (simp add: turn_safe_def)
  have restored: "stack_from_data (stack_to_data st) = \<lparr>st_bits = q, st_it = Some 0, st_count = 0\<rparr>"
    using stack_data_restore [of "[q]" st] q by simp
  from follow_bits_spec [OF den_copy [OF assms(1)], of q 0] q obtain s' where
    s': "follow_bits ops q (copy_path ops s) 0 = Some (s', 0)" "den s' T q" by auto
  define st0 where "st0 = stack_copy \<lparr>st_bits = q, st_it = Some 0, st_count = 0\<rparr>"
  have "balanced st0" using q(3) assms(2) by (simp add: st0_def stack_copy_def balanced_def stands_def)
  then have st0: "stands s' st0 T q" using s'(2) by (simp add: stands_def st0_def stack_copy_def)
  from seek_next [OF st0 q(1) safe] obtain f1 s1 st1 q1 where
    n1: "seek ops False s' st0 = Some (f1, s1, st1)" "stands s1 st1 T q1" "next_key False T q f1 q1" by blast
  from seek_next [OF assms(2) q(1) safe] obtain f2 s2 st2 q2 where
    n2: "seek ops False u st = Some (f2, s2, st2)" "stands s2 st2 T q2" "next_key False T q f2 q2" by blast
  have same: "f1 = f2" "q1 = q2"
    using next_key_unique [OF n1(3) n2(3)] by simp_all
  have in1: "q1 \<in> keys T" if f1 using n1(3) that by (simp add: next_key_def)
  have in2: "q2 \<in> keys T" if f2 using n2(3) that by (simp add: next_key_def)
  from seek_item_result [OF n1(1,2) in1 assms(4), of item] obtain t1 where
    t1: "next_item get ops s' st0 item = Some (f1, s1, t1, if f1 then dec q1 else item)" "stands s1 t1 T q1"
    by (auto simp: seek_item_def)
  from seek_item_result [OF n2(1,2) in2 assms(4), of "it_item it"] obtain t2 where
    t2: "next_item get ops u st (it_item it) = Some (f2, s2, t2, if f2 then dec q2 else it_item it)" "stands s2 t2 T q2"
    by (auto simp: seek_item_def)
  have "iterator_from_key get ops s (iterator_to_key it) item =
      Some \<lparr>it_path = Some s1, it_item = if f1 then dec q1 else item, it_stack = t1, it_is_end = \<not> f1\<rparr>"
    using restored s'(1) t1(1) assms(6) by (simp add: iterator_from_key_def iterator_to_key_def iterator_to_data_def
        from_base64_def decode_to_base64 iterator_from_def st0_def)
  moreover have "iterator_next get ops it = Some (it\<lparr>it_path := Some s2, it_item := if f2 then dec q2 else it_item it,
      it_stack := t2, it_is_end := \<not> f2\<rparr>)"
    using t2(1) assms(5,6) by (simp add: iterator_next_def)
  moreover have "st_bits t1 = st_bits t2" using t1(2) t2(2) same(2) by (simp add: stands_def)
  ultimately show ?thesis using same by (simp add: iterator_eq_def stack_eq_def)
qed

text \<open>The first iterator.\<close>

lemma begin_exists:
  assumes "den s T []" and "reads_items get dec (keys T)"
  shows "\<exists>it u q. iterator_begin get ops s item = Some it \<and> it_path it = Some u \<and> stands u (it_stack it) T q \<and>
    first_key False T (\<not> it_is_end it) q"
proof -
  have den: "den (copy_path ops s) T []" by (rule den_copy [OF assms(1)])
  from seek_start [OF den _ balanced_new, of False] obtain found s' st' q where
    n: "seek ops False (copy_path ops s) stack_new = Some (found, s', st')" "stands s' st' T q" "first_key False T found q"
    by (auto simp: stack_new_def turn_safe_def)
  have inK: "q \<in> keys T" if found using n(3) that by (simp add: first_key_def)
  from seek_item_result [OF n(1,2) inK assms(2), of item] obtain st'' where
    "next_item get ops (copy_path ops s) stack_new item = Some (found, s', st'', if found then dec q else item)"
    "stands s' st'' T q" by (auto simp: seek_item_def)
  with n(3) show ?thesis by (auto simp: iterator_begin_def)
qed

lemma begin_stands:
  assumes "den s T []" and "reads_items get dec (keys T)"
    and "iterator_begin get ops s item = Some it" and "\<not> it_is_end it"
  shows "\<exists>u q. stands u (it_stack it) T q \<and> q \<in> keys T \<and> it_path it = Some u"
  using begin_exists [OF assms(1,2), of item] assms(3,4) by (auto simp: first_key_def)

text \<open>\<open>min\<close> and \<open>max\<close>.\<close>

lemma go_to_end_item:
  assumes "den s T []" and "turn_safe d T" and "reads_items get dec (keys T)"
  shows "\<exists>found s' st q. go_to_end ops d (copy_path ops s) stack_new = Some (found, s', st) \<and>
    first_key d T found q \<and> (found \<longrightarrow> (\<exists>st'. get (stack_reset st) = Some (dec q, st')))"
proof -
  from go_to_end_start [OF den_copy [OF assms(1)] assms(2)] obtain found s' st q where
    e: "go_to_end ops d (copy_path ops s) stack_new = Some (found, s', st)" "stands s' st T q" "first_key d T found q"
    by blast
  have "\<exists>st'. get (stack_reset st) = Some (dec q, st')" if found
    using stands_item [OF e(2) _ assms(3)] e(3) that by (auto simp: first_key_def)
  with e show ?thesis by blast
qed

lemma path_min_spec:
  assumes "den s T []" and "reads_items get dec (keys T)"
  shows "\<exists>found q. path_min get ops s = Some (if found then Some (dec q) else None) \<and> first_key False T found q"
  using go_to_end_item [OF assms(1) _ assms(2), of False]
  by (fastforce simp: path_min_def go_to_min_def turn_safe_def)

lemma path_max_spec:
  assumes "den s T []" and "turn_safe True T" and "reads_items get dec (keys T)"
  shows "\<exists>found q. path_max get ops s = Some (if found then Some (dec q) else None) \<and> first_key True T found q"
  using go_to_end_item [OF assms] by (fastforce simp: path_max_def go_to_max_def)

end

end
