(* ===== verification/Path_Iteration.thy ===== *)
theory Path_Iteration
  imports Path_Properties Path_Iterable "HOL-Library.Char_ord" "HOL-Library.List_Lexorder"
begin

text \<open>
  Iterating over a database path: the virtual methods of \<open>PathBase\<close> as \<open>Path\<close> overrides them, the
  proof that they satisfy the contract \<open>path_cursor\<close>, and what follows for the iterators of
  code/Database/Iterable.hpp over strings. The order of the codes turns out to be the numeric order of numbers
  and the lexicographic order of strings.
\<close>

section \<open>The order of codes\<close>

lemma dir_less_same: "dir_less d (c @ p) (c @ q) = dir_less d p q"
  by simp

lemma number_code_less: "v < w \<Longrightarrow> bit_less (number_code v) (number_code w)"
proof (induction v arbitrary: w rule: less_induct)
  case (less v)
  note code = number_code.simps [of v] number_code.simps [of w]
  show ?case
  proof (cases "v = 0")
    case True
    with less.prems code show ?thesis by (simp add: dir_less_Cons flip: dir_less_False)
  next
    case False
    let ?p = "power_of v" and ?q = "power_of w"
    note b = power_of_bounds [of v] power_of_bounds [of w]
    have "?p \<le> ?q"
    proof (rule ccontr)
      assume "\<not> ?p \<le> ?q"
      then have "(2 :: nat) ^ Suc ?q \<le> 2 ^ ?p" by (intro power_increasing) simp_all
      with b less.prems False show False by linarith
    qed
    then consider "?p < ?q" | "?p = ?q" by linarith
    then show ?thesis
    proof cases
      case 1
      with less.IH [OF power_of_less] False have "dir_less False (number_code ?p) (number_code ?q)"
        by (simp add: dir_less_False)
      from dir_less_tails [OF this] less.prems False code show ?thesis
        by (simp add: dir_less_Cons flip: dir_less_False)
    next
      case 2
      have "remainder v ?p < remainder w ?q"
        using 2 b less.prems False by (simp add: remainder_def diff_less_mono)
      with less.IH [OF remainder_less] False have "bit_less (number_code (remainder v ?p)) (number_code (remainder w ?q))"
        by simp
      with 2 less.prems False code show ?thesis by (simp add: dir_less_Cons flip: dir_less_False)
    qed
  qed
qed

lemma value_code_less: "v < w \<Longrightarrow> bit_less (value_code v) (value_code w)"
  using number_code_less [of v w] by (simp add: value_code_def dir_less_Cons flip: dir_less_False)

lemma char_less_nat: "(c :: char) < d \<longleftrightarrow> (of_char c :: nat) < of_char d"
  by (simp add: less_char_def)

lemma string_code_less:
  "s < t \<Longrightarrow> bit_less (string_code s) (string_code t)"
proof -
  let ?body = "\<lambda>u. concat (map (\<lambda>c. value_code (of_char c)) u) @ [False]"
  have "s < t \<Longrightarrow> dir_less False (?body s) (?body t)"
  proof (induction s arbitrary: t)
    case Nil
    then obtain c u where "t = c # u" by (cases t) auto
    then show ?case by (simp add: value_code_def dir_less_Cons)
  next
    case (Cons c s)
    then obtain e u where t: "t = e # u" by (cases t) auto
    with Cons.prems have "c < e \<or> c = e \<and> s < u" by (simp add: Cons_less_Cons)
    then show ?case
    proof
      assume "c < e"
      then have "dir_less False (value_code (of_char c)) (value_code (of_char e))"
        using value_code_less by (simp add: char_less_nat dir_less_False)
      from dir_less_tails [OF this] t show ?thesis by simp
    qed (use t Cons.IH in simp)
  qed
  then show "s < t \<Longrightarrow> bit_less (string_code s) (string_code t)"
    by (simp add: string_code_def dir_less_Cons flip: dir_less_False)
qed

lemma string_code_order: "bit_less (string_code s) (string_code t) \<longleftrightarrow> s < t"
proof
  assume less: "bit_less (string_code s) (string_code t)"
  show "s < t"
  proof (rule ccontr)
    assume "\<not> s < t"
    then have "t = s \<or> t < s" by auto
    with less string_code_less [of t s] show False
      using dir_less_trans dir_less_irrefl unfolding dir_less_False [symmetric] by blast
  qed
qed (rule string_code_less)

section \<open>Path as a PathBase\<close>

definition db_path_ops :: "cursor path_ops" where
  "db_path_ops =
     \<lparr>can_left = (\<lambda>(p, f). can_go_left f p), can_right = (\<lambda>(p, f). can_go_right f p),
      move_left = (\<lambda>st. Some (go_left st)), move_right = (\<lambda>st. Some (go_right st)),
      move_up = (\<lambda>(p, f). Some (go_up f p, f)),
      copy_path = (\<lambda>(p, f). (path_copy p, f))\<rparr>"

text \<open>The trie below \<open>pre\<close>, and the condition that no path has more zeros than ones.\<close>

definition below_path :: "db_file \<Rightarrow> bits \<Rightarrow> bits set" where
  "below_path f pre = {r. pre @ r \<in> paths f 0}"

definition codes_below :: "db_file \<Rightarrow> bits \<Rightarrow> bool" where
  "codes_below f pre \<longleftrightarrow> (\<forall>r \<in> below_path f pre. 0 \<le> weight r)"

definition db_den :: "cursor \<Rightarrow> bits set \<Rightarrow> bits \<Rightarrow> bool" where
  "db_den st T q \<longleftrightarrow> store_ok (snd st) \<and>
     (\<exists>pre. at_path (snd st) (fst st) (pre @ q) \<and> T = below_path (snd st) pre \<and> codes_below (snd st) pre)"

lemma db_can_move: "can_move db_path_ops d (p, f) \<longleftrightarrow> child d (path_branch f p) \<noteq> 0"
  by (simp add: can_move_def db_path_ops_def can_go_left_def can_go_right_def child_def)

lemma db_move: "move db_path_ops d st = Some (go_dir d st)"
  by (simp add: move_def db_path_ops_def go_dir_def)

lemma at_path_child: "at_path f p pre \<Longrightarrow> pre @ [d] \<in> paths f 0 \<longleftrightarrow> child d (path_branch f p) \<noteq> 0"
  by (simp add: at_path_def paths_step path_branch_def)

lemma db_den_trie:
  assumes "db_den st T p"
  shows "p \<in> T" "finite T" "prefix_closed T" "q \<in> T \<Longrightarrow> 0 \<le> weight q"
proof -
  from assms obtain pre where pre: "store_ok (snd st)" "at_path (snd st) (fst st) (pre @ p)"
    "T = below_path (snd st) pre" "codes_below (snd st) pre" by (auto simp: db_den_def)
  from pre(1) obtain N E where inv: "db_inv (snd st) N E" by (auto simp: store_ok_def)
  show "p \<in> T" using at_path_paths [OF pre(2)] pre(3) by (simp add: below_path_def)
  have "below_path (snd st) pre \<subseteq> (\<lambda>q. drop (length pre) q) ` paths (snd st) 0"
    by (force simp: below_path_def)
  then show "finite T" using paths_finite [OF inv inv_root [OF inv]] pre(3) finite_surj by blast
  have "q \<in> T" if "q @ r \<in> T" for q r
    using that paths_prefix [of "pre @ q" r] by (simp add: pre(3) below_path_def)
  then show "prefix_closed T" by (simp add: prefix_closed_def)
  show "q \<in> T \<Longrightarrow> 0 \<le> weight q" using pre(3,4) by (simp add: codes_below_def)
qed

lemma db_den_can: "db_den st T p \<Longrightarrow> can_move db_path_ops d st \<longleftrightarrow> p @ [d] \<in> T"
proof -
  assume "db_den st T p"
  then obtain pre where "at_path (snd st) (fst st) (pre @ p)" "T = below_path (snd st) pre"
    by (auto simp: db_den_def)
  with at_path_child [OF this(1), of d] db_can_move [of d "fst st" "snd st"] show ?thesis
    by (simp add: below_path_def)
qed

lemma db_den_move:
  assumes "db_den st T p" and "p @ [d] \<in> T"
  shows "\<exists>st'. move db_path_ops d st = Some st' \<and> db_den st' T (p @ [d]) \<and> snd st' = snd st"
proof -
  obtain c f where st: "st = (c, f)" by force
  from assms(1) obtain pre where pre: "store_ok f" "at_path f c (pre @ p)" "T = below_path f pre" "codes_below f pre"
    by (auto simp: db_den_def st)
  have ch: "child d (path_branch f c) \<noteq> 0"
    using db_den_can [OF assms(1), of d] assms(2) db_can_move [of d c f] by (simp add: st)
  obtain c' where go: "go_dir d (c, f) = (c', f)" "path_index c' = child d (path_branch f c)"
    using go_dir_cases(1) [OF ch] by auto
  have "at_path f c' (pre @ p @ [d])"
    using pre(2) ch go(2) walk_snoc [of f 0 "pre @ p" d] by (simp add: at_path_def path_branch_def)
  with pre go show ?thesis by (auto simp: db_den_def st db_move)
qed

lemma db_den_up:
  assumes "db_den st T (p @ [d])"
  shows "\<exists>st'. move_up db_path_ops st = Some st' \<and> db_den st' T p \<and> snd st' = snd st"
proof -
  obtain c f where st: "st = (c, f)" by force
  from assms obtain pre where pre: "store_ok f" "at_path f c (pre @ p @ [d])" "T = below_path f pre" "codes_below f pre"
    by (auto simp: db_den_def st)
  from pre(1) obtain N E where inv: "db_inv f N E" by (auto simp: store_ok_def)
  have "at_path f (go_up f c) (pre @ p)"
    using go_up_step(1) [OF inv, of "pre @ p" d c] pre(2) by (simp add: at_path_def)
  with pre show ?thesis by (auto simp: db_den_def st db_path_ops_def)
qed

lemma db_den_copy: "db_den st T [] \<Longrightarrow> db_den (copy_path db_path_ops st) T []"
  by (auto simp: db_den_def db_path_ops_def at_path_def path_copy_def path_new_def split: prod.splits)

interpretation db_path: path_cursor db_path_ops db_den
proof
  show "\<exists>s'. move db_path_ops d s = Some s' \<and> db_den s' T (p @ [d])" if "db_den s T p" "p @ [d] \<in> T" for s T p d
    using db_den_move [OF that] by blast
  show "\<exists>s'. move_up db_path_ops s = Some s' \<and> db_den s' T p" if "db_den s T (p @ [d])" for s T p d
    using db_den_up [OF that] by blast
qed (fact db_den_trie db_den_can db_den_copy)+

section \<open>Iterating over strings\<close>

definition read_string :: "bit_stack \<Rightarrow> (bstring \<times> bit_stack) option" where
  "read_string = get_string stack_read_bit stack_peek_bit"

definition decode_string :: "bits \<Rightarrow> bstring" where
  "decode_string q = fst (the (get_string list_read list_peek q))"

lemma decode_string_code: "decode_string (string_code s) = s"
  using list_source.get_string_code [OF TrueI list_feeds, of s "[]"] by (simp add: decode_string_def)

text \<open>Every value below the path is a string.\<close>

definition strings_below :: "db_file \<Rightarrow> bits \<Rightarrow> bool" where
  "strings_below f pre \<longleftrightarrow> codes_below f pre \<and>
     (\<forall>q \<in> below_path f pre. complete_code q \<longrightarrow> (\<exists>s. q = string_code s))"

lemma read_string_items:
  assumes "\<forall>q \<in> K. \<exists>s. q = string_code s"
  shows "reads_items read_string decode_string K"
proof -
  have "\<exists>st'. read_string (stack_reset st) = Some (decode_string (st_bits st), st') \<and>
      st_bits st' = st_bits st \<and> st_count st' = 0" if "st_bits st \<in> K" for st
  proof -
    from assms that obtain s where s: "st_bits st = string_code s" by blast
    let ?st = "stack_reset st"
    have "feeds stack_read_bit ?st (string_code s) (?st\<lparr>st_it := Some (length (string_code s)), st_count := 0\<rparr>)"
      using stack_feeds [of ?st "[]" "string_code s" "[]"] s count_run_complete [OF string_code_complete, of 0]
      by (simp add: stack_reset_def)
    from stack.get_string_code [OF _ this] s show ?thesis
      by (simp add: read_string_def stack_ok_def stack_reset_def decode_string_code)
  qed
  then show ?thesis by (simp add: reads_items_def)
qed

definition contained_strings :: "db_file \<Rightarrow> path \<Rightarrow> bstring set" where
  "contained_strings f p = {s. path_contains (\<lambda>wb. put_string wb s) f p}"

lemma string_keys:
  assumes "at_path f p pre" and "strings_below f pre"
  shows "keys (below_path f pre) = string_code ` contained_strings f p"
proof -
  have "q \<in> string_code ` contained_strings f p" if "q \<in> keys (below_path f pre)" for q
  proof -
    from that have q: "q \<in> below_path f pre" "complete_code q" by (simp_all add: keys_def)
    with assms(2) obtain s where "q = string_code s" by (auto simp: strings_below_def)
    with q contains_string_paths [OF assms(1), of s] show ?thesis
      by (auto simp: contained_strings_def below_path_def)
  qed
  moreover have "string_code s \<in> keys (below_path f pre)" if "s \<in> contained_strings f p" for s
    using that contains_string_paths [OF assms(1)] string_code_complete
    by (simp add: contained_strings_def keys_def below_path_def)
  ultimately show ?thesis by blast
qed

lemma db_den_start:
  "store_ok f \<Longrightarrow> at_path f p pre \<Longrightarrow> codes_below f pre \<Longrightarrow> db_den (p, f) (below_path f pre) []"
  by (auto simp: db_den_def)

lemma ordered_strings:
  assumes "ordered_keys d (string_code ` S) ks"
  shows "set (map decode_string ks) = S" "sorted_wrt (\<lambda>s t. dir_less d (string_code s) (string_code t)) (map decode_string ks)"
proof -
  have ks: "set ks = string_code ` S" "sorted_wrt (dir_less d) ks" using assms by (simp_all add: ordered_keys_def)
  have id: "string_code (decode_string q) = q" if "q \<in> set ks" for q
    using that ks(1) by (auto simp: decode_string_code)
  show "set (map decode_string ks) = S" using ks(1) by (simp add: image_image decode_string_code)
  show "sorted_wrt (\<lambda>s t. dir_less d (string_code s) (string_code t)) (map decode_string ks)"
    using ks(2) id by (simp add: sorted_wrt_map) (metis (mono_tags, lifting) sorted_wrt_mono_rel)
qed

text \<open>
  Property C3: the loop over the strings of a path ends, and visits exactly the strings the path contains,
  each once, in lexicographic order.
\<close>

theorem iterate_strings_sorted:
  assumes "store_ok f" and "at_path f p pre" and "strings_below f pre"
  shows "\<exists>ks. iterate_all read_string db_path_ops (p, f) item = Some ks \<and>
    set ks = contained_strings f p \<and> sorted_wrt (<) ks"
proof -
  have den: "db_den (p, f) (below_path f pre) []"
    using assms by (intro db_den_start) (simp_all add: strings_below_def)
  note keys = string_keys [OF assms(2,3)]
  have items: "reads_items read_string decode_string (keys (below_path f pre))"
    by (rule read_string_items) (auto simp: keys)
  from db_path.iterate_all_spec [OF den items, of item] obtain ks where
    ks: "ordered_keys False (string_code ` contained_strings f p) ks"
      "iterate_all read_string db_path_ops (p, f) item = Some (map decode_string ks)" by (auto simp: keys)
  with ordered_strings [OF ks(1)] show ?thesis by (simp add: dir_less_False string_code_order)
qed


text \<open>The file with one string.\<close>

lemma one_key_strings: "strings_below (snd one_key) []" "contained_strings (snd one_key) (path_new 0) = {''k''}"
proof -
  from path_at_string [OF database_new_inv fresh_database(2) fresh_room]
  have paths: "paths (snd one_key) 0 = {r. prefix r (string_code ''k'')}"
    by (auto simp: one_key_def database_new_paths)
  have "0 \<le> weight r" if "prefix r (string_code ''k'')" for r
    using complete_prefix_nonneg [OF string_code_complete that] .
  moreover have "q = string_code ''k''" if "prefix q (string_code ''k'')" "complete_code q" for q
    using complete_prefix_free [OF that(2) string_code_complete that(1)] .
  ultimately show "strings_below (snd one_key) []"
    by (auto simp: strings_below_def codes_below_def below_path_def paths)
  have "prefix (string_code s) (string_code ''k'') \<longleftrightarrow> s = ''k''" for s
    using complete_prefix_free [OF string_code_complete string_code_complete, of s "''k''"] string_code_inject
    by auto
  then show "contained_strings (snd one_key) (path_new 0) = {''k''}"
    using contains_string_paths [OF one_key_ok(2)] paths by (auto simp: contained_strings_def)
qed

theorem iterate_strings_sorted_witness:
  "\<exists>ks. iterate_all read_string db_path_ops (path_new 0, snd one_key) [] = Some ks \<and> set ks = {''k''}"
  using iterate_strings_sorted [OF one_key_ok(1,2) one_key_strings(1), of "[]"] one_key_strings(2) by auto




text \<open>
  Property C26: \<open>childCount\<close> is the number of strings the path contains.
\<close>

theorem child_count_strings:
  assumes "store_ok f" and "at_path f p pre" and "strings_below f pre"
  shows "child_count db_path_ops (p, f) = Some (card (contained_strings f p))"
proof -
  have "db_den (p, f) (below_path f pre) []"
    using assms by (intro db_den_start) (simp_all add: strings_below_def)
  from db_path.child_count_spec [OF this] string_keys [OF assms(2,3)] show ?thesis
    by (simp add: card_image inj_on_def string_code_inject)
qed

theorem child_count_strings_witness: "child_count db_path_ops (path_new 0, snd one_key) = Some 1"
  using child_count_strings [OF one_key_ok(1,2) one_key_strings(1)] one_key_strings(2) by simp

text \<open>
  \<open>min\<close> and \<open>max\<close> return the lexicographically least and greatest string of the path, and nothing when it
  has none (for \<open>max\<close> under the provision of the reverse loop).
\<close>

theorem path_min_max_strings:
  assumes "store_ok f" and "at_path f p pre" and "strings_below f pre"
  shows "(contained_strings f p = {} \<longrightarrow> path_min read_string db_path_ops (p, f) = Some None) \<and>
    (contained_strings f p \<noteq> {} \<longrightarrow> (\<exists>s \<in> contained_strings f p.
       path_min read_string db_path_ops (p, f) = Some (Some s) \<and> (\<forall>t \<in> contained_strings f p. s \<le> t))) \<and>
    (turn_safe True (below_path f pre) \<and> contained_strings f p \<noteq> {} \<longrightarrow> (\<exists>s \<in> contained_strings f p.
       path_max read_string db_path_ops (p, f) = Some (Some s) \<and> (\<forall>t \<in> contained_strings f p. t \<le> s)))"
proof -
  have den: "db_den (p, f) (below_path f pre) []"
    using assms by (intro db_den_start) (simp_all add: strings_below_def)
  note keys = string_keys [OF assms(2,3)]
  have items: "reads_items read_string decode_string (keys (below_path f pre))"
    by (rule read_string_items) (auto simp: keys)
  have first: "\<exists>s \<in> contained_strings f p. q = string_code s \<and>
      (\<forall>t \<in> contained_strings f p. t = s \<or> dir_less d (string_code s) (string_code t))"
    if "first_key d (below_path f pre) True q" for d q
    using that by (auto simp: first_key_def keys string_code_inject)
  have none: "first_key d (below_path f pre) False q \<Longrightarrow> contained_strings f p = {}" for d q
    by (simp add: first_key_def keys)
  from db_path.path_min_spec [OF den items] obtain f1 q1 where
    m: "path_min read_string db_path_ops (p, f) = Some (if f1 then Some (decode_string q1) else None)"
      "first_key False (below_path f pre) f1 q1" by blast
  have "contained_strings f p = {} \<longrightarrow> path_min read_string db_path_ops (p, f) = Some None"
    using m first by (cases f1) auto
  moreover have "\<exists>s \<in> contained_strings f p.
      path_min read_string db_path_ops (p, f) = Some (Some s) \<and> (\<forall>t \<in> contained_strings f p. s \<le> t)"
    if "contained_strings f p \<noteq> {}"
  proof -
    from m(2) none that have f1 by (cases f1) auto
    with m first [of False q1] show ?thesis
      by (fastforce simp: decode_string_code dir_less_False string_code_order)
  qed
  moreover have "\<exists>s \<in> contained_strings f p.
      path_max read_string db_path_ops (p, f) = Some (Some s) \<and> (\<forall>t \<in> contained_strings f p. t \<le> s)"
    if safe: "turn_safe True (below_path f pre)" and ne: "contained_strings f p \<noteq> {}"
  proof -
    from db_path.path_max_spec [OF den safe items] obtain f2 q2 where
      x: "path_max read_string db_path_ops (p, f) = Some (if f2 then Some (decode_string q2) else None)"
        "first_key True (below_path f pre) f2 q2" by blast
    from x(2) none ne have f2 by (cases f2) auto
    with x first [of True q2] show ?thesis
      by (fastforce simp: decode_string_code dir_less_True string_code_order)
  qed
  ultimately show ?thesis by blast
qed

theorem path_min_max_strings_witness:
  "path_min read_string db_path_ops (path_new 0, snd one_key) = Some (Some ''k'')"
  using path_min_max_strings [OF one_key_ok(1,2) one_key_strings(1)] one_key_strings(2) by auto



end
