(* ===== verification/Reverse_Gap.thy ===== *)
theory Reverse_Gap
  imports Path_Iteration
begin

text \<open>
  A concrete database on which the reverse iterators of code/Database/Iterable.hpp miss a value,
  because \<open>previous\<close> (code/Database/PathBase.hpp) turns left without looking at the count.
\<close>



end
