(* ===== verification/Byte_Strings.thy ===== *)
theory Byte_Strings
  imports Encoding "HOL-Library.Char_ord"
begin

text \<open>
  The byte string class (code/b-string/b-string-base.h): comparisons, trimming, splitting, replacing, and the
  hexadecimal and URI forms. A \<open>BString\<close> is the list of its bytes. \<open>None\<close> stands for iterators moved beyond the end of a
  string, which is undefined in the code. The functions of \<open>ctype.h\<close> are those of ASCII, which is what a
  UTF-8 locale has for single bytes.
\<close>

section \<open>Tests and parts\<close>

definition starts_with :: "bstring \<Rightarrow> bstring \<Rightarrow> bool" where
  "starts_with p s \<longleftrightarrow> take (length p) s = p"

definition ends_with :: "bstring \<Rightarrow> bstring \<Rightarrow> bool" where
  "ends_with ending s \<longleftrightarrow>
     (if length s < length ending then False else take (length ending) (rev s) = rev ending)"

definition contains_char :: "char \<Rightarrow> bstring \<Rightarrow> bool" where
  "contains_char c s \<longleftrightarrow> c \<in> set s"

definition ltrim :: "bstring \<Rightarrow> bstring" where
  "ltrim s = dropWhile is_space s"

definition rtrim :: "bstring \<Rightarrow> bstring" where
  "rtrim s = rev (dropWhile is_space (rev s))"

definition trim :: "bstring \<Rightarrow> bstring" where
  "trim s = rtrim (ltrim s)"

text \<open>The length \<open>None\<close> is the default argument, the rest of the string.\<close>

definition substr :: "bstring \<Rightarrow> nat \<Rightarrow> nat option \<Rightarrow> bstring option" where
  "substr s pos len =
     (case len of
        None \<Rightarrow> if pos \<le> length s then Some (drop pos s) else None
      | Some n \<Rightarrow> if pos + n \<le> length s then Some (take n (drop pos s)) else None)"

definition is_digit :: "char \<Rightarrow> bool" where
  "is_digit c \<longleftrightarrow> CHR ''0'' \<le> c \<and> c \<le> CHR ''9''"

definition is_alnum :: "char \<Rightarrow> bool" where
  "is_alnum c \<longleftrightarrow> is_digit c \<or> CHR ''A'' \<le> c \<and> c \<le> CHR ''Z'' \<or> CHR ''a'' \<le> c \<and> c \<le> CHR ''z''"

definition is_digits_only :: "bstring \<Rightarrow> bool" where
  "is_digits_only s \<longleftrightarrow> s \<noteq> [] \<and> list_all is_digit s"

definition is_seperator :: "bstring \<Rightarrow> bool" where
  "is_seperator s \<longleftrightarrow> (case s of [] \<Rightarrow> False | c # _ \<Rightarrow> c \<in> {CHR ''.'', CHR ''-'', CHR ''_''})"

definition is_data :: "bstring \<Rightarrow> bool" where
  "is_data s \<longleftrightarrow> starts_with ''data:'' s \<and> contains_char (CHR '','') s"

lemma starts_with_prefix: "starts_with p s \<longleftrightarrow> prefix p s"
  by (metis append_eq_conv_conj prefix_def starts_with_def)

lemma ends_with_suffix: "ends_with p s \<longleftrightarrow> suffix p s"
proof -
  have "take (length p) (rev s) = rev p \<longleftrightarrow> prefix (rev p) (rev s)"
    by (metis append_eq_conv_conj length_rev prefix_def)
  then show ?thesis
    by (auto simp: ends_with_def suffix_to_prefix dest: prefix_length_le)
qed

section \<open>Splitting\<close>

text \<open>The loop keeps the current segment and the finished ones.\<close>

fun split_loop :: "char \<Rightarrow> bstring \<Rightarrow> bstring \<Rightarrow> bstring list \<Rightarrow> bstring list" where
  "split_loop ch [] segment segments = segments @ [segment]"
| "split_loop ch (c # cs) segment segments =
     (if c = ch then split_loop ch cs [] (segments @ [segment])
      else split_loop ch cs (segment @ [c]) segments)"

definition split_string :: "char \<Rightarrow> bstring \<Rightarrow> bstring list" where
  "split_string ch s = split_loop ch s [] []"

fun join_strings :: "char \<Rightarrow> bstring list \<Rightarrow> bstring" where
  "join_strings ch [] = []"
| "join_strings ch [s] = s"
| "join_strings ch (s # t # ss) = s @ ch # join_strings ch (t # ss)"

section \<open>Replacing\<close>

text \<open>\<open>find\<close> of the standard library, from a position.\<close>

fun find_first :: "bstring \<Rightarrow> bstring \<Rightarrow> nat option" where
  "find_first p [] = (if p = [] then Some 0 else None)"
| "find_first p (c # cs) = (if starts_with p (c # cs) then Some 0 else map_option Suc (find_first p cs))"

definition find_from :: "bstring \<Rightarrow> bstring \<Rightarrow> nat \<Rightarrow> nat option" where
  "find_from p s pos =
     (if length s < pos then None else map_option (\<lambda>i. pos + i) (find_first p (drop pos s)))"

partial_function (option) replace_loop :: "bstring \<Rightarrow> bstring \<Rightarrow> bstring \<Rightarrow> nat \<Rightarrow> bstring option" where
  "replace_loop old new str pos =
     (case find_from old str pos of
        None \<Rightarrow> Some str
      | Some start \<Rightarrow>
          replace_loop old new (take start str @ new @ drop (start + length old) str) (start + length new))"

declare replace_loop.simps [code]

definition replace_string :: "bstring \<Rightarrow> bstring \<Rightarrow> bstring \<Rightarrow> bstring option" where
  "replace_string old new s = (if old = [] then Some s else replace_loop old new s 0)"

section \<open>Hexadecimal\<close>

definition hex_digits :: bstring where
  "hex_digits = ''0123456789abcdef''"

definition to_hex :: "bstring \<Rightarrow> bstring" where
  "to_hex s = concat (map (\<lambda>c. [hex_digits ! (of_char c div 16), hex_digits ! (of_char c mod 16)]) s)"

definition hex_value :: "char \<Rightarrow> nat option" where
  "hex_value c =
     (if is_digit c then Some (of_char c - 48)
      else if CHR ''a'' \<le> c \<and> c \<le> CHR ''f'' then Some (of_char c - 87)
      else if CHR ''A'' \<le> c \<and> c \<le> CHR ''F'' then Some (of_char c - 55)
      else None)"

fun hex_number :: "nat \<Rightarrow> bstring \<Rightarrow> nat" where
  "hex_number v [] = v"
| "hex_number v (c # cs) = (case hex_value c of None \<Rightarrow> v | Some d \<Rightarrow> hex_number (16 * v + d) cs)"

text \<open>
  \<open>strtol\<close> to base 16: blanks, a sign and \<open>0x\<close> before a digit are skipped, and the digits stop at the first other
  character; without digits the result is zero.
\<close>

definition take_sign :: "bstring \<Rightarrow> int \<times> bstring" where
  "take_sign s = (case s of
       [] \<Rightarrow> (1, [])
     | c # cs \<Rightarrow> if c = CHR ''-'' then (-1, cs) else if c = CHR ''+'' then (1, cs) else (1, s))"

definition skip_0x :: "bstring \<Rightarrow> bstring" where
  "skip_0x s = (case s of
       z # x # d # cs \<Rightarrow>
         if z = CHR ''0'' \<and> (x = CHR ''x'' \<or> x = CHR ''X'') \<and> hex_value d \<noteq> None then d # cs else s
     | _ \<Rightarrow> s)"

definition strtol16 :: "bstring \<Rightarrow> int" where
  "strtol16 s = (let (sign, s) = take_sign (dropWhile is_space s) in sign * int (hex_number 0 (skip_0x s)))"

definition int_char :: "int \<Rightarrow> char" where
  "int_char v = char_of (nat (v mod 256))"

text \<open>Two characters at a time; a last single one is read, and its byte written, beyond the end.\<close>

fun hex_pairs :: "bstring \<Rightarrow> bstring option" where
  "hex_pairs [] = Some []"
| "hex_pairs [a] = None"
| "hex_pairs (a # b # cs) = map_option ((#) (int_char (strtol16 [a, b]))) (hex_pairs cs)"

definition from_hex :: "bstring \<Rightarrow> bstring option" where
  "from_hex s = hex_pairs s"

section \<open>URI encoding\<close>

definition uri_unescaped :: "char \<Rightarrow> bool" where
  "uri_unescaped c \<longleftrightarrow> is_alnum c \<or>
     c \<in> {CHR ''-'', CHR ''_'', CHR ''.'', CHR ''~'', CHR ''{'', CHR ''}'', CHR 0x27}"

definition upper_hex_digits :: bstring where
  "upper_hex_digits = ''0123456789ABCDEF''"

definition encode_uri :: "bstring \<Rightarrow> bstring" where
  "encode_uri s = concat (map (\<lambda>c.
     if uri_unescaped c then [c]
     else [CHR ''%'', upper_hex_digits ! (of_char c div 16), upper_hex_digits ! (of_char c mod 16)]) s)"

text \<open>\<open>sscanf\<close> with \<open>%x\<close>: without digits, also after \<open>0x\<close>, the variable keeps its value, at first an indeterminate one.\<close>

definition scan_hex :: "bstring \<Rightarrow> int option \<Rightarrow> int option" where
  "scan_hex s ii =
     (let (sign, s) = take_sign (dropWhile is_space s)
      in case s of
           [] \<Rightarrow> ii
         | c # cs \<Rightarrow>
             if hex_value c = None then ii
             else if c = CHR ''0'' \<and> cs \<noteq> [] \<and> (hd cs = CHR ''x'' \<or> hd cs = CHR ''X'') \<and> skip_0x s = s then ii
             else Some (sign * int (hex_number 0 (skip_0x s))))"

fun decode_uri_loop :: "bstring \<Rightarrow> int option \<Rightarrow> bstring option" where
  "decode_uri_loop [] ii = Some []"
| "decode_uri_loop (c # cs) ii =
     (if c \<noteq> CHR ''%'' then map_option ((#) c) (decode_uri_loop cs ii)
      else case cs of
             a # b # cs \<Rightarrow>
               (case scan_hex [a, b] ii of
                  None \<Rightarrow> None
                | Some v \<Rightarrow> map_option ((#) (int_char v)) (decode_uri_loop cs (Some v)))
           | _ \<Rightarrow> None)"

definition decode_uri :: "bstring \<Rightarrow> bstring option" where
  "decode_uri s = decode_uri_loop s None"

section \<open>Correctness\<close>

lemma join_snoc: "join_strings ch (ss @ [t]) = (if ss = [] then t else join_strings ch ss @ ch # t)"
proof (induction ss)
  case (Cons s ss)
  then show ?case by (cases ss) simp_all
qed simp

lemma join_split_loop: "join_strings ch (split_loop ch s t ss) = join_strings ch (ss @ [t]) @ s"
proof (induction s arbitrary: t ss)
  case (Cons c s)
  then show ?case by (simp add: join_snoc [of ch "ss @ [t]" "[]", simplified] join_snoc [of ch ss "t @ [c]"] join_snoc [of ch ss t])
qed simp

lemma split_loop_segments:
  "ch \<notin> set t \<Longrightarrow> \<forall>u \<in> set ss. ch \<notin> set u \<Longrightarrow> \<forall>u \<in> set (split_loop ch s t ss). ch \<notin> set u"
proof (induction s arbitrary: t ss)
  case (Cons c s)
  have all: "\<forall>u \<in> set (ss @ [t]). ch \<notin> set u" using Cons.prems by simp
  show ?case
  proof (cases "c = ch")
    case True
    then have step: "split_loop ch (c # s) t ss = split_loop ch s [] (ss @ [t])" by simp
    show ?thesis unfolding step by (rule Cons.IH [OF _ all]) simp
  next
    case False
    then have step: "split_loop ch (c # s) t ss = split_loop ch s (t @ [c]) ss" by simp
    show ?thesis unfolding step by (rule Cons.IH [OF _ Cons.prems(2)]) (use Cons.prems(1) False in simp)
  qed
qed simp

lemma split_loop_length: "length (split_loop ch s t ss) = length ss + Suc (count_list s ch)"
  by (induction s arbitrary: t ss) simp_all

text \<open>
  The segments \<open>split\<close> returns contain no separator, and joined with it give back the string.
\<close>

theorem split_join:
  "join_strings ch (split_string ch s) = s \<and> (\<forall>t \<in> set (split_string ch s). ch \<notin> set t) \<and>
   length (split_string ch s) = Suc (count_list s ch)"
  using join_split_loop [of ch s "[]" "[]"] split_loop_segments [of ch "[]" "[]" s] split_loop_length [of ch s "[]" "[]"]
  by (simp add: split_string_def)

text \<open>What \<open>replace\<close> means: one scan from the left that never looks at what it has put in.\<close>

function replace_scan :: "bstring \<Rightarrow> bstring \<Rightarrow> bstring \<Rightarrow> bstring" where
  "replace_scan old new [] = []"
| "replace_scan old new (c # cs) =
     (if starts_with old (c # cs) then new @ replace_scan old new (drop (length old - 1) cs)
      else c # replace_scan old new cs)"
  by pat_completeness auto
termination by (relation "measure (\<lambda>(_, _, s). length s)") auto

lemma replace_scan_found:
  assumes "old \<noteq> []" and "find_first old s = Some i"
  shows "i + length old \<le> length s"
    and "replace_scan old new s = take i s @ new @ replace_scan old new (drop (i + length old) s)"
  using assms(2)
proof (induction s arbitrary: i)
  case (Cons c cs)
  { case 1
    with Cons.IH(1) show ?case
      by (auto simp: starts_with_prefix dest: prefix_length_le split: if_splits) }
  { case 2
    with Cons.IH(2) assms(1) show ?case by (cases old) (auto split: if_splits) }
qed (use assms(1) in auto)

lemma replace_scan_none: "find_first old s = None \<Longrightarrow> replace_scan old new s = s"
  by (induction s) (auto split: if_splits)

lemma replace_loop_scan:
  assumes "old \<noteq> []" and "pos \<le> length s"
  shows "replace_loop old new s pos = Some (take pos s @ replace_scan old new (drop pos s))"
  using assms(2)
proof (induction "length s - pos" arbitrary: s pos rule: less_induct)
  case less
  show ?case
  proof (cases "find_first old (drop pos s)")
    case None
    then show ?thesis using less.prems
      by (simp add: replace_loop.simps [of old new s] find_from_def replace_scan_none)
  next
    case (Some i)
    note f = replace_scan_found [OF assms(1) Some]
    have len: "pos + i + length old \<le> length s" using f(1) less.prems by simp
    let ?t = "take (pos + i) s @ new @ drop (pos + i + length old) s" and ?q = "pos + i + length new"
    have "0 < length old" using assms(1) by simp
    moreover have "length ?t - ?q = length s - (pos + i + length old)" using len by simp
    ultimately have "length ?t - ?q < length s - pos" using len by linarith
    moreover have "?q \<le> length ?t" using len by simp
    ultimately have fits: "length ?t - ?q < length s - pos" "?q \<le> length ?t" by blast+
    from less.hyps [OF fits] have
      "replace_loop old new ?t ?q = Some (take ?q ?t @ replace_scan old new (drop ?q ?t))" .
    moreover have "take ?q ?t = take pos s @ take i (drop pos s) @ new" using len by (simp add: take_add)
    moreover have "drop ?q ?t = drop (i + length old) (drop pos s)" using len by (simp add: add.commute add.left_commute)
    ultimately show ?thesis using less.prems Some f(2) [of new]
      by (simp add: replace_loop.simps [of old new s] find_from_def add.assoc)
  qed
qed

text \<open>
  \<open>replace\<close> returns, and is the left to right substitution of the occurrences of a non-empty string that do not
  overlap an earlier one; what was inserted is not searched again.
\<close>

theorem replace_string_scan:
  "replace_string old new s = Some (if old = [] then s else replace_scan old new s)"
  using replace_loop_scan [of old 0 s new] by (simp add: replace_string_def)

text \<open>Hexadecimal digits.\<close>

lemma digit_table:
  assumes "d < 16"
  shows "hex_value (hex_digits ! d) = Some d" "hex_value (upper_hex_digits ! d) = Some d"
    "\<not> is_space (hex_digits ! d)" "\<not> is_space (upper_hex_digits ! d)"
    "hex_digits ! d \<noteq> CHR ''-''" "hex_digits ! d \<noteq> CHR ''+''"
    "upper_hex_digits ! d \<noteq> CHR ''-''" "upper_hex_digits ! d \<noteq> CHR ''+''"
    "upper_hex_digits ! d \<noteq> CHR ''x''" "upper_hex_digits ! d \<noteq> CHR ''X''"
proof -
  have "\<forall>d \<in> set [0..<16]. hex_value (hex_digits ! d) = Some d \<and> hex_value (upper_hex_digits ! d) = Some d \<and>
    \<not> is_space (hex_digits ! d) \<and> \<not> is_space (upper_hex_digits ! d) \<and>
    hex_digits ! d \<noteq> CHR ''-'' \<and> hex_digits ! d \<noteq> CHR ''+'' \<and>
    upper_hex_digits ! d \<noteq> CHR ''-'' \<and> upper_hex_digits ! d \<noteq> CHR ''+'' \<and>
    upper_hex_digits ! d \<noteq> CHR ''x'' \<and> upper_hex_digits ! d \<noteq> CHR ''X''" by code_simp
  with assms show "hex_value (hex_digits ! d) = Some d" "hex_value (upper_hex_digits ! d) = Some d"
    "\<not> is_space (hex_digits ! d)" "\<not> is_space (upper_hex_digits ! d)"
    "hex_digits ! d \<noteq> CHR ''-''" "hex_digits ! d \<noteq> CHR ''+''"
    "upper_hex_digits ! d \<noteq> CHR ''-''" "upper_hex_digits ! d \<noteq> CHR ''+''"
    "upper_hex_digits ! d \<noteq> CHR ''x''" "upper_hex_digits ! d \<noteq> CHR ''X''" by simp_all
qed

lemma byte_digits: "of_char c div 16 < (16 :: nat)" "of_char c mod 16 < (16 :: nat)"
  using of_char_less [of c] by (simp_all add: less_mult_imp_div_less)

lemma byte_value: "int_char (int (of_char c)) = c"
  by (simp add: int_char_def nat_mod_distrib)

text \<open>
  Every byte string is restored from its hexadecimal form, which is twice as long and consists of the sixteen
  digits.
\<close>

theorem hex_roundtrip:
  "from_hex (to_hex s) = Some s \<and> length (to_hex s) = 2 * length s \<and> set (to_hex s) \<subseteq> set hex_digits"
proof -
  have "from_hex (to_hex s) = Some s"
    by (induction s) (simp_all add: from_hex_def to_hex_def strtol16_def take_sign_def skip_0x_def digit_table
        byte_digits byte_value del: of_nat_add of_nat_mult)
  moreover have "length (to_hex s) = 2 * length s" by (induction s) (simp_all add: to_hex_def)
  moreover have "set (to_hex s) \<subseteq> set hex_digits"
  proof -
    have "length hex_digits = 16" by (simp add: hex_digits_def)
    then show ?thesis using byte_digits by (auto simp: to_hex_def nth_mem)
  qed
  ultimately show ?thesis by blast
qed

text \<open>
  Every byte string is restored from its URI form, which has no character outside the unreserved ones
  (and braces and the apostrophe) but the percent signs of its escapes.
\<close>

theorem uri_roundtrip:
  "decode_uri (encode_uri s) = Some s \<and> set (encode_uri s) \<subseteq> {c. uri_unescaped c \<or> c = CHR ''%''}"
proof -
  have plain: "c \<noteq> CHR ''%''" if "uri_unescaped c" for c
    using that by (auto simp: uri_unescaped_def is_alnum_def is_digit_def less_eq_char_def)
  have "decode_uri_loop (encode_uri s) ii = Some s" for ii
    by (induction s arbitrary: ii) (auto simp: encode_uri_def plain scan_hex_def take_sign_def skip_0x_def digit_table
        byte_digits byte_value simp del: of_nat_add of_nat_mult)
  moreover have "uri_unescaped (upper_hex_digits ! d)" if "d < 16" for d
  proof -
    have "\<forall>d \<in> set [0..<16]. uri_unescaped (upper_hex_digits ! d)" by code_simp
    with that show ?thesis by simp
  qed
  then have "set (encode_uri s) \<subseteq> {c. uri_unescaped c \<or> c = CHR ''%''}"
    using byte_digits by (auto simp: encode_uri_def)
  ultimately show ?thesis by (simp add: decode_uri_def)
qed

text \<open>
  The decoder meets undefined behaviour on a percent sign with fewer than two characters behind it: it moves its
  iterator beyond the end of the string.
\<close>

theorem decode_uri_undefined:
  "\<forall>c \<in> set s. c \<noteq> CHR ''%'' \<Longrightarrow> length t < 2 \<Longrightarrow> decode_uri (s @ CHR ''%'' # t) = None"
proof -
  assume s: "\<forall>c \<in> set s. c \<noteq> CHR ''%''" and t: "length t < 2"
  have "decode_uri_loop (CHR ''%'' # t) ii = None" for ii using t by (cases t; cases "tl t") auto
  with s have "decode_uri_loop (s @ CHR ''%'' # t) ii = None" for ii by (induction s) auto
  then show ?thesis by (simp add: decode_uri_def)
qed

theorem decode_uri_undefined_witness: "decode_uri ''a%4'' = None"
  using decode_uri_undefined [of "''a''" "''4''"] by simp

end
