(* ===== verification/Byte_Escape.thy ===== *)
theory Byte_Escape
  imports Byte_Strings
begin

unbundle bit_operations_syntax

text \<open>
  UTF-8 characters and the escape sequences of JSON strings (code/b-string/b-string-base.h). The type \<open>char\<close> is signed, as
  on x86-64: in the arithmetic of the code a byte from 128 on is a negative number.
\<close>

section \<open>UTF-8\<close>

definition expected_bytes :: "char \<Rightarrow> nat" where
  "expected_bytes c =
     (let n = (of_char c :: nat)
      in if n AND 0xF0 = 0xF0 then 4
         else if n AND 0xE0 = 0xE0 then 3
         else if n AND 0xC0 = 0xC0 then 2
         else if n AND 0x80 = 0x80 then 1
         else 0)"

text \<open>\<open>(c & 0b10111111) == c\<close>: false for a negative \<open>c\<close>, whose conjunction with the mask is positive.\<close>

definition expect_next_byte :: "char \<Rightarrow> bool" where
  "expect_next_byte c \<longleftrightarrow> (let n = (of_char c :: nat) in n < 128 \<and> n AND 0xBF = n)"

text \<open>
  The loop of \<open>nextUTF8\<close> over the expected count, the position and the bytes so far. The counter is decremented
  before the position is looked at.
\<close>

function utf8_loop :: "bstring \<Rightarrow> nat \<Rightarrow> nat \<Rightarrow> bstring \<Rightarrow> nat \<times> nat \<times> bstring" where
  "utf8_loop bytes e pos part =
     (if e = 0 then (0, pos, part)
      else if 0 < e - 1 \<and> pos < length bytes then
        (let c = bytes ! pos
         in utf8_loop bytes (if expect_next_byte c then e else e - 1) (pos + 1) (part @ [c]))
      else (e - 1, pos, part))"
  by pat_completeness auto
termination by (relation "measure (\<lambda>(bytes, e, pos, part). length bytes - pos)") auto

declare utf8_loop.simps [simp del]

text \<open>
  \<open>nextUTF8\<close>: the character, or nothing when the string ends within it; the new position; the bytes of an incomplete
  character. The bytes left from an earlier string are put in front. Reading at the end gives the terminating zero.
\<close>

definition next_utf8 :: "bstring \<Rightarrow> nat \<Rightarrow> bstring \<Rightarrow> bstring \<times> nat \<times> bstring" where
  "next_utf8 s pos part =
     (let bytes = part @ s
      in if bytes = [] then ([], pos, part)
         else let c = (if pos < length bytes then bytes ! pos else CHR 0x00);
                  (e, pos, part) = utf8_loop bytes (expected_bytes c) (pos + 1) [c]
              in if e = 0 then (part, pos, []) else ([], pos + length part, part))"

lemma utf8_loop_pos: "pos \<le> fst (snd (utf8_loop bytes e pos part))"
proof (induction bytes e pos part rule: utf8_loop.induct)
  case (1 bytes e pos part)
  then show ?case by (subst utf8_loop.simps) (auto simp: Let_def)
qed

lemma next_utf8_pos:
  assumes "part @ s \<noteq> []"
  shows "pos < fst (snd (next_utf8 s pos part))"
proof -
  define c where "c = (if pos < length (part @ s) then (part @ s) ! pos else CHR 0x00)"
  obtain e pos' part' where loop: "utf8_loop (part @ s) (expected_bytes c) (pos + 1) [c] = (e, pos', part')"
    by (cases "utf8_loop (part @ s) (expected_bytes c) (pos + 1) [c]")
  moreover have "pos + 1 \<le> pos'" using utf8_loop_pos [of "pos + 1" "part @ s" "expected_bytes c" "[c]"] loop by simp
  ultimately show ?thesis using assms by (simp add: next_utf8_def Let_def c_def)
qed

section \<open>Escaping\<close>

text \<open>
  The escape of a character. The comparison with \<open>"\0"\<close> compares with an empty string, so a zero byte is not escaped.
\<close>

definition escape_char :: "bstring \<Rightarrow> bstring" where
  "escape_char c =
     (if c = [] then [CHR 0x5C, CHR ''0'']
      else if c = [CHR 0x22] then [CHR 0x5C, CHR 0x22]
      else if c = [CHR 0x5C] then [CHR 0x5C, CHR 0x5C]
      else if c = [CHR 0x08] then [CHR 0x5C, CHR ''b'']
      else if c = [CHR 0x0C] then [CHR 0x5C, CHR ''f'']
      else if c = [CHR 0x0D] then [CHR 0x5C, CHR ''r'']
      else if c = [CHR 0x0A] then [CHR 0x5C, CHR ''n'']
      else if c = [CHR 0x09] then [CHR 0x5C, CHR ''t'']
      else if c = [CHR 0x0B] then [CHR 0x5C, CHR ''v'']
      else if length c = 1 \<and> (of_char (c ! 0) :: nat) < 128 then c
      else if length c = 1 then [CHR 0x5C, CHR ''u'', CHR ''0'', CHR ''0''] @ to_hex c
      else c)"

text \<open>The loop of \<open>escape\<close>; the stream is the list of the characters written.\<close>

function escape_loop :: "bstring \<Rightarrow> nat \<Rightarrow> bstring \<Rightarrow> bstring \<Rightarrow> bstring \<times> bstring" where
  "escape_loop s pos part out =
     (if pos < length s then
        (let (utf8, pos, part) = next_utf8 s pos part
         in escape_loop s pos part (if part = [] then out @ escape_char utf8 else out))
      else (out, part))"
  by pat_completeness auto
termination
proof (relation "measure (\<lambda>(s, pos, part, out). length s - pos)", simp, goal_cases)
  case (1 s pos part out x utf8 y pos' part')
  then have "next_utf8 s pos part = (utf8, pos', part')" by simp
  moreover have "part @ s \<noteq> []" using 1(1) by auto
  ultimately have "pos < pos'" using next_utf8_pos [of part s pos] by simp
  with 1(1) show ?case by simp
qed

declare escape_loop.simps [simp del]

definition escape :: "bstring \<Rightarrow> bstring" where
  "escape s = fst (escape_loop s 0 [] [])"

text \<open>The version for a text that comes in parts: what was left of the last part is an argument, and the new rest a result.\<close>

definition escape_part :: "bstring \<Rightarrow> bstring \<Rightarrow> bstring \<times> bstring" where
  "escape_part part s = escape_loop (part @ s) 0 part []"

definition unescape_char :: "char \<Rightarrow> char" where
  "unescape_char c =
     (if c = CHR ''0'' then CHR 0x00 else if c = CHR 0x22 then CHR 0x22 else if c = CHR 0x5C then CHR 0x5C
      else if c = CHR ''b'' then CHR 0x08 else if c = CHR ''f'' then CHR 0x0C else if c = CHR ''r'' then CHR 0x0D
      else if c = CHR ''n'' then CHR 0x0A else if c = CHR ''t'' then CHR 0x09 else if c = CHR ''v'' then CHR 0x0B
      else c)"

text \<open>
  After \<open>\u\<close>: at most two zeros are skipped, and of four characters the rest is read as hexadecimal bytes. The results
  are those bytes and what follows.
\<close>

definition unescape_unicode :: "bstring \<Rightarrow> bstring option \<times> bstring" where
  "unescape_unicode s =
     (let zeros = length (takeWhile (\<lambda>c. c = CHR ''0'') (take 2 s)); s = drop zeros s
      in (from_hex (take (4 - zeros) s), drop (4 - zeros) s))"

function unescape :: "bstring \<Rightarrow> bstring option" where
  "unescape [] = Some []"
| "unescape (c # cs) =
     (if c = CHR 0x5C \<and> cs \<noteq> [] then
        if hd cs = CHR ''u'' then
          do { byte \<leftarrow> fst (unescape_unicode (tl cs));
               rest \<leftarrow> unescape (snd (unescape_unicode (tl cs)));
               Some (byte @ rest) }
        else map_option ((#) (unescape_char (hd cs))) (unescape (tl cs))
      else map_option ((#) c) (unescape cs))"
  by pat_completeness auto
termination
  by (relation "measure length") (auto simp: unescape_unicode_def Let_def neq_Nil_conv)

section \<open>Correctness\<close>

text \<open>A character: a lead byte and as many bytes from 128 on as it announces, or any other byte.\<close>

definition utf8_char :: "bstring \<Rightarrow> bool" where
  "utf8_char u \<longleftrightarrow> u \<noteq> [] \<and> length u = max 1 (expected_bytes (hd u)) \<and> (\<forall>c \<in> set (tl u). (128 :: nat) \<le> of_char c)"

text \<open>Texts that end between characters.\<close>

definition whole_chars :: "bstring \<Rightarrow> bool" where
  "whole_chars s \<longleftrightarrow> (\<exists>us. (\<forall>u \<in> set us. utf8_char u) \<and> s = concat us)"

lemma and_high_bits: "n AND push_bit k (mask m) = 2 ^ k * ((n div 2 ^ k) mod 2 ^ m)" for n :: nat
proof -
  have "n AND push_bit k (mask m) = push_bit k (take_bit m (drop_bit k n))"
    by (rule bit_eqI) (auto simp: bit_simps)
  then show ?thesis by (simp add: push_bit_eq_mult take_bit_eq_mod drop_bit_eq_div mult.commute)
qed

lemma expected_bytes_range:
  "expected_bytes c =
     (let n = (of_char c :: nat)
      in if 240 \<le> n then 4 else if 224 \<le> n then 3 else if 192 \<le> n then 2 else if 128 \<le> n then 1 else 0)"
proof -
  have masks: "n AND 0xF0 = 16 * ((n div 16) mod 16)" "n AND 0xE0 = 32 * ((n div 32) mod 8)"
    "n AND 0xC0 = 64 * ((n div 64) mod 4)" "n AND 0x80 = 128 * ((n div 128) mod 2)" for n :: nat
    using and_high_bits [of n 4 4] and_high_bits [of n 5 3] and_high_bits [of n 6 2] and_high_bits [of n 7 1]
    by (simp_all add: mask_eq_exp_minus_1 push_bit_eq_mult)
  have block: "m * ((n div m) mod Suc k) = m * k \<longleftrightarrow> m * k \<le> n" if "n < m * Suc k" "0 < m" for n m k :: nat
  proof -
    have "n div m < Suc k" using that by (simp add: less_mult_imp_div_less mult.commute)
    then have "(n div m) mod Suc k = n div m" "n div m = k \<longleftrightarrow> k \<le> n div m" by auto
    with that show ?thesis by (simp add: less_eq_div_iff_mult_less_eq mult.commute)
  qed
  have tests: "n AND 0xF0 = 0xF0 \<longleftrightarrow> 240 \<le> n" "n AND 0xE0 = 0xE0 \<longleftrightarrow> 224 \<le> n" "n AND 0xC0 = 0xC0 \<longleftrightarrow> 192 \<le> n"
    "n AND 0x80 = 0x80 \<longleftrightarrow> 128 \<le> n" if "n < 256" for n :: nat
    using block [of n 16 15] block [of n 32 7] block [of n 64 3] block [of n 128 1] that by (simp_all add: masks)
  show ?thesis using of_char_less [of c] by (simp only: expected_bytes_def Let_def tests)
qed

lemma expected_bytes_ascii: "(of_char c :: nat) < 128 \<longleftrightarrow> expected_bytes c = 0"
  by (simp add: expected_bytes_range Let_def)

lemma whole_chars_ascii: "\<forall>c \<in> set s. (of_char c :: nat) < 128 \<Longrightarrow> whole_chars s"
  unfolding whole_chars_def by (rule exI [of _ "map (\<lambda>c. [c]) s"]) (auto simp: utf8_char_def expected_bytes_ascii)

lemma whole_chars_split: "\<forall>s \<in> set ss. whole_chars s \<Longrightarrow> \<exists>uss. (\<forall>us \<in> set uss. \<forall>u \<in> set us. utf8_char u) \<and> ss = map concat uss"
proof (induction ss)
  case (Cons s ss)
  then obtain us uss where "\<forall>u \<in> set us. utf8_char u" "s = concat us" "\<forall>us \<in> set uss. \<forall>u \<in> set us. utf8_char u" "ss = map concat uss"
    by (auto simp: whole_chars_def)
  then show ?case by (intro exI [of _ "us # uss"]) simp
qed simp

lemma utf8_loop_char:
  "\<forall>c \<in> set bs. (128 :: nat) \<le> of_char c \<Longrightarrow> bytes = pre @ bs @ post \<Longrightarrow>
     utf8_loop bytes (Suc (length bs)) (length pre) part = (0, length pre + length bs, part @ bs)"
proof (induction bs arbitrary: pre part)
  case Nil
  then show ?case by (subst utf8_loop.simps) simp
next
  case (Cons b bs)
  have "\<not> expect_next_byte b" using Cons.prems(1) by (simp add: expect_next_byte_def Let_def)
  moreover have "utf8_loop bytes (Suc (length bs)) (length (pre @ [b])) (part @ [b]) =
      (0, length (pre @ [b]) + length bs, (part @ [b]) @ bs)"
    by (rule Cons.IH) (use Cons.prems in simp_all)
  ultimately show ?case using Cons.prems(2) by (subst utf8_loop.simps) (simp add: Let_def)
qed

lemma next_utf8_char:
  assumes "utf8_char u" and "s = pre @ u @ post"
  shows "next_utf8 s (length pre) [] = (u, length pre + length u, [])"
proof -
  obtain c bs where u: "u = c # bs" using assms(1) by (cases u) (auto simp: utf8_char_def)
  have bs: "\<forall>c \<in> set bs. (128 :: nat) \<le> of_char c" "Suc (length bs) = max 1 (expected_bytes c)"
    using assms(1) by (simp_all add: utf8_char_def u)
  have "utf8_loop s (expected_bytes c) (length (pre @ [c])) [c] = (0, length (pre @ [c]) + length bs, [c] @ bs)"
  proof (cases "expected_bytes c = 0")
    case True
    with bs(2) show ?thesis by (subst utf8_loop.simps) simp
  next
    case False
    with bs(2) have "expected_bytes c = Suc (length bs)" by simp
    moreover have "s = (pre @ [c]) @ bs @ post" by (simp add: assms(2) u)
    ultimately show ?thesis using utf8_loop_char [OF bs(1), of s "pre @ [c]" post "[c]"] by simp
  qed
  then show ?thesis using assms(2) by (simp add: next_utf8_def u)
qed

lemma escape_loop_chars:
  "\<forall>u \<in> set us. utf8_char u \<Longrightarrow> s = pre @ concat us \<Longrightarrow>
     escape_loop s (length pre) [] out = (out @ concat (map escape_char us), [])"
proof (induction us arbitrary: pre out)
  case Nil
  then show ?case by (subst escape_loop.simps) simp
next
  case (Cons u us)
  have u: "utf8_char u" "u \<noteq> []" using Cons.prems(1) by (auto simp: utf8_char_def)
  have "s = pre @ u @ concat us" using Cons.prems(2) by simp
  note step = next_utf8_char [OF u(1) this]
  have "escape_loop s (length (pre @ u)) [] (out @ escape_char u) =
      ((out @ escape_char u) @ concat (map escape_char us), [])"
    by (rule Cons.IH) (use Cons.prems in simp_all)
  with step u(2) Cons.prems(2) show ?case by (subst escape_loop.simps) simp
qed

lemma append_single: "((@) [c]) = ((#) c)"
  by (rule ext) simp

lemma unescape_plain: "\<forall>c \<in> set u. c \<noteq> CHR 0x5C \<Longrightarrow> unescape (u @ s) = map_option ((@) u) (unescape s)"
proof (induction u)
  case Nil
  then show ?case by (cases "unescape s") simp_all
next
  case (Cons c u)
  then show ?case by (cases "unescape s") auto
qed

lemma unescape_unicode_byte: "unescape_unicode (CHR ''0'' # CHR ''0'' # to_hex [c] @ s) = (Some [c], s)"
proof -
  have "length (to_hex [c]) = 2" by (simp add: to_hex_def)
  moreover have "from_hex (to_hex [c]) = Some [c]" using byte_digits
    by (simp add: from_hex_def to_hex_def strtol16_def take_sign_def skip_0x_def digit_table byte_value
        del: of_nat_add of_nat_mult)
  ultimately show ?thesis by (simp add: unescape_unicode_def numeral_2_eq_2)
qed

lemma unescape_escape_char:
  assumes "utf8_char u"
  shows "unescape (escape_char u @ s) = map_option ((@) u) (unescape s)"
proof (cases "length u = 1")
  case True
  then obtain c where u: "u = [c]" by (cases u) auto
  show ?thesis
  proof (cases "c = CHR 0x22 \<or> c = CHR 0x5C \<or> c = CHR 0x08 \<or> c = CHR 0x0C \<or> c = CHR 0x0D \<or> c = CHR 0x0A \<or>
      c = CHR 0x09 \<or> c = CHR 0x0B")
    case True
    then show ?thesis by (elim disjE) (simp_all add: u escape_char_def unescape_char_def append_single)
  next
    case False
    then show ?thesis using unescape_plain [of u s] unescape_unicode_byte [of c s]
      by (auto simp: u escape_char_def split: bind_splits intro!: arg_cong [where f = "\<lambda>f. map_option f _"])
  qed
next
  case False
  have long: "u \<noteq> []" "length u \<noteq> 1" "length u = max 1 (expected_bytes (hd u))"
    "\<forall>c \<in> set (tl u). (128 :: nat) \<le> of_char c" using assms False by (simp_all add: utf8_char_def)
  then have "\<not> (of_char (hd u) :: nat) < 128" by (simp add: expected_bytes_ascii)
  then have high: "\<forall>c \<in> set u. (128 :: nat) \<le> of_char c" using long by (cases u) auto
  have "c \<noteq> CHR 0x5C" if "c \<in> set u" for c using high that by auto
  moreover have "escape_char u = u" using long by (cases u) (auto simp: escape_char_def)
  ultimately show ?thesis using unescape_plain [of u s] by auto
qed

text \<open>
  Property C40: escaping ends, and unescaping gives back any text of complete characters, bytes that are not UTF-8 among them.
\<close>

theorem escape_roundtrip:
  assumes "\<forall>u \<in> set us. utf8_char u" and "s = concat us"
  shows "escape s = concat (map escape_char us) \<and> unescape (escape s) = Some s"
proof -
  have esc: "escape s = concat (map escape_char us)"
    using escape_loop_chars [OF assms(1), of s "[]" "[]"] assms(2) by (simp add: escape_def)
  have "unescape (concat (map escape_char us)) = Some (concat us)"
    using assms(1) by (induction us) (simp_all add: unescape_escape_char)
  with esc assms(2) show ?thesis by simp
qed

theorem escape_roundtrip_witness:
  "unescape (escape [CHR 0x22, CHR 0xC3, CHR 0xA9, CHR 0x80]) = Some [CHR 0x22, CHR 0xC3, CHR 0xA9, CHR 0x80]"
proof -
  have "\<forall>u \<in> set [[CHR 0x22], [CHR 0xC3, CHR 0xA9], [CHR 0x80]]. utf8_char u" by code_simp
  from escape_roundtrip [OF this refl, THEN conjunct2] show ?thesis by (simp only: concat.simps append.simps)
qed

text \<open>
  A character split between two parts is not put together again: the bytes left from the first part are put in
  front twice, and what is written is not the character.
\<close>

theorem escape_part_doubles:
  "escape_part [] [CHR 0xC3] = ([], [CHR 0xC3]) \<and> escape_part [CHR 0xC3] [CHR 0xA9] = ([CHR 0xC3, CHR 0xC3], []) \<and>
   escape [CHR 0xC3, CHR 0xA9] = [CHR 0xC3, CHR 0xA9]"
  by code_simp

text \<open>
  An escape \<open>\uXXXX\<close> with exactly one leading zero makes \<open>unescape\<close> read and write beyond the end of a string:
  three hexadecimal digits are left.
\<close>

theorem unescape_one_zero:
  "d \<noteq> CHR ''0'' \<Longrightarrow> unescape (CHR 0x5C # CHR ''u'' # CHR ''0'' # d # e # f # s) = None"
  by (simp add: unescape_unicode_def from_hex_def numeral_2_eq_2 numeral_3_eq_3)

theorem unescape_one_zero_witness: "unescape [CHR 0x5C, CHR ''u'', CHR ''0'', CHR ''1'', CHR ''6'', CHR ''1''] = None"
  by (rule unescape_one_zero) simp

end
