(* ===== verification/Byte_Tokens.thy ===== *)
theory Byte_Tokens
  imports Byte_Escape "HOL-Library.List_Lexorder"
begin

text \<open>
  The words of a text (code/b-string/b-string-base.h: the class \<open>Iterator\<close> and \<open>BString::tokenise\<close>), as the search index
  of the database takes them from its strings. A \<open>wchar_t\<close> is its code point. What the locale knows of code points is the
  parameter \<open>wide_ctype\<close>, for glibc's \<open>iswspace\<close>, \<open>iswpunct\<close> and \<open>towlower\<close>. \<open>None\<close> is the exception \<open>range_error\<close> of
  the conversions, which nothing on the way catches.
\<close>

section \<open>Wide characters\<close>

record wide_ctype =
  iswspace :: "int \<Rightarrow> bool"
  iswpunct :: "int \<Rightarrow> bool"
  towlower :: "int \<Rightarrow> int"

definition code_point :: "int \<Rightarrow> bool" where
  "code_point c \<longleftrightarrow> 0 \<le> c \<and> c < 0x110000 \<and> \<not> (0xD800 \<le> c \<and> c \<le> 0xDFFF)"

definition follower :: "int \<Rightarrow> bool" where
  "follower b \<longleftrightarrow> 0x80 \<le> b \<and> b < 0xC0"

text \<open>The conversion \<open>codecvt_utf8\<close> of the standard library, one character at a time.\<close>

fun read_code_point :: "int list \<Rightarrow> (int \<times> int list) option" where
  "read_code_point [] = None"
| "read_code_point (a # s) =
     (if a < 0x80 then Some (a, s)
      else if a < 0xC2 then None
      else if a < 0xE0 then
        (case s of
           b # s \<Rightarrow> if follower b then Some ((a - 0xC0) * 64 + (b - 0x80), s) else None
         | _ \<Rightarrow> None)
      else if a < 0xF0 then
        (case s of
           b # c # s \<Rightarrow>
             (let v = (a - 0xE0) * 4096 + (b - 0x80) * 64 + (c - 0x80)
              in if follower b \<and> follower c \<and> 0x800 \<le> v \<and> code_point v then Some (v, s) else None)
         | _ \<Rightarrow> None)
      else if a < 0xF5 then
        (case s of
           b # c # d # s \<Rightarrow>
             (let v = (a - 0xF0) * 262144 + (b - 0x80) * 4096 + (c - 0x80) * 64 + (d - 0x80)
              in if follower b \<and> follower c \<and> follower d \<and> 0x10000 \<le> v \<and> code_point v then Some (v, s) else None)
         | _ \<Rightarrow> None)
      else None)"

lemma read_code_point_shorter: "read_code_point s = Some (c, r) \<Longrightarrow> length r < length s"
  by (cases s) (auto simp: Let_def split: if_splits list.splits)

function wide_codes :: "int list \<Rightarrow> int list option" where
  "wide_codes s =
     (if s = [] then Some []
      else case read_code_point s of
             None \<Rightarrow> None
           | Some (c, r) \<Rightarrow> map_option ((#) c) (wide_codes r))"
  by pat_completeness auto
termination by (relation "measure length") (auto dest: read_code_point_shorter)

declare wide_codes.simps [simp del]

definition utf8_to_wstring :: "bstring \<Rightarrow> int list option" where
  "utf8_to_wstring s = wide_codes (map of_char s)"

definition utf8_code :: "int \<Rightarrow> bstring option" where
  "utf8_code c =
     (if \<not> code_point c then None
      else if c < 0x80 then Some [char_of c]
      else if c < 0x800 then Some [char_of (0xC0 + c div 64), char_of (0x80 + c mod 64)]
      else if c < 0x10000 then
        Some [char_of (0xE0 + c div 4096), char_of (0x80 + c div 64 mod 64), char_of (0x80 + c mod 64)]
      else Some [char_of (0xF0 + c div 262144), char_of (0x80 + c div 4096 mod 64), char_of (0x80 + c div 64 mod 64),
              char_of (0x80 + c mod 64)])"

fun wstring_to_utf8 :: "int list \<Rightarrow> bstring option" where
  "wstring_to_utf8 [] = Some []"
| "wstring_to_utf8 (c # cs) = do { u \<leftarrow> utf8_code c; s \<leftarrow> wstring_to_utf8 cs; Some (u @ s) }"

definition to_lower :: "wide_ctype \<Rightarrow> bstring \<Rightarrow> bstring option" where
  "to_lower W s = do { w \<leftarrow> utf8_to_wstring s; wstring_to_utf8 (map (towlower W) w) }"

definition is_emoji :: "bstring \<Rightarrow> bool option" where
  "is_emoji s =
     (if s = [] then Some False
      else do { w \<leftarrow> utf8_to_wstring s;
                let c = hd w
                in Some (0x1F600 \<le> c \<and> c \<le> 0x1F64F \<or> 0x1F300 \<le> c \<and> c \<le> 0x1F5FF \<or>
                     0x1F680 \<le> c \<and> c \<le> 0x1F6FF \<or> 0x1F900 \<le> c \<and> c \<le> 0x1F9FF \<or> 0x2600 \<le> c \<and> c \<le> 0x26FF) })"

definition is_wide_space :: "wide_ctype \<Rightarrow> bstring \<Rightarrow> bool option" where
  "is_wide_space W s =
     (if s = [] then Some False else do { w \<leftarrow> utf8_to_wstring s; Some (iswspace W (hd w)) })"

definition is_punctuation :: "wide_ctype \<Rightarrow> bstring \<Rightarrow> bool option" where
  "is_punctuation W s =
     (if s = [] then Some False
      else do { w \<leftarrow> utf8_to_wstring s;
                if iswpunct W (hd w) then map_option Not (is_emoji s) else Some False })"

section \<open>The iterator\<close>

lemma next_utf8_step: "(ch, pos', part') = next_utf8 s pos part \<Longrightarrow> pos < length s \<Longrightarrow> pos < pos'"
  using next_utf8_pos [of part s pos] by (cases s) (auto dest: sym)

text \<open>The first loop of \<open>setValue\<close>: whether it met an emoji, the character it stopped at, the position, the rest.\<close>

function skip_blanks :: "wide_ctype \<Rightarrow> bstring \<Rightarrow> nat \<Rightarrow> bstring \<Rightarrow> (bool \<times> bstring \<times> nat \<times> bstring) option" where
  "skip_blanks W s pos part =
     (if pos < length s then
        (case next_utf8 s pos part of
           (ch, pos', part') \<Rightarrow>
             if part' \<noteq> [] then skip_blanks W s pos' part'
             else do {
               emoji \<leftarrow> is_emoji ch;
               if emoji then Some (True, ch, pos', part')
               else do {
                 space \<leftarrow> is_wide_space W ch;
                 blank \<leftarrow> (if space then Some True else is_punctuation W ch);
                 if blank then skip_blanks W s pos' part' else Some (False, ch, pos', part') } })
      else Some (False, [], pos, part))"
  by pat_completeness auto
termination by (relation "measure (\<lambda>(W, s, pos, part). length s - pos)") (auto dest: next_utf8_step)

declare skip_blanks.simps [simp del]

text \<open>The second loop: an emoji ends the word and is left for the next one, unless there is no word yet.\<close>

function read_word :: "wide_ctype \<Rightarrow> bstring \<Rightarrow> bstring \<Rightarrow> nat \<Rightarrow> bstring \<Rightarrow> (bstring \<times> nat \<times> bstring) option" where
  "read_word W s word pos part =
     (if pos < length s then
        (case next_utf8 s pos part of
           (ch, pos', part') \<Rightarrow>
             if part' \<noteq> [] then read_word W s word pos' part'
             else do {
               emoji \<leftarrow> is_emoji ch;
               if emoji then Some (if word \<noteq> [] then (word, pos, part') else (ch, pos', part'))
               else do {
                 space \<leftarrow> is_wide_space W ch;
                 ends \<leftarrow> (if space then Some True
                          else map_option (\<lambda>punct. punct \<and> \<not> is_seperator ch) (is_punctuation W ch));
                 if ends then Some (word, pos', part') else read_word W s (word @ ch) pos' part' } })
      else Some (word, pos, part))"
  by pat_completeness auto
termination by (relation "measure (\<lambda>(W, s, word, pos, part). length s - pos)") (auto dest: next_utf8_step)

declare read_word.simps [simp del]

text \<open>\<open>setValue\<close> returns whether there is a word, the value of the iterator, the position and the rest.\<close>

definition set_value ::
    "wide_ctype \<Rightarrow> bstring \<Rightarrow> bstring \<Rightarrow> nat \<Rightarrow> bstring \<Rightarrow> (bool \<times> bstring \<times> nat \<times> bstring) option" where
  "set_value W s old pos part =
     do { (emoji, word, pos, part) \<leftarrow> skip_blanks W s pos part;
          if emoji then Some (True, word, pos, part)
          else do { (word, pos, part) \<leftarrow> read_word W s word pos part;
                    Some (if part = [] \<and> word \<noteq> [] then (True, word, pos, part) else (False, old, pos, part)) } }"

text \<open>The iterator; the string it walks and the rest, which it holds by reference, are arguments.\<close>

record utf8_iterator =
  it_value :: bstring
  it_end :: bool
  it_position :: nat

definition utf8_increment ::
    "wide_ctype \<Rightarrow> bstring \<Rightarrow> utf8_iterator \<Rightarrow> bstring \<Rightarrow> (utf8_iterator \<times> bstring) option" where
  "utf8_increment W s it part =
     (if it_end it then Some (it, part)
      else do { (found, v, pos, part) \<leftarrow> set_value W s (it_value it) (it_position it) part;
                Some (\<lparr>it_value = v, it_end = \<not> found, it_position = pos\<rparr>, part) })"

definition utf8_begin :: "wide_ctype \<Rightarrow> bstring \<Rightarrow> bstring \<Rightarrow> (utf8_iterator \<times> bstring) option" where
  "utf8_begin W s part = utf8_increment W s \<lparr>it_value = [], it_end = False, it_position = 0\<rparr> part"

lemma utf8_loop_extends: "prefix part (snd (snd (utf8_loop s e pos part)))"
proof (induction s e pos part rule: utf8_loop.induct)
  case (1 s e pos part)
  have "prefix part (part @ [c])" for c by simp
  with 1 show ?case by (subst utf8_loop.simps) (auto simp: Let_def dest: append_prefixD)
qed

lemma next_utf8_complete:
  assumes "next_utf8 s pos part = (ch, pos', [])" and "pos < length s"
  shows "ch \<noteq> []"
proof -
  define c where "c = (if pos < length (part @ s) then (part @ s) ! pos else CHR 0x00)"
  obtain e p r where loop: "utf8_loop (part @ s) (expected_bytes c) (Suc pos) [c] = (e, p, r)"
    by (cases "utf8_loop (part @ s) (expected_bytes c) (Suc pos) [c]")
  have "r \<noteq> []" using utf8_loop_extends [of "[c]" "part @ s" "expected_bytes c" "Suc pos"] by (auto simp: loop)
  moreover have "s \<noteq> []" using assms(2) by auto
  ultimately show ?thesis using assms(1) loop by (auto simp: next_utf8_def Let_def c_def split: if_splits)
qed

lemma skip_blanks_pos:
  assumes "skip_blanks W s pos part = Some (e, ch, pos', part')"
  shows "if ch = [] then \<not> e \<and> length s \<le> pos' else pos < pos' \<and> pos < length s"
  using assms
proof (induction "length s - pos" arbitrary: pos part rule: less_induct)
  case less
  show ?case
  proof (cases "pos < length s")
    case True
    obtain c p r where step: "next_utf8 s pos part = (c, p, r)" by (cases "next_utf8 s pos part")
    have later: "pos < p" by (rule next_utf8_step [OF step [symmetric] True])
    have "skip_blanks W s p r = Some (e, ch, pos', part') \<or> ch = c \<and> r = [] \<and> pos' = p"
      using less.prems by (subst (asm) skip_blanks.simps) (auto simp: True step split: if_splits bind_splits)
    then show ?thesis
    proof
      assume rec: "skip_blanks W s p r = Some (e, ch, pos', part')"
      have "length s - p < length s - pos" using later True by simp
      from less.hyps [OF this rec] later True show ?thesis by (simp split: if_splits)
    next
      assume stop: "ch = c \<and> r = [] \<and> pos' = p"
      then have "c \<noteq> []" using next_utf8_complete [of s pos part c p] step True by simp
      with stop later True show ?thesis by simp
    qed
  next
    case False
    with less.prems show ?thesis by (auto simp: skip_blanks.simps)
  qed
qed

lemma read_word_pos: "read_word W s word pos part = Some (v, pos', part') \<Longrightarrow> pos \<le> pos'"
proof (induction "length s - pos" arbitrary: word pos part rule: less_induct)
  case less
  show ?case
  proof (cases "pos < length s")
    case True
    obtain c p r where step: "next_utf8 s pos part = (c, p, r)" by (cases "next_utf8 s pos part")
    have later: "pos < p" by (rule next_utf8_step [OF step [symmetric] True])
    have "(\<exists>w. read_word W s w p r = Some (v, pos', part')) \<or> pos' = p \<or> pos' = pos"
      using less.prems by (subst (asm) read_word.simps) (auto simp: True step split: if_splits bind_splits)
    moreover have "p \<le> pos'" if "read_word W s w p r = Some (v, pos', part')" for w
      using less.hyps [OF _ that] later True by simp
    ultimately show ?thesis using later by (meson less_imp_le_nat le_trans order_refl)
  next
    case False
    with less.prems show ?thesis by (simp add: read_word.simps)
  qed
qed

lemma set_value_pos:
  assumes "set_value W s old pos part = Some (True, v, pos', part')"
  shows "pos < pos' \<and> pos < length s"
proof -
  obtain e ch p r where skip: "skip_blanks W s pos part = Some (e, ch, p, r)"
    using assms by (cases "skip_blanks W s pos part") (auto simp: set_value_def)
  note skip_pos = skip_blanks_pos [OF skip]
  show ?thesis
  proof (cases "ch = []")
    case True
    then have "\<not> e" "\<not> p < length s" using skip_pos by auto
    then have False using assms skip True by (simp add: set_value_def read_word.simps)
    then show ?thesis ..
  next
    case False
    then have "p \<le> pos'"
      using assms skip read_word_pos [of W s ch p r v pos' part']
      by (auto simp: set_value_def split: if_splits bind_splits)
    with skip_pos False show ?thesis by auto
  qed
qed

section \<open>Tokens\<close>

definition add_lower :: "wide_ctype \<Rightarrow> bstring \<Rightarrow> bstring list \<Rightarrow> bstring list option" where
  "add_lower W split words =
     (if split = [] then Some words else map_option (\<lambda>w. words @ [w]) (to_lower W split))"

text \<open>The lambda \<open>splitOnDot\<close>, its loop over the characters of a word.\<close>

function split_on_dot ::
    "wide_ctype \<Rightarrow> bstring \<Rightarrow> nat \<Rightarrow> bstring \<Rightarrow> bstring list \<Rightarrow> bstring list option" where
  "split_on_dot W word index split words =
     (if index < length word then
        (case next_utf8 word index [] of
           (ch, index', _) \<Rightarrow>
             if is_seperator ch then do { words \<leftarrow> add_lower W split words; split_on_dot W word index' [] words }
             else split_on_dot W word index' (split @ ch) words)
      else add_lower W split words)"
  by pat_completeness auto
termination by (relation "measure (\<lambda>(W, word, index, split, words). length word - index)") (auto dest: next_utf8_step)

declare split_on_dot.simps [simp del]

text \<open>
  The loop over the words: the words so far, the word kept for the next page, and the bytes of an incomplete character.
  The test iterator is a copy that shares those bytes with the iterator.
\<close>

function token_loop ::
    "wide_ctype \<Rightarrow> bstring \<Rightarrow> bool \<Rightarrow> utf8_iterator \<Rightarrow> bstring \<Rightarrow> bstring list \<Rightarrow> (bstring list \<times> bstring \<times> bstring) option"
  where
  "token_loop W s final it part words =
     (if it_end it then Some (words, [], part)
      else
        (case utf8_increment W s it part of
           None \<Rightarrow> None
         | Some (test, part) \<Rightarrow>
             if \<not> final \<and> it_end test then Some (words, it_value it, part)
             else
               (case do { words \<leftarrow> split_on_dot W (it_value it) 0 [] words;
                          w \<leftarrow> to_lower W (it_value it);
                          Some (words @ [w]) } of
                  None \<Rightarrow> None
                | Some words \<Rightarrow>
                    (case utf8_increment W s it part of
                       None \<Rightarrow> None
                     | Some (it, part) \<Rightarrow> token_loop W s final it part words))))"
  by pat_completeness auto
termination
  by (relation "measure (\<lambda>(W, s, final, it, part, words). if it_end it then 0 else Suc (length s - it_position it))")
    (auto simp: utf8_increment_def dest!: set_value_pos split: bind_splits)

declare token_loop.simps [simp del]

text \<open>\<open>tokenise\<close> returns the words and sets the part of a word for the next page.\<close>

definition tokenise :: "wide_ctype \<Rightarrow> bstring \<Rightarrow> bstring \<Rightarrow> bool \<Rightarrow> bool \<Rightarrow> (bstring list \<times> bstring) option" where
  "tokenise W s part_word final whole =
     do { words \<leftarrow> (if whole then map_option (\<lambda>w. [w]) (to_lower W s) else Some []);
          let text = part_word @ s;
          (it, part) \<leftarrow> utf8_begin W text [];
          (words, part_word, part) \<leftarrow> token_loop W text final it part words;
          Some (remdups_adj (sort words), part_word @ part) }"

text \<open>The part of a locale that concerns ASCII, to evaluate the functions on examples.\<close>

definition ascii_ctype :: wide_ctype where
  "ascii_ctype =
     \<lparr>iswspace = (\<lambda>c. c = 32 \<or> 9 \<le> c \<and> c \<le> 13),
      iswpunct = (\<lambda>c. 33 \<le> c \<and> c \<le> 47 \<or> 58 \<le> c \<and> c \<le> 64 \<or> 91 \<le> c \<and> c \<le> 96 \<or> 123 \<le> c \<and> c \<le> 126),
      towlower = (\<lambda>c. if 65 \<le> c \<and> c \<le> 90 then c + 32 else c)\<rparr>"

end
