(* ===== verification/Parser_Match.thy ===== *)
theory Parser_Match
  imports Byte_Tokens
begin

text \<open>
  The matchers of the streaming parser (code/parser: match.h, character.h, range.h, word.h, ciword.h, and.h, or.h, not.h,
  optional.h, repeat.h, capture.h, invoke.h, load-on-demand.h) and its reading loop (parser.h).

  A matcher is an object that is fed one UTF-8 character after the other. It holds its own state, decides at some
  character, and from then on has the result. \<open>match\<close> says of a character whether it belongs to the matched text:
  a matcher may decide on a character without taking it. Each class is a constructor of the datatype that holds
  the members of the class, and each method a definition over the methods of the parts; a call of a
  virtual method is the argument \<open>rec\<close>. \<open>setup\<close>, which only hands the parser to the parts, has no counterpart.
\<close>

section \<open>Matchers\<close>

text \<open>
  \<open>MWord\<close> stands for \<open>Word\<close> and, with the flag, \<open>CIWord\<close>; the position is that of the iterator \<open>_index\<close>. \<open>MRepeat\<close>
  holds the state of a new item, the minimum, the maximum, the count and the item. \<open>MCapture\<close> holds the text so far and
  the texts its \<open>success\<close> refuses: none in \<open>Capture\<close>, the operators in the words of a query. \<open>MInvoke\<close> has the name of its
  callback. \<open>MLoad\<close> creates its item when it is first needed, by a name. \<open>MGroup\<close> is a match with a state of its own that
  the callbacks inside it change: here the list of the calls.
\<close>

datatype 'a matcher =
    MChar "bstring option" "bool option"
  | MRange bstring bstring "bool option"
  | MWord bool bstring nat "bool option"
  | MAnd "'a matcher list" nat "bool option"
  | MOr "'a matcher list" "nat option" "bool option"
  | MNot "'a matcher" "bool option"
  | MOptional "'a matcher" "bool option"
  | MRepeat "'a matcher" nat nat nat "'a matcher option" "bool option"
  | MCapture "'a matcher" bstring "bstring list" "bool option"
  | MMatch "'a matcher" "bool option"
  | MInvoke "'a matcher" 'a "bool option"
  | MLoad 'a "'a matcher option" "bool option"
  | MGroup "'a matcher" "('a \<times> 'a matcher) list" "bool option"

text \<open>A call of a callback has its name and the matcher it is passed.\<close>

type_synonym 'a call = "'a \<times> 'a matcher"

text \<open>
  What a program adds to the classes: the matchers created on demand, whether a group accepts the calls made inside it, and
  the lower case of a string.
\<close>

record 'a grammar =
  on_demand :: "'a \<Rightarrow> 'a matcher"
  accepts :: "'a call list \<Rightarrow> bool"
  lower_case :: "bstring \<Rightarrow> bstring"

text \<open>
  \<open>result()\<close> of the classes, from the member \<open>_result\<close> and the results of the parts. It is an own method in \<open>Or\<close>, where an item
  makes a success, in \<open>Not\<close> and in \<open>Repeat\<close>.
\<close>

definition match_result :: "bool option \<Rightarrow> bool option \<Rightarrow> bool option" where
  [simp]: "match_result r part = (if r \<noteq> None then r else part)"

definition or_result :: "bool option \<Rightarrow> nat option \<Rightarrow> bool option" where
  [simp]: "or_result r item = (if r \<noteq> None then r else if item \<noteq> None then Some True else None)"

definition not_result :: "bool option \<Rightarrow> bool option \<Rightarrow> bool option" where
  [simp]: "not_result r part = (if r \<noteq> None then r else map_option Not part)"

definition repeat_result :: "bool option \<Rightarrow> bool option option \<Rightarrow> bool option" where
  [simp]: "repeat_result r item = (if r \<noteq> None then r else case item of None \<Rightarrow> None | Some b \<Rightarrow> b)"

fun result :: "'a matcher \<Rightarrow> bool option" where
  "result (MChar c r) = r"
| "result (MRange a b r) = r"
| "result (MWord ci w i r) = r"
| "result (MAnd ms i r) = r"
| "result (MOr ms item r) = or_result r item"
| "result (MNot m r) = not_result r (result m)"
| "result (MOptional m r) = match_result r (result m)"
| "result (MRepeat new lo hi n item r) = repeat_result r (map_option result item)"
| "result (MCapture m v refused r) = match_result r (result m)"
| "result (MMatch m r) = match_result r (result m)"
| "result (MInvoke m name r) = match_result r (result m)"
| "result (MLoad name item r) = match_result r (case item of None \<Rightarrow> None | Some m \<Rightarrow> result m)"
| "result (MGroup m calls r) = match_result r (result m)"

text \<open>\<open>setResult\<close> only sets the result once.\<close>

definition once :: "bool option \<Rightarrow> bool \<Rightarrow> bool option" where
  "once r b = (if r = None then Some b else r)"

fun set_result :: "bool \<Rightarrow> 'a matcher \<Rightarrow> 'a matcher" where
  "set_result b (MChar c r) = MChar c (once r b)"
| "set_result b (MRange x y r) = MRange x y (once r b)"
| "set_result b (MWord ci w i r) = MWord ci w i (once r b)"
| "set_result b (MAnd ms i r) = MAnd ms i (once r b)"
| "set_result b (MOr ms item r) = MOr ms item (once r b)"
| "set_result b (MNot m r) = MNot m (once r b)"
| "set_result b (MOptional m r) = MOptional m (once r b)"
| "set_result b (MRepeat new lo hi n item r) = MRepeat new lo hi n item (once r b)"
| "set_result b (MCapture m v refused r) = MCapture m v refused (once r b)"
| "set_result b (MMatch m r) = MMatch m (once r b)"
| "set_result b (MInvoke m name r) = MInvoke m name (once r b)"
| "set_result b (MLoad name item r) = MLoad name item (once r b)"
| "set_result b (MGroup m calls r) = MGroup m calls (once r b)"

text \<open>\<open>value()\<close>.\<close>

fun matched_value :: "'a matcher \<Rightarrow> bstring" where
  "matched_value (MOr ms item r) = (case item of
       None \<Rightarrow> []
     | Some i \<Rightarrow> (case drop i (map matched_value ms) of [] \<Rightarrow> [] | v # _ \<Rightarrow> v))"
| "matched_value (MNot m r) = matched_value m"
| "matched_value (MOptional m r) = matched_value m"
| "matched_value (MCapture m v refused r) = v"
| "matched_value (MMatch m r) = matched_value m"
| "matched_value (MInvoke m name r) = matched_value m"
| "matched_value (MLoad name item r) = (case item of None \<Rightarrow> [] | Some m \<Rightarrow> matched_value m)"
| "matched_value (MGroup m calls r) = matched_value m"
| "matched_value _ = []"

text \<open>
  The virtual \<open>success()\<close>, with the calls it makes. That of \<open>Invoke\<close> calls back, that of a capture may refuse its text and
  that of a group what was called inside it.
\<close>

fun succeed :: "'a grammar \<Rightarrow> 'a matcher \<Rightarrow> 'a matcher \<times> 'a call list" where
  "succeed g (MInvoke m name r) = (set_result True (MInvoke m name r), [(name, m)])"
| "succeed g (MCapture m v refused r) = (set_result (v \<notin> set refused) (MCapture m v refused r), [])"
| "succeed g (MGroup m calls r) = (set_result (accepts g calls) (MGroup m calls r), [])"
| "succeed g m = (set_result True m, [])"

text \<open>A part has decided: \<open>success()\<close> or \<open>fail()\<close> accordingly.\<close>

definition decide :: "'a grammar \<Rightarrow> bool option \<Rightarrow> 'a matcher \<Rightarrow> 'a matcher \<times> 'a call list" where
  "decide g b m =
     (case b of
        None \<Rightarrow> (m, [])
      | Some True \<Rightarrow> succeed g m
      | Some False \<Rightarrow> (set_result False m, []))"

section \<open>Matching a character\<close>

text \<open>A match returns whether the character was taken, the matcher in its new state, and the calls.\<close>

type_synonym 'a step = "bool \<times> 'a matcher \<times> 'a call list"

definition character_match :: "bstring option \<Rightarrow> bool option \<Rightarrow> bstring \<Rightarrow> 'a step" where
  "character_match c r ch =
     (if r \<noteq> None then (False, MChar c r, [])
      else (let ok = (c = None \<or> c = Some ch) in (ok, MChar c (Some ok), [])))"

definition range_match :: "bstring \<Rightarrow> bstring \<Rightarrow> bool option \<Rightarrow> bstring \<Rightarrow> 'a step" where
  "range_match lo hi r ch = (let ok = (lo \<le> ch \<and> ch \<le> hi) in (ok, MRange lo hi (once r ok), []))"

text \<open>
  \<open>matchChar\<close>: the bytes of the character against the word from the position on, and the new position. At the end of the
  word it reads the terminating zero; in the classes it is only called before the end.
\<close>

fun match_bytes :: "bstring \<Rightarrow> nat \<Rightarrow> bstring \<Rightarrow> nat \<Rightarrow> nat \<times> nat" where
  "match_bytes w i [] n = (n, i)"
| "match_bytes w i (c # cs) n =
     (if c \<noteq> (if i < length w then w ! i else CHR 0x00) then (0, i)
      else if i + 1 = length w then (n + 1, i + 1)
      else match_bytes w (i + 1) cs (n + 1))"

definition word_match_char :: "bstring \<Rightarrow> nat \<Rightarrow> bstring \<Rightarrow> bool \<times> nat" where
  "word_match_char w i ch = (let (n, i) = match_bytes w i ch 0 in (n = length ch, i))"

definition word_match :: "'a grammar \<Rightarrow> bool \<Rightarrow> bstring \<Rightarrow> nat \<Rightarrow> bool option \<Rightarrow> bstring \<Rightarrow> 'a step" where
  "word_match g ci w i r ch =
     (if r \<noteq> None then (False, MWord ci w i r, [])
      else
        (let (ok, i) = word_match_char w i (if ci then lower_case g ch else ch)
         in (ok, MWord ci w i (if \<not> ok then Some False else if i = length w then Some True else None), [])))"

text \<open>
  \<open>And\<close>: the current part gets the character; when it succeeds the next one is current. A character that a part did not
  take is passed on, in the loop of the code by going round once more.
\<close>

type_synonym 'a matching = "'a matcher \<Rightarrow> bstring \<Rightarrow> 'a step option"

definition and_match :: "'a matching \<Rightarrow> 'a matcher list \<Rightarrow> nat \<Rightarrow> bool option \<Rightarrow> bstring \<Rightarrow> 'a step option" where
  "and_match rec ms i r ch =
     (if r \<noteq> None then Some (False, MAnd ms i r, [])
      else if length ms \<le> i then Some (False, MAnd ms i (Some False), [])
      else do {
        (ok, m, calls) \<leftarrow> rec (ms ! i) ch;
        let ms = ms[i := m];
        case result m of
          Some True \<Rightarrow>
            if i + 1 = length ms then Some (ok, MAnd ms (i + 1) (Some True), calls)
            else if ok then Some (True, MAnd ms (i + 1) None, calls)
            else do { (ok, m, more) \<leftarrow> rec (MAnd ms (i + 1) None) ch; Some (ok, m, calls @ more) }
        | Some False \<Rightarrow> Some (False, MAnd ms i (Some False), calls)
        | None \<Rightarrow>
            if ok then Some (True, MAnd ms i None, calls)
            else do { (ok, m, more) \<leftarrow> rec (MAnd ms i None) ch; Some (ok, m, calls @ more) } })"

text \<open>
  The loop of \<open>Or\<close>: every part that has no result gets the character, until one has succeeded. The results are whether
  a part took the character, the parts, the position of the part that succeeded, and the calls.
\<close>

fun or_loop :: "'a matching \<Rightarrow> 'a matcher list \<Rightarrow> bstring \<Rightarrow> (bool \<times> 'a matcher list \<times> nat option \<times> 'a call list) option" where
  "or_loop rec [] ch = Some (False, [], None, [])"
| "or_loop rec (m # ms) ch =
     (if result m = Some True then Some (False, m # ms, Some 0, [])
      else do {
        (ok, m, calls) \<leftarrow> (if result m = None then rec m ch else Some (False, m, []));
        if result m = Some True then Some (ok, m # ms, Some 0, calls)
        else do {
          (ok', ms, item, more) \<leftarrow> or_loop rec ms ch;
          Some (ok \<or> ok', m # ms, map_option Suc item, calls @ more) } })"

definition or_match :: "'a matching \<Rightarrow> 'a matcher list \<Rightarrow> nat option \<Rightarrow> bool option \<Rightarrow> bstring \<Rightarrow> 'a step option" where
  "or_match rec ms item r ch =
     (if result (MOr ms item r) \<noteq> None then Some (False, MOr ms item r, [])
      else do {
        (ok, ms, item, calls) \<leftarrow> or_loop rec ms ch;
        Some (ok, MOr ms item (if item \<noteq> None then Some True else if \<not> ok then Some False else None), calls) })"

definition not_match :: "'a matching \<Rightarrow> 'a matcher \<Rightarrow> bool option \<Rightarrow> bstring \<Rightarrow> 'a step option" where
  "not_match rec m r ch =
     (case r of
        Some b \<Rightarrow> Some (b, MNot m r, [])
      | None \<Rightarrow> do {
          (ok, m, calls) \<leftarrow> rec m ch;
          Some (if \<not> ok \<or> result m = Some False then (True, MNot m (Some True), calls)
                else if result m = Some True then (False, MNot m (Some False), calls)
                else (True, MNot m None, calls)) })"

definition optional_match :: "'a matching \<Rightarrow> 'a matcher \<Rightarrow> bool option \<Rightarrow> bstring \<Rightarrow> 'a step option" where
  "optional_match rec m r ch =
     do { (ok, m, calls) \<leftarrow> rec m ch;
          Some (ok, MOptional m (if result m \<noteq> None then once r True else r), calls) }"

text \<open>After an item \<open>Repeat\<close> creates the next one; the maximum zero means none.\<close>

definition repeat_match ::
    "'a matching \<Rightarrow> 'a matcher \<Rightarrow> nat \<Rightarrow> nat \<Rightarrow> nat \<Rightarrow> 'a matcher option \<Rightarrow> bool option \<Rightarrow> bstring \<Rightarrow> 'a step option" where
  "repeat_match rec new lo hi n item r ch =
     (if r \<noteq> None then Some (False, MRepeat new lo hi n item r, [])
      else do {
        (ok, m, calls) \<leftarrow> rec (case item of None \<Rightarrow> new | Some m \<Rightarrow> m) ch;
        Some (case result m of
                Some True \<Rightarrow>
                  (ok, MRepeat new lo hi (n + 1) (Some new)
                     (if 0 < hi \<and> n + 1 = hi then Some True else if 0 < hi \<and> hi < n + 1 then Some False else None), calls)
              | Some False \<Rightarrow> (False, MRepeat new lo hi n (Some m) (Some (lo \<le> n)), calls)
              | None \<Rightarrow> (ok, MRepeat new lo hi n (Some m) None, calls)) })"

definition capture_match ::
    "'a grammar \<Rightarrow> 'a matching \<Rightarrow> 'a matcher \<Rightarrow> bstring \<Rightarrow> bstring list \<Rightarrow> bool option \<Rightarrow> bstring \<Rightarrow> 'a step option" where
  "capture_match g rec m v refused r ch =
     (if result (MCapture m v refused r) \<noteq> None then Some (False, MCapture m v refused r, [])
      else do {
        (ok, m, calls) \<leftarrow> rec m ch;
        let (c, more) = decide g (result m) (MCapture m (if ok then v @ ch else v) refused r);
        Some (ok, c, calls @ more) })"

text \<open>\<open>Match::match\<close>, for the classes that hold a part and do not override it.\<close>

definition match_match :: "'a grammar \<Rightarrow> 'a matching \<Rightarrow> ('a matcher \<Rightarrow> 'a matcher) \<Rightarrow> 'a matcher \<Rightarrow> bstring \<Rightarrow> 'a step option" where
  "match_match g rec wrap m ch =
     (if result (wrap m) \<noteq> None then Some (False, wrap m, [])
      else do {
        (ok, m, calls) \<leftarrow> rec m ch;
        let (c, more) = decide g (result (wrap m)) (wrap m);
        Some (ok, c, calls @ more) })"

text \<open>In a group the calls stay inside.\<close>

definition group_match ::
    "'a grammar \<Rightarrow> 'a matching \<Rightarrow> 'a matcher \<Rightarrow> 'a call list \<Rightarrow> bool option \<Rightarrow> bstring \<Rightarrow> 'a step option" where
  "group_match g rec m calls r ch =
     (if result (MGroup m calls r) \<noteq> None then Some (False, MGroup m calls r, [])
      else do {
        (ok, m, more) \<leftarrow> rec m ch;
        let (c, _) = decide g (result (MGroup m calls r)) (MGroup m (calls @ more) r);
        Some (ok, c, []) })"

definition load_match :: "'a grammar \<Rightarrow> 'a matching \<Rightarrow> 'a \<Rightarrow> 'a matcher option \<Rightarrow> bool option \<Rightarrow> bstring \<Rightarrow> 'a step option" where
  "load_match g rec name item r ch =
     do { (ok, m, calls) \<leftarrow> rec (case item of None \<Rightarrow> on_demand g name | Some m \<Rightarrow> m) ch;
          Some (ok, MLoad name (Some m) r, calls) }"

definition match_with :: "'a grammar \<Rightarrow> 'a matching \<Rightarrow> 'a matching" where
  "match_with g rec m ch =
     (case m of
        MChar c r \<Rightarrow> Some (character_match c r ch)
      | MRange lo hi r \<Rightarrow> Some (range_match lo hi r ch)
      | MWord ci w i r \<Rightarrow> Some (word_match g ci w i r ch)
      | MAnd ms i r \<Rightarrow> and_match rec ms i r ch
      | MOr ms item r \<Rightarrow> or_match rec ms item r ch
      | MNot m r \<Rightarrow> not_match rec m r ch
      | MOptional m r \<Rightarrow> optional_match rec m r ch
      | MRepeat new lo hi n item r \<Rightarrow> repeat_match rec new lo hi n item r ch
      | MCapture m v refused r \<Rightarrow> capture_match g rec m v refused r ch
      | MMatch m r \<Rightarrow> match_match g rec (\<lambda>m. MMatch m r) m ch
      | MInvoke m name r \<Rightarrow> match_match g rec (\<lambda>m. MInvoke m name r) m ch
      | MLoad name item r \<Rightarrow> load_match g rec name item r ch
      | MGroup m calls r \<Rightarrow> group_match g rec m calls r ch)"

text \<open>
  The virtual \<open>match\<close>: the number bounds the depth of the calls, which include the rounds of the loop of \<open>And\<close>. \<open>None\<close> means
  that the depth did not suffice.
\<close>

primrec match_char :: "'a grammar \<Rightarrow> nat \<Rightarrow> 'a matching" where
  "match_char g 0 = (\<lambda>m ch. None)"
| "match_char g (Suc n) = match_with g (match_char g n)"

section \<open>The end of the input\<close>

text \<open>\<open>Match::eof\<close> of a match with a part: the part's state and calls after its own \<open>eof\<close> are given.\<close>

definition match_eof_with :: "'a grammar \<Rightarrow> 'a matcher \<Rightarrow> bool option \<Rightarrow> 'a matcher \<Rightarrow> 'a matcher \<times> 'a call list" where
  "match_eof_with g part r m =
     (if r \<noteq> None then (m, [])
      else if result part = Some True then succeed g m else (set_result False m, []))"

lemma size_drop: "size_list f (drop i xs) \<le> size_list f xs"
proof (induction xs arbitrary: i)
  case (Cons x xs)
  then show ?case by (cases i) (auto intro: le_SucI trans_le_add2)
qed simp

text \<open>The own methods \<open>eof\<close> of \<open>Word\<close>, \<open>Not\<close>, \<open>Optional\<close> and \<open>Repeat\<close>, whose parts have had their own.\<close>

definition word_eof :: "bool \<Rightarrow> bstring \<Rightarrow> nat \<Rightarrow> bool option \<Rightarrow> 'a matcher" where
  [simp]: "word_eof ci w i r = MWord ci w i (once r (i = length w))"

definition not_eof :: "'a matcher \<Rightarrow> bool option \<Rightarrow> 'a matcher" where
  [simp]: "not_eof m r = MNot m (once r (result m \<noteq> Some True))"

definition optional_eof :: "'a matcher \<Rightarrow> bool option \<Rightarrow> 'a matcher" where
  [simp]: "optional_eof m r = MOptional m (once r True)"

definition repeat_eof :: "'a matcher \<Rightarrow> nat \<Rightarrow> nat \<Rightarrow> nat \<Rightarrow> 'a matcher option \<Rightarrow> bool \<Rightarrow> bool option \<Rightarrow> 'a matcher" where
  [simp]: "repeat_eof new lo hi n item ended r =
     (let n = (if ended \<and> map_option result item = Some (Some True) then n + 1 else n)
      in MRepeat new lo hi n item (once r (lo \<le> n \<and> (n \<le> hi \<or> hi = 0))))"

text \<open>\<open>eof\<close> of the classes; in \<open>And\<close> of the parts from the current one until one fails, in \<open>Or\<close> until one succeeds.\<close>

function match_eof :: "'a grammar \<Rightarrow> 'a matcher \<Rightarrow> 'a matcher \<times> 'a call list"
  and and_eof :: "'a grammar \<Rightarrow> 'a matcher list \<Rightarrow> bool \<times> 'a matcher list \<times> 'a call list"
  and or_eof :: "'a grammar \<Rightarrow> 'a matcher list \<Rightarrow> nat option \<times> 'a matcher list \<times> 'a call list"
where
  "match_eof g (MChar c r) = (MChar c (once r False), [])"
| "match_eof g (MRange lo hi r) = (MRange lo hi (once r False), [])"
| "match_eof g (MWord ci w i r) = (word_eof ci w i r, [])"
| "match_eof g (MAnd ms i r) =
     (if r \<noteq> None then (MAnd ms i r, [])
      else let (ok, rest, calls) = and_eof g (drop i ms) in (MAnd (take i ms @ rest) i (Some ok), calls))"
| "match_eof g (MOr ms item r) =
     (if result (MOr ms item r) \<noteq> None then (MOr ms item r, [])
      else let (item, ms, calls) = or_eof g ms in (MOr ms item (Some (item \<noteq> None)), calls))"
| "match_eof g (MNot m r) =
     (if result (MNot m r) \<noteq> None then (MNot m r, [])
      else let (m, calls) = match_eof g m in (not_eof m r, calls))"
| "match_eof g (MOptional m r) = (let (m, calls) = match_eof g m in (optional_eof m r, calls))"
| "match_eof g (MRepeat new lo hi n item r) =
     (case item of
        None \<Rightarrow> (repeat_eof new lo hi n None False r, [])
      | Some m \<Rightarrow>
          if result m = None then let (m, calls) = match_eof g m in (repeat_eof new lo hi n (Some m) True r, calls)
          else (repeat_eof new lo hi n (Some m) False r, []))"
| "match_eof g (MCapture m v refused r) =
     (let (m, calls) = (if result m = None then match_eof g m else (m, []));
          (c, more) = match_eof_with g m r (MCapture m v refused r)
      in (c, calls @ more))"
| "match_eof g (MMatch m r) =
     (let (m, calls) = (if result m = None then match_eof g m else (m, []));
          (c, more) = match_eof_with g m r (MMatch m r)
      in (c, calls @ more))"
| "match_eof g (MInvoke m name r) =
     (let (m, calls) = (if result m = None then match_eof g m else (m, []));
          (c, more) = match_eof_with g m r (MInvoke m name r)
      in (c, calls @ more))"
| "match_eof g (MLoad name item r) =
     (case item of
        None \<Rightarrow> (MLoad name None (once r False), [])
      | Some m \<Rightarrow>
          let (m, calls) = (if result m = None then match_eof g m else (m, []));
              (c, more) = match_eof_with g m r (MLoad name (Some m) r)
          in (c, calls @ more))"
| "match_eof g (MGroup m calls r) =
     (let (m, more) = (if result m = None then match_eof g m else (m, []));
          (c, _) = match_eof_with g m r (MGroup m (calls @ more) r)
      in (c, []))"
| "and_eof g [] = (True, [], [])"
| "and_eof g (m # ms) =
     (let (m, calls) = match_eof g m
      in if result m = Some False then (False, m # ms, calls)
         else let (ok, ms, more) = and_eof g ms in (ok, m # ms, calls @ more))"
| "or_eof g [] = (None, [], [])"
| "or_eof g (m # ms) =
     (let (m, calls) = match_eof g m
      in if result m = Some True then (Some 0, m # ms, calls)
         else let (item, ms, more) = or_eof g ms in (map_option Suc item, m # ms, calls @ more))"
  by pat_completeness auto

termination
proof (relation "measure (case_sum (\<lambda>(g, m). size m) (case_sum (\<lambda>(g, ms). size_list size ms) (\<lambda>(g, ms). size_list size ms)))",
    simp_all)
  fix i and ms :: "'a matcher list"
  show "size_list size (drop i ms) < Suc (size_list size ms)" by (rule le_imp_less_Suc) (rule size_drop)
qed

section \<open>The parser\<close>

text \<open>
  The loop of \<open>Parser::read\<close> over the rest of the input: while characters are taken and the match is undecided. A character
  that is incomplete at the end of the input is left out.
\<close>

function read_loop :: "'a grammar \<Rightarrow> nat \<Rightarrow> 'a matcher \<Rightarrow> bstring \<Rightarrow> nat \<Rightarrow> ('a matcher \<times> nat \<times> 'a call list) option" where
  "read_loop g n m s pos =
     (if length s \<le> pos then Some (m, pos, [])
      else case next_utf8 s pos [] of
             (ch, pos', part) \<Rightarrow>
               if part \<noteq> [] then Some (m, length s, [])
               else do {
                 (ok, m, calls) \<leftarrow> match_char g n m ch;
                 if \<not> ok \<or> result m \<noteq> None then Some (m, pos', calls)
                 else do { (m, pos, more) \<leftarrow> read_loop g n m s pos'; Some (m, pos, calls @ more) } })"
  by pat_completeness auto
termination by (relation "measure (\<lambda>(g, n, m, s, pos). length s - pos)") (auto dest: next_utf8_step)

text \<open>\<open>read\<close> and \<open>eof\<close>: the result of the parser, the match and the calls.\<close>

definition parse :: "'a grammar \<Rightarrow> nat \<Rightarrow> 'a matcher \<Rightarrow> bstring \<Rightarrow> (bool option \<times> 'a matcher \<times> 'a call list) option" where
  "parse g n m s =
     do { (m, pos, calls) \<leftarrow> read_loop g n m s 0;
          let (m, more) = (if result m \<noteq> None then (m, []) else match_eof g m);
          Some (result m, m, calls @ more) }"

end
