(* ===== verification/Parser_Facts.thy ===== *)
theory Parser_Facts
  imports Parser_Match
begin

text \<open>
  The matchers without the bound on the depth of their calls: \<open>step\<close> holds when some depth is enough, and its rules say what
  a matcher does from what its parts do. \<open>takes\<close> is a run over characters that are all taken and decide nothing.
\<close>

section \<open>Enough depth\<close>

definition le_option :: "'b option \<Rightarrow> 'b option \<Rightarrow> bool" where
  "le_option x y \<longleftrightarrow> x = None \<or> x = y"

lemma le_option_refl [intro!]: "le_option x x"
  by (simp add: le_option_def)

lemma le_option_bind [intro!]:
  "le_option x y \<Longrightarrow> (\<And>v. le_option (f v) (h v)) \<Longrightarrow> le_option (x \<bind> f) (y \<bind> h)"
  by (auto simp: le_option_def split: bind_splits)

lemma le_option_if [intro!]: "le_option x x' \<Longrightarrow> le_option y y' \<Longrightarrow> le_option (if b then x else y) (if b then x' else y')"
  by simp

lemma le_option_prod [intro!]: "(\<And>a b. le_option (f a b) (h a b)) \<Longrightarrow> le_option (case_prod f p) (case_prod h p)"
  by (cases p) simp

lemma le_option_case [intro!]:
  "le_option x x' \<Longrightarrow> (\<And>v. le_option (f v) (h v)) \<Longrightarrow> le_option (case_option x f y) (case_option x' h y)"
  by (cases y) simp_all

lemma le_option_bool [intro!]: "le_option x x' \<Longrightarrow> le_option y y' \<Longrightarrow> le_option (case_bool x y b) (case_bool x' y' b)"
  by (cases b) simp_all

lemma or_loop_mono:
  assumes "\<And>m ch. le_option (rec m ch) (rec' m ch)"
  shows "le_option (or_loop rec ms ch) (or_loop rec' ms ch)"
  by (induction ms) (auto intro: assms)

lemma match_with_mono:
  assumes rec: "\<And>m ch. le_option (rec m ch) (rec' m ch)"
  shows "le_option (match_with g rec m ch) (match_with g rec' m ch)"
proof (cases m)
  case (MOr ms item r)
  then show ?thesis using or_loop_mono [OF rec] by (auto simp: match_with_def or_match_def)
qed (auto simp: match_with_def and_match_def not_match_def optional_match_def repeat_match_def capture_match_def
    match_match_def group_match_def load_match_def Let_def intro: rec)

lemma match_char_Suc: "le_option (match_char g n m ch) (match_char g (Suc n) m ch)"
proof (induction n arbitrary: m ch)
  case 0
  then show ?case by (simp add: le_option_def)
next
  case (Suc n)
  then show ?case unfolding match_char.simps(2) [of g "Suc n"] by (subst match_char.simps(2)) (rule match_with_mono)
qed

lemma match_char_le: "n \<le> k \<Longrightarrow> le_option (match_char g n m ch) (match_char g k m ch)"
proof (induction k)
  case (Suc k)
  with match_char_Suc [of g k m ch] show ?case by (auto simp: le_Suc_eq le_option_def simp del: match_char.simps)
qed (auto simp: le_option_def)

lemma match_char_mono: "match_char g n m ch = Some x \<Longrightarrow> n \<le> k \<Longrightarrow> match_char g k m ch = Some x"
  using match_char_le [of n k g m ch] by (simp add: le_option_def)

lemma or_loop_le: "or_loop (match_char g n) ms ch = Some x \<Longrightarrow> n \<le> k \<Longrightarrow> or_loop (match_char g k) ms ch = Some x"
  using or_loop_mono [of "match_char g n" "match_char g k" ms ch] match_char_le [of n k g] by (simp add: le_option_def)

definition step :: "'a grammar \<Rightarrow> 'a matcher \<Rightarrow> bstring \<Rightarrow> bool \<Rightarrow> 'a matcher \<Rightarrow> 'a call list \<Rightarrow> bool" where
  "step g m ch ok m' calls \<longleftrightarrow> (\<exists>n. match_char g n m ch = Some (ok, m', calls))"

definition or_step ::
    "'a grammar \<Rightarrow> 'a matcher list \<Rightarrow> bstring \<Rightarrow> bool \<Rightarrow> 'a matcher list \<Rightarrow> nat option \<Rightarrow> 'a call list \<Rightarrow> bool" where
  "or_step g ms ch ok ms' item calls \<longleftrightarrow> (\<exists>n. or_loop (match_char g n) ms ch = Some (ok, ms', item, calls))"

lemma stepI: "match_with g (match_char g n) m ch = Some (ok, m', calls) \<Longrightarrow> step g m ch ok m' calls"
  unfolding step_def by (rule exI [of _ "Suc n"]) simp

lemma step_unique: "step g m ch ok m' calls \<Longrightarrow> step g m ch ok' m'' rest \<Longrightarrow> ok = ok' \<and> m' = m'' \<and> calls = rest"
  unfolding step_def by (metis match_char_mono nat_le_linear option.inject prod.inject)

text \<open>Two steps have a common depth.\<close>

lemma step_two:
  assumes "step g m ch ok m' calls" and "step g k ch' ok' k' rest"
  obtains n where "match_char g n m ch = Some (ok, m', calls)" "match_char g n k ch' = Some (ok', k', rest)"
  using assms unfolding step_def by (metis match_char_mono nat_le_linear)

section \<open>Rules\<close>

lemma step_char: "step g (MChar c None) ch (c = None \<or> c = Some ch) (MChar c (Some (c = None \<or> c = Some ch))) []"
  by (rule stepI [of _ 0]) (simp add: match_with_def character_match_def Let_def)

lemma step_word:
  "word_match g ci w i None ch = (ok, m, calls) \<Longrightarrow> step g (MWord ci w i None) ch ok m calls"
  by (rule stepI [of _ 0]) (simp add: match_with_def)

lemma step_and:
  assumes "step g (ms ! i) ch ok m calls" and "i < length ms"
  shows "result m = Some False \<Longrightarrow> step g (MAnd ms i None) ch False (MAnd (ms[i := m]) i (Some False)) calls"
    and "result m = None \<Longrightarrow> ok \<Longrightarrow> step g (MAnd ms i None) ch True (MAnd (ms[i := m]) i None) calls"
    and "result m = Some True \<Longrightarrow> i + 1 = length ms \<Longrightarrow>
      step g (MAnd ms i None) ch ok (MAnd (ms[i := m]) (i + 1) (Some True)) calls"
    and "result m = Some True \<Longrightarrow> i + 1 < length ms \<Longrightarrow> ok \<Longrightarrow>
      step g (MAnd ms i None) ch True (MAnd (ms[i := m]) (i + 1) None) calls"
proof -
  obtain n where n: "match_char g n (ms ! i) ch = Some (ok, m, calls)" using assms(1) by (auto simp: step_def)
  note unfold = match_with_def and_match_def n Let_def
  show "result m = Some False \<Longrightarrow> step g (MAnd ms i None) ch False (MAnd (ms[i := m]) i (Some False)) calls"
    using assms(2) by (intro stepI [of _ n]) (simp add: unfold)
  show "result m = None \<Longrightarrow> ok \<Longrightarrow> step g (MAnd ms i None) ch True (MAnd (ms[i := m]) i None) calls"
    using assms(2) by (intro stepI [of _ n]) (simp add: unfold)
  show "result m = Some True \<Longrightarrow> i + 1 = length ms \<Longrightarrow>
      step g (MAnd ms i None) ch ok (MAnd (ms[i := m]) (i + 1) (Some True)) calls"
    using assms(2) by (intro stepI [of _ n]) (simp add: unfold)
  show "result m = Some True \<Longrightarrow> i + 1 < length ms \<Longrightarrow> ok \<Longrightarrow>
      step g (MAnd ms i None) ch True (MAnd (ms[i := m]) (i + 1) None) calls"
    using assms(2) by (intro stepI [of _ n]) (simp add: unfold)
qed

lemma step_and_pass:
  assumes "step g (ms ! i) ch False m calls" and "i < length ms" and "result m = Some True" and "i + 1 < length ms"
    and "step g (MAnd (ms[i := m]) (i + 1) None) ch ok k rest"
  shows "step g (MAnd ms i None) ch ok k (calls @ rest)"
proof -
  obtain n where "match_char g n (ms ! i) ch = Some (False, m, calls)"
    "match_char g n (MAnd (ms[i := m]) (i + 1) None) ch = Some (ok, k, rest)" by (rule step_two [OF assms(1,5)])
  then show ?thesis using assms(2-4) by (intro stepI [of _ n]) (simp add: match_with_def and_match_def)
qed

lemma step_and_again:
  assumes "step g (ms ! i) ch False m calls" and "i < length ms" and "result m = None"
    and "step g (MAnd (ms[i := m]) i None) ch ok k rest"
  shows "step g (MAnd ms i None) ch ok k (calls @ rest)"
proof -
  obtain n where "match_char g n (ms ! i) ch = Some (False, m, calls)"
    "match_char g n (MAnd (ms[i := m]) i None) ch = Some (ok, k, rest)" by (rule step_two [OF assms(1,4)])
  then show ?thesis using assms(2,3) by (intro stepI [of _ n]) (simp add: match_with_def and_match_def)
qed

lemma or_step_Nil: "or_step g [] ch False [] None []"
  by (simp add: or_step_def)

lemma or_step_found:
  assumes "step g m ch ok m' calls" and "result m = None" and "result m' = Some True"
  shows "or_step g (m # ms) ch ok (m' # ms) (Some 0) calls"
  using assms unfolding step_def or_step_def by (elim exE, rule_tac x = n in exI) simp

lemma or_step_next:
  assumes "step g m ch ok m' calls" and "result m = None" and "result m' \<noteq> Some True"
    and "or_step g ms ch ok' ms' item rest"
  shows "or_step g (m # ms) ch (ok \<or> ok') (m' # ms') (map_option Suc item) (calls @ rest)"
proof -
  obtain a b where ab: "match_char g a m ch = Some (ok, m', calls)"
    "or_loop (match_char g b) ms ch = Some (ok', ms', item, rest)"
    using assms(1,4) unfolding step_def or_step_def by blast
  define n where "n = max a b"
  have "match_char g n m ch = Some (ok, m', calls)"
    by (rule match_char_mono [OF ab(1)]) (simp add: n_def)
  moreover have "or_loop (match_char g n) ms ch = Some (ok', ms', item, rest)"
    by (rule or_loop_le [OF ab(2)]) (simp add: n_def)
  ultimately show ?thesis using assms(2,3) unfolding or_step_def by (intro exI [of _ n]) simp
qed

lemma or_step_failed:
  assumes "result m = Some False" and "or_step g ms ch ok ms' item calls"
  shows "or_step g (m # ms) ch ok (m # ms') (map_option Suc item) calls"
  using assms unfolding or_step_def by (elim exE, rule_tac x = n in exI) simp

lemma step_or:
  assumes "or_step g ms ch ok ms' item calls"
  shows "step g (MOr ms None None) ch ok
    (MOr ms' item (if item \<noteq> None then Some True else if \<not> ok then Some False else None)) calls"
  using assms unfolding or_step_def step_def
  by (elim exE, rule_tac x = "Suc n" in exI) (simp add: match_with_def or_match_def)

lemma step_not:
  assumes "step g m ch ok m' calls"
  shows "step g (MNot m None) ch (\<not> (ok \<and> result m' = Some True))
    (MNot m' (if \<not> ok \<or> result m' = Some False then Some True else if result m' = Some True then Some False else None)) calls"
  using assms unfolding step_def
  by (elim exE, rule_tac x = "Suc n" in exI) (auto simp: match_with_def not_match_def)

lemma step_optional:
  assumes "step g m ch ok m' calls"
  shows "step g (MOptional m None) ch ok (MOptional m' (if result m' \<noteq> None then Some True else None)) calls"
  using assms unfolding step_def
  by (elim exE, rule_tac x = "Suc n" in exI) (simp add: match_with_def optional_match_def once_def)

lemma step_repeat:
  assumes "step g (case item of None \<Rightarrow> new | Some m \<Rightarrow> m) ch ok m calls"
  shows "result m = Some True \<Longrightarrow>
      step g (MRepeat new lo 0 k item None) ch ok (MRepeat new lo 0 (k + 1) (Some new) None) calls"
    and "result m = Some False \<Longrightarrow>
      step g (MRepeat new lo 0 k item None) ch False (MRepeat new lo 0 k (Some m) (Some (lo \<le> k))) calls"
    and "result m = None \<Longrightarrow> step g (MRepeat new lo 0 k item None) ch ok (MRepeat new lo 0 k (Some m) None) calls"
proof -
  obtain n where n: "match_char g n (case item of None \<Rightarrow> new | Some m \<Rightarrow> m) ch = Some (ok, m, calls)"
    using assms by (auto simp: step_def)
  note unfold = match_with_def repeat_match_def n
  show "result m = Some True \<Longrightarrow>
      step g (MRepeat new lo 0 k item None) ch ok (MRepeat new lo 0 (k + 1) (Some new) None) calls"
    by (intro stepI [of _ n]) (simp add: unfold)
  show "result m = Some False \<Longrightarrow>
      step g (MRepeat new lo 0 k item None) ch False (MRepeat new lo 0 k (Some m) (Some (lo \<le> k))) calls"
    by (intro stepI [of _ n]) (simp add: unfold)
  show "result m = None \<Longrightarrow> step g (MRepeat new lo 0 k item None) ch ok (MRepeat new lo 0 k (Some m) None) calls"
    by (intro stepI [of _ n]) (simp add: unfold)
qed

lemma step_capture:
  assumes "step g m ch ok m' calls" and "result m = None"
  shows "step g (MCapture m v refused None) ch ok
    (MCapture m' (if ok then v @ ch else v) refused
       (case result m' of None \<Rightarrow> None | Some b \<Rightarrow> Some (b \<and> (if ok then v @ ch else v) \<notin> set refused))) calls"
  using assms unfolding step_def
  by (elim exE, rule_tac x = "Suc n" in exI)
    (auto simp: match_with_def capture_match_def decide_def once_def split: option.splits bool.splits)

lemma step_invoke:
  assumes "step g m ch ok m' calls" and "result m = None"
  shows "step g (MInvoke m name None) ch ok (MInvoke m' name (result m'))
    (calls @ (if result m' = Some True then [(name, m')] else []))"
  using assms unfolding step_def
  by (elim exE, rule_tac x = "Suc n" in exI)
    (auto simp: match_with_def match_match_def decide_def once_def split: option.splits bool.splits)

lemma step_match:
  assumes "step g m ch ok m' calls" and "result m = None"
  shows "step g (MMatch m None) ch ok (MMatch m' (result m')) calls"
  using assms unfolding step_def
  by (elim exE, rule_tac x = "Suc n" in exI)
    (auto simp: match_with_def match_match_def decide_def once_def split: option.splits bool.splits)

lemma step_group:
  assumes "step g m ch ok m' calls" and "result m = None"
  shows "step g (MGroup m before None) ch ok
    (MGroup m' (before @ calls)
       (case result m' of None \<Rightarrow> None | Some b \<Rightarrow> Some (b \<and> accepts g (before @ calls)))) []"
  using assms unfolding step_def
  by (elim exE, rule_tac x = "Suc n" in exI)
    (auto simp: match_with_def group_match_def decide_def once_def split: option.splits bool.splits)

lemma step_load:
  assumes "step g (case item of None \<Rightarrow> on_demand g name | Some m \<Rightarrow> m) ch ok m calls"
  shows "step g (MLoad name item None) ch ok (MLoad name (Some m) None) calls"
  using assms unfolding step_def
  by (elim exE, rule_tac x = "Suc n" in exI) (simp add: match_with_def load_match_def)

end
