(* ===== verification/Query_Paths.thy ===== *)
theory Query_Paths
  imports Path_Iteration
begin

text \<open>
  The paths a query is made of (code/query/AndPath.hpp, OrPath.hpp, NotPath.hpp and WordPath.hpp):
  subclasses of \<open>PathBase\<close> that combine other paths without building the result. The classes form the
  datatype \<open>pathbase\<close>, the virtual methods are functions on it, and the database is threaded through them,
  since the paths at the leaves could write to it. The theory proves the contract \<open>path_cursor\<close>
  for all of them: intersection, union and difference of the tries.
\<close>

section \<open>The classes\<close>

text \<open>
  \<open>OrPath\<close> keeps how deep each of its paths has gone; \<open>NotPath\<close> has its bounds, the bits so far and how
  deep the bounds are below its path; \<open>WordPath\<close> has no path when the word is unknown.
\<close>

datatype pathbase =
    DbPath path
  | AndPath pathbase pathbase
  | OrPath pathbase pathbase nat nat
  | NotPath pathbase path bit_stack nat
  | WordPath path bstring "path option"

text \<open>
  The methods of the classes, given what the same methods of their parts answer. \<open>canGoLeft\<close> and \<open>canGoRight\<close>,
  and \<open>goLeft\<close> and \<open>goRight\<close>, have the same body up to the side, except in \<open>NotPath\<close>.
\<close>

definition and_can_go :: "bool \<Rightarrow> bool \<Rightarrow> bool" where
  "and_can_go can_a can_b \<longleftrightarrow> can_a \<and> can_b"

definition and_go ::
    "(db_file \<Rightarrow> (pathbase \<times> db_file) option) \<Rightarrow> (db_file \<Rightarrow> (pathbase \<times> db_file) option) \<Rightarrow>
     db_file \<Rightarrow> (pathbase \<times> db_file) option" where
  "and_go go_a go_b f = do { (a, f) \<leftarrow> go_a f; (b, f) \<leftarrow> go_b f; Some (AndPath a b, f) }"

definition and_go_up :: "pathbase option \<Rightarrow> pathbase option \<Rightarrow> pathbase option" where
  "and_go_up up_a up_b = do { a \<leftarrow> up_a; b \<leftarrow> up_b; Some (AndPath a b) }"

definition or_can_go :: "nat \<Rightarrow> nat \<Rightarrow> bool \<Rightarrow> bool \<Rightarrow> bool" where
  "or_can_go m n can_a can_b \<longleftrightarrow> n \<le> m \<and> can_a \<or> m \<le> n \<and> can_b"

definition or_go ::
    "(db_file \<Rightarrow> bool) \<Rightarrow> (db_file \<Rightarrow> (pathbase \<times> db_file) option) \<Rightarrow>
     (db_file \<Rightarrow> bool) \<Rightarrow> (db_file \<Rightarrow> (pathbase \<times> db_file) option) \<Rightarrow>
     pathbase \<Rightarrow> pathbase \<Rightarrow> nat \<Rightarrow> nat \<Rightarrow> db_file \<Rightarrow> (pathbase \<times> db_file) option" where
  "or_go can_a go_a can_b go_b a b m n f =
     do { (a, f, m') \<leftarrow> (if n \<le> m \<and> can_a f
                         then map_option (\<lambda>(a, f). (a, f, Suc m)) (go_a f) else Some (a, f, m));
          (b, f, n') \<leftarrow> (if m \<le> n \<and> can_b f
                         then map_option (\<lambda>(b, f). (b, f, Suc n)) (go_b f) else Some (b, f, n));
          Some (OrPath a b m' n', f) }"

definition or_go_up :: "pathbase option \<Rightarrow> pathbase option \<Rightarrow> pathbase \<Rightarrow> pathbase \<Rightarrow> nat \<Rightarrow> nat \<Rightarrow> pathbase option" where
  "or_go_up up_a up_b a b m n =
     (if m = n then do { a \<leftarrow> up_a; b \<leftarrow> up_b; Some (OrPath a b (m - 1) (n - 1)) }
      else if n < m then do { a \<leftarrow> up_a; Some (OrPath a b (m - 1) n) }
      else do { b \<leftarrow> up_b; Some (OrPath a b m (n - 1)) })"

definition not_can_left :: "bit_stack \<Rightarrow> nat \<Rightarrow> bool \<Rightarrow> bool \<Rightarrow> bool" where
  "not_can_left st d can_path can_bounds \<longleftrightarrow>
     (if d = 0 \<and> st_count st = 1 \<and> can_path then False else can_bounds)"

definition not_go ::
    "bool \<Rightarrow> bool \<Rightarrow> (pathbase \<times> db_file) option \<Rightarrow> (cursor \<Rightarrow> cursor) \<Rightarrow>
     pathbase \<Rightarrow> path \<Rightarrow> bit_stack \<Rightarrow> nat \<Rightarrow> db_file \<Rightarrow> (pathbase \<times> db_file) option" where
  "not_go side can_path gone go_bounds a b st d f =
     do { (a, f, d) \<leftarrow> (if d = 0 \<and> can_path
                        then map_option (\<lambda>(a, f). (a, f, d)) gone else Some (a, f, Suc d));
          let (b, f) = go_bounds (b, f);
          Some (NotPath a b (stack_push_back side st) d, f) }"

definition not_go_up :: "pathbase option \<Rightarrow> path \<Rightarrow> pathbase \<Rightarrow> bit_stack \<Rightarrow> nat \<Rightarrow> pathbase option" where
  "not_go_up up b a st d =
     do { (a, d) \<leftarrow> (if d = 0 then map_option (\<lambda>a. (a, d)) up else Some (a, d - 1));
          st \<leftarrow> stack_pop_back st;
          Some (NotPath a b st d) }"

definition word_can_go :: "(path \<Rightarrow> bool) \<Rightarrow> path option \<Rightarrow> bool" where
  "word_can_go can a = (case a of None \<Rightarrow> False | Some p \<Rightarrow> can p)"

definition word_go ::
    "(cursor \<Rightarrow> cursor) \<Rightarrow> path \<Rightarrow> bstring \<Rightarrow> path option \<Rightarrow> db_file \<Rightarrow> (pathbase \<times> db_file) option" where
  "word_go go w word a f = do { p \<leftarrow> a; let (p, f) = go (p, f); Some (WordPath w word (Some p), f) }"

definition word_go_up :: "(path \<Rightarrow> path) \<Rightarrow> path \<Rightarrow> bstring \<Rightarrow> path option \<Rightarrow> pathbase option" where
  "word_go_up up w word a = do { p \<leftarrow> a; Some (WordPath w word (Some (up p))) }"

lemmas class_methods = and_can_go_def and_go_def and_go_up_def or_can_go_def or_go_def or_go_up_def
  not_can_left_def not_go_def not_go_up_def word_can_go_def word_go_def word_go_up_def

declare class_methods [simp]

text \<open>The virtual methods.\<close>

fun pb_can_left :: "db_file \<Rightarrow> pathbase \<Rightarrow> bool" where
  "pb_can_left f (DbPath p) \<longleftrightarrow> can_go_left f p"
| "pb_can_left f (AndPath a b) \<longleftrightarrow> and_can_go (pb_can_left f a) (pb_can_left f b)"
| "pb_can_left f (OrPath a b m n) \<longleftrightarrow> or_can_go m n (pb_can_left f a) (pb_can_left f b)"
| "pb_can_left f (NotPath a b st d) \<longleftrightarrow> not_can_left st d (pb_can_left f a) (can_go_left f b)"
| "pb_can_left f (WordPath w word a) \<longleftrightarrow> word_can_go (can_go_left f) a"

fun pb_can_right :: "db_file \<Rightarrow> pathbase \<Rightarrow> bool" where
  "pb_can_right f (DbPath p) \<longleftrightarrow> can_go_right f p"
| "pb_can_right f (AndPath a b) \<longleftrightarrow> and_can_go (pb_can_right f a) (pb_can_right f b)"
| "pb_can_right f (OrPath a b m n) \<longleftrightarrow> or_can_go m n (pb_can_right f a) (pb_can_right f b)"
| "pb_can_right f (NotPath a b st d) \<longleftrightarrow> can_go_right f b"
| "pb_can_right f (WordPath w word a) \<longleftrightarrow> word_can_go (can_go_right f) a"

fun pb_go_left :: "pathbase \<Rightarrow> db_file \<Rightarrow> (pathbase \<times> db_file) option" where
  "pb_go_left (DbPath p) f = (let (p, f) = go_left (p, f) in Some (DbPath p, f))"
| "pb_go_left (AndPath a b) f = and_go (pb_go_left a) (pb_go_left b) f"
| "pb_go_left (OrPath a b m n) f =
     or_go (\<lambda>f. pb_can_left f a) (pb_go_left a) (\<lambda>f. pb_can_left f b) (pb_go_left b) a b m n f"
| "pb_go_left (NotPath a b st d) f = not_go False (pb_can_left f a) (pb_go_left a f) go_left a b st d f"
| "pb_go_left (WordPath w word a) f = word_go go_left w word a f"

fun pb_go_right :: "pathbase \<Rightarrow> db_file \<Rightarrow> (pathbase \<times> db_file) option" where
  "pb_go_right (DbPath p) f = (let (p, f) = go_right (p, f) in Some (DbPath p, f))"
| "pb_go_right (AndPath a b) f = and_go (pb_go_right a) (pb_go_right b) f"
| "pb_go_right (OrPath a b m n) f =
     or_go (\<lambda>f. pb_can_right f a) (pb_go_right a) (\<lambda>f. pb_can_right f b) (pb_go_right b) a b m n f"
| "pb_go_right (NotPath a b st d) f = not_go True (pb_can_right f a) (pb_go_right a f) go_right a b st d f"
| "pb_go_right (WordPath w word a) f = word_go go_right w word a f"

fun pb_go_up :: "db_file \<Rightarrow> pathbase \<Rightarrow> pathbase option" where
  "pb_go_up f (DbPath p) = Some (DbPath (go_up f p))"
| "pb_go_up f (AndPath a b) = and_go_up (pb_go_up f a) (pb_go_up f b)"
| "pb_go_up f (OrPath a b m n) = or_go_up (pb_go_up f a) (pb_go_up f b) a b m n"
| "pb_go_up f (NotPath a b st d) = not_go_up (pb_go_up f a) (go_up f b) a st d"
| "pb_go_up f (WordPath w word a) = word_go_up (go_up f) w word a"

fun pb_copy :: "pathbase \<Rightarrow> pathbase" where
  "pb_copy (DbPath p) = DbPath (path_copy p)"
| "pb_copy (AndPath a b) = AndPath (pb_copy a) (pb_copy b)"
| "pb_copy (OrPath a b m n) = OrPath (pb_copy a) (pb_copy b) m n"
| "pb_copy (NotPath a b st d) = NotPath (pb_copy a) (path_copy b) (stack_copy st) d"
| "pb_copy (WordPath w word a) = WordPath (path_copy w) word (map_option path_copy a)"

text \<open>The constructors: they copy their arguments.\<close>

definition and_path :: "pathbase \<Rightarrow> pathbase \<Rightarrow> pathbase" where
  "and_path a b = AndPath (pb_copy a) (pb_copy b)"

definition or_path :: "pathbase \<Rightarrow> pathbase \<Rightarrow> pathbase" where
  "or_path a b = OrPath (pb_copy a) (pb_copy b) 0 0"

definition not_path :: "pathbase \<Rightarrow> path \<Rightarrow> pathbase" where
  "not_path a bounds = NotPath (pb_copy a) (path_copy bounds) stack_new 0"

text \<open>The words of the database are stored in lower case; \<open>lower\<close> is \<open>toLower\<close>, which depends on the locale.\<close>

definition word_path :: "(bstring \<Rightarrow> bstring) \<Rightarrow> path \<Rightarrow> bstring \<Rightarrow> db_file \<Rightarrow> pathbase \<times> db_file" where
  "word_path lower words word f =
     (let l = lower word
      in if path_contains (\<lambda>wb. put_string wb l) f words
         then (let (p, f) = path_at (\<lambda>wb. put_string wb l) (words, f)
               in (WordPath (path_copy words) word (Some (path_copy p)), f))
         else (WordPath (path_copy words) word None, f))"

definition query_path_ops :: "(pathbase \<times> db_file) path_ops" where
  "query_path_ops =
     \<lparr>can_left = (\<lambda>(p, f). pb_can_left f p), can_right = (\<lambda>(p, f). pb_can_right f p),
      move_left = (\<lambda>(p, f). pb_go_left p f), move_right = (\<lambda>(p, f). pb_go_right p f),
      move_up = (\<lambda>(p, f). map_option (\<lambda>p. (p, f)) (pb_go_up f p)),
      copy_path = (\<lambda>(p, f). (pb_copy p, f))\<rparr>"


section \<open>Both sides at once\<close>

definition pb_can :: "db_file \<Rightarrow> bool \<Rightarrow> pathbase \<Rightarrow> bool" where
  "pb_can f d p = (if d then pb_can_right f p else pb_can_left f p)"

definition pb_go :: "bool \<Rightarrow> pathbase \<Rightarrow> db_file \<Rightarrow> (pathbase \<times> db_file) option" where
  "pb_go d p f = (if d then pb_go_right p f else pb_go_left p f)"

definition db_can :: "db_file \<Rightarrow> bool \<Rightarrow> path \<Rightarrow> bool" where
  "db_can f d p = (if d then can_go_right f p else can_go_left f p)"

lemma pb_can_simps [cursor_simps]:
  "pb_can f d (DbPath p) \<longleftrightarrow> db_can f d p"
  "pb_can f d (AndPath a b) \<longleftrightarrow> pb_can f d a \<and> pb_can f d b"
  "pb_can f d (OrPath a b m n) \<longleftrightarrow> n \<le> m \<and> pb_can f d a \<or> m \<le> n \<and> pb_can f d b"
  "pb_can f d (NotPath a e st k) \<longleftrightarrow>
     \<not> (\<not> d \<and> k = 0 \<and> st_count st = 1 \<and> pb_can f d a) \<and> db_can f d e"
  "pb_can f d (WordPath w word (Some p)) \<longleftrightarrow> db_can f d p"
  "pb_can f d (WordPath w word None) \<longleftrightarrow> False"
  by (auto simp: pb_can_def db_can_def)

lemma pb_go_simps [cursor_simps]:
  "pb_go d (DbPath p) f = (let (p, f) = go_dir d (p, f) in Some (DbPath p, f))"
  "pb_go d (AndPath a b) f = do { (a, f) \<leftarrow> pb_go d a f; (b, f) \<leftarrow> pb_go d b f; Some (AndPath a b, f) }"
  "pb_go d (OrPath a b m n) f =
     do { (a, f, m') \<leftarrow> (if n \<le> m \<and> pb_can f d a
                         then map_option (\<lambda>(a, f). (a, f, Suc m)) (pb_go d a f) else Some (a, f, m));
          (b, f, n') \<leftarrow> (if m \<le> n \<and> pb_can f d b
                         then map_option (\<lambda>(b, f). (b, f, Suc n)) (pb_go d b f) else Some (b, f, n));
          Some (OrPath a b m' n', f) }"
  "pb_go d (NotPath a e st k) f =
     do { (a, f, k) \<leftarrow> (if k = 0 \<and> pb_can f d a
                        then map_option (\<lambda>(a, f). (a, f, k)) (pb_go d a f) else Some (a, f, Suc k));
          let (e, f) = go_dir d (e, f);
          Some (NotPath a e (stack_push_back d st) k, f) }"
  "pb_go d (WordPath w word (Some p)) f =
     (let (p, f) = go_dir d (p, f) in Some (WordPath w word (Some p), f))"
  by (cases d; simp only: pb_go_def pb_can_def go_dir_def if_True if_False simp_thms pb_go_left.simps
      pb_go_right.simps class_methods Option.bind.bind_lunit)+

lemma query_can_move: "can_move query_path_ops d (p, f) = pb_can f d p"
  by (simp add: can_move_def query_path_ops_def pb_can_def)

lemma query_move: "move query_path_ops d (p, f) = pb_go d p f"
  by (simp add: move_def query_path_ops_def pb_go_def)

lemma db_can_den: "db_den (p, f) T q \<Longrightarrow> db_can f d p \<longleftrightarrow> q @ [d] \<in> T"
  using db_den_can [of "(p, f)" T q d] by (cases d) (simp_all add: can_move_def db_path_ops_def db_can_def)

lemma db_go_den:
  assumes "db_den (p, f) T q" and "q @ [d] \<in> T"
  shows "\<exists>p'. go_dir d (p, f) = (p', f) \<and> db_den (p', f) T (q @ [d])"
  using db_den_move [OF assms] db_move [of d "(p, f)"] by (cases "go_dir d (p, f)") auto

lemma db_up_den: "db_den (p, f) T (q @ [d]) \<Longrightarrow> db_den (go_up f p, f) T q"
  using db_den_up [of "(p, f)" T q d] by (auto simp: db_path_ops_def)

lemma db_copy_den: "db_den (p, f) T [] \<Longrightarrow> db_den (path_copy p, f) T []"
  using db_den_copy [of "(p, f)" T] by (simp add: db_path_ops_def)

section \<open>What the paths stand for\<close>

text \<open>
  \<open>falls A q m\<close>: \<open>m\<close> bits of \<open>q\<close> are in \<open>A\<close>, and no more. \<open>without B A\<close>: the trie \<open>B\<close> less everything that runs
  through a complete value of \<open>A\<close>.
\<close>

definition falls :: "bits set \<Rightarrow> bits \<Rightarrow> nat \<Rightarrow> bool" where
  "falls A q m \<longleftrightarrow> m \<le> length q \<and> (m < length q \<longrightarrow> take (Suc m) q \<notin> A)"

definition without :: "bits set \<Rightarrow> bits set \<Rightarrow> bits set" where
  "without B A = {q \<in> B. \<forall>r. prefix r q \<longrightarrow> r \<in> A \<longrightarrow> r \<noteq> [] \<longrightarrow> weight r \<noteq> 0}"

fun pb_den :: "db_file \<Rightarrow> pathbase \<Rightarrow> bits set \<Rightarrow> bits \<Rightarrow> bool" where
  "pb_den f (DbPath p) T q \<longleftrightarrow> db_den (p, f) T q"
| "pb_den f (AndPath a b) T q \<longleftrightarrow> (\<exists>A B. pb_den f a A q \<and> pb_den f b B q \<and> T = A \<inter> B)"
| "pb_den f (OrPath a b m n) T q \<longleftrightarrow> (\<exists>A B. pb_den f a A (take m q) \<and> pb_den f b B (take n q) \<and>
     falls A q m \<and> falls B q n \<and> (m = length q \<or> n = length q) \<and> T = A \<union> B)"
| "pb_den f (NotPath a b st k) T q \<longleftrightarrow> (\<exists>A B. pb_den f a A (take (length q - k) q) \<and> db_den (b, f) B q \<and>
     k \<le> length q \<and> falls A q (length q - k) \<and> st_bits st = q \<and> balanced st \<and> q \<in> T \<and> T = without B A)"
| "pb_den f (WordPath w word a) T q \<longleftrightarrow>
     (case a of None \<Rightarrow> T = {[]} \<and> q = [] | Some p \<Rightarrow> db_den (p, f) T q)"

text \<open>Tries as the contract wants them.\<close>

definition good_trie :: "bits set \<Rightarrow> bool" where
  "good_trie T \<longleftrightarrow> finite T \<and> prefix_closed T \<and> (\<forall>q \<in> T. 0 \<le> weight q)"

lemma good_trie_Int: "good_trie A \<Longrightarrow> good_trie B \<Longrightarrow> good_trie (A \<inter> B)"
  by (auto simp: good_trie_def prefix_closed_def)

lemma good_trie_Un: "good_trie A \<Longrightarrow> good_trie B \<Longrightarrow> good_trie (A \<union> B)"
  by (auto simp: good_trie_def prefix_closed_def)

lemma good_trie_without: "good_trie B \<Longrightarrow> good_trie (without B A)"
  by (auto simp: good_trie_def prefix_closed_def without_def)

lemma falls_full: "falls A q (length q)"
  by (simp add: falls_def)

lemma falls_outside:
  assumes "prefix_closed A" and "falls A q m" and "m < length q"
  shows "q @ r \<notin> A"
proof
  assume "q @ r \<in> A"
  moreover have "q @ r = take (Suc m) q @ (drop (Suc m) q @ r)" by simp
  ultimately have "take (Suc m) q \<in> A" using prefix_closedD [OF assms(1)] by metis
  with assms(2,3) show False by (simp add: falls_def)
qed

lemma falls_snoc: "falls A q m \<Longrightarrow> (m = length q \<Longrightarrow> q @ [d] \<notin> A) \<Longrightarrow> falls A (q @ [d]) m"
  by (auto simp: falls_def less_Suc_eq)

lemma falls_butlast: "falls A (q @ [d]) m \<Longrightarrow> m \<le> length q \<Longrightarrow> falls A q m"
  by (auto simp: falls_def)

lemma pb_den_trie: "pb_den f p T q \<Longrightarrow> q \<in> T \<and> good_trie T"
proof (induction p arbitrary: T q)
  case (DbPath p)
  then show ?case using db_den_trie [of "(p, f)" T q] by (auto simp: good_trie_def)
next
  case (AndPath a b)
  then show ?case using good_trie_Int by auto
next
  case (OrPath a b m n)
  from OrPath.prems obtain A B where ab: "pb_den f a A (take m q)" "pb_den f b B (take n q)"
    "m = length q \<or> n = length q" "T = A \<union> B" by auto
  from OrPath.IH(1) [OF ab(1)] OrPath.IH(2) [OF ab(2)] ab(3,4) good_trie_Un show ?case by auto
next
  case (NotPath a b st k)
  from NotPath.prems obtain A B where n: "db_den (b, f) B q" "q \<in> T" "T = without B A" by auto
  have "good_trie B" using db_den_trie [OF n(1)] by (simp add: good_trie_def)
  with n show ?case by (simp add: good_trie_without)
next
  case (WordPath w word a)
  then show ?case using db_den_trie [of "(the a, f)" T q]
    by (cases a) (auto simp: good_trie_def prefix_closed_def)
qed


lemma pb_den_closed: "pb_den f p T q \<Longrightarrow> prefix_closed T"
  using pb_den_trie by (simp add: good_trie_def)

text \<open>A step of \<open>NotPath\<close> stays outside what is excluded, unless it completes an excluded value.\<close>

lemma without_snoc:
  assumes "q \<in> without B A"
  shows "q @ [d] \<in> without B A \<longleftrightarrow> q @ [d] \<in> B \<and> (q @ [d] \<in> A \<longrightarrow> weight (q @ [d]) \<noteq> 0)"
  using assms by (auto simp: without_def)

lemma pb_den_can: "pb_den f p T q \<Longrightarrow> pb_can f d p \<longleftrightarrow> q @ [d] \<in> T"
proof (induction p arbitrary: T q)
  case (DbPath p)
  then show ?case by (simp add: cursor_simps db_can_den)
next
  case (AndPath a b)
  then show ?case by (auto simp: cursor_simps)
next
  case (OrPath a b m n)
  from OrPath.prems obtain A B where ab: "pb_den f a A (take m q)" "pb_den f b B (take n q)"
    "falls A q m" "falls B q n" "m = length q \<or> n = length q" "T = A \<union> B" by auto
  have a: "n \<le> m \<and> pb_can f d a \<longleftrightarrow> q @ [d] \<in> A"
    using OrPath.IH(1) [OF ab(1)] falls_outside [OF pb_den_closed [OF ab(1)] ab(3)] ab(3-5)
    by (cases "m = length q") (auto simp: falls_def)
  have b: "m \<le> n \<and> pb_can f d b \<longleftrightarrow> q @ [d] \<in> B"
    using OrPath.IH(2) [OF ab(2)] falls_outside [OF pb_den_closed [OF ab(2)] ab(4)] ab(3-5)
    by (cases "n = length q") (auto simp: falls_def)
  from a b ab(6) show ?case by (simp add: cursor_simps)
next
  case (NotPath a b st k)
  from NotPath.prems obtain A B where n: "pb_den f a A (take (length q - k) q)" "db_den (b, f) B q"
    "k \<le> length q" "falls A q (length q - k)" "balanced st" "st_bits st = q" "q \<in> T" "T = without B A" by auto
  have bounds: "db_can f d b \<longleftrightarrow> q @ [d] \<in> B" by (rule db_can_den [OF n(2)])
  have count: "st_count st = weight q" using n(5,6) by (simp add: balanced_def)
  have "0 \<le> weight q" using db_den_trie(4,1) [OF n(2)] by blast
  then have excl: "q @ [d] \<in> A \<and> weight (q @ [d]) = 0 \<longleftrightarrow> \<not> d \<and> k = 0 \<and> st_count st = 1 \<and> pb_can f d a"
    using NotPath.IH [OF n(1)] falls_outside [OF pb_den_closed [OF n(1)] n(4)] count n(3)
    by (cases "k = 0"; cases d) auto
  from without_snoc [of q B A d] n(7,8) bounds excl show ?case by (auto simp: cursor_simps)
next
  case (WordPath w word a)
  then show ?case by (cases a) (simp_all add: cursor_simps db_can_den)
qed

lemma pb_den_move:
  "pb_den f p T q \<Longrightarrow> q @ [d] \<in> T \<Longrightarrow> \<exists>p'. pb_go d p f = Some (p', f) \<and> pb_den f p' T (q @ [d])"
proof (induction p arbitrary: T q)
  case (DbPath p)
  then have "db_den (p, f) T q" by simp
  from db_go_den [OF this DbPath.prems(2)] show ?case by (auto simp: cursor_simps)
next
  case (AndPath a b)
  from AndPath.prems obtain A B where ab: "pb_den f a A q" "pb_den f b B q" "T = A \<inter> B" "q @ [d] \<in> A" "q @ [d] \<in> B"
    by auto
  from AndPath.IH(1) [OF ab(1,4)] AndPath.IH(2) [OF ab(2,5)] obtain a' b'
    where go: "pb_go d a f = Some (a', f)" "pb_den f a' A (q @ [d])"
      "pb_go d b f = Some (b', f)" "pb_den f b' B (q @ [d])" by blast
  then have "pb_go d (AndPath a b) f = Some (AndPath a' b', f)" by (simp add: cursor_simps)
  moreover have "pb_den f (AndPath a' b') T (q @ [d])" using go(2,4) ab(3) by (simp, blast)
  ultimately show ?case by blast
next
  case (OrPath a b m n)
  from OrPath.prems obtain A B where ab: "pb_den f a A (take m q)" "pb_den f b B (take n q)"
    "falls A q m" "falls B q n" "m = length q \<or> n = length q" "T = A \<union> B" by auto
  let ?q = "q @ [d]"
  text \<open>Each of the two paths follows if it can, and falls behind otherwise.\<close>
  have a: "\<exists>a' m'. (if n \<le> m \<and> pb_can f d a then map_option (\<lambda>(a, f). (a, f, Suc m)) (pb_go d a f)
      else Some (a, f, m)) = Some (a', f, m') \<and> pb_den f a' A (take m' ?q) \<and> falls A ?q m' \<and>
      (?q \<in> A \<longrightarrow> m' = length ?q)"
  proof (cases "?q \<in> A")
    case True
    then have m: "m = length q"
      using falls_outside [OF pb_den_closed [OF ab(1)] ab(3)] ab(3) by (fastforce simp: falls_def)
    from OrPath.IH(1) [OF ab(1)] True m obtain a' where "pb_go d a f = Some (a', f)" "pb_den f a' A ?q" by auto
    moreover have "n \<le> m" "pb_can f d a" using m ab(4) pb_den_can [OF ab(1), of d] True by (auto simp: falls_def)
    ultimately show ?thesis using m by (auto simp: falls_full [of A ?q, simplified])
  next
    case False
    have "m = length q \<Longrightarrow> \<not> pb_can f d a" using pb_den_can [OF ab(1), of d] False by simp
    moreover have "m < length q \<Longrightarrow> \<not> n \<le> m" using ab(5) by auto
    moreover have "m = length q \<or> m < length q" using ab(3) by (auto simp: falls_def)
    ultimately have "\<not> (n \<le> m \<and> pb_can f d a)" by blast
    with ab(1,3) False falls_snoc [OF ab(3)] show ?thesis by (auto simp: falls_def)
  qed
  have b: "\<exists>b' n'. (if m \<le> n \<and> pb_can f d b then map_option (\<lambda>(b, f). (b, f, Suc n)) (pb_go d b f)
      else Some (b, f, n)) = Some (b', f, n') \<and> pb_den f b' B (take n' ?q) \<and> falls B ?q n' \<and>
      (?q \<in> B \<longrightarrow> n' = length ?q)"
  proof (cases "?q \<in> B")
    case True
    then have n: "n = length q"
      using falls_outside [OF pb_den_closed [OF ab(2)] ab(4)] ab(4) by (fastforce simp: falls_def)
    from OrPath.IH(2) [OF ab(2)] True n obtain b' where "pb_go d b f = Some (b', f)" "pb_den f b' B ?q" by auto
    moreover have "m \<le> n" "pb_can f d b" using n ab(3) pb_den_can [OF ab(2), of d] True by (auto simp: falls_def)
    ultimately show ?thesis using n by (auto simp: falls_full [of B ?q, simplified])
  next
    case False
    have "n = length q \<Longrightarrow> \<not> pb_can f d b" using pb_den_can [OF ab(2), of d] False by simp
    moreover have "n < length q \<Longrightarrow> \<not> m \<le> n" using ab(5) by auto
    moreover have "n = length q \<or> n < length q" using ab(4) by (auto simp: falls_def)
    ultimately have "\<not> (m \<le> n \<and> pb_can f d b)" by blast
    with ab(2,4) False falls_snoc [OF ab(4)] show ?thesis by (auto simp: falls_def)
  qed
  from a b OrPath.prems(2) ab(6) show ?case
    by (elim exE conjE) (simp add: cursor_simps, blast)
next
  case (NotPath a b st k)
  from NotPath.prems obtain A B where n: "pb_den f a A (take (length q - k) q)" "db_den (b, f) B q"
    "k \<le> length q" "falls A q (length q - k)" "balanced st" "st_bits st = q" "q \<in> T" "T = without B A" by auto
  let ?q = "q @ [d]"
  have qB: "?q \<in> B" using NotPath.prems(2) n(8) by (simp add: without_def)
  from db_go_den [OF n(2) qB] obtain b' where b': "go_dir d (b, f) = (b', f)" "db_den (b', f) B ?q" by blast
  have st': "balanced (stack_push_back d st)"
    using n(5,6) db_den_trie(4) [OF n(2) qB] by (intro balanced_push) simp_all
  have a: "\<exists>a' k'. (if k = 0 \<and> pb_can f d a then map_option (\<lambda>(a, f). (a, f, k)) (pb_go d a f)
      else Some (a, f, Suc k)) = Some (a', f, k') \<and> pb_den f a' A (take (length ?q - k') ?q) \<and>
      k' \<le> length ?q \<and> falls A ?q (length ?q - k')"
  proof (cases "k = 0 \<and> pb_can f d a")
    case True
    with pb_den_can [OF n(1), of d] have "?q \<in> A" by simp
    with NotPath.IH [of A q] n(1) True obtain a' where "pb_go d a f = Some (a', f)" "pb_den f a' A ?q" by auto
    with True show ?thesis by (auto simp: falls_full [of A ?q, simplified])
  next
    case False
    have "?q \<notin> A" if "length q - k = length q"
      using that False n(3) pb_den_can [OF n(1), of d] by (cases q) auto
    with False n(1,3) falls_snoc [OF n(4)] show ?thesis by auto
  qed
  with b' st' n(6,8) NotPath.prems(2) show ?case
    by (elim exE conjE) (simp add: cursor_simps, blast)
next
  case (WordPath w word a)
  then obtain p where p: "a = Some p" "db_den (p, f) T q" by (cases a) auto
  from db_go_den [OF p(2) WordPath.prems(2)] p(1) show ?case by (auto simp: cursor_simps)
qed

lemma pb_den_up: "pb_den f p T (q @ [d]) \<Longrightarrow> \<exists>p'. pb_go_up f p = Some p' \<and> pb_den f p' T q"
proof (induction p arbitrary: T q d)
  case (DbPath p)
  then show ?case by (auto dest: db_up_den)
next
  case (AndPath a b)
  from AndPath.prems obtain A B where ab: "pb_den f a A (q @ [d])" "pb_den f b B (q @ [d])" "T = A \<inter> B" by auto
  from AndPath.IH(1) [OF ab(1)] AndPath.IH(2) [OF ab(2)] obtain a' b'
    where up: "pb_go_up f a = Some a'" "pb_den f a' A q" "pb_go_up f b = Some b'" "pb_den f b' B q" by blast
  then have "pb_go_up f (AndPath a b) = Some (AndPath a' b')" by simp
  moreover have "pb_den f (AndPath a' b') T q" using up(2,4) ab(3) by (simp, blast)
  ultimately show ?case by blast
next
  case (OrPath a b m n)
  let ?q = "q @ [d]"
  from OrPath.prems obtain A B where ab: "pb_den f a A (take m ?q)" "pb_den f b B (take n ?q)"
    "falls A ?q m" "falls B ?q n" "m = length ?q \<or> n = length ?q" "T = A \<union> B" by auto
  have a: "\<exists>a'. pb_go_up f a = Some a' \<and> pb_den f a' A q" if "m = Suc (length q)"
    using OrPath.IH(1) [of A q d] ab(1) that by simp
  have b: "\<exists>b'. pb_go_up f b = Some b' \<and> pb_den f b' B q" if "n = Suc (length q)"
    using OrPath.IH(2) [of B q d] ab(2) that by simp
  have bounds: "m \<le> Suc (length q)" "n \<le> Suc (length q)" using ab(3,4) by (auto simp: falls_def)
  consider "m = Suc (length q)" "n = Suc (length q)" | "m = Suc (length q)" "n \<le> length q"
    | "m \<le> length q" "n = Suc (length q)" using ab(5) bounds by fastforce
  then show ?case
  proof cases
    case 1
    from a [OF 1(1)] b [OF 1(2)] obtain a' b' where up: "pb_go_up f a = Some a'" "pb_den f a' A q"
      "pb_go_up f b = Some b'" "pb_den f b' B q" by blast
    have "pb_den f (OrPath a' b' (length q) (length q)) T q"
      unfolding pb_den.simps using up(2,4) ab(6)
      by - (rule exI [of _ A], rule exI [of _ B], simp add: falls_full)
    with 1 up show ?thesis by simp
  next
    case 2
    from a [OF 2(1)] obtain a' where up: "pb_go_up f a = Some a'" "pb_den f a' A q" by blast
    have "pb_den f (OrPath a' b (length q) n) T q"
      unfolding pb_den.simps using up(2) 2(2) ab(2,6) falls_butlast [OF ab(4) 2(2)]
      by - (rule exI [of _ A], rule exI [of _ B], simp add: falls_full)
    with 2 up show ?thesis by simp
  next
    case 3
    from b [OF 3(2)] obtain b' where up: "pb_go_up f b = Some b'" "pb_den f b' B q" by blast
    have "pb_den f (OrPath a b' m (length q)) T q"
      unfolding pb_den.simps using up(2) 3(1) ab(1,6) falls_butlast [OF ab(3) 3(1)]
      by - (rule exI [of _ A], rule exI [of _ B], simp add: falls_full)
    with 3 up show ?thesis by simp
  qed
next
  case (NotPath a b st k)
  let ?q = "q @ [d]"
  from NotPath.prems obtain A B where n: "pb_den f a A (take (length ?q - k) ?q)" "db_den (b, f) B ?q"
    "k \<le> length ?q" "falls A ?q (length ?q - k)" "balanced st" "st_bits st = ?q" "?q \<in> T" "T = without B A" by auto
  from balanced_pop [OF n(5,6)] obtain st' where st': "stack_pop_back st = Some st'"
    "balanced st'" "st_bits st' = q" by auto
  have qT: "q \<in> T" using n(7) prefix_closedD [OF pb_den_closed [OF NotPath.prems]] by blast
  note up_b = db_up_den [OF n(2)]
  show ?case
  proof (cases "k = 0")
    case True
    with NotPath.IH [of A q d] n(1) obtain a' where up: "pb_go_up f a = Some a'" "pb_den f a' A q" by auto
    have "pb_den f (NotPath a' (go_up f b) st' 0) T q"
      unfolding pb_den.simps using up(2) up_b st'(2,3) qT n(8)
      by - (rule exI [of _ A], rule exI [of _ B], simp add: falls_full)
    with True up st' show ?thesis by simp
  next
    case False
    then obtain j where j: "k = Suc j" by (cases k) auto
    have "pb_den f a A (take (length q - j) q)" "j \<le> length q" using n(1,3) j by simp_all
    moreover have "falls A q (length q - j)" using falls_butlast [OF n(4)] j by simp
    ultimately have "pb_den f (NotPath a (go_up f b) st' (k - 1)) T q"
      unfolding pb_den.simps using n(8) up_b st'(2,3) qT j
      by - (rule exI [of _ A], rule exI [of _ B], simp)
    with False st' show ?thesis by simp
  qed
next
  case (WordPath w word a)
  then obtain p where p: "a = Some p" "db_den (p, f) T (q @ [d])" by (cases a) auto
  from db_up_den [OF p(2)] p(1) show ?case by simp
qed

lemma pb_den_copy: "pb_den f p T [] \<Longrightarrow> pb_den f (pb_copy p) T []"
proof (induction p arbitrary: T)
  case (DbPath p)
  then show ?case by (simp add: db_copy_den)
next
  case (AndPath a b)
  then show ?case by (simp, blast)
next
  case (OrPath a b m n)
  then show ?case by (simp, blast)
next
  case (NotPath a b st k)
  then have "balanced (stack_copy st)" "st_bits (stack_copy st) = []"
    by (auto simp: stack_copy_def balanced_def)
  with NotPath show ?case by (simp, blast intro: db_copy_den)
next
  case (WordPath w word a)
  then show ?case by (cases a) (auto simp: db_copy_den)
qed

text \<open>The contract holds for every query path.\<close>

definition query_den :: "pathbase \<times> db_file \<Rightarrow> bits set \<Rightarrow> bits \<Rightarrow> bool" where
  "query_den s T q = pb_den (snd s) (fst s) T q"

interpretation query: path_cursor query_path_ops query_den
proof
  fix s :: "pathbase \<times> db_file" and T p q d
  obtain x f where s: "s = (x, f)" by (cases s)
  show "p \<in> T" "finite T" "prefix_closed T" if "query_den s T p"
    using pb_den_trie [of f x T p] that by (simp_all add: query_den_def good_trie_def s)
  show "0 \<le> weight q" if "query_den s T p" "q \<in> T"
    using pb_den_trie [of f x T p] that by (simp add: query_den_def good_trie_def s)
  show "can_move query_path_ops d s \<longleftrightarrow> p @ [d] \<in> T" if "query_den s T p"
    using pb_den_can [of f x T p d] that by (simp add: query_den_def query_can_move s)
  show "\<exists>s'. move query_path_ops d s = Some s' \<and> query_den s' T (p @ [d])" if "query_den s T p" "p @ [d] \<in> T"
    using pb_den_move [of f x T p d] that by (fastforce simp: query_den_def query_move s)
  show "\<exists>s'. move_up query_path_ops s = Some s' \<and> query_den s' T p" if "query_den s T (p @ [d])"
    using pb_den_up [of f x T p d] that by (fastforce simp: query_den_def query_path_ops_def s)
  show "query_den (copy_path query_path_ops s) T []" if "query_den s T []"
    using pb_den_copy [of f x T] that by (simp add: query_den_def query_path_ops_def s)
qed

end
