(* ===== verification/Query_Evaluation.thy ===== *)
theory Query_Evaluation
  imports Query_Expression
begin

text \<open>
  The evaluation of queries is correct: every query of the grammar of \<open>Query_Expression\<close> runs to a single
  path, and iterating over the path of \<open>getPath\<close> visits the boolean combination of the words, in order.
\<close>

section \<open>Constructed paths\<close>

lemma and_path_den: "pb_den f a A [] \<Longrightarrow> pb_den f b B [] \<Longrightarrow> pb_den f (and_path a b) (A \<inter> B) []"
  unfolding and_path_def pb_den.simps using pb_den_copy by blast

lemma or_path_den: "pb_den f a A [] \<Longrightarrow> pb_den f b B [] \<Longrightarrow> pb_den f (or_path a b) (A \<union> B) []"
  unfolding or_path_def pb_den.simps using pb_den_copy
  by - (rule exI [of _ A], rule exI [of _ B], simp add: falls_def)

lemma not_path_den:
  assumes "pb_den f a A []" and "db_den (b, f) B []"
  shows "pb_den f (not_path a b) (without B A) []"
proof -
  have "[] \<in> B" using db_den_trie(1) [OF assms(2)] .
  then show ?thesis unfolding not_path_def pb_den.simps using pb_den_copy [OF assms(1)] db_copy_den [OF assms(2)]
    by - (rule exI [of _ A], rule exI [of _ B], simp add: falls_def balanced_new without_def, simp add: stack_new_def)
qed

text \<open>Following bits that are there writes nothing.\<close>

lemma write_bits_there:
  assumes "walk f (path_index p) bs = Some j"
  shows "\<exists>q. fold path_write_bit bs (p, f) = (q, f) \<and> path_index q = j"
  using assms
proof (induction bs arbitrary: p)
  case (Cons b bs)
  then have c: "child b (path_branch f p) \<noteq> 0" "walk f (child b (path_branch f p)) bs = Some j"
    by (auto simp: path_branch_def Let_def split: if_splits)
  from go_dir_cases(1) [OF c(1)] obtain q where q: "path_write_bit b (p, f) = (q, f)"
    "path_index q = child b (path_branch f p)" by (simp add: path_write_bit_go)
  with Cons.IH [of q] c(2) show ?case by simp
qed simp

definition word_trie :: "(bstring \<Rightarrow> bstring) \<Rightarrow> db_file \<Rightarrow> bits \<Rightarrow> bstring \<Rightarrow> bits set" where
  "word_trie lower f pre word = insert [] (below_path f (pre @ string_code (lower word)))"

lemma word_path_there:
  assumes "at_path f words pre" and "path_contains (\<lambda>wb. put_string wb key) f words"
  shows "\<exists>p. path_at (\<lambda>wb. put_string wb key) (words, f) = (p, f) \<and> at_path f p (pre @ string_code key)"
proof -
  from assms(2) contains_string_paths [OF assms(1)] at_path_walk [OF assms(1)]
  obtain j where j: "walk f (path_index (path_copy words)) (string_code key) = Some j"
    by (auto simp: paths_def path_copy_def path_new_def)
  from write_bits_there [OF j] obtain p where
    "fold path_write_bit (string_code key) (path_copy words, f) = (p, f)" "path_index p = j" by blast
  with j at_path_walk [OF assms(1)] show ?thesis
    by (auto simp: path_at_def at_path_def code_lens path_copy_def path_new_def)
qed

lemma word_path_den:
  assumes "store_ok f" and "at_path f words pre" and "codes_below f (pre @ string_code (lower word))"
  shows "\<exists>p. word_path lower words word f = (p, f) \<and> pb_den f p (word_trie lower f pre word) []"
proof (cases "path_contains (\<lambda>wb. put_string wb (lower word)) f words")
  case True
  from word_path_there [OF assms(2) True] obtain p where
    p: "path_at (\<lambda>wb. put_string wb (lower word)) (words, f) = (p, f)" "at_path f p (pre @ string_code (lower word))"
    by blast
  have "db_den (p, f) (below_path f (pre @ string_code (lower word))) []"
    using assms p(2) by (intro db_den_start)
  moreover from this have "word_trie lower f pre word = below_path f (pre @ string_code (lower word))"
    using db_den_trie(1) by (auto simp: word_trie_def)
  ultimately show ?thesis using p(1) True by (simp add: word_path_def db_copy_den)
next
  case False
  then have "pre @ string_code (lower word) \<notin> paths f 0"
    by (simp add: contains_string_paths [OF assms(2)])
  then have "below_path f (pre @ string_code (lower word)) = {}"
    using paths_prefix [of "pre @ string_code (lower word)"] by (auto simp: below_path_def)
  with False show ?thesis by (simp add: word_path_def word_trie_def)
qed

section \<open>Running a query\<close>

definition query_ready :: "(bstring \<Rightarrow> bstring) \<Rightarrow> db_file \<Rightarrow> path \<Rightarrow> bits \<Rightarrow> path \<Rightarrow> bits \<Rightarrow> bool" where
  "query_ready lower f words pre bounds bpre \<longleftrightarrow> store_ok f \<and> at_path f words pre \<and> at_path f bounds bpre \<and>
     codes_below f bpre \<and> (\<forall>word. codes_below f (pre @ string_code (lower word)))"

lemma at_path_copy: "at_path f p pre \<Longrightarrow> at_path f (path_copy p) pre"
  by (simp add: at_path_def path_copy_def path_new_def)

lemma ready_copy:
  "query_ready lower f words pre bounds bpre \<Longrightarrow>
     query_ready lower f (path_copy words) pre (path_copy bounds) bpre"
  by (simp add: query_ready_def at_path_copy)

lemma ready_bounds: "query_ready lower f words pre bounds bpre \<Longrightarrow> db_den (bounds, f) (below_path f bpre) []"
  by (simp add: query_ready_def db_den_start)

text \<open>Pushing a path behind \<open>n\<close> negations.\<close>

definition with_nots :: "nat \<Rightarrow> query_item list \<Rightarrow> query_item list" where
  "with_nots n st = (if odd n then NotItem # st else st)"

definition no_not :: "query_item list \<Rightarrow> bool" where
  "no_not st \<longleftrightarrow> (\<forall>rest. st \<noteq> NotItem # rest)"

lemma push_not_run:
  assumes "no_not st"
  shows "push_not (ex\<lparr>ex_stack := with_nots n st\<rparr>) = ex\<lparr>ex_stack := with_nots (Suc n) st\<rparr>"
  using assms by (cases st; cases "hd st") (auto simp: push_not_def push_item_def with_nots_def no_not_def
      split: list.splits query_item.splits)

lemma run_append: "run_tokens lower (ts @ us) ex f =
    (case run_tokens lower ts ex f of Inl e \<Rightarrow> Inl e | Inr (ex, f) \<Rightarrow> run_tokens lower us ex f)"
  by (induction ts arbitrary: ex f) (simp_all split: sum.splits prod.splits)

lemma run_nots:
  assumes "no_not st"
  shows "run_tokens lower (replicate n NotToken) (ex\<lparr>ex_stack := with_nots k st\<rparr>) f =
    Inr (ex\<lparr>ex_stack := with_nots (k + n) st\<rparr>, f)"
  by (induction n arbitrary: k) (simp_all add: push_not_run [OF assms])

text \<open>An item for a trie.\<close>

definition item_den :: "db_file \<Rightarrow> query_item \<Rightarrow> bits set \<Rightarrow> bstring \<Rightarrow> bool" where
  "item_den f item T text \<longleftrightarrow> (\<exists>p. item = IterableItem p text \<and> pb_den f p T [])"

lemma push_first:
  assumes "pb_den f p A []" and "db_den (ex_bounds ex, f) B []"
  shows "\<exists>item. push_iterable p text (ex\<lparr>ex_stack := with_nots n []\<rparr>) = Some (ex\<lparr>ex_stack := [item]\<rparr>) \<and>
    item_den f item (negate_trie B n A) (not_text n text)"
  using not_path_den [OF assms] assms(1)
  by (auto simp: push_iterable_def with_nots_def item_den_def negate_trie_def not_text_def)

lemma push_joined:
  assumes "pb_den f p A []" and "db_den (ex_bounds ex, f) B []" and "item_den f left L left_text"
    and "st = [left] \<and> either = False \<or> st = [AndItem, left] \<and> either = False \<or> st = [OrItem, left] \<and> either = True"
  shows "\<exists>item. push_iterable p text (ex\<lparr>ex_stack := with_nots n st\<rparr>) = Some (ex\<lparr>ex_stack := [item]\<rparr>) \<and>
    item_den f item (if either then L \<union> negate_trie B n A else L \<inter> negate_trie B n A)
      (''('' @ left_text @ (if either then '' or '' else '' and '') @ not_text n text @ '')'')"
proof -
  from assms(3) obtain l where l: "left = IterableItem l left_text" "pb_den f l L []" by (auto simp: item_den_def)
  define r where "r = (if odd n then not_path p (ex_bounds ex) else p)"
  have "pb_den f r (negate_trie B n A) []"
    using not_path_den [OF assms(1,2)] assms(1) by (simp add: r_def negate_trie_def)
  note both = and_path_den [OF l(2) this] or_path_den [OF l(2) this]
  define item where "item =
    (if either then IterableItem (or_path l r) (''('' @ left_text @ '' or '' @ not_text n text @ '')'')
     else IterableItem (and_path l r) (''('' @ left_text @ '' and '' @ not_text n text @ '')''))"
  have "push_iterable p text (ex\<lparr>ex_stack := with_nots n st\<rparr>) = Some (ex\<lparr>ex_stack := [item]\<rparr>)"
    using assms(4) l(1) by (auto simp: push_iterable_def with_nots_def r_def not_text_def item_def)
  moreover have "item_den f item (if either then L \<union> negate_trie B n A else L \<inter> negate_trie B n A)
      (''('' @ left_text @ (if either then '' or '' else '' and '') @ not_text n text @ '')'')"
    using both by (simp add: item_den_def item_def)
  ultimately show ?thesis by blast
qed

lemma atom_den:
  assumes "query_ready lower f words pre bounds bpre"
  defines "W \<equiv> word_trie lower f pre" and "B \<equiv> below_path f bpre"
  shows "\<And>ex. ex_stack ex = [] \<Longrightarrow> query_ready lower f (ex_words ex) pre (ex_bounds ex) bpre \<Longrightarrow>
      \<exists>item. run_tokens lower (query_tokens q) ex f = Inr (ex\<lparr>ex_stack := [item]\<rparr>, f) \<and>
        item_den f item (query_trie W B q) (query_text q)"
    and "\<And>ex. query_ready lower f (ex_words ex) pre (ex_bounds ex) bpre \<Longrightarrow>
      \<exists>p. run_token lower (atom_token a) ex f =
          defined (map_option (\<lambda>ex. (ex, f)) (push_iterable p (atom_text a) ex)) \<and>
        pb_den f p (atom_trie W B a) []"
proof (induction q and a)
  case (Operand n a)
  let ?ex = "ex\<lparr>ex_stack := with_nots n []\<rparr>"
  have ex: "ex = ex\<lparr>ex_stack := with_nots 0 []\<rparr>" using Operand.prems(1) by (simp add: with_nots_def)
  have nots: "run_tokens lower (replicate n NotToken) ex f = Inr (?ex, f)"
    by (subst ex) (simp add: run_nots no_not_def)
  from Operand.IH [of ?ex] Operand.prems(2) obtain p where p:
    "run_token lower (atom_token a) ?ex f = defined (map_option (\<lambda>ex. (ex, f)) (push_iterable p (atom_text a) ?ex))"
    "pb_den f p (atom_trie W B a) []" by auto
  have bounds: "db_den (ex_bounds ex, f) B []" using ready_bounds [OF Operand.prems(2)] by (simp add: B_def)
  from push_first [OF p(2) bounds, of "atom_text a" n] obtain item where
    "push_iterable p (atom_text a) ?ex = Some (ex\<lparr>ex_stack := [item]\<rparr>)"
    "item_den f item (query_trie W B (Operand n a)) (query_text (Operand n a))"
    by (simp only: query_trie.simps query_text.simps) blast
  with p(1) nots show ?case by (intro exI [of _ item]) (simp add: run_append defined_def)
next
  case (Joined q j n a)
  from Joined.IH(1) [OF Joined.prems] obtain left where
    l: "run_tokens lower (query_tokens q) ex f = Inr (ex\<lparr>ex_stack := [left]\<rparr>, f)"
      "item_den f left (query_trie W B q) (query_text q)" by blast
  define st where "st = (case j of Adjacent \<Rightarrow> [left] | Both \<Rightarrow> [AndItem, left] | Either \<Rightarrow> [OrItem, left])"
  from l(2) have no: "no_not st" "\<not> is_operator left"
    by (auto simp: st_def no_not_def item_den_def split: joint.splits)
  have joint: "run_tokens lower (joint_tokens j) (ex\<lparr>ex_stack := [left]\<rparr>) f = Inr (ex\<lparr>ex_stack := with_nots 0 st\<rparr>, f)"
    using no(2) by (cases j) (simp_all add: st_def push_item_def with_nots_def)
  let ?ex = "ex\<lparr>ex_stack := with_nots n st\<rparr>"
  have nots: "run_tokens lower (replicate n NotToken) (ex\<lparr>ex_stack := with_nots 0 st\<rparr>) f = Inr (?ex, f)"
    using run_nots [OF no(1), of lower n 0 ex f] by simp
  from Joined.IH(2) [of ?ex] Joined.prems(2) obtain p where p:
    "run_token lower (atom_token a) ?ex f = defined (map_option (\<lambda>ex. (ex, f)) (push_iterable p (atom_text a) ?ex))"
    "pb_den f p (atom_trie W B a) []" by auto
  have st: "st = [left] \<and> (j = Either) = False \<or> st = [AndItem, left] \<and> (j = Either) = False \<or>
      st = [OrItem, left] \<and> (j = Either) = True" by (cases j) (simp_all add: st_def)
  have bounds: "db_den (ex_bounds ex, f) B []" using ready_bounds [OF Joined.prems(2)] by (simp add: B_def)
  from push_joined [OF p(2) bounds l(2) st, of "atom_text a" n] obtain item where
    "push_iterable p (atom_text a) ?ex = Some (ex\<lparr>ex_stack := [item]\<rparr>)"
    "item_den f item (query_trie W B (Joined q j n a)) (query_text (Joined q j n a))"
    by (simp only: query_trie.simps query_text.simps) blast
  with p(1) l(1) joint nots show ?case by (intro exI [of _ item]) (simp add: run_append defined_def)
next
  case (AtomWord w)
  then have "\<exists>p. word_path lower (ex_words ex) w f = (p, f) \<and> pb_den f p (W w) []"
    unfolding W_def query_ready_def by (intro word_path_den) auto
  then show ?case by auto
next
  case (AtomBracket q)
  let ?new = "expression_new (ex_words ex) (ex_bounds ex)"
  from AtomBracket.IH [of ?new] ready_copy [OF AtomBracket.prems] obtain item where
    "run_tokens lower (query_tokens q) ?new f = Inr (?new\<lparr>ex_stack := [item]\<rparr>, f)"
    "item_den f item (query_trie W B q) (query_text q)" by (auto simp: expression_new_def)
  then show ?case by (auto simp: item_den_def)
qed

lemma query_path_den:
  assumes "query_ready lower f words pre bounds bpre"
  shows "\<exists>p. query_path lower words bounds (query_tokens q) f = Inr (p, f) \<and>
    pb_den f p (query_trie (word_trie lower f pre) (below_path f bpre) q \<inter> below_path f bpre) []"
proof -
  let ?ex = "expression_new words bounds"
  note ready = ready_copy [OF assms]
  from atom_den(1) [OF assms, of ?ex q] ready obtain p where
    p: "run_tokens lower (query_tokens q) ?ex f = Inr (?ex\<lparr>ex_stack := [IterableItem p (query_text q)]\<rparr>, f)"
      "pb_den f p (query_trie (word_trie lower f pre) (below_path f bpre) q) []"
    by (auto simp: expression_new_def item_den_def)
  have "pb_den f (DbPath (path_copy bounds)) (below_path f bpre) []"
    using ready_bounds [OF ready] by simp
  from and_path_den [OF p(2) this] p(1) show ?thesis
    by (simp add: query_path_def expression_success_def get_path_def defined_def expression_new_def)
qed

end
