(* ===== verification/Query_Results.thy ===== *)
theory Query_Results
  imports Query_Evaluation
begin

text \<open>
  What a query returns: the loop over the identifiers of the path a query builds (code/query/Query.hpp with the
  iterators of code/Database/Iterable.hpp), and the same for a single intersection, union or difference.
  Identifiers are numbers, as in a build with \<open>JSON_INDEX\<close>.
\<close>

section \<open>Numbers below a path\<close>

definition read_index :: "bit_stack \<Rightarrow> (nat \<times> bit_stack) option" where
  "read_index = get_value stack_read_bit"

definition decode_index :: "bits \<Rightarrow> nat" where
  "decode_index q = fst (the (get_value list_read q))"

lemma decode_index_code: "decode_index (value_code n) = n"
  using get_value_code [OF list_feeds, of n "[]"] by (simp add: decode_index_def)

definition numbers_below :: "db_file \<Rightarrow> bits \<Rightarrow> bool" where
  "numbers_below f pre \<longleftrightarrow> codes_below f pre \<and>
     (\<forall>q \<in> below_path f pre. complete_code q \<longrightarrow> (\<exists>n. q = value_code n))"

definition contained_numbers :: "db_file \<Rightarrow> path \<Rightarrow> nat set" where
  "contained_numbers f p = {n. path_contains (\<lambda>wb. put_value wb n) f p}"

lemma read_index_items:
  assumes "\<forall>q \<in> K. \<exists>n. q = value_code n"
  shows "reads_items read_index decode_index K"
proof -
  have "\<exists>st'. read_index (stack_reset st) = Some (decode_index (st_bits st), st') \<and>
      st_bits st' = st_bits st \<and> st_count st' = 0" if "st_bits st \<in> K" for st
  proof -
    from assms that obtain n where n: "st_bits st = value_code n" by blast
    let ?st = "stack_reset st"
    have "feeds stack_read_bit ?st (value_code n) (?st\<lparr>st_it := Some (length (value_code n)), st_count := 0\<rparr>)"
      using stack_feeds [of ?st "[]" "value_code n" "[]"] n count_run_complete [OF value_code_complete, of 0]
      by (simp add: stack_reset_def)
    from get_value_code [OF this] n show ?thesis
      by (simp add: read_index_def stack_reset_def decode_index_code)
  qed
  then show ?thesis by (simp add: reads_items_def)
qed

lemma contains_number_paths:
  assumes "at_path f p pre"
  shows "path_contains (\<lambda>wb. put_value wb n) f p \<longleftrightarrow> pre @ value_code n \<in> paths f 0"
  using path_contains_bits [of "\<lambda>wb. put_value wb n" f "value_code n" p] value_code_complete [of n]
  by (auto simp: code_lens complete_code_def at_path_walk [OF assms] paths_def)

lemma number_keys:
  assumes "at_path f p pre"
  shows "value_code n \<in> keys (below_path f pre) \<longleftrightarrow> n \<in> contained_numbers f p"
  using contains_number_paths [OF assms] value_code_complete
  by (simp add: contained_numbers_def keys_def below_path_def)

lemma value_code_order: "bit_less (value_code m) (value_code n) \<longleftrightarrow> m < n"
proof
  assume less: "bit_less (value_code m) (value_code n)"
  show "m < n"
  proof (rule ccontr)
    assume "\<not> m < n"
    then have "n = m \<or> n < m" by auto
    with less value_code_less [of n m] show False
      using dir_less_trans dir_less_irrefl unfolding dir_less_False [symmetric] by blast
  qed
qed (rule value_code_less)

text \<open>Iterating over a trie whose values are numbers.\<close>

lemma iterate_numbers:
  assumes "pb_den f path T []" and "\<forall>q \<in> keys T. \<exists>n. q = value_code n"
  shows "\<exists>ids. iterate_all read_index query_path_ops (path, f) item = Some ids \<and>
    set ids = {n. value_code n \<in> keys T} \<and> sorted_wrt (<) ids"
proof -
  have "query_den (path, f) T []" using assms(1) by (simp add: query_den_def)
  from query.iterate_all_spec [OF this read_index_items [OF assms(2)], of item] obtain ks where
    ks: "ordered_keys False (keys T) ks" "iterate_all read_index query_path_ops (path, f) item = Some (map decode_index ks)"
    by blast
  have set: "set ks = keys T" and sorted: "sorted_wrt (dir_less False) ks" using ks(1) by (simp_all add: ordered_keys_def)
  have id: "value_code (decode_index q) = q" if "q \<in> set ks" for q
    using that set assms(2) decode_index_code by fastforce
  have "set (map decode_index ks) = {n. value_code n \<in> keys T}"
    using set id by (force simp: decode_index_code image_iff)
  moreover have "sorted_wrt (\<lambda>m n. bit_less (value_code m) (value_code n)) (map decode_index ks)"
    unfolding sorted_wrt_map using sorted by (rule sorted_wrt_mono_rel [rotated]) (simp add: id dir_less_False)
  ultimately show ?thesis using ks(2) by (simp add: value_code_order)
qed

text \<open>A small index: the word \<open>k\<close> with the identifier 5, which is all the bounds hold.\<close>

definition small_index :: cursor where
  "small_index = path_at (\<lambda>wb. put_value wb 5) one_key"

lemma small_index_ok:
  "store_ok (snd small_index)" "at_path (snd small_index) (path_new 0) []"
  "at_path (snd small_index) (fst one_key) (string_code ''k'')"
  "paths (snd small_index) 0 = {r. prefix r (string_code ''k'' @ value_code 5)}"
proof -
  have short: "length (string_code ''k'') < 100" "length (value_code 5) < 100" by code_simp+
  have room: "length (database_new []) + 32 * length (string_code ''k'') \<le> 2 ^ 64" by (rule fresh_room)
  from path_at_code [OF database_new_inv fresh_database(2) room, of "\<lambda>wb. put_string wb ''k''"]
  obtain q g N E where k: "one_key = (q, g)" "db_inv g N E" "at_path g q (string_code ''k'')"
    "paths g 0 = {[]} \<union> {r. prefix r (string_code ''k'')}" "length g \<le> 32 + 32 * length (string_code ''k'')"
    by (auto simp: one_key_def code_lens database_new_paths fresh_database(3))
  have "length g + 32 * length (value_code 5) \<le> 2 ^ 64" using k(5) short by simp
  from path_at_code [OF k(2,3) this, of "\<lambda>wb. put_value wb 5"] obtain p h M F where
    v: "small_index = (p, h)" "db_inv h M F" "grown g N h M"
      "paths h 0 = {[]} \<union> {r. prefix r (string_code ''k'')} \<union> {r. prefix r (string_code ''k'' @ value_code 5)}"
    by (auto simp: small_index_def k(1,4) code_lens)
  show "store_ok (snd small_index)" unfolding store_ok_def v(1) snd_conv using v(2) by blast
  have root: "at_path g (path_new 0) []" by (simp add: at_path_def path_new_def)
  show "at_path (snd small_index) (path_new 0) []" unfolding v(1) snd_conv by (rule at_path_grown [OF k(2) v(3) root])
  show "at_path (snd small_index) (fst one_key) (string_code ''k'')"
    unfolding v(1) k(1) fst_conv snd_conv by (rule at_path_grown [OF k(2) v(3) k(3)])
  show "paths (snd small_index) 0 = {r. prefix r (string_code ''k'' @ value_code 5)}"
    unfolding v(1) snd_conv v(4) by (auto intro: prefix_order.trans)
qed

lemma small_index_below: "below_path (snd small_index) (string_code ''k'') = {r. prefix r (value_code 5)}"
  by (simp add: below_path_def small_index_ok(4))

lemma small_index_numbers: "numbers_below (snd small_index) (string_code ''k'')"
proof -
  have "q = value_code 5" if "prefix q (value_code 5)" "complete_code q" for q
    using complete_prefix_free [OF that(2) value_code_complete that(1)] .
  then show ?thesis using complete_prefix_nonneg [OF value_code_complete]
    by (auto simp: numbers_below_def codes_below_def small_index_below)
qed

lemma small_index_contents: "contained_numbers (snd small_index) (fst one_key) = {5}"
proof -
  have "value_code n \<in> keys (below_path (snd small_index) (string_code ''k'')) \<longleftrightarrow> n = 5" for n
    using complete_prefix_free [OF value_code_complete value_code_complete, of n 5] value_code_complete value_code_inject
    by (auto simp: keys_def small_index_below)
  then show ?thesis by (simp add: number_keys [OF small_index_ok(3)] set_eq_iff)
qed

lemma small_index_words:
  "path_contains (\<lambda>wb. put_string wb w) (snd small_index) (path_new 0) \<longleftrightarrow> w = ''k''"
proof -
  have "prefix (string_code w) (string_code ''k'' @ value_code 5) \<longleftrightarrow> w = ''k''"
  proof
    assume "prefix (string_code w) (string_code ''k'' @ value_code 5)"
    then have "prefix (string_code w) (string_code ''k'') \<or> prefix (string_code ''k'') (string_code w)"
      by (rule prefix_same_cases) simp
    then show "w = ''k''"
      using complete_prefix_free [OF string_code_complete string_code_complete] string_code_inject by metis
  qed simp
  then show ?thesis by (simp add: contains_string_paths [OF small_index_ok(2)] small_index_ok(4))
qed

lemma small_index_ready:
  "query_ready (\<lambda>w. w) (snd small_index) (path_new 0) [] (fst one_key) (string_code ''k'')"
proof -
  have "0 \<le> weight r" if "string_code w @ r \<in> paths (snd small_index) 0" for w r
  proof -
    have "w = ''k''" using paths_prefix [OF that] small_index_words contains_string_paths [OF small_index_ok(2)] by simp
    with that complete_prefix_nonneg [OF value_code_complete] show ?thesis by (simp add: small_index_ok(4))
  qed
  then have "codes_below (snd small_index) (string_code w)" for w by (simp add: codes_below_def below_path_def)
  then show ?thesis using small_index_ok by (simp add: query_ready_def)
qed

lemma sorted_singleton: "sorted_wrt (<) (ids :: nat list) \<Longrightarrow> set ids = {n} \<Longrightarrow> ids = [n]"
  by (cases ids; cases "tl ids") auto

section \<open>Intersection, union and difference\<close>

lemma number_trie:
  assumes "store_ok f" and "at_path f p pre" and "numbers_below f pre"
  shows "pb_den f (DbPath p) (below_path f pre) []" "\<forall>q \<in> keys (below_path f pre). \<exists>n. q = value_code n"
    "{n. value_code n \<in> keys (below_path f pre)} = contained_numbers f p"
  using assms number_keys [OF assms(2)] by (auto simp: numbers_below_def db_den_start keys_def)

text \<open>
  Property C22: the loop over \<open>AndPath\<close> visits the numbers both paths contain, in order.
\<close>

theorem and_path_numbers:
  assumes "store_ok f" and "at_path f p pre" and "numbers_below f pre" and "at_path f q post" and "numbers_below f post"
  shows "\<exists>ids. iterate_all read_index query_path_ops (and_path (DbPath p) (DbPath q), f) item = Some ids \<and>
    set ids = contained_numbers f p \<inter> contained_numbers f q \<and> sorted_wrt (<) ids"
proof -
  note a = number_trie [OF assms(1-3)] and b = number_trie [OF assms(1,4,5)]
  have "{n. value_code n \<in> keys (below_path f pre \<inter> below_path f post)} = contained_numbers f p \<inter> contained_numbers f q"
    using a(3) b(3) by (auto simp: keys_Int)
  with iterate_numbers [OF and_path_den [OF a(1) b(1)]] a(2) show ?thesis by (simp add: keys_Int)
qed

theorem and_path_numbers_witness:
  "iterate_all read_index query_path_ops (and_path (DbPath (fst one_key)) (DbPath (fst one_key)), snd small_index) 0 = Some [5]"
  using and_path_numbers [OF small_index_ok(1,3) small_index_numbers small_index_ok(3) small_index_numbers, of 0]
  by (auto simp: small_index_contents dest: sorted_singleton)

text \<open>
  Property C20: the loop over \<open>OrPath\<close> visits the numbers at least one of the paths contains, each once, in order.
\<close>

theorem or_path_numbers:
  assumes "store_ok f" and "at_path f p pre" and "numbers_below f pre" and "at_path f q post" and "numbers_below f post"
  shows "\<exists>ids. iterate_all read_index query_path_ops (or_path (DbPath p) (DbPath q), f) item = Some ids \<and>
    set ids = contained_numbers f p \<union> contained_numbers f q \<and> sorted_wrt (<) ids"
proof -
  note a = number_trie [OF assms(1-3)] and b = number_trie [OF assms(1,4,5)]
  have "{n. value_code n \<in> keys (below_path f pre \<union> below_path f post)} = contained_numbers f p \<union> contained_numbers f q"
    using a(3) b(3) by (auto simp: keys_Un)
  moreover have "\<forall>r \<in> keys (below_path f pre \<union> below_path f post). \<exists>n. r = value_code n"
    using a(2) b(2) by (auto simp: keys_Un)
  ultimately show ?thesis using iterate_numbers [OF or_path_den [OF a(1) b(1)]] by simp
qed

theorem or_path_numbers_witness:
  "iterate_all read_index query_path_ops (or_path (DbPath (fst one_key)) (DbPath (fst one_key)), snd small_index) 0 = Some [5]"
  using or_path_numbers [OF small_index_ok(1,3) small_index_numbers small_index_ok(3) small_index_numbers, of 0]
  by (auto simp: small_index_contents dest: sorted_singleton)

text \<open>
  Property C21: the loop over \<open>NotPath\<close> visits the numbers of the bounds that the path does not contain, in order.
\<close>

theorem not_path_numbers:
  assumes "store_ok f" and "at_path f p pre" and "numbers_below f pre" and "at_path f b bpre" and "numbers_below f bpre"
  shows "\<exists>ids. iterate_all read_index query_path_ops (not_path (DbPath p) b, f) item = Some ids \<and>
    set ids = contained_numbers f b - contained_numbers f p \<and> sorted_wrt (<) ids"
proof -
  note a = number_trie [OF assms(1-3)] and b = number_trie [OF assms(1,4,5)]
  have den: "db_den (b, f) (below_path f bpre) []" using b(1) by simp
  have "{n. value_code n \<in> keys (without (below_path f bpre) (below_path f pre))} =
      contained_numbers f b - contained_numbers f p" using a(3) b(3) by (auto simp: keys_without)
  with iterate_numbers [OF not_path_den [OF a(1) den]] b(2) show ?thesis by (simp add: keys_without)
qed

theorem not_path_numbers_witness:
  "iterate_all read_index query_path_ops (not_path (DbPath (fst one_key)) (fst one_key), snd small_index) 0 = Some []"
  using not_path_numbers [OF small_index_ok(1,3) small_index_numbers small_index_ok(3) small_index_numbers, of 0]
  by (auto simp: small_index_contents)

section \<open>Queries\<close>

text \<open>The identifiers of a word: the numbers below \<open>words[word]\<close>.\<close>

definition word_ids :: "(bstring \<Rightarrow> bstring) \<Rightarrow> db_file \<Rightarrow> path \<Rightarrow> bstring \<Rightarrow> nat set" where
  "word_ids lower f words word =
     (if path_contains (\<lambda>wb. put_string wb (lower word)) f words
      then contained_numbers f (fst (path_at (\<lambda>wb. put_string wb (lower word)) (words, f)))
      else {})"

lemma word_ids_trie:
  assumes "at_path f words pre"
  shows "n \<in> word_ids lower f words word \<longleftrightarrow> value_code n \<in> keys (word_trie lower f pre word)"
proof -
  have ne: "keys (word_trie lower f pre word) = keys (below_path f (pre @ string_code (lower word)))"
    by (auto simp: word_trie_def keys_def complete_code_def)
  show ?thesis
  proof (cases "path_contains (\<lambda>wb. put_string wb (lower word)) f words")
    case True
    from word_path_there [OF assms True] obtain p where
      "path_at (\<lambda>wb. put_string wb (lower word)) (words, f) = (p, f)" "at_path f p (pre @ string_code (lower word))"
      by blast
    with True number_keys [OF this(2), of n] show ?thesis by (simp add: word_ids_def ne)
  next
    case False
    then have "pre @ string_code (lower word) \<notin> paths f 0" by (simp add: contains_string_paths [OF assms])
    then have "below_path f (pre @ string_code (lower word)) = {}"
      using paths_prefix [of "pre @ string_code (lower word)"] by (auto simp: below_path_def)
    with False show ?thesis unfolding ne by (simp add: word_ids_def keys_def)
  qed
qed

lemma query_values_preimage:
  "n \<in> query_values (\<lambda>w. {n. h n \<in> W w}) {n. h n \<in> B} q \<longleftrightarrow> h n \<in> query_values W B q"
  "n \<in> atom_values (\<lambda>w. {n. h n \<in> W w}) {n. h n \<in> B} a \<longleftrightarrow> h n \<in> atom_values W B a"
  by (induction q and a) (auto simp: negate_def)

lemma query_denotes:
  assumes "query_ready lower f words pre bounds bpre" and "numbers_below f bpre"
  shows "\<exists>path ids. query_path lower words bounds (query_tokens q) f = Inr (path, f) \<and>
    iterate_all read_index query_path_ops (path, f) item = Some ids \<and>
    set ids = query_values (word_ids lower f words) (contained_numbers f bounds) q \<inter> contained_numbers f bounds \<and>
    sorted_wrt (<) ids"
proof -
  let ?W = "word_trie lower f pre" and ?B = "below_path f bpre"
  have at: "at_path f words pre" "at_path f bounds bpre" "store_ok f" using assms(1) by (simp_all add: query_ready_def)
  from query_path_den [OF assms(1)] obtain path where
    p: "query_path lower words bounds (query_tokens q) f = Inr (path, f)" "pb_den f path (query_trie ?W ?B q \<inter> ?B) []"
    by blast
  note bounds = number_trie [OF at(3,2) assms(2)]
  have W: "word_ids lower f words = (\<lambda>w. {n. value_code n \<in> keys (?W w)})"
    by (rule ext) (simp add: word_ids_trie [OF at(1)] set_eq_iff)
  have "{n. value_code n \<in> keys (query_trie ?W ?B q \<inter> ?B)} =
      query_values (word_ids lower f words) (contained_numbers f bounds) q \<inter> contained_numbers f bounds"
    unfolding W bounds(3) [symmetric]
    by (auto simp: query_values_preimage(1) [of _ value_code "\<lambda>w. keys (?W w)" "keys ?B"] keys_Int keys_trie)
  with iterate_numbers [OF p(2)] bounds(2) p(1) show ?thesis by (simp add: keys_Int)
qed

text \<open>
  Property C2: every query of the grammar is accepted, and the loop over its path visits exactly the identifiers
  within the bounds that satisfy the boolean combination of the words, each once, in increasing order.
\<close>

theorem query_results:
  assumes "query_ready lower f words pre bounds bpre" and "numbers_below f bpre"
  shows "\<exists>path ids. query_path lower words bounds (query_tokens q) f = Inr (path, f) \<and>
    iterate_all read_index query_path_ops (path, f) item = Some ids \<and>
    set ids = query_values (word_ids lower f words) (contained_numbers f bounds) q \<inter> contained_numbers f bounds \<and>
    sorted_wrt (<) ids"
  by (rule query_denotes [OF assms])

text \<open>\<open>not x\<close> has the identifier 5, since the word \<open>x\<close> is not in the index.\<close>

theorem query_results_witness:
  "\<exists>path. query_path (\<lambda>w. w) (path_new 0) (fst one_key) [NotToken, WordToken ''x''] (snd small_index) =
       Inr (path, snd small_index) \<and>
     iterate_all read_index query_path_ops (path, snd small_index) 0 = Some [5]"
  using query_results [OF small_index_ready small_index_numbers, of "Operand 1 (AtomWord ''x'')" 0]
  by (auto simp: negate_def word_ids_def small_index_words small_index_contents dest: sorted_singleton)

lemma query_evaluates:
  assumes "query_ready lower f words pre bounds bpre"
  shows "\<exists>ex p. run_tokens lower (query_tokens q) (expression_new words bounds) f = Inr (ex, f) \<and>
    ex_stack ex = [IterableItem p (query_text q)]"
  using atom_den(1) [OF assms, of "expression_new words bounds" q] ready_copy [OF assms]
  by (auto simp: expression_new_def item_den_def)

text \<open>
  The text of the evaluated expression shows how it was grouped: operators associate to the left, and two
  negations in front of an operand cancel.
\<close>

theorem query_rendering:
  assumes "query_ready lower f words pre bounds bpre"
  shows "\<exists>ex p. run_tokens lower (query_tokens q) (expression_new words bounds) f = Inr (ex, f) \<and>
    ex_stack ex = [IterableItem p (query_text q)]"
  by (rule query_evaluates [OF assms])

theorem query_rendering_witness:
  "\<exists>ex p. run_tokens (\<lambda>w. w) [WordToken ''a'', OrToken, WordToken ''b'', NotToken, WordToken ''c'']
       (expression_new (path_new 0) (fst one_key)) (snd small_index) = Inr (ex, snd small_index) \<and>
     ex_stack ex = [IterableItem p ''((a or b) and not c)'']"
  using query_rendering [OF small_index_ready,
      of "Joined (Joined (Operand 0 (AtomWord ''a'')) Either 0 (AtomWord ''b'')) Adjacent 1 (AtomWord ''c'')"]
  by (auto simp: not_text_def)


end
