(* ===== verification/Query_Parser.thy ===== *)
theory Query_Parser
  imports Parser_Facts Query_Results
begin

text \<open>
  The grammar of queries (code/query/Query.hpp): the matchers that split the text of a query into tokens, their
  callbacks, and the constructor of \<open>Expression\<close> that parses a text.
\<close>

section \<open>The matchers\<close>

datatype query_call = WordCall | NotCall | AndCall | OrCall | BracketCall | ExpressionCall

definition char_matcher :: "char \<Rightarrow> query_call matcher" where
  "char_matcher c = MChar (Some [c]) None"

definition blankspace :: "query_call matcher" where
  "blankspace = MOr (map char_matcher [CHR '' '', CHR 0x09, CHR 0x0D, CHR 0x0A]) None None"

definition blankspaces :: "query_call matcher" where
  "blankspaces = MRepeat blankspace 0 0 0 None None"

definition operator_matcher :: "(bstring \<Rightarrow> bstring) \<Rightarrow> bstring \<Rightarrow> char \<Rightarrow> query_call matcher" where
  "operator_matcher lower word letter = MOr [MWord True (lower word) 0 None, char_matcher letter] None None"

definition seperator_matcher :: "query_call matcher" where
  "seperator_matcher =
     MOr (map char_matcher [CHR '' '', CHR 0x09, CHR 0x0D, CHR 0x0A, CHR ''+'', CHR ''|'', CHR ''!'', CHR ''('', CHR '')'',
       CHR ''$'', CHR '';'']) None None"

definition word_character :: "query_call matcher" where
  "word_character = MNot seperator_matcher None"

definition query_word :: "query_call matcher" where
  "query_word = MCapture (MRepeat word_character 1 0 0 None None) [] [''and'', ''or'', ''not''] None"

definition token_matcher :: "(bstring \<Rightarrow> bstring) \<Rightarrow> query_call matcher" where
  "token_matcher lower =
     MOr [MInvoke query_word WordCall None,
          MInvoke (operator_matcher lower ''not'' (CHR ''!'')) NotCall None,
          MInvoke (operator_matcher lower ''and'' (CHR ''+'')) AndCall None,
          MInvoke (operator_matcher lower ''or'' (CHR ''|'')) OrCall None,
          MInvoke (MAnd [char_matcher (CHR ''(''), MLoad ExpressionCall None None, char_matcher (CHR '')'')] 0 None)
            BracketCall None] None None"

definition token_and_blankspace :: "(bstring \<Rightarrow> bstring) \<Rightarrow> query_call matcher" where
  "token_and_blankspace lower = MAnd [token_matcher lower, blankspaces] 0 None"

definition tokens_matcher :: "(bstring \<Rightarrow> bstring) \<Rightarrow> query_call matcher" where
  "tokens_matcher lower = MRepeat (token_and_blankspace lower) 1 0 0 None None"

definition expression_matcher :: "(bstring \<Rightarrow> bstring) \<Rightarrow> query_call matcher" where
  "expression_matcher lower =
     MGroup (MAnd [blankspaces, tokens_matcher lower, MOptional (char_matcher (CHR ''$'')) None] 0 None) [] None"

section \<open>The callbacks\<close>

text \<open>
  What the callbacks push, as tokens. The word is the value of the match; the bracketed expression is the item of
  \<open>_loadOnDemand2\<close>, and its own callbacks have pushed onto its own stack.
\<close>

function call_tokens :: "query_call call list \<Rightarrow> query_token list" where
  "call_tokens [] = []"
| "call_tokens ((name, m) # calls) =
     (case name of
        WordCall \<Rightarrow> [WordToken (matched_value m)]
      | NotCall \<Rightarrow> [NotToken]
      | AndCall \<Rightarrow> [AndToken]
      | OrCall \<Rightarrow> [OrToken]
      | BracketCall \<Rightarrow>
          (case m of
             MAnd [_, MLoad _ (Some (MGroup _ inner _)) _, _] _ _ \<Rightarrow> [Bracketed (call_tokens inner)]
           | _ \<Rightarrow> [])
      | ExpressionCall \<Rightarrow> []) @ call_tokens calls"
  by pat_completeness auto
termination by (relation "measure (size_list (size_prod (\<lambda>name. 0) size))") auto

text \<open>
  \<open>Expression::success\<close> looks at the stack. The code has pushed its items while the text was read; what is on the stack
  depends on the tokens and not on the database \<open>f\<close>, so the tokens are run when the expression ends.
\<close>

definition expression_accepts ::
    "(bstring \<Rightarrow> bstring) \<Rightarrow> path \<Rightarrow> path \<Rightarrow> db_file \<Rightarrow> query_call call list \<Rightarrow> bool" where
  "expression_accepts lower words bounds f calls =
     (case run_tokens lower (call_tokens calls) (expression_new words bounds) f of
        Inl e \<Rightarrow> False
      | Inr (ex, f) \<Rightarrow> expression_success ex)"

definition query_grammar :: "(bstring \<Rightarrow> bstring) \<Rightarrow> path \<Rightarrow> path \<Rightarrow> db_file \<Rightarrow> query_call grammar" where
  "query_grammar lower words bounds f =
     \<lparr>on_demand = (\<lambda>name. expression_matcher lower), accepts = expression_accepts lower words bounds f, lower_case = lower\<rparr>"

text \<open>The tokens of a text, or \<open>NoMatch\<close>; \<open>None\<close> when the depth of the calls did not suffice.\<close>

definition parse_tokens ::
    "(bstring \<Rightarrow> bstring) \<Rightarrow> path \<Rightarrow> path \<Rightarrow> db_file \<Rightarrow> nat \<Rightarrow> bstring \<Rightarrow> query_token list option option" where
  "parse_tokens lower words bounds f n s =
     do { (r, m, _) \<leftarrow> parse (query_grammar lower words bounds f) n (expression_matcher lower) s;
          Some (case m of
                  MGroup _ calls _ \<Rightarrow> if r = Some True then Some (call_tokens calls) else None
                | _ \<Rightarrow> None) }"

end
