(* ===== verification/Query_Tokens.thy ===== *)
theory Query_Tokens
  imports Query_Parser
begin

text \<open>
  What the matchers of a query do at every character: blanks, words, operators and the token matcher, which runs words,
  operators and brackets side by side until the first of them succeeds.
\<close>

section \<open>Characters and operators\<close>

lemma result_char [simp]: "result (char_matcher c) = None"
  by (simp add: char_matcher_def)

lemma or_chars:
  "\<exists>ms item. or_step g (map char_matcher cs) u (\<exists>c \<in> set cs. u = [c]) ms item [] \<and>
     (item \<noteq> None \<longleftrightarrow> (\<exists>c \<in> set cs. u = [c]))"
proof (induction cs)
  case Nil
  then show ?case using or_step_Nil by fastforce
next
  case (Cons c cs)
  have step: "step g (char_matcher c) u (u = [c]) (MChar (Some [c]) (Some (u = [c]))) []"
    using step_char [of g "Some [c]" u] by (auto simp: char_matcher_def eq_commute)
  show ?case
  proof (cases "u = [c]")
    case True
    have "or_step g (char_matcher c # map char_matcher cs) u True (MChar (Some [c]) (Some True) # map char_matcher cs) (Some 0) []"
      by (rule or_step_found) (use step True in simp_all)
    then show ?thesis using True by fastforce
  next
    case False
    obtain ms item where rest: "or_step g (map char_matcher cs) u (\<exists>c \<in> set cs. u = [c]) ms item []"
      "item \<noteq> None \<longleftrightarrow> (\<exists>c \<in> set cs. u = [c])" using Cons.IH by (elim exE conjE) (rule that)
    have "or_step g (char_matcher c # map char_matcher cs) u (u = [c] \<or> (\<exists>c \<in> set cs. u = [c]))
        (MChar (Some [c]) (Some (u = [c])) # ms) (map_option Suc item) ([] @ [])"
      by (rule or_step_next [OF step _ _ rest(1)]) (use False in simp_all)
    then have "or_step g (map char_matcher (c # cs)) u (\<exists>d \<in> set (c # cs). u = [d])
        (MChar (Some [c]) (Some (u = [c])) # ms) (map_option Suc item) []" by simp
    moreover have "map_option Suc item \<noteq> None \<longleftrightarrow> (\<exists>d \<in> set (c # cs). u = [d])" using False rest(2) by simp
    ultimately show ?thesis by (intro exI conjI)
  qed
qed

lemma step_chars:
  "\<exists>m. step g (MOr (map char_matcher cs) None None) u (\<exists>c \<in> set cs. u = [c]) m [] \<and> result m = Some (\<exists>c \<in> set cs. u = [c])"
proof -
  obtain ms item where "or_step g (map char_matcher cs) u (\<exists>c \<in> set cs. u = [c]) ms item []"
    "item \<noteq> None \<longleftrightarrow> (\<exists>c \<in> set cs. u = [c])" using or_chars [of g cs u] by (elim exE conjE) (rule that)
  note found = step_or [OF this(1)] this(2)
  have "result (MOr ms item (if item \<noteq> None then Some True else if \<not> (\<exists>c \<in> set cs. u = [c]) then Some False else None)) =
      Some (\<exists>c \<in> set cs. u = [c])" using found(2) by (cases item) auto
  with found(1) show ?thesis by (intro exI conjI)
qed

lemma eof_chars: "\<exists>m. match_eof g (MOr (map char_matcher cs) None None) = (m, []) \<and> result m = Some False"
proof -
  have "\<exists>ms. or_eof g (map char_matcher cs) = (None, ms, [])"
    by (induction cs) (auto simp: char_matcher_def once_def)
  then show ?thesis by auto
qed

definition is_blank :: "bstring \<Rightarrow> bool" where
  "is_blank u \<longleftrightarrow> u \<in> {[CHR '' ''], [CHR 0x09], [CHR 0x0D], [CHR 0x0A]}"

definition ends_query_word :: "bstring \<Rightarrow> bool" where
  "ends_query_word u \<longleftrightarrow> is_blank u \<or> u \<in> {''+'', ''|'', ''!'', ''('', '')'', ''$'', '';''}"

lemma step_blankspace: "\<exists>m. step g blankspace u (is_blank u) m [] \<and> result m = Some (is_blank u)"
  using step_chars [of g "[CHR '' '', CHR 0x09, CHR 0x0D, CHR 0x0A]" u] by (auto simp: blankspace_def is_blank_def)

lemma step_seperator: "\<exists>m. step g seperator_matcher u (ends_query_word u) m [] \<and> result m = Some (ends_query_word u)"
proof -
  let ?cs = "[CHR '' '', CHR 0x09, CHR 0x0D, CHR 0x0A, CHR ''+'', CHR ''|'', CHR ''!'', CHR ''('', CHR '')'', CHR ''$'', CHR '';'']"
  have "(\<exists>c \<in> set ?cs. u = [c]) = ends_query_word u" by (auto simp: ends_query_word_def is_blank_def)
  with step_chars [of g ?cs u] show ?thesis unfolding seperator_matcher_def by simp
qed

section \<open>Blanks\<close>

definition blanks :: "nat \<Rightarrow> query_call matcher" where
  "blanks k = MRepeat blankspace 0 0 k (if k = 0 then None else Some blankspace) None"

lemma blanks_0: "blankspaces = blanks 0"
  by (simp add: blankspaces_def blanks_def)

lemma result_blanks [simp]: "result (blanks k) = None"
  by (simp add: blanks_def blankspace_def)

lemma blanks_item: "(case (if k = 0 then None else Some x) of None \<Rightarrow> x | Some m \<Rightarrow> m) = x"
  by simp

lemma step_blanks:
  assumes "is_blank u"
  shows "step g (blanks k) u True (blanks (k + 1)) []"
proof -
  obtain m where m: "step g blankspace u True m []" "result m = Some True" using step_blankspace [of g u] assms by auto
  have "step g (MRepeat blankspace 0 0 k (if k = 0 then None else Some blankspace) None) u True
      (MRepeat blankspace 0 0 (k + 1) (Some blankspace) None) []"
    by (rule step_repeat(1)) (use m in \<open>simp_all add: blanks_item\<close>)
  then show ?thesis by (simp add: blanks_def)
qed

lemma step_blanks_end:
  assumes "\<not> is_blank u"
  shows "\<exists>m. step g (blanks k) u False m [] \<and> result m = Some True"
proof -
  obtain m where m: "step g blankspace u False m []" "result m = Some False" using step_blankspace [of g u] assms by auto
  have "step g (MRepeat blankspace 0 0 k (if k = 0 then None else Some blankspace) None) u False
      (MRepeat blankspace 0 0 k (Some m) (Some (0 \<le> k))) []"
    by (rule step_repeat(2)) (use m in \<open>simp_all add: blanks_item\<close>)
  then show ?thesis by (auto simp: blanks_def)
qed

lemma eof_blanks: "\<exists>m. match_eof g (blanks k) = (m, []) \<and> result m = Some True"
proof -
  obtain m where "match_eof g blankspace = (m, [])" "result m = Some False"
    using eof_chars [of g "[CHR '' '', CHR 0x09, CHR 0x0D, CHR 0x0A]"] by (auto simp: blankspace_def)
  moreover have "result blankspace = None" by (simp add: blankspace_def)
  ultimately show ?thesis by (auto simp: blanks_def once_def)
qed

section \<open>Words\<close>

definition word_state :: "nat \<Rightarrow> bstring \<Rightarrow> query_call matcher" where
  "word_state k v =
     MCapture (MRepeat word_character 1 0 k (if k = 0 then None else Some word_character) None) v [''and'', ''or'', ''not''] None"

lemma word_state_0: "query_word = word_state 0 []"
  by (simp add: query_word_def word_state_def)

lemma result_word_state [simp]: "result (word_state k v) = None"
  by (simp add: word_state_def word_character_def seperator_matcher_def)

lemma step_word_char:
  assumes "\<not> ends_query_word u"
  shows "step g (word_state k v) u True (word_state (k + 1) (v @ u)) []"
proof -
  obtain m where m: "step g seperator_matcher u False m []" "result m = Some False" using step_seperator [of g u] assms by auto
  have not: "step g word_character u True (MNot m (Some True)) []"
    using step_not [OF m(1)] m(2) by (simp add: word_character_def)
  have "step g (MRepeat word_character 1 0 k (if k = 0 then None else Some word_character) None) u True
      (MRepeat word_character 1 0 (k + 1) (Some word_character) None) []"
    by (rule step_repeat(1) [where m = "MNot m (Some True)"]) (use not in \<open>simp_all add: blanks_item\<close>)
  from step_capture [OF this] show ?thesis
    by (simp add: word_state_def word_character_def seperator_matcher_def)
qed

lemma step_word_end:
  assumes "ends_query_word u"
  shows "\<exists>m. step g (word_state k v) u False m [] \<and> matched_value m = v \<and>
    result m = Some (1 \<le> k \<and> v \<notin> {''and'', ''or'', ''not''})"
proof -
  obtain m where m: "step g seperator_matcher u True m []" "result m = Some True" using step_seperator [of g u] assms by auto
  have not: "step g word_character u False (MNot m (Some False)) []"
    using step_not [OF m(1)] m(2) by (simp add: word_character_def)
  have "step g (MRepeat word_character 1 0 k (if k = 0 then None else Some word_character) None) u False
      (MRepeat word_character 1 0 k (Some (MNot m (Some False))) (Some (1 \<le> k))) []"
    by (rule step_repeat(2) [where m = "MNot m (Some False)"]) (use not in \<open>simp_all add: blanks_item\<close>)
  from step_capture [OF this, of v "[''and'', ''or'', ''not'']"] show ?thesis
    by (auto simp: word_state_def word_character_def seperator_matcher_def)
qed

lemma eof_word:
  assumes "v \<notin> {''and'', ''or'', ''not''}"
  shows "\<exists>m. match_eof g (word_state (k + 1) v) = (m, []) \<and> matched_value m = v \<and> result m = Some True"
proof -
  let ?cs = "[CHR '' '', CHR 0x09, CHR 0x0D, CHR 0x0A, CHR ''+'', CHR ''|'', CHR ''!'', CHR ''('', CHR '')'', CHR ''$'', CHR '';'']"
  obtain m where "match_eof g seperator_matcher = (m, [])" "result m = Some False"
    using eof_chars [of g ?cs] unfolding seperator_matcher_def by blast
  moreover have "result seperator_matcher = None" by (simp add: seperator_matcher_def)
  ultimately show ?thesis using assms by (simp add: word_state_def word_character_def once_def match_eof_with_def)
qed

section \<open>Operators\<close>

lemma match_bytes_prefix:
  "i < length w \<Longrightarrow> match_bytes w i cs n = (k, j) \<Longrightarrow>
     (k = n + length cs \<longleftrightarrow> prefix cs (drop i w)) \<and> (prefix cs (drop i w) \<longrightarrow> j = i + length cs)"
proof (induction cs arbitrary: i n)
  case (Cons c cs)
  have drop: "drop i w = w ! i # drop (i + 1) w" using Cons.prems(1) by (simp add: Cons_nth_drop_Suc)
  show ?case
  proof (cases "c = w ! i \<and> i + 1 \<noteq> length w")
    case True
    then have "match_bytes w (i + 1) cs (n + 1) = (k, j)" "i + 1 < length w" using Cons.prems by (simp_all add: drop)
    with Cons.IH [of "i + 1" "n + 1"] True show ?thesis by (simp add: drop)
  next
    case False
    with Cons.prems show ?thesis by (auto simp: drop split: if_splits)
  qed
qed simp

lemma word_match_prefix:
  assumes "i < length w"
  shows "fst (word_match_char w i cs) \<longleftrightarrow> prefix cs (drop i w)"
    and "prefix cs (drop i w) \<Longrightarrow> snd (word_match_char w i cs) = i + length cs"
  using match_bytes_prefix [OF assms, of cs 0] by (auto simp: word_match_char_def Let_def split: prod.splits)

text \<open>An operator after the text \<open>d\<close>, in lower case: waiting for the rest of its word, or failed.\<close>

definition op_waits :: "bstring \<Rightarrow> char \<Rightarrow> bstring \<Rightarrow> query_call matcher \<Rightarrow> bool" where
  "op_waits w c d m \<longleftrightarrow> (\<exists>x. m = MOr [MWord True w (length d) None, x] None None \<and>
     (x = char_matcher c \<or> result x = Some False))"

definition op_at :: "bstring \<Rightarrow> char \<Rightarrow> bstring \<Rightarrow> query_call matcher \<Rightarrow> bool" where
  "op_at w c d m \<longleftrightarrow> (if strict_prefix d w then op_waits w c d m else result m = Some False)"

lemma op_waits_result: "op_waits w c d m \<Longrightarrow> result m = None"
  by (auto simp: op_waits_def)

lemma step_op_letter:
  assumes "u \<noteq> [c]" and "x = char_matcher c \<or> result x = Some False"
  shows "\<exists>x'. or_step g [x] u False [x'] None [] \<and> result x' = Some False"
proof (cases "result x = Some False")
  case True
  then show ?thesis using or_step_failed [OF True or_step_Nil] by auto
next
  case False
  with assms(2) have x: "x = char_matcher c" by simp
  have "step g x u False (MChar (Some [c]) (Some False)) []"
    using step_char [of g "Some [c]" u] assms(1) by (auto simp: x char_matcher_def)
  from or_step_next [OF this _ _ or_step_Nil] show ?thesis by (auto simp: x)
qed

lemma step_op:
  assumes "op_waits w c d m" and "strict_prefix d w" and "u \<noteq> [c]"
  shows "\<exists>m'. step g m u (prefix (d @ lower_case g u) w) m' [] \<and>
    (if d @ lower_case g u = w then result m' = Some True else op_at w c (d @ lower_case g u) m')"
proof -
  obtain x where m: "m = MOr [MWord True w (length d) None, x] None None" "x = char_matcher c \<or> result x = Some False"
    using assms(1) by (auto simp: op_waits_def)
  obtain r where w: "w = d @ r" "r \<noteq> []" using assms(2) by (auto elim: strict_prefixE')
  let ?L = "lower_case g u"
  have at: "length d < length w" using w by simp
  note word = word_match_prefix [OF at, of ?L]
  have pre: "prefix ?L (drop (length d) w) \<longleftrightarrow> prefix (d @ ?L) w" by (simp add: w(1))
  obtain x' where letter: "or_step g [x] u False [x'] None []" "result x' = Some False"
    using step_op_letter [OF assms(3) m(2)] by blast
  show ?thesis
  proof (cases "prefix (d @ ?L) w")
    case False
    then have "word_match g True w (length d) None u = (False, MWord True w (snd (word_match_char w (length d) ?L)) (Some False), [])"
      using word(1) pre by (cases "word_match_char w (length d) ?L") (simp add: word_match_def)
    from or_step_next [OF step_word [OF this] _ _ letter(1)] have
      "or_step g [MWord True w (length d) None, x] u False
         [MWord True w (snd (word_match_char w (length d) ?L)) (Some False), x'] None []" by simp
    from step_or [OF this] False show ?thesis by (auto simp: m(1) op_at_def strict_prefix_def)
  next
    case True
    have full: "length (d @ ?L) = length w \<longleftrightarrow> d @ ?L = w" using True by (auto simp: prefix_def)
    have match: "word_match g True w (length d) None u =
        (True, MWord True w (length (d @ ?L)) (if d @ ?L = w then Some True else None), [])"
      using word pre True full by (cases "word_match_char w (length d) ?L") (auto simp: word_match_def)
    show ?thesis
    proof (cases "d @ ?L = w")
      case eq: True
      from or_step_found [OF step_word [OF match], of "[x]"] eq have
        "or_step g [MWord True w (length d) None, x] u True [MWord True w (length (d @ ?L)) (Some True), x] (Some 0) []" by simp
      from step_or [OF this] True eq show ?thesis by (auto simp: m(1))
    next
      case ne: False
      from or_step_next [OF step_word [OF match] _ _ letter(1)] ne have
        "or_step g [MWord True w (length d) None, x] u True [MWord True w (length (d @ ?L)) None, x'] None []" by simp
      note step = step_or [OF this]
      have "op_waits w c (d @ ?L) (MOr [MWord True w (length (d @ ?L)) None, x'] None None)"
        using letter(2) by (simp add: op_waits_def)
      with step True ne show ?thesis by (intro exI [of _ "MOr [MWord True w (length (d @ ?L)) None, x'] None None"])
        (simp add: m(1) op_at_def strict_prefix_def)
    qed
  qed
qed

section \<open>Tokens\<close>

text \<open>What the parser relies on: the lower case of the operators and of ASCII brackets is the text itself.\<close>

definition plain_grammar :: "query_call grammar \<Rightarrow> bool" where
  "plain_grammar g \<longleftrightarrow> (\<forall>w \<in> {''and'', ''or'', ''not''}. lower_case g w = w) \<and>
     (\<forall>c \<in> set ''andort()''. lower_case g [c] = [c]) \<and> (\<forall>name. on_demand g name = expression_matcher (lower_case g))"

definition bracket_matcher :: "query_call matcher" where
  "bracket_matcher =
     MInvoke (MAnd [char_matcher (CHR ''(''), MLoad ExpressionCall None None, char_matcher (CHR '')'')] 0 None) BracketCall None"

text \<open>The token matcher after \<open>k\<close> characters of a word: the text so far is \<open>v\<close>, and \<open>d\<close> in lower case.\<close>

definition op_invoke :: "query_call \<Rightarrow> query_call matcher \<Rightarrow> query_call matcher" where
  "op_invoke name m = MInvoke m name (result m)"

definition token_at :: "nat \<Rightarrow> bstring \<Rightarrow> bstring \<Rightarrow> query_call matcher \<Rightarrow> bool" where
  "token_at k v d m \<longleftrightarrow> (\<exists>x y z b.
     m = MOr [MInvoke (word_state k v) WordCall None, op_invoke NotCall x, op_invoke AndCall y, op_invoke OrCall z, b]
       None None \<and>
     op_at ''not'' (CHR ''!'') d x \<and> op_at ''and'' (CHR ''+'') d y \<and> op_at ''or'' (CHR ''|'') d z \<and>
     (if k = 0 then b = bracket_matcher else result b = Some False))"

lemma result_op_invoke [simp]: "result (op_invoke name m) = result m"
  by (simp add: op_invoke_def)

lemma token_atI:
  "op_at ''not'' (CHR ''!'') d x \<Longrightarrow> op_at ''and'' (CHR ''+'') d y \<Longrightarrow> op_at ''or'' (CHR ''|'') d z \<Longrightarrow> result b = Some False \<Longrightarrow>
     token_at (k + 1) v d
       (MOr [MInvoke (word_state (k + 1) v) WordCall None, op_invoke NotCall x, op_invoke AndCall y, op_invoke OrCall z, b]
         None None)"
  unfolding token_at_def by simp blast

lemma token_at_result: "token_at k v d m \<Longrightarrow> result m = None"
  by (auto simp: token_at_def)

lemma token_at_start:
  assumes "plain_grammar g"
  shows "token_at 0 [] [] (token_matcher (lower_case g))"
proof -
  have op: "op_at w c [] (operator_matcher (lower_case g) w c)" if "w \<in> {''and'', ''or'', ''not''}" for w c
    using assms that by (auto simp: op_at_def op_waits_def operator_matcher_def plain_grammar_def)
  have "op_invoke name (operator_matcher (lower_case g) w c) = MInvoke (operator_matcher (lower_case g) w c) name None" for name w c
    by (simp add: op_invoke_def operator_matcher_def)
  then show ?thesis using op [of "''not''"] op [of "''and''"] op [of "''or''"] unfolding token_at_def
    by - (rule exI [of _ "operator_matcher (lower_case g) ''not'' (CHR ''!'')"],
      rule exI [of _ "operator_matcher (lower_case g) ''and'' (CHR ''+'')"],
      rule exI [of _ "operator_matcher (lower_case g) ''or'' (CHR ''|'')"],
      rule exI [of _ bracket_matcher], simp add: token_matcher_def word_state_0 bracket_matcher_def)
qed

lemma step_op_invoke:
  assumes "op_waits w c d m" and "strict_prefix d w" and "u \<noteq> [c]"
  shows "\<exists>ok m'. step g (op_invoke name m) u ok (op_invoke name m') (if d @ lower_case g u = w then [(name, m')] else []) \<and>
    (if d @ lower_case g u = w then ok \<and> result m' = Some True else op_at w c (d @ lower_case g u) m')"
proof -
  obtain m' where m': "step g m u (prefix (d @ lower_case g u) w) m' []"
    "if d @ lower_case g u = w then result m' = Some True else op_at w c (d @ lower_case g u) m'"
    using step_op [OF assms] by blast
  have none: "result m = None" by (rule op_waits_result [OF assms(1)])
  have "result m' = Some True \<longleftrightarrow> d @ lower_case g u = w"
    using m'(2) by (auto simp: op_at_def dest: op_waits_result split: if_splits)
  with step_invoke [OF m'(1) none, of name] none
  have "step g (op_invoke name m) u (prefix (d @ lower_case g u) w) (op_invoke name m')
      (if d @ lower_case g u = w then [(name, m')] else [])" by (simp add: op_invoke_def split: if_splits)
  with m'(2) show ?thesis by (intro exI conjI) auto
qed

text \<open>One operator in the loop of the token: it goes on or has failed.\<close>

lemma or_step_op:
  assumes "op_at w c d m" and "u \<noteq> [c]" and "d @ lower_case g u \<noteq> w" and "or_step g ms u ok ms' item calls"
  shows "\<exists>ok' m'. or_step g (op_invoke name m # ms) u (ok' \<or> ok) (op_invoke name m' # ms') (map_option Suc item) calls \<and>
    op_at w c (d @ lower_case g u) m'"
proof (cases "strict_prefix d w")
  case True
  then have waits: "op_waits w c d m" using assms(1) by (simp add: op_at_def)
  obtain ok' m' where step: "step g (op_invoke name m) u ok' (op_invoke name m') []" "op_at w c (d @ lower_case g u) m'"
    using step_op_invoke [OF waits True assms(2), of g name] assms(3) by auto
  have "result (op_invoke name m') \<noteq> Some True" using step(2) by (auto simp: op_at_def dest: op_waits_result split: if_splits)
  from or_step_next [OF step(1) _ this assms(4)] op_waits_result [OF waits] step(2) show ?thesis by auto
next
  case False
  then have "result m = Some False" using assms(1) by (simp add: op_at_def)
  moreover have "\<not> strict_prefix (d @ lower_case g u) w" using False by (auto simp: strict_prefix_def prefix_def)
  ultimately show ?thesis using or_step_failed [of "op_invoke name m" g ms u ok ms' item calls] assms(4)
    by (intro exI [of _ False] exI [of _ m]) (simp add: op_at_def)
qed

lemma or_step_op_found:
  assumes "op_at w c d m" and "u \<noteq> [c]" and "strict_prefix d w" and "d @ lower_case g u = w"
  shows "\<exists>m'. or_step g (op_invoke name m # ms) u True (op_invoke name m' # ms) (Some 0) [(name, m')]"
proof -
  have waits: "op_waits w c d m" using assms(1,3) by (simp add: op_at_def)
  obtain ok m' where "step g (op_invoke name m) u ok (op_invoke name m') [(name, m')]" "ok" "result m' = Some True"
    using step_op_invoke [OF waits assms(3,2), of g name] assms(4) by auto
  with or_step_found [of g "op_invoke name m" u ok "op_invoke name m'"] op_waits_result [OF waits] show ?thesis by auto
qed

lemma step_bracket_other:
  assumes "u \<noteq> ''(''"
  shows "\<exists>m. step g bracket_matcher u False m [] \<and> result m = Some False"
proof -
  let ?ms = "[char_matcher (CHR ''(''), MLoad ExpressionCall None None, char_matcher (CHR '')'')] :: query_call matcher list"
  have "step g (?ms ! 0) u False (MChar (Some ''('') (Some False)) []"
    using step_char [of g "Some ''(''" u] assms by (auto simp: char_matcher_def)
  then have and_step: "step g (MAnd ?ms 0 None) u False (MAnd (?ms[0 := MChar (Some ''('') (Some False)]) 0 (Some False)) []"
    by (rule step_and(1)) simp_all
  show ?thesis using step_invoke [OF and_step, of BracketCall] by (auto simp: bracket_matcher_def)
qed

text \<open>A character of a word.\<close>

lemma step_token_char:
  assumes "token_at k v d m" and "\<not> ends_query_word u" and "d @ lower_case g u \<notin> {''and'', ''or'', ''not''}"
  shows "\<exists>m'. step g m u True m' [] \<and> token_at (k + 1) (v @ u) (d @ lower_case g u) m'"
proof -
  obtain x y z b where m: "m = MOr [MInvoke (word_state k v) WordCall None, op_invoke NotCall x, op_invoke AndCall y,
      op_invoke OrCall z, b] None None"
    and ops: "op_at ''not'' (CHR ''!'') d x" "op_at ''and'' (CHR ''+'') d y" "op_at ''or'' (CHR ''|'') d z"
    and b: "if k = 0 then b = bracket_matcher else result b = Some False"
    using assms(1) unfolding token_at_def by blast
  let ?d = "d @ lower_case g u"
  have u: "u \<noteq> ''!''" "u \<noteq> ''+''" "u \<noteq> ''|''" "u \<noteq> ''(''" using assms(2) by (auto simp: ends_query_word_def)
  have d: "?d \<noteq> ''not''" "?d \<noteq> ''and''" "?d \<noteq> ''or''" using assms(3) by simp_all
  have "\<exists>b' ok. or_step g [b] u ok [b'] None [] \<and> result b' = Some False"
  proof (cases "k = 0")
    case True
    then obtain b' where "step g b u False b' []" "result b' = Some False" "result b = None"
      using step_bracket_other [OF u(4), of g] b by (auto simp: bracket_matcher_def)
    with or_step_next [OF this(1) this(3) _ or_step_Nil] show ?thesis by auto
  next
    case False
    with b have "result b = Some False" by simp
    moreover from or_step_failed [OF this or_step_Nil] have "or_step g [b] u False [b] None []" by simp
    ultimately show ?thesis by blast
  qed
  then obtain b' ok where b': "or_step g [b] u ok [b'] None []" "result b' = Some False" by blast
  obtain ok z' where z': "or_step g [op_invoke OrCall z, b] u ok [op_invoke OrCall z', b'] None []"
    "op_at ''or'' (CHR ''|'') ?d z'" using or_step_op [OF ops(3) u(3) d(3) b'(1), of OrCall] by auto
  obtain ok y' where y': "or_step g [op_invoke AndCall y, op_invoke OrCall z, b] u ok
      [op_invoke AndCall y', op_invoke OrCall z', b'] None []" "op_at ''and'' (CHR ''+'') ?d y'"
    using or_step_op [OF ops(2) u(2) d(2) z'(1), of AndCall] by auto
  obtain ok x' where x': "or_step g [op_invoke NotCall x, op_invoke AndCall y, op_invoke OrCall z, b] u ok
      [op_invoke NotCall x', op_invoke AndCall y', op_invoke OrCall z', b'] None []" "op_at ''not'' (CHR ''!'') ?d x'"
    using or_step_op [OF ops(1) u(1) d(1) y'(1), of NotCall] by auto
  have word: "step g (MInvoke (word_state k v) WordCall None) u True (MInvoke (word_state (k + 1) (v @ u)) WordCall None) []"
    using step_invoke [OF step_word_char [OF assms(2)] result_word_state, of g k v WordCall] by simp
  from or_step_next [OF word _ _ x'(1)]
  have "or_step g [MInvoke (word_state k v) WordCall None, op_invoke NotCall x, op_invoke AndCall y, op_invoke OrCall z, b] u True
      [MInvoke (word_state (k + 1) (v @ u)) WordCall None, op_invoke NotCall x', op_invoke AndCall y', op_invoke OrCall z', b']
      None []" by simp
  from step_or [OF this] token_atI [OF x'(2) y'(2) z'(2) b'(2), of k "v @ u"] show ?thesis unfolding m by auto
qed

text \<open>The ends of a token: a word at a character that does not belong to it, or at the end of the text.\<close>

lemma step_token_word_end:
  assumes "token_at k v d m" and "0 < k" and "v \<notin> {''and'', ''or'', ''not''}" and "ends_query_word u"
  shows "\<exists>m' w. step g m u False m' [(WordCall, w)] \<and> result m' = Some True \<and> matched_value w = v"
proof -
  obtain ms where m: "m = MOr (MInvoke (word_state k v) WordCall None # ms) None None"
    using assms(1) unfolding token_at_def by blast
  obtain w where w: "step g (word_state k v) u False w []" "matched_value w = v" "result w = Some True"
    using step_word_end [OF assms(4), of g k v] assms(2,3) by auto
  have "step g (MInvoke (word_state k v) WordCall None) u False (MInvoke w WordCall (Some True)) [(WordCall, w)]"
    using step_invoke [OF w(1) result_word_state, of WordCall] w(3) by simp
  from or_step_found [OF this] have "or_step g (MInvoke (word_state k v) WordCall None # ms) u False
      (MInvoke w WordCall (Some True) # ms) (Some 0) [(WordCall, w)]" by simp
  from step_or [OF this] have
    "step g m u False (MOr (MInvoke w WordCall (Some True) # ms) (Some 0) (Some True)) [(WordCall, w)]" by (simp add: m)
  then show ?thesis using w(2) by - (intro exI conjI, assumption, simp_all)
qed

lemma eof_token_word:
  assumes "token_at k v d m" and "0 < k" and "v \<notin> {''and'', ''or'', ''not''}"
  shows "\<exists>m' w. match_eof g m = (m', [(WordCall, w)]) \<and> result m' = Some True \<and> matched_value w = v"
proof -
  obtain ms where m: "m = MOr (MInvoke (word_state k v) WordCall None # ms) None None"
    using assms(1) unfolding token_at_def by blast
  obtain j where k: "k = j + 1" using assms(2) by (cases k) simp_all
  obtain w where w: "match_eof g (word_state k v) = (w, [])" "matched_value w = v" "result w = Some True"
    using eof_word [OF assms(3), of g j] unfolding k by blast
  then show ?thesis by (simp add: m match_eof_with_def once_def)
qed

text \<open>The last character of an operator.\<close>

fun operator_call :: "bstring \<Rightarrow> query_call" where
  "operator_call w = (if w = ''not'' then NotCall else if w = ''and'' then AndCall else OrCall)"

lemma step_token_op:
  assumes "token_at k v d m" and "\<not> ends_query_word u" and "d @ lower_case g u = w" and "w \<in> {''and'', ''or'', ''not''}"
    and "strict_prefix d w"
  shows "\<exists>m' x. step g m u True m' [(operator_call w, x)] \<and> result m' = Some True"
proof -
  obtain x y z b where m: "m = MOr [MInvoke (word_state k v) WordCall None, op_invoke NotCall x, op_invoke AndCall y,
      op_invoke OrCall z, b] None None"
    and ops: "op_at ''not'' (CHR ''!'') d x" "op_at ''and'' (CHR ''+'') d y" "op_at ''or'' (CHR ''|'') d z"
    using assms(1) unfolding token_at_def by blast
  have u: "u \<noteq> ''!''" "u \<noteq> ''+''" "u \<noteq> ''|''" using assms(2) by (auto simp: ends_query_word_def)
  have "\<exists>ms i x. or_step g [op_invoke NotCall x', op_invoke AndCall y, op_invoke OrCall z, b] u True ms (Some i)
      [(operator_call w, x)]" if "x' = x" for x'
  proof -
    consider "w = ''not''" | "w = ''and''" | "w = ''or''" using assms(4) by blast
    then show ?thesis
    proof cases
      case 1
      with or_step_op_found [OF ops(1) u(1), of g NotCall "[op_invoke AndCall y, op_invoke OrCall z, b]"] assms(3,5) that
      show ?thesis by auto
    next
      case 2
      then obtain y' where "or_step g [op_invoke AndCall y, op_invoke OrCall z, b] u True
          [op_invoke AndCall y', op_invoke OrCall z, b] (Some 0) [(AndCall, y')]"
        using or_step_op_found [OF ops(2) u(2), of g AndCall "[op_invoke OrCall z, b]"] assms(3,5) by auto
      from or_step_op [OF ops(1) u(1) _ this, of NotCall] 2 assms(3) that show ?thesis by auto
    next
      case 3
      then obtain z' where "or_step g [op_invoke OrCall z, b] u True [op_invoke OrCall z', b] (Some 0) [(OrCall, z')]"
        using or_step_op_found [OF ops(3) u(3), of g OrCall "[b]"] assms(3,5) by auto
      from or_step_op [OF ops(2) u(2) _ this, of AndCall] 3 assms(3) obtain y' where
        "or_step g [op_invoke AndCall y, op_invoke OrCall z, b] u True
           [op_invoke AndCall y', op_invoke OrCall z', b] (Some 1) [(OrCall, z')]" by auto
      from or_step_op [OF ops(1) u(1) _ this, of NotCall] 3 assms(3) that show ?thesis by auto
    qed
  qed
  then obtain ms i c where found: "or_step g [op_invoke NotCall x, op_invoke AndCall y, op_invoke OrCall z, b] u True ms (Some i)
      [(operator_call w, c)]" by blast
  have word: "step g (MInvoke (word_state k v) WordCall None) u True (MInvoke (word_state (k + 1) (v @ u)) WordCall None) []"
    using step_invoke [OF step_word_char [OF assms(2)] result_word_state, of g k v WordCall] by simp
  from or_step_next [OF word _ _ found] have "or_step g [MInvoke (word_state k v) WordCall None, op_invoke NotCall x,
      op_invoke AndCall y, op_invoke OrCall z, b] u True (MInvoke (word_state (k + 1) (v @ u)) WordCall None # ms) (Some (Suc i))
      [(operator_call w, c)]" by simp
  from step_or [OF this] have "step g m u True (MOr (MInvoke (word_state (k + 1) (v @ u)) WordCall None # ms) (Some (Suc i))
      (Some True)) [(operator_call w, c)]" by (simp add: m)
  then show ?thesis by (intro exI conjI) (assumption, simp)
qed

text \<open>A bracketed expression, its matcher \<open>item\<close> created with the first character behind the bracket.\<close>

definition bracket_open :: "query_call matcher option \<Rightarrow> query_call matcher \<Rightarrow> bool" where
  "bracket_open item m \<longleftrightarrow> (\<exists>ms x. m =
     MOr (ms @ [MInvoke (MAnd [x, MLoad ExpressionCall item None, char_matcher (CHR '')'')] 1 None) BracketCall None]) None None \<and>
     (\<forall>m \<in> set ms. result m = Some False))"

lemma or_step_failed_all:
  "\<forall>m \<in> set ms. result m = Some False \<Longrightarrow> or_step g [b] u ok [b'] item calls \<Longrightarrow>
     \<exists>i. or_step g (ms @ [b]) u ok (ms @ [b']) i calls \<and> (i = None \<longleftrightarrow> item = None)"
proof (induction ms)
  case (Cons m ms)
  then obtain i where i: "or_step g (ms @ [b]) u ok (ms @ [b']) i calls" "i = None \<longleftrightarrow> item = None" by auto
  have "result m = Some False" using Cons.prems(1) by simp
  from or_step_failed [OF this i(1)] i(2) show ?case by auto
qed auto

lemma step_token_open:
  assumes "plain_grammar g"
  shows "\<exists>m. step g (token_matcher (lower_case g)) ''('' True m [] \<and> bracket_open None m"
proof -
  obtain x y z where m: "token_matcher (lower_case g) = MOr [MInvoke (word_state 0 []) WordCall None, op_invoke NotCall x,
      op_invoke AndCall y, op_invoke OrCall z, bracket_matcher] None None"
    and ops: "op_at ''not'' (CHR ''!'') [] x" "op_at ''and'' (CHR ''+'') [] y" "op_at ''or'' (CHR ''|'') [] z"
    using token_at_start [OF assms] unfolding token_at_def by auto
  let ?in = "MLoad ExpressionCall None None" and ?close = "char_matcher (CHR '')'')"
  have lower: "[] @ lower_case g ''('' = ''(''" using assms by (auto simp: plain_grammar_def)
  have failed: "result n = Some False" if "op_at w c ''('' n" "w \<in> {''and'', ''or'', ''not''}" for w c n
    using that by (auto simp: op_at_def)
  have "step g ([char_matcher (CHR ''(''), ?in, ?close] ! 0) ''('' True (MChar (Some ''('') (Some True)) []"
    using step_char [of g "Some ''(''" "''(''"] by (simp add: char_matcher_def)
  from step_and(4) [OF this] have "step g (MAnd [char_matcher (CHR ''(''), ?in, ?close] 0 None) ''('' True
      (MAnd [MChar (Some ''('') (Some True), ?in, ?close] 1 None) []" by simp
  from step_invoke [OF this, of BracketCall] have bracket: "step g bracket_matcher ''('' True
      (MInvoke (MAnd [MChar (Some ''('') (Some True), ?in, ?close] 1 None) BracketCall None) []"
    by (simp add: bracket_matcher_def)
  let ?b = "MInvoke (MAnd [MChar (Some ''('') (Some True), ?in, ?close] 1 None) BracketCall None"
  from or_step_next [OF bracket _ _ or_step_Nil] have b: "or_step g [bracket_matcher] ''('' True [?b] None []"
    by (simp add: bracket_matcher_def)
  obtain z' where z': "or_step g [op_invoke OrCall z, bracket_matcher] ''('' True [op_invoke OrCall z', ?b] None []"
    "op_at ''or'' (CHR ''|'') ''('' z'" using or_step_op [OF ops(3) _ _ b, of OrCall] lower by auto
  obtain y' where y': "or_step g [op_invoke AndCall y, op_invoke OrCall z, bracket_matcher] ''('' True
      [op_invoke AndCall y', op_invoke OrCall z', ?b] None []" "op_at ''and'' (CHR ''+'') ''('' y'"
    using or_step_op [OF ops(2) _ _ z'(1), of AndCall] lower by auto
  obtain x' where x': "or_step g [op_invoke NotCall x, op_invoke AndCall y, op_invoke OrCall z, bracket_matcher] ''('' True
      [op_invoke NotCall x', op_invoke AndCall y', op_invoke OrCall z', ?b] None []" "op_at ''not'' (CHR ''!'') ''('' x'"
    using or_step_op [OF ops(1) _ _ y'(1), of NotCall] lower by auto
  obtain w where w: "step g (word_state 0 []) ''('' False w []" "result w = Some False"
    using step_word_end [of "''(''" g 0 "[]"] by (auto simp: ends_query_word_def)
  have word: "step g (MInvoke (word_state 0 []) WordCall None) ''('' False (MInvoke w WordCall (Some False)) []"
    using step_invoke [OF w(1) result_word_state, of WordCall] w(2) by simp
  from or_step_next [OF word _ _ x'(1)] have "or_step g [MInvoke (word_state 0 []) WordCall None, op_invoke NotCall x,
      op_invoke AndCall y, op_invoke OrCall z, bracket_matcher] ''('' True
      ([MInvoke w WordCall (Some False), op_invoke NotCall x', op_invoke AndCall y', op_invoke OrCall z'] @ [?b]) None []" by simp
  from step_or [OF this] have "step g (token_matcher (lower_case g)) ''('' True (MOr ([MInvoke w WordCall (Some False),
      op_invoke NotCall x', op_invoke AndCall y', op_invoke OrCall z'] @ [?b]) None None) []" by (simp add: m)
  moreover have "\<forall>m \<in> set [MInvoke w WordCall (Some False), op_invoke NotCall x', op_invoke AndCall y', op_invoke OrCall z'].
      result m = Some False" using failed x'(2) y'(2) z'(2) by simp
  ultimately show ?thesis unfolding bracket_open_def by blast
qed

text \<open>No token begins with a closing bracket.\<close>

lemma step_token_close:
  assumes "plain_grammar g"
  shows "\<exists>m. step g (token_matcher (lower_case g)) '')'' False m [] \<and> result m = Some False"
proof -
  obtain x y z where m: "token_matcher (lower_case g) = MOr [MInvoke (word_state 0 []) WordCall None, op_invoke NotCall x,
      op_invoke AndCall y, op_invoke OrCall z, bracket_matcher] None None"
    and ops: "op_at ''not'' (CHR ''!'') [] x" "op_at ''and'' (CHR ''+'') [] y" "op_at ''or'' (CHR ''|'') [] z"
    using token_at_start [OF assms] unfolding token_at_def by auto
  have lower: "lower_case g '')'' = '')''" using assms by (auto simp: plain_grammar_def)
  have failing: "\<exists>m'. or_step g (op_invoke name n # ms) '')'' False (m' # ms') (map_option Suc item) calls"
    if "op_at w c [] n" "w \<in> {''and'', ''or'', ''not''}" "c \<noteq> CHR '')''" "or_step g ms '')'' False ms' item calls"
    for w c n name ms ms' item calls
  proof -
    have waits: "op_waits w c [] n" "strict_prefix [] w" "'')'' \<noteq> [c]" using that(1-3) by (auto simp: op_at_def)
    have "\<not> prefix ([] @ lower_case g '')'') w" "[] @ lower_case g '')'' \<noteq> w" using that(2) by (auto simp: lower)
    with step_op [OF waits, of g] obtain n' where n': "step g n '')'' False n' []" "result n' \<noteq> Some True"
      by (auto simp: op_at_def dest: op_waits_result split: if_splits)
    from step_invoke [OF n'(1) op_waits_result [OF waits(1)], of name] n'(2)
    have "step g (op_invoke name n) '')'' False (op_invoke name n') []"
      by (simp add: op_invoke_def op_waits_result [OF waits(1)])
    from or_step_next [OF this _ _ that(4)] n'(2) op_waits_result [OF waits(1)] show ?thesis by auto
  qed
  obtain b where "step g bracket_matcher '')'' False b []" "result b = Some False"
    using step_bracket_other [of "'')''" g] by auto
  from or_step_next [OF this(1) _ _ or_step_Nil] this(2)
  have "or_step g [bracket_matcher] '')'' False [b] None []" by (simp add: bracket_matcher_def)
  from failing [OF ops(3) _ _ this, of OrCall] obtain z' where
    z': "or_step g [op_invoke OrCall z, bracket_matcher] '')'' False [z', b] None []" by auto
  from failing [OF ops(2) _ _ z', of AndCall] obtain y' where
    y': "or_step g [op_invoke AndCall y, op_invoke OrCall z, bracket_matcher] '')'' False [y', z', b] None []" by auto
  from failing [OF ops(1) _ _ y', of NotCall] obtain x' where
    x': "or_step g [op_invoke NotCall x, op_invoke AndCall y, op_invoke OrCall z, bracket_matcher] '')'' False
      [x', y', z', b] None []" by auto
  obtain w where w: "step g (word_state 0 []) '')'' False w []" "result w = Some False"
    using step_word_end [of "'')''" g 0 "[]"] by (auto simp: ends_query_word_def)
  have word: "step g (MInvoke (word_state 0 []) WordCall None) '')'' False (MInvoke w WordCall (Some False)) []"
    using step_invoke [OF w(1) result_word_state, of WordCall] w(2) by simp
  from or_step_next [OF word _ _ x'] have "or_step g [MInvoke (word_state 0 []) WordCall None, op_invoke NotCall x,
      op_invoke AndCall y, op_invoke OrCall z, bracket_matcher] '')'' False
      [MInvoke w WordCall (Some False), x', y', z', b] None []" by simp
  from step_or [OF this] have "step g (token_matcher (lower_case g)) '')'' False
      (MOr [MInvoke w WordCall (Some False), x', y', z', b] None (Some False)) []" by (simp add: m)
  then show ?thesis by - (intro exI conjI, assumption, simp)
qed

end
