(* ===== verification/Query_Text.thy ===== *)
theory Query_Text
  imports Query_Tokens
begin

text \<open>
  From the text of a query to its tokens: every text of words, operators and brackets, with a blank between two tokens, is
  read as those tokens, provided that no word begins with an operator.
\<close>

section \<open>Texts of tokens\<close>

datatype text_token = TextWord "bstring list" | TextNot | TextAnd | TextOr | TextBracket "text_token list"

fun token_of :: "text_token \<Rightarrow> query_token" where
  "token_of (TextWord us) = WordToken (concat us)"
| "token_of TextNot = NotToken"
| "token_of TextAnd = AndToken"
| "token_of TextOr = OrToken"
| "token_of (TextBracket ts) = Bracketed (map token_of ts)"

fun token_chars :: "text_token \<Rightarrow> bstring list" and text_chars :: "text_token list \<Rightarrow> bstring list" where
  "token_chars (TextWord us) = us"
| "token_chars TextNot = [''n'', ''o'', ''t'']"
| "token_chars TextAnd = [''a'', ''n'', ''d'']"
| "token_chars TextOr = [''o'', ''r'']"
| "token_chars (TextBracket ts) = ''('' # text_chars ts @ ['')'']"
| "text_chars [] = []"
| "text_chars [t] = token_chars t"
| "text_chars (t # ts) = token_chars t @ '' '' # text_chars ts"

definition query_word_ok :: "(bstring \<Rightarrow> bstring) \<Rightarrow> bstring list \<Rightarrow> bool" where
  "query_word_ok lower us \<longleftrightarrow> us \<noteq> [] \<and> (\<forall>u \<in> set us. utf8_char u \<and> \<not> ends_query_word u) \<and>
     concat us \<notin> {''and'', ''or'', ''not''} \<and>
     (\<forall>w \<in> {''and'', ''or'', ''not''}. \<not> prefix w (concat (map lower us)))"

text \<open>\<open>ok\<close> says which token lists an expression accepts.\<close>

fun text_token_ok :: "(bstring \<Rightarrow> bstring) \<Rightarrow> (query_token list \<Rightarrow> bool) \<Rightarrow> text_token \<Rightarrow> bool" where
  "text_token_ok lower ok (TextWord us) = query_word_ok lower us"
| "text_token_ok lower ok (TextBracket ts) =
     (ts \<noteq> [] \<and> list_all (text_token_ok lower ok) ts \<and> ok (map token_of ts))"
| "text_token_ok lower ok _ = True"

section \<open>Runs\<close>

inductive takes :: "'a grammar \<Rightarrow> 'a matcher \<Rightarrow> bstring list \<Rightarrow> 'a matcher \<Rightarrow> 'a call list \<Rightarrow> bool" for g where
  takes_Nil: "takes g m [] m []"
| takes_Cons: "step g m u True m' calls \<Longrightarrow> result m' = None \<Longrightarrow> takes g m' us m'' later \<Longrightarrow>
    takes g m (u # us) m'' (calls @ later)"

inductive_cases takes_NilE: "takes g m [] m' calls"
inductive_cases takes_ConsE: "takes g m (u # us) m' calls"

lemma takes_append:
  "takes g m us m' calls \<Longrightarrow> takes g m' vs m'' later \<Longrightarrow> takes g m (us @ vs) m'' (calls @ later)"
  by (induction rule: takes.induct) (auto intro: takes_Cons)

lemma takes_one: "step g m u True m' calls \<Longrightarrow> result m' = None \<Longrightarrow> takes g m [u] m' calls"
  using takes_Cons [OF _ _ takes_Nil] by fastforce

lemma takes_word:
  "token_at k v d m \<Longrightarrow> \<forall>u \<in> set us. \<not> ends_query_word u \<Longrightarrow>
     \<forall>w \<in> {''and'', ''or'', ''not''}. \<not> prefix w (d @ concat (map (lower_case g) us)) \<Longrightarrow>
     \<exists>m'. takes g m us m' [] \<and> token_at (k + length us) (v @ concat us) (d @ concat (map (lower_case g) us)) m'"
proof (induction us arbitrary: k v d m)
  case Nil
  then show ?case by (auto intro: takes_Nil)
next
  case (Cons u us)
  have "prefix (d @ lower_case g u) (d @ concat (map (lower_case g) (u # us)))" by simp
  then have "d @ lower_case g u \<notin> {''and'', ''or'', ''not''}" using Cons.prems(3) by blast
  then obtain m' where m': "step g m u True m' []" "token_at (k + 1) (v @ u) (d @ lower_case g u) m'"
    using step_token_char [OF Cons.prems(1)] Cons.prems(2) by (metis list.set_intros(1))
  have "\<exists>m''. takes g m' us m'' [] \<and>
      token_at (k + 1 + length us) ((v @ u) @ concat us) ((d @ lower_case g u) @ concat (map (lower_case g) us)) m''"
    by (rule Cons.IH [OF m'(2)]) (use Cons.prems in simp_all)
  then obtain m'' where "takes g m' us m'' []"
      "token_at (k + 1 + length us) ((v @ u) @ concat us) ((d @ lower_case g u) @ concat (map (lower_case g) us)) m''" by blast
  then show ?case using takes_Cons [OF m'(1) token_at_result [OF m'(2)]] by force
qed

lemma call_tokens_append: "call_tokens (xs @ ys) = call_tokens xs @ call_tokens ys"
  by (induction xs rule: call_tokens.induct) simp_all

section \<open>A token and the blanks behind it\<close>

definition idle :: "query_call grammar \<Rightarrow> query_call matcher \<Rightarrow> bool" where
  "idle g tb \<longleftrightarrow> result tb = None \<and> (\<forall>u. \<not> is_blank u \<longrightarrow> (\<exists>m. step g tb u False m [] \<and> result m = Some True))"

text \<open>The token is complete but for the call of \<open>pend\<close>: it ends at a blank, at a bracket, or with the text.\<close>

definition token_ready :: "query_call grammar \<Rightarrow> query_call matcher \<Rightarrow> query_token list \<Rightarrow> bool" where
  "token_ready g tb pend \<longleftrightarrow> result tb = None \<and>
     (\<exists>tb' calls. step g tb '' '' True tb' calls \<and> call_tokens calls = pend \<and> idle g tb') \<and>
     (\<exists>m calls. step g tb '')'' False m calls \<and> result m = Some True \<and> call_tokens calls = pend) \<and>
     (\<exists>m calls. match_eof g tb = (m, calls) \<and> result m = Some True \<and> call_tokens calls = pend)"

definition behind :: "query_call matcher \<Rightarrow> nat \<Rightarrow> query_call matcher" where
  "behind m k = MAnd [m, blanks k] 1 None"

lemma result_behind [simp]: "result (behind m k) = None"
  by (simp add: behind_def)

lemma step_behind_blank: "step g (behind m k) '' '' True (behind m (k + 1)) []"
proof -
  have "step g ([m, blanks k] ! 1) '' '' True (blanks (k + 1)) []"
    using step_blanks [of "'' ''" g k] by (simp add: is_blank_def)
  from step_and(2) [OF this] show ?thesis by (simp add: behind_def)
qed

lemma step_behind_end:
  assumes "\<not> is_blank u"
  shows "\<exists>m'. step g (behind m k) u False m' [] \<and> result m' = Some True"
proof -
  obtain b where b: "step g ([m, blanks k] ! 1) u False b []" "result b = Some True"
    using step_blanks_end [OF assms, of g k] by auto
  from step_and(3) [OF b(1) _ b(2)] have "step g (behind m k) u False (MAnd [m, b] 2 (Some True)) []"
    by (simp add: behind_def numeral_2_eq_2)
  then show ?thesis by - (intro exI conjI, assumption, simp)
qed

lemma behind_idle: "idle g (behind m k)"
  using step_behind_end by (simp add: idle_def)

lemma eof_behind: "\<exists>m'. match_eof g (behind m k) = (m', []) \<and> result m' = Some True"
  using eof_blanks [of g k] by (auto simp: behind_def)

lemma behind_ready: "token_ready g (behind m k) []"
proof -
  have "\<exists>m'. step g (behind m k) '')'' False m' [] \<and> result m' = Some True" by (rule step_behind_end) (simp add: is_blank_def)
  then show ?thesis using step_behind_blank [of g m k] behind_idle eof_behind [of g m k] unfolding token_ready_def by force
qed

lemma word_ready:
  assumes "token_at k v d m" and "0 < k" and "v \<notin> {''and'', ''or'', ''not''}"
  shows "token_ready g (MAnd [m, blanks 0] 0 None) [WordToken v]"
proof -
  have at_end: "\<exists>m' w. step g ([m, blanks 0] ! 0) u False m' [(WordCall, w)] \<and> result m' = Some True \<and> matched_value w = v"
    if "ends_query_word u" for u using step_token_word_end [OF assms that, of g] by simp
  obtain m1 w1 where m1: "step g ([m, blanks 0] ! 0) '' '' False m1 [(WordCall, w1)]" "result m1 = Some True" "matched_value w1 = v"
    using at_end [of "'' ''"] by (auto simp: ends_query_word_def is_blank_def)
  have "step g (MAnd ([m, blanks 0][0 := m1]) (0 + 1) None) '' '' True (behind m1 1) []"
    using step_behind_blank [of g m1 0] by (simp add: behind_def)
  from step_and_pass [OF m1(1) _ m1(2) _ this]
  have blank: "step g (MAnd [m, blanks 0] 0 None) '' '' True (behind m1 1) [(WordCall, w1)]" by simp
  obtain m2 w2 where m2: "step g ([m, blanks 0] ! 0) '')'' False m2 [(WordCall, w2)]" "result m2 = Some True" "matched_value w2 = v"
    using at_end [of "'')''"] by (auto simp: ends_query_word_def)
  obtain m3 where m3: "step g (behind m2 0) '')'' False m3 []" "result m3 = Some True"
    using step_behind_end [of "'')''" g m2 0] by (auto simp: is_blank_def)
  then have "step g (MAnd ([m, blanks 0][0 := m2]) (0 + 1) None) '')'' False m3 []" by (simp add: behind_def)
  from step_and_pass [OF m2(1) _ m2(2) _ this]
  have bracket: "step g (MAnd [m, blanks 0] 0 None) '')'' False m3 [(WordCall, w2)]" by simp
  obtain m4 w4 where m4: "match_eof g m = (m4, [(WordCall, w4)])" "result m4 = Some True" "matched_value w4 = v"
    using eof_token_word [OF assms, of g] by blast
  obtain b where b: "match_eof g (blanks 0) = (b, [])" "result b = Some True" using eof_blanks by blast
  have "match_eof g (MAnd [m, blanks 0] 0 None) = (MAnd [m4, b] 0 (Some True), [(WordCall, w4)])"
    using m4 b by simp
  moreover have "call_tokens [(WordCall, w)] = [WordToken (matched_value w)]" for w by simp
  ultimately show ?thesis using blank bracket m1(3) m2(3) m3(2) m4(3) behind_idle unfolding token_ready_def by force
qed

section \<open>One token\<close>

abbreviation new_token :: "query_call grammar \<Rightarrow> query_call matcher" where
  "new_token g \<equiv> MAnd [token_matcher (lower_case g), blanks 0] 0 None"

lemma takes_in_token: "takes g m us m' calls \<Longrightarrow> takes g (MAnd [m, blanks 0] 0 None) us (MAnd [m', blanks 0] 0 None) calls"
proof (induction rule: takes.induct)
  case (takes_Nil m)
  show ?case by (rule takes.takes_Nil)
next
  case (takes_Cons m u m' calls us m'' later)
  then have "step g ([m, blanks 0] ! 0) u True m' calls" by simp
  from step_and(2) [OF this] takes_Cons.hyps(2) have "step g (MAnd [m, blanks 0] 0 None) u True (MAnd [m', blanks 0] 0 None) calls"
    by simp
  then show ?case by (rule takes.takes_Cons) (use takes_Cons.IH in simp_all)
qed

lemma step_token_done:
  assumes "step g m u True m' calls" and "result m' = Some True"
  shows "step g (MAnd [m, blanks 0] 0 None) u True (behind m' 0) calls"
proof -
  have "step g ([m, blanks 0] ! 0) u True m' calls" using assms(1) by simp
  from step_and(4) [OF this] assms(2) show ?thesis by (simp add: behind_def)
qed

definition reads_token :: "query_call grammar \<Rightarrow> bstring list \<Rightarrow> query_token \<Rightarrow> bool" where
  "reads_token g us t \<longleftrightarrow> us \<noteq> [] \<and> \<not> is_blank (hd us) \<and>
     (\<exists>tb calls pend. takes g (new_token g) us tb calls \<and> call_tokens calls @ pend = [t] \<and> token_ready g tb pend)"

lemma reads_word:
  assumes "plain_grammar g" and "query_word_ok (lower_case g) us"
  shows "reads_token g us (WordToken (concat us))"
proof -
  have us: "us \<noteq> []" "\<forall>u \<in> set us. \<not> ends_query_word u" "concat us \<notin> {''and'', ''or'', ''not''}"
    "\<forall>w \<in> {''and'', ''or'', ''not''}. \<not> prefix w ([] @ concat (map (lower_case g) us))"
    using assms(2) by (simp_all add: query_word_ok_def)
  obtain m where m: "takes g (token_matcher (lower_case g)) us m []" "token_at (length us) (concat us) (concat (map (lower_case g) us)) m"
    using takes_word [OF token_at_start [OF assms(1)] us(2,4)] by auto
  have "0 < length us" using us(1) by simp
  note ready = word_ready [OF m(2) this us(3), of g]
  have "\<not> is_blank (hd us)" using us(1,2) by (cases us) (auto simp: ends_query_word_def)
  moreover have "call_tokens [] @ [WordToken (concat us)] = [WordToken (concat us)]" by simp
  ultimately show ?thesis using us(1) takes_in_token [OF m(1)] ready unfolding reads_token_def by blast
qed

lemma reads_operator:
  assumes "plain_grammar g" and "w \<in> {''and'', ''or'', ''not''}"
    and "concat (map (lower_case g) us) @ lower_case g u = w" and "lower_case g u \<noteq> []"
    and "\<forall>v \<in> set (us @ [u]). \<not> ends_query_word v"
    and "\<forall>w \<in> {''and'', ''or'', ''not''}. \<not> prefix w (concat (map (lower_case g) us))"
    and "\<And>m. call_tokens [(operator_call w, m)] = [t]"
  shows "reads_token g (us @ [u]) t"
proof -
  have prefixes: "\<forall>w \<in> {''and'', ''or'', ''not''}. \<not> prefix w ([] @ concat (map (lower_case g) us))" using assms(6) by simp
  have us: "\<forall>u \<in> set us. \<not> ends_query_word u" "\<not> ends_query_word u" using assms(5) by simp_all
  obtain m where m: "takes g (token_matcher (lower_case g)) us m []" "token_at (length us) (concat us) (concat (map (lower_case g) us)) m"
    using takes_word [OF token_at_start [OF assms(1)] us(1) prefixes] by auto
  have "strict_prefix (concat (map (lower_case g) us)) w" using assms(3,4) by (auto simp: strict_prefix_def prefix_def)
  then obtain m' x where m': "step g m u True m' [(operator_call w, x)]" "result m' = Some True"
    using step_token_op [OF m(2) us(2) assms(3,2)] by blast
  have "takes g (new_token g) (us @ [u]) (behind m' 0) ([] @ [(operator_call w, x)])"
    by (rule takes_append [OF takes_in_token [OF m(1)] takes_one [OF step_token_done [OF m']]]) simp
  moreover have "call_tokens [(operator_call w, x)] = [t]" using assms(2,7) by auto
  moreover have "\<not> is_blank (hd (us @ [u]))" using assms(5) by (cases us) (auto simp: ends_query_word_def)
  ultimately show ?thesis using behind_ready unfolding reads_token_def by force
qed

lemma reads_operators:
  assumes "plain_grammar g"
  shows "reads_token g [''n'', ''o'', ''t''] NotToken" and "reads_token g [''a'', ''n'', ''d''] AndToken"
    and "reads_token g [''o'', ''r''] OrToken"
proof -
  have lower: "lower_case g ''n'' = ''n''" "lower_case g ''o'' = ''o''" "lower_case g ''t'' = ''t''" "lower_case g ''a'' = ''a''"
    "lower_case g ''d'' = ''d''" "lower_case g ''r'' = ''r''" using assms by (auto simp: plain_grammar_def)
  note simps = lower ends_query_word_def is_blank_def
  have "reads_token g ([''n'', ''o''] @ [''t'']) NotToken"
    by (rule reads_operator [OF assms, of "''not''"]) (simp_all add: simps)
  then show "reads_token g [''n'', ''o'', ''t''] NotToken" by simp
  have "reads_token g ([''a'', ''n''] @ [''d'']) AndToken"
    by (rule reads_operator [OF assms, of "''and''"]) (simp_all add: simps)
  then show "reads_token g [''a'', ''n'', ''d''] AndToken" by simp
  have "reads_token g ([''o''] @ [''r'']) OrToken"
    by (rule reads_operator [OF assms, of "''or''"]) (simp_all add: simps)
  then show "reads_token g [''o'', ''r''] OrToken" by simp
qed

section \<open>An expression\<close>

text \<open>The expression within a token \<open>tb\<close>, after \<open>k\<close> tokens and the calls so far.\<close>

abbreviation dollar :: "query_call matcher" where
  "dollar \<equiv> MOptional (char_matcher (CHR ''$'')) None"

definition within ::
    "query_call grammar \<Rightarrow> query_call matcher \<Rightarrow> nat \<Rightarrow> query_call matcher \<Rightarrow> query_call call list \<Rightarrow> query_call matcher" where
  "within g b k tb calls = MGroup (MAnd [b, MRepeat (new_token g) 1 0 k (Some tb) None, dollar] 1 None) calls None"

lemma result_within [simp]: "result (within g b k tb calls) = None"
  by (simp add: within_def)

lemma step_within:
  assumes "step g tb u True tb' later" and "result tb' = None"
  shows "step g (within g b k tb calls) u True (within g b k tb' (calls @ later)) []"
proof -
  have "step g (MRepeat (new_token g) 1 0 k (Some tb) None) u True (MRepeat (new_token g) 1 0 k (Some tb') None) later"
    by (rule step_repeat(3)) (use assms in simp_all)
  then have "step g ([b, MRepeat (new_token g) 1 0 k (Some tb) None, dollar] ! 1) u True
      (MRepeat (new_token g) 1 0 k (Some tb') None) later" by simp
  from step_and(2) [OF this] assms(2) have "step g (MAnd [b, MRepeat (new_token g) 1 0 k (Some tb) None, dollar] 1 None) u True
      (MAnd [b, MRepeat (new_token g) 1 0 k (Some tb') None, dollar] 1 None) later" by simp
  from step_group [OF this, of calls] show ?thesis by (simp add: within_def)
qed

lemma takes_within: "takes g tb us tb' later \<Longrightarrow> takes g (within g b k tb calls) us (within g b k tb' (calls @ later)) []"
proof (induction arbitrary: calls rule: takes.induct)
  case (takes_Nil m)
  show ?case by (simp add: takes.takes_Nil)
next
  case (takes_Cons m u m' now us m'' later)
  from takes_Cons.IH [of "calls @ now"] takes.takes_Cons [OF step_within [OF takes_Cons.hyps(1,2), of b k calls]] show ?case
    by simp
qed

text \<open>An expression that waits for a token: at its beginning, or after blanks.\<close>

definition waiting :: "query_call grammar \<Rightarrow> query_call matcher \<Rightarrow> query_token list \<Rightarrow> bool" where
  "waiting g m ts \<longleftrightarrow> (\<forall>u tb later. \<not> is_blank u \<longrightarrow> step g (new_token g) u True tb later \<longrightarrow> result tb = None \<longrightarrow>
     (\<exists>b k calls. step g m u True (within g b k tb (calls @ later)) [] \<and> call_tokens calls = ts))"

lemma waitingD:
  "waiting g m ts \<Longrightarrow> \<not> is_blank u \<Longrightarrow> step g (new_token g) u True tb later \<Longrightarrow> result tb = None \<Longrightarrow>
     \<exists>b k calls. step g m u True (within g b k tb (calls @ later)) [] \<and> call_tokens calls = ts"
  unfolding waiting_def by blast

lemma waiting_new: "waiting g (expression_matcher (lower_case g)) []"
  unfolding waiting_def
proof (intro allI impI)
  fix u tb later
  assume u: "\<not> is_blank u" and tb: "step g (new_token g) u True tb later" "result tb = None"
  let ?tokens = "MRepeat (new_token g) 1 0 0 None None"
  obtain b where b: "step g ([blanks 0, ?tokens, dollar] ! 0) u False b []" "result b = Some True"
    using step_blanks_end [OF u, of g 0] by auto
  have "step g ?tokens u True (MRepeat (new_token g) 1 0 0 (Some tb) None) later"
    by (rule step_repeat(3)) (use tb in simp_all)
  then have "step g ([b, ?tokens, dollar] ! 1) u True (MRepeat (new_token g) 1 0 0 (Some tb) None) later" by simp
  from step_and(2) [OF this] tb(2) have "step g (MAnd ([blanks 0, ?tokens, dollar][0 := b]) (0 + 1) None) u True
      (MAnd [b, MRepeat (new_token g) 1 0 0 (Some tb) None, dollar] 1 None) later" by simp
  from step_and_pass [OF b(1) _ b(2) _ this] have "step g (MAnd [blanks 0, ?tokens, dollar] 0 None) u True
      (MAnd [b, MRepeat (new_token g) 1 0 0 (Some tb) None, dollar] 1 None) later" by simp
  from step_group [OF this, of "[]"] have "step g (expression_matcher (lower_case g)) u True (within g b 0 tb ([] @ later)) []"
    by (simp add: within_def expression_matcher_def tokens_matcher_def token_and_blankspace_def blanks_0)
  then show "\<exists>b k calls. step g (expression_matcher (lower_case g)) u True (within g b k tb (calls @ later)) [] \<and>
      call_tokens calls = []" by (intro exI [of _ "[]"] exI conjI) simp_all
qed

lemma waiting_idle:
  assumes "idle g tb"
  shows "waiting g (within g b k tb calls) (call_tokens calls)"
  unfolding waiting_def
proof (intro allI impI)
  fix u tb' later
  assume u: "\<not> is_blank u" and tb': "step g (new_token g) u True tb' later" "result tb' = None"
  let ?tokens = "\<lambda>k tb. MRepeat (new_token g) 1 0 k (Some tb) None"
  obtain m where "step g tb u False m []" "result m = Some True" using assms u unfolding idle_def by blast
  then have "step g (?tokens k tb) u False (?tokens (k + 1) (new_token g)) []"
    by - (rule step_repeat(1) [where m = m], simp_all)
  then have again: "step g ([b, ?tokens k tb, dollar] ! 1) u False (?tokens (k + 1) (new_token g)) []" by simp
  have new: "result (?tokens (k + 1) (new_token g)) = None" by simp
  have "step g (?tokens (k + 1) (new_token g)) u True (?tokens (k + 1) tb') later"
    by (rule step_repeat(3)) (use tb' in simp_all)
  then have "step g ([b, ?tokens (k + 1) (new_token g), dollar] ! 1) u True (?tokens (k + 1) tb') later" by simp
  from step_and(2) [OF this] tb'(2) have "step g (MAnd ([b, ?tokens k tb, dollar][1 := ?tokens (k + 1) (new_token g)]) 1 None) u True
      (MAnd [b, ?tokens (k + 1) tb', dollar] 1 None) later" by simp
  from step_and_again [OF again _ new this] have "step g (MAnd [b, ?tokens k tb, dollar] 1 None) u True
      (MAnd [b, ?tokens (k + 1) tb', dollar] 1 None) later" by simp
  from step_group [OF this, of calls] have "step g (within g b k tb calls) u True (within g b (k + 1) tb' (calls @ later)) []"
    by (simp add: within_def)
  then show "\<exists>b' k' calls'. step g (within g b k tb calls) u True (within g b' k' tb' (calls' @ later)) [] \<and>
      call_tokens calls' = call_tokens calls" by blast
qed

text \<open>The end of an expression: it has the calls of its tokens, and the result the group gives them.\<close>

definition finished :: "query_call grammar \<Rightarrow> query_call matcher \<Rightarrow> query_token list \<Rightarrow> bool" where
  "finished g m ts \<longleftrightarrow> (\<exists>x calls. m = MGroup x calls (Some (accepts g calls)) \<and> call_tokens calls = ts)"

definition expression_ready :: "query_call grammar \<Rightarrow> query_call matcher \<Rightarrow> query_token list \<Rightarrow> bool" where
  "expression_ready g m ts \<longleftrightarrow> result m = None \<and>
     (\<exists>m'. step g m '')'' False m' [] \<and> finished g m' ts) \<and> (\<exists>m'. match_eof g m = (m', []) \<and> finished g m' ts)"

lemma within_ready:
  assumes "plain_grammar g" and "token_ready g tb pend"
  shows "expression_ready g (within g b k tb calls) (call_tokens calls @ pend)"
proof -
  let ?tokens = "\<lambda>k tb. MRepeat (new_token g) 1 0 k (Some tb) None"
  obtain m more where m: "step g tb '')'' False m more" "result m = Some True" "call_tokens more = pend"
    using assms(2) unfolding token_ready_def by blast
  have "step g (?tokens k tb) '')'' False (?tokens (k + 1) (new_token g)) more"
    by (rule step_repeat(1) [where m = m]) (use m in simp_all)
  then have again: "step g ([b, ?tokens k tb, dollar] ! 1) '')'' False (?tokens (k + 1) (new_token g)) more" by simp
  have new: "result (?tokens (k + 1) (new_token g)) = None" by simp
  obtain c where c: "step g (token_matcher (lower_case g)) '')'' False c []" "result c = Some False"
    using step_token_close [OF assms(1)] by blast
  then have "step g ([token_matcher (lower_case g), blanks 0] ! 0) '')'' False c []" by simp
  from step_and(1) [OF this] c(2) have "step g (new_token g) '')'' False (MAnd [c, blanks 0] 0 (Some False)) []" by simp
  then have "step g (?tokens (k + 1) (new_token g)) '')'' False
      (MRepeat (new_token g) 1 0 (k + 1) (Some (MAnd [c, blanks 0] 0 (Some False))) (Some (1 \<le> k + 1))) []"
    by - (rule step_repeat(2), simp_all)
  then have tokens: "step g ([b, ?tokens (k + 1) (new_token g), dollar] ! 1) '')'' False
      (MRepeat (new_token g) 1 0 (k + 1) (Some (MAnd [c, blanks 0] 0 (Some False))) (Some True)) []" by simp
  let ?done = "MRepeat (new_token g) 1 0 (k + 1) (Some (MAnd [c, blanks 0] 0 (Some False))) (Some True)"
  have "step g (char_matcher (CHR ''$'')) '')'' False (MChar (Some ''$'') (Some False)) []"
    using step_char [of g "Some ''$''" "'')''"] by (simp add: char_matcher_def)
  from step_optional [OF this] have "step g ([b, ?done, dollar] ! 2) '')'' False
      (MOptional (MChar (Some ''$'') (Some False)) (Some True)) []" by simp
  from step_and(3) [OF this] have "step g (MAnd ([b, ?tokens (k + 1) (new_token g), dollar][1 := ?done]) (1 + 1) None) '')'' False
      (MAnd [b, ?done, MOptional (MChar (Some ''$'') (Some False)) (Some True)] 3 (Some True)) []"
    by (simp add: numeral_2_eq_2 numeral_3_eq_3)
  from step_and_pass [OF tokens _ _ _ this] have "step g (MAnd ([b, ?tokens k tb, dollar][1 := ?tokens (k + 1) (new_token g)]) 1 None)
      '')'' False (MAnd [b, ?done, MOptional (MChar (Some ''$'') (Some False)) (Some True)] 3 (Some True)) []" by simp
  from step_and_again [OF again _ new this] have "step g (MAnd [b, ?tokens k tb, dollar] 1 None) '')'' False
      (MAnd [b, ?done, MOptional (MChar (Some ''$'') (Some False)) (Some True)] 3 (Some True)) more" by simp
  from step_group [OF this, of calls] have bracket: "\<exists>m'. step g (within g b k tb calls) '')'' False m' [] \<and>
      finished g m' (call_tokens calls @ pend)"
    using m(3) by (auto simp: within_def finished_def call_tokens_append)
  obtain e last where e: "match_eof g tb = (e, last)" "result e = Some True" "call_tokens last = pend"
    using assms(2) unfolding token_ready_def by blast
  have "result tb = None" using assms(2) by (simp add: token_ready_def)
  then have "match_eof g (within g b k tb calls) =
      (MGroup (MAnd [b, MRepeat (new_token g) 1 0 (k + 1) (Some e) (Some True), MOptional (MChar (Some ''$'') (Some False)) (Some True)] 1
        (Some True)) (calls @ last) (Some (accepts g (calls @ last))), [])"
    using e(1,2) by (simp add: within_def once_def match_eof_with_def char_matcher_def)
  then have "\<exists>m'. match_eof g (within g b k tb calls) = (m', []) \<and> finished g m' (call_tokens calls @ pend)"
    using e(3) by (simp add: finished_def call_tokens_append)
  with bracket show ?thesis by (simp add: expression_ready_def)
qed

section \<open>Brackets\<close>

lemma step_in_bracket:
  assumes "bracket_open item m" and "step g (case item of None \<Rightarrow> on_demand g ExpressionCall | Some e \<Rightarrow> e) u True e []"
    and "result e = None" and "case item of None \<Rightarrow> True | Some e \<Rightarrow> result e = None"
  shows "\<exists>m'. step g m u True m' [] \<and> bracket_open (Some e) m' \<and> result m' = None"
proof -
  obtain ms x where m: "m = MOr (ms @ [MInvoke (MAnd [x, MLoad ExpressionCall item None, char_matcher (CHR '')'')] 1 None)
      BracketCall None]) None None" "\<forall>m \<in> set ms. result m = Some False"
    using assms(1) unfolding bracket_open_def by blast
  let ?b = "\<lambda>item. MInvoke (MAnd [x, MLoad ExpressionCall item None, char_matcher (CHR '')'')] 1 None) BracketCall None"
  have "step g ([x, MLoad ExpressionCall item None, char_matcher (CHR '')'')] ! 1) u True (MLoad ExpressionCall (Some e) None) []"
    using step_load [OF assms(2)] by simp
  from step_and(2) [OF this] assms(3)
  have "step g (MAnd [x, MLoad ExpressionCall item None, char_matcher (CHR '')'')] 1 None) u True
      (MAnd [x, MLoad ExpressionCall (Some e) None, char_matcher (CHR '')'')] 1 None) []" by simp
  from step_invoke [OF this, of BracketCall] have "step g (?b item) u True (?b (Some e)) []" by simp
  from or_step_next [OF this _ _ or_step_Nil] have "or_step g [?b item] u True [?b (Some e)] None []" by simp
  then obtain i where i: "or_step g (ms @ [?b item]) u True (ms @ [?b (Some e)]) i []" "i = None"
    using or_step_failed_all [OF m(2)] by blast
  from step_or [OF i(1)] i(2) have "step g m u True (MOr (ms @ [?b (Some e)]) None None) []" by (simp add: m(1))
  moreover have "bracket_open (Some e) (MOr (ms @ [?b (Some e)]) None None)" using m(2) unfolding bracket_open_def by blast
  ultimately show ?thesis by - (intro exI conjI, assumption, assumption, simp)
qed

lemma takes_in_bracket:
  "takes g e us e' calls \<Longrightarrow> calls = [] \<Longrightarrow> bracket_open (Some e) m \<Longrightarrow> result e = None \<Longrightarrow>
     \<exists>m'. takes g m us m' [] \<and> bracket_open (Some e') m' \<and> result e' = None"
proof (induction arbitrary: m rule: takes.induct)
  case (takes_Nil e)
  then show ?case by (auto intro: takes.takes_Nil)
next
  case (takes_Cons e u e' calls us e'' later)
  then have "step g (case Some e of None \<Rightarrow> on_demand g ExpressionCall | Some e \<Rightarrow> e) u True e' []" by simp
  from step_in_bracket [OF takes_Cons.prems(2) this takes_Cons.hyps(2)] takes_Cons.prems(3)
  obtain m' where m': "step g m u True m' []" "bracket_open (Some e') m'" "result m' = None" by auto
  obtain m'' where "takes g m' us m'' []" "bracket_open (Some e'') m''" "result e'' = None"
    using takes_Cons.IH [OF _ m'(2) takes_Cons.hyps(2)] takes_Cons.prems(1) by auto
  with takes.takes_Cons [OF m'(1,3)] show ?case by auto
qed

lemma step_bracket_close:
  assumes "bracket_open (Some e) m" and "step g e '')'' False e' []" and "finished g e' ts" and "result e' = Some True"
  shows "\<exists>m' calls. step g m '')'' True m' calls \<and> result m' = Some True \<and> call_tokens calls = [Bracketed ts]"
proof -
  obtain ms x where m: "m = MOr (ms @ [MInvoke (MAnd [x, MLoad ExpressionCall (Some e) None, char_matcher (CHR '')'')] 1 None)
      BracketCall None]) None None" "\<forall>m \<in> set ms. result m = Some False"
    using assms(1) unfolding bracket_open_def by blast
  let ?close = "char_matcher (CHR '')'')"
  let ?all = "[x, MLoad ExpressionCall (Some e') None, MChar (Some '')'') (Some True)]"
  have "step g (MLoad ExpressionCall (Some e) None) '')'' False (MLoad ExpressionCall (Some e') None) []"
    by (rule step_load) (use assms(2) in simp)
  then have load: "step g ([x, MLoad ExpressionCall (Some e) None, ?close] ! 1) '')'' False (MLoad ExpressionCall (Some e') None) []"
    by simp
  have loaded: "result (MLoad ExpressionCall (Some e') None) = Some True" using assms(4) by simp
  have "step g ([x, MLoad ExpressionCall (Some e') None, ?close] ! 2) '')'' True (MChar (Some '')'') (Some True)) []"
    using step_char [of g "Some '')''" "'')''"] by (simp add: char_matcher_def)
  from step_and(3) [OF this] have "step g (MAnd ([x, MLoad ExpressionCall (Some e) None, ?close]
      [1 := MLoad ExpressionCall (Some e') None]) (1 + 1) None) '')'' True (MAnd ?all 3 (Some True)) []"
    by (simp add: numeral_2_eq_2 numeral_3_eq_3)
  from step_and_pass [OF load _ loaded _ this]
  have "step g (MAnd [x, MLoad ExpressionCall (Some e) None, ?close] 1 None) '')'' True (MAnd ?all 3 (Some True)) []" by simp
  from step_invoke [OF this, of BracketCall]
  have "step g (MInvoke (MAnd [x, MLoad ExpressionCall (Some e) None, ?close] 1 None) BracketCall None) '')'' True
      (MInvoke (MAnd ?all 3 (Some True)) BracketCall (Some True)) [(BracketCall, MAnd ?all 3 (Some True))]" by simp
  from or_step_found [OF this, of "[]"]
  have "or_step g [MInvoke (MAnd [x, MLoad ExpressionCall (Some e) None, ?close] 1 None) BracketCall None] '')'' True
      [MInvoke (MAnd ?all 3 (Some True)) BracketCall (Some True)] (Some 0) [(BracketCall, MAnd ?all 3 (Some True))]" by simp
  then obtain i where i: "or_step g (ms @ [MInvoke (MAnd [x, MLoad ExpressionCall (Some e) None, ?close] 1 None) BracketCall None])
      '')'' True (ms @ [MInvoke (MAnd ?all 3 (Some True)) BracketCall (Some True)]) i [(BracketCall, MAnd ?all 3 (Some True))]"
      "i \<noteq> None" using or_step_failed_all [OF m(2)] by blast
  from step_or [OF i(1)] i(2) have "step g m '')'' True (MOr (ms @ [MInvoke (MAnd ?all 3 (Some True)) BracketCall (Some True)]) i
      (Some True)) [(BracketCall, MAnd ?all 3 (Some True))]" by (simp add: m(1))
  moreover have "call_tokens [(BracketCall, MAnd ?all 3 (Some True))] = [Bracketed ts]"
    using assms(3) by (auto simp: finished_def)
  ultimately show ?thesis by - (intro exI conjI, assumption, simp_all)
qed

text \<open>A bracketed expression is read when the expression is.\<close>

definition reads_expression :: "query_call grammar \<Rightarrow> bstring list \<Rightarrow> query_token list \<Rightarrow> bool" where
  "reads_expression g us ts \<longleftrightarrow> us \<noteq> [] \<and>
     (\<exists>m. takes g (expression_matcher (lower_case g)) us m [] \<and> expression_ready g m ts)"

lemma reads_bracket:
  assumes "plain_grammar g" and "reads_expression g us ts" and "\<And>calls. call_tokens calls = ts \<Longrightarrow> accepts g calls"
  shows "reads_token g (''('' # us @ ['')'']) (Bracketed ts)"
proof -
  let ?e = "expression_matcher (lower_case g)"
  obtain e where e: "takes g ?e us e []" "expression_ready g e ts" "us \<noteq> []" using assms(2) unfolding reads_expression_def by blast
  obtain m where m: "step g (token_matcher (lower_case g)) ''('' True m []" "bracket_open None m"
    using step_token_open [OF assms(1)] by blast
  have m_none: "result m = None" using m(2) by (auto simp: bracket_open_def)
  obtain v vs where us: "us = v # vs" using e(3) by (cases us) simp_all
  obtain e1 where e1: "step g ?e v True e1 []" "result e1 = None" "takes g e1 vs e []"
    using e(1) unfolding us by (auto elim!: takes_ConsE)
  have "on_demand g ExpressionCall = ?e" using assms(1) by (simp add: plain_grammar_def)
  then have "step g (case None of None \<Rightarrow> on_demand g ExpressionCall | Some e \<Rightarrow> e) v True e1 []" using e1(1) by simp
  from step_in_bracket [OF m(2) this e1(2)] obtain m1 where
    m1: "step g m v True m1 []" "bracket_open (Some e1) m1" "result m1 = None" by auto
  obtain m2 where m2: "takes g m1 vs m2 []" "bracket_open (Some e) m2"
    using takes_in_bracket [OF e1(3) refl m1(2) e1(2)] by blast
  obtain e' where e': "step g e '')'' False e' []" "finished g e' ts" using e(2) unfolding expression_ready_def by blast
  have "result e' = Some True" using e'(2) assms(3) by (auto simp: finished_def)
  from step_bracket_close [OF m2(2) e' this] obtain m3 calls where
    m3: "step g m2 '')'' True m3 calls" "result m3 = Some True" "call_tokens calls = [Bracketed ts]" by blast
  have "takes g (token_matcher (lower_case g)) (''('' # us) m2 ([] @ [] @ [])"
    unfolding us by (rule takes.takes_Cons [OF m(1) m_none takes.takes_Cons [OF m1(1,3) m2(1)]])
  from takes_in_token [OF this] have start: "takes g (new_token g) (''('' # us) (MAnd [m2, blanks 0] 0 None) []" by simp
  have last: "takes g (MAnd [m2, blanks 0] 0 None) ['')''] (behind m3 0) calls"
    by (rule takes_one [OF step_token_done [OF m3(1,2)]]) simp
  have "takes g (new_token g) (''('' # us @ ['')'']) (behind m3 0) calls" using takes_append [OF start last] by simp
  then show ?thesis using behind_ready [of g m3 0] m3(3) unfolding reads_token_def by (force simp: is_blank_def)
qed

section \<open>A list of tokens\<close>

lemma takes_tokens:
  assumes "plain_grammar g"
  shows "ts \<noteq> [] \<Longrightarrow> \<forall>t \<in> set ts. reads_token g (token_chars t) (token_of t) \<Longrightarrow> waiting g m before \<Longrightarrow>
    \<exists>m'. takes g m (text_chars ts) m' [] \<and> expression_ready g m' (before @ map token_of ts)"
proof (induction ts arbitrary: m before)
  case (Cons t ts)
  have "reads_token g (token_chars t) (token_of t)" using Cons.prems(2) by simp
  then obtain tb calls pend where tb: "takes g (new_token g) (token_chars t) tb calls" "call_tokens calls @ pend = [token_of t]"
    "token_ready g tb pend" and chars: "token_chars t \<noteq> []" "\<not> is_blank (hd (token_chars t))"
    unfolding reads_token_def by blast
  obtain u us where us: "token_chars t = u # us" using chars(1) by (cases "token_chars t") simp_all
  obtain tb1 c1 c2 where first: "step g (new_token g) u True tb1 c1" "result tb1 = None" "takes g tb1 us tb c2" "calls = c1 @ c2"
    using tb(1) unfolding us by (auto elim: takes_ConsE)
  obtain b k c0 where start: "step g m u True (within g b k tb1 (c0 @ c1)) []" "call_tokens c0 = before"
    using waitingD [OF Cons.prems(3) _ first(1,2)] chars(2) us by auto
  have token: "takes g m (token_chars t) (within g b k tb (c0 @ calls)) []"
    using takes.takes_Cons [OF start(1) _ takes_within [OF first(3)]] by (simp add: us first(4))
  have read: "call_tokens (c0 @ calls) @ pend = before @ [token_of t]" using tb(2) start(2) by (simp add: call_tokens_append)
  show ?case
  proof (cases ts)
    case Nil
    with token read within_ready [OF assms tb(3), of b k "c0 @ calls"] show ?thesis by auto
  next
    case (Cons t' ts')
    obtain tb' c3 where blank: "step g tb '' '' True tb' c3" "call_tokens c3 = pend" "idle g tb'"
      using tb(3) unfolding token_ready_def by blast
    have "result tb' = None" using blank(3) by (simp add: idle_def)
    from step_within [OF blank(1) this, of b k "c0 @ calls"]
    have between: "takes g m (token_chars t @ ['' '']) (within g b k tb' ((c0 @ calls) @ c3)) ([] @ [])"
      by (intro takes_append [OF token] takes_one) simp_all
    have "waiting g (within g b k tb' ((c0 @ calls) @ c3)) (before @ [token_of t])"
      using waiting_idle [OF blank(3), of b k "(c0 @ calls) @ c3"] read blank(2) by (simp add: call_tokens_append)
    then obtain m' where rest: "takes g (within g b k tb' ((c0 @ calls) @ c3)) (text_chars ts) m' []"
      "expression_ready g m' ((before @ [token_of t]) @ map token_of ts)"
      using Cons.IH Cons.prems(2) Cons by force
    show ?thesis using takes_append [OF between rest(1)] rest(2) Cons by auto
  qed
qed simp

lemma reads_tokens:
  assumes "plain_grammar g" and "ts \<noteq> []" and "\<forall>t \<in> set ts. reads_token g (token_chars t) (token_of t)"
  shows "reads_expression g (text_chars ts) (map token_of ts)"
proof -
  have "text_chars ts \<noteq> []" using assms(2,3) by (cases ts rule: text_chars.cases) (auto simp: reads_token_def)
  with takes_tokens [OF assms waiting_new] show ?thesis by (simp add: reads_expression_def)
qed

lemma reads_text_token:
  assumes "plain_grammar g" and ok: "\<And>calls. accepts g calls = ok (call_tokens calls)"
  shows "text_token_ok (lower_case g) ok t \<Longrightarrow> reads_token g (token_chars t) (token_of t)"
proof (induction t)
  case (TextWord us)
  then show ?case using reads_word [OF assms(1)] by simp
next
  case (TextBracket ts)
  have "reads_expression g (text_chars ts) (map token_of ts)"
    using TextBracket by (intro reads_tokens [OF assms(1)]) (auto simp: list_all_iff)
  from reads_bracket [OF assms(1) this] show ?case using TextBracket.prems ok by simp
qed (use reads_operators [OF assms(1)] in simp_all)

section \<open>Reading a text\<close>

lemma read_takes:
  "takes g m us m' calls \<Longrightarrow> \<forall>u \<in> set us. utf8_char u \<Longrightarrow> s = p @ concat us \<Longrightarrow>
     \<exists>N. \<forall>n \<ge> N. read_loop g n m s (length p) = Some (m', length s, calls)"
proof (induction arbitrary: p rule: takes.induct)
  case (takes_Nil m)
  then show ?case by simp
next
  case (takes_Cons m u m' calls us m'' later)
  have u: "utf8_char u" "u \<noteq> []" using takes_Cons.prems(1) by (auto simp: utf8_char_def)
  have "s = p @ u @ concat us" using takes_Cons.prems(2) by simp
  note char = next_utf8_char [OF u(1) this]
  obtain N where N: "\<forall>n \<ge> N. read_loop g n m' s (length (p @ u)) = Some (m'', length s, later)"
    using takes_Cons.IH [of "p @ u"] takes_Cons.prems by auto
  obtain k where k: "match_char g k m u = Some (True, m', calls)" using takes_Cons.hyps(1) by (auto simp: step_def)
  have "read_loop g n m s (length p) = Some (m'', length s, calls @ later)" if "max N k \<le> n" for n
  proof -
    have "match_char g n m u = Some (True, m', calls)" by (rule match_char_mono [OF k]) (use that in simp)
    moreover have "read_loop g n m' s (length (p @ u)) = Some (m'', length s, later)" using N that by simp
    moreover have "length p < length s" using takes_Cons.prems(2) u(2) by simp
    ultimately show ?thesis using char takes_Cons.hyps(2) by (subst read_loop.simps) simp
  qed
  then show ?case by blast
qed

lemma utf8_ascii: "(of_char c :: nat) < 128 \<Longrightarrow> utf8_char [c]"
  by (simp add: utf8_char_def expected_bytes_ascii)

lemma text_chars_utf8:
  "text_token_ok lower ok t \<Longrightarrow> \<forall>u \<in> set (token_chars t). utf8_char u"
  "list_all (text_token_ok lower ok) ts \<Longrightarrow> \<forall>u \<in> set (text_chars ts). utf8_char u"
  by (induction t and ts rule: token_chars_text_chars.induct) (auto simp: query_word_ok_def utf8_ascii)

lemma parse_text:
  assumes "plain_grammar g" and "\<And>calls. accepts g calls = ok (call_tokens calls)"
    and "ts \<noteq> []" and "list_all (text_token_ok (lower_case g) ok) ts"
  shows "\<exists>N x calls. \<forall>n \<ge> N. parse g n (expression_matcher (lower_case g)) (concat (text_chars ts)) =
      Some (Some (ok (map token_of ts)), MGroup x calls (Some (ok (map token_of ts))), []) \<and> call_tokens calls = map token_of ts"
proof -
  have "reads_expression g (text_chars ts) (map token_of ts)"
    by (rule reads_tokens [OF assms(1,3)]) (use reads_text_token [OF assms(1,2)] assms(4) in \<open>auto simp: list_all_iff\<close>)
  then obtain m where m: "takes g (expression_matcher (lower_case g)) (text_chars ts) m []" "expression_ready g m (map token_of ts)"
    unfolding reads_expression_def by blast
  obtain N where "\<forall>n \<ge> N. read_loop g n (expression_matcher (lower_case g)) (concat (text_chars ts)) 0 =
      Some (m, length (concat (text_chars ts)), [])"
    using read_takes [OF m(1) text_chars_utf8(2) [OF assms(4)], of _ "[]"] by auto
  moreover obtain x calls where "match_eof g m = (MGroup x calls (Some (accepts g calls)), [])" "call_tokens calls = map token_of ts"
    using m(2) unfolding expression_ready_def finished_def by blast
  moreover have "result m = None" using m(2) by (simp add: expression_ready_def)
  ultimately show ?thesis using assms(2) by (intro exI [of _ N] exI [of _ x] exI [of _ calls]) (simp add: parse_def)
qed

end
