(* ===== verification/Query_Search.thy ===== *)
theory Query_Search
  imports Query_Text
begin

text \<open>
  A search, from the text of a query to the identifiers it finds: the constructor \<open>Expression(path, query)\<close> and the loop over
  \<open>getPath()\<close> (code/query/Query.hpp), and the texts that are read as something else than they say.
\<close>

section \<open>The text of a query\<close>

text \<open>\<open>None\<close> when the depth did not suffice; \<open>NoMatch\<close> is the exception the constructor throws.\<close>

definition parse_query ::
    "(bstring \<Rightarrow> bstring) \<Rightarrow> path \<Rightarrow> path \<Rightarrow> db_file \<Rightarrow> nat \<Rightarrow> bstring \<Rightarrow> (query_error + pathbase \<times> db_file) option" where
  "parse_query lower words bounds f n s =
     map_option (\<lambda>ts. case ts of None \<Rightarrow> Inl NoMatch | Some ts \<Rightarrow> query_path lower words bounds ts f)
       (parse_tokens lower words bounds f n s)"

fun joint_text :: "joint \<Rightarrow> bstring" where
  "joint_text Adjacent = '' ''"
| "joint_text Both = '' and ''"
| "joint_text Either = '' or ''"

definition nots_text :: "nat \<Rightarrow> bstring" where
  "nots_text n = concat (replicate n ''not '')"

fun query_string :: "query \<Rightarrow> bstring" and atom_string :: "atom \<Rightarrow> bstring" where
  "query_string (Operand n a) = nots_text n @ atom_string a"
| "query_string (Joined q j n a) = query_string q @ joint_text j @ nots_text n @ atom_string a"
| "atom_string (AtomWord w) = w"
| "atom_string (AtomBracket q) = ''('' @ query_string q @ '')''"

fun query_words :: "query \<Rightarrow> bstring set" and atom_words :: "atom \<Rightarrow> bstring set" where
  "query_words (Operand n a) = atom_words a"
| "query_words (Joined q j n a) = query_words q \<union> atom_words a"
| "atom_words (AtomWord w) = {w}"
| "atom_words (AtomBracket q) = query_words q"

text \<open>Words that can be searched for: of UTF-8 characters, without separators, and not beginning with an operator.\<close>

definition search_word :: "(bstring \<Rightarrow> bstring) \<Rightarrow> bstring \<Rightarrow> bool" where
  "search_word lower w \<longleftrightarrow> (\<exists>us. w = concat us \<and> query_word_ok lower us)"

definition plain_lower :: "(bstring \<Rightarrow> bstring) \<Rightarrow> bool" where
  "plain_lower lower \<longleftrightarrow>
     (\<forall>w \<in> {''and'', ''or'', ''not''}. lower w = w) \<and> (\<forall>c \<in> set ''andort()''. lower [c] = [c])"

section \<open>Its tokens\<close>

lemma text_chars_append:
  "ss \<noteq> [] \<Longrightarrow> ts \<noteq> [] \<Longrightarrow> concat (text_chars (ss @ ts)) = concat (text_chars ss) @ '' '' @ concat (text_chars ts)"
proof (induction ss rule: induct_list012)
  case (2 s)
  then show ?case by (cases ts) simp_all
next
  case (3 s s' ss)
  then show ?case by simp
qed simp

definition tokens_text :: "(bstring \<Rightarrow> bstring) \<Rightarrow> (query_token list \<Rightarrow> bool) \<Rightarrow> bstring \<Rightarrow> query_token list \<Rightarrow> bool" where
  "tokens_text lower ok s qs \<longleftrightarrow> (\<exists>ts. ts \<noteq> [] \<and> concat (text_chars ts) = s \<and> map token_of ts = qs \<and>
     list_all (text_token_ok lower ok) ts)"

lemma tokens_text_append:
  "tokens_text lower ok s qs \<Longrightarrow> tokens_text lower ok s' qs' \<Longrightarrow> tokens_text lower ok (s @ '' '' @ s') (qs @ qs')"
  unfolding tokens_text_def by (elim exE conjE, rule_tac x = "ts @ tsa" in exI) (simp add: text_chars_append)

lemma tokens_text_one:
  "tokens_text lower ok ''not'' [NotToken]" "tokens_text lower ok ''and'' [AndToken]" "tokens_text lower ok ''or'' [OrToken]"
  unfolding tokens_text_def
  by (rule exI [of _ "[TextNot]"], simp) (rule exI [of _ "[TextAnd]"], simp, rule exI [of _ "[TextOr]"], simp)

lemma tokens_text_nots:
  "tokens_text lower ok s qs \<Longrightarrow> tokens_text lower ok (nots_text n @ s) (replicate n NotToken @ qs)"
proof (induction n)
  case (Suc n)
  from tokens_text_append [OF tokens_text_one(1) Suc.IH [OF Suc.prems]] show ?case by (simp add: nots_text_def)
qed (simp add: nots_text_def)

lemma query_tokens_text:
  assumes "\<And>q. ok (query_tokens q)"
  shows "\<forall>w \<in> query_words q. search_word lower w \<Longrightarrow> tokens_text lower ok (query_string q) (query_tokens q)"
    and "\<forall>w \<in> atom_words a. search_word lower w \<Longrightarrow> tokens_text lower ok (atom_string a) [atom_token a]"
proof (induction q and a)
  case (Operand n a)
  then show ?case using tokens_text_nots by simp
next
  case (Joined q j n a)
  then have parts: "tokens_text lower ok (query_string q) (query_tokens q)"
    "tokens_text lower ok (nots_text n @ atom_string a) (replicate n NotToken @ [atom_token a])"
    using tokens_text_nots by simp_all
  show ?case
    using tokens_text_append [OF parts] tokens_text_append [OF parts(1) tokens_text_append [OF tokens_text_one(2) parts(2)]]
      tokens_text_append [OF parts(1) tokens_text_append [OF tokens_text_one(3) parts(2)]]
    by (cases j) simp_all
next
  case (AtomWord w)
  then obtain us where "w = concat us" "query_word_ok lower us" by (auto simp: search_word_def)
  then show ?case unfolding tokens_text_def by (intro exI [of _ "[TextWord us]"]) simp
next
  case (AtomBracket q)
  then obtain ts where "ts \<noteq> []" "concat (text_chars ts) = query_string q" "map token_of ts = query_tokens q"
    "list_all (text_token_ok lower ok) ts" unfolding tokens_text_def by auto
  then show ?case unfolding tokens_text_def using assms by (intro exI [of _ "[TextBracket ts]"]) simp
qed

section \<open>Searching\<close>

definition tokens_accepted :: "(bstring \<Rightarrow> bstring) \<Rightarrow> path \<Rightarrow> path \<Rightarrow> db_file \<Rightarrow> query_token list \<Rightarrow> bool" where
  "tokens_accepted lower words bounds f ts =
     (case run_tokens lower ts (expression_new words bounds) f of
        Inl e \<Rightarrow> False
      | Inr (ex, f) \<Rightarrow> expression_success ex)"

lemma grammar_plain: "plain_lower lower \<Longrightarrow> plain_grammar (query_grammar lower words bounds f)"
  by (simp add: plain_lower_def plain_grammar_def query_grammar_def)

lemma parse_tokens_text:
  assumes "plain_lower lower" and "tokens_text lower (tokens_accepted lower words bounds f) s ts"
    and "tokens_accepted lower words bounds f ts"
  shows "\<exists>N. \<forall>n \<ge> N. parse_tokens lower words bounds f n s = Some (Some ts)"
proof -
  let ?g = "query_grammar lower words bounds f"
  obtain us where us: "us \<noteq> []" "concat (text_chars us) = s" "map token_of us = ts"
    "list_all (text_token_ok lower (tokens_accepted lower words bounds f)) us" using assms(2) unfolding tokens_text_def by blast
  have accepts: "accepts ?g calls = tokens_accepted lower words bounds f (call_tokens calls)" for calls
    by (simp add: query_grammar_def expression_accepts_def tokens_accepted_def)
  have lower: "lower_case ?g = lower" by (simp add: query_grammar_def)
  obtain N x calls where "\<forall>n \<ge> N. parse ?g n (expression_matcher lower) s =
      Some (Some True, MGroup x calls (Some True), []) \<and> call_tokens calls = ts"
    using parse_text [OF grammar_plain [OF assms(1)], of words bounds f _ us, OF accepts us(1)] us(2-4) assms(3)
    by (auto simp: lower)
  then show ?thesis by (intro exI [of _ N]) (simp add: parse_tokens_def)
qed

text \<open>
  Property C1: a search from text to results. The text of a query is read as its tokens, and the loop over the path of the
  query visits the identifiers within the bounds that satisfy the boolean combination of its words, in increasing order.
\<close>

theorem search_results:
  assumes "query_ready lower f words pre bounds bpre" and "numbers_below f bpre" and "plain_lower lower"
    and "\<forall>w \<in> query_words q. search_word lower w"
  shows "\<exists>N path ids. (\<forall>n \<ge> N. parse_query lower words bounds f n (query_string q) = Some (Inr (path, f))) \<and>
    iterate_all read_index query_path_ops (path, f) item = Some ids \<and>
    set ids = query_values (word_ids lower f words) (contained_numbers f bounds) q \<inter> contained_numbers f bounds \<and>
    sorted_wrt (<) ids"
proof -
  have ok: "tokens_accepted lower words bounds f (query_tokens q)" for q
    using query_evaluates [OF assms(1), of q] by (auto simp: tokens_accepted_def expression_success_def)
  obtain N where N: "\<forall>n \<ge> N. parse_tokens lower words bounds f n (query_string q) = Some (Some (query_tokens q))"
    using parse_tokens_text [OF assms(3) query_tokens_text(1) [of "tokens_accepted lower words bounds f", OF ok assms(4)] ok] by blast
  obtain path ids where "query_path lower words bounds (query_tokens q) f = Inr (path, f)"
    "iterate_all read_index query_path_ops (path, f) item = Some ids"
    "set ids = query_values (word_ids lower f words) (contained_numbers f bounds) q \<inter> contained_numbers f bounds"
    "sorted_wrt (<) ids" using query_denotes [OF assms(1,2), of q item] by blast
  with N show ?thesis by (intro exI [of _ N] exI [of _ path] exI [of _ ids]) (simp add: parse_query_def)
qed

text \<open>The identifier 5 is found by \<open>not x\<close>, since the word is not in the index.\<close>

theorem search_results_witness:
  "\<exists>N path. (\<forall>n \<ge> N. parse_query (\<lambda>w. w) (path_new 0) (fst one_key) (snd small_index) n ''not x'' =
       Some (Inr (path, snd small_index))) \<and>
     iterate_all read_index query_path_ops (path, snd small_index) 0 = Some [5]"
proof -
  have "query_word_ok (\<lambda>w. w) [''x'']" by (simp add: query_word_ok_def utf8_ascii ends_query_word_def is_blank_def)
  then have "\<forall>w \<in> query_words (Operand 1 (AtomWord ''x'')). search_word (\<lambda>w. w) w"
    by (auto simp: search_word_def intro: exI [of _ "[''x'']"])
  with search_results [OF small_index_ready small_index_numbers _ this, of 0]
  have "\<exists>N path ids. (\<forall>n \<ge> N. parse_query (\<lambda>w. w) (path_new 0) (fst one_key) (snd small_index) n ''not x'' =
       Some (Inr (path, snd small_index))) \<and>
     iterate_all read_index query_path_ops (path, snd small_index) 0 = Some ids \<and> set ids = {5} \<and> sorted_wrt (<) ids"
    by (simp add: plain_lower_def nots_text_def negate_def word_ids_def small_index_words small_index_contents)
  then show ?thesis using sorted_singleton by blast
qed






end
