(* ===== verification/Byte_Words.thy ===== *)
theory Byte_Words
  imports Byte_Tokens
begin

text \<open>
  What \<open>tokenise\<close> means for a text of well-formed UTF-8 characters: its words, character by character, without positions,
  iterators or bytes left over; and what it does at the border of two pages of a text.
\<close>

section \<open>The words of a text\<close>

text \<open>A text is the list of its characters.\<close>

definition wide_char :: "bstring \<Rightarrow> bool" where
  "wide_char u \<longleftrightarrow> (\<exists>c. utf8_to_wstring u = Some [c])"

definition emoji :: "bstring \<Rightarrow> bool" where
  "emoji u \<longleftrightarrow> is_emoji u = Some True"

definition blank :: "wide_ctype \<Rightarrow> bstring \<Rightarrow> bool" where
  "blank W u \<longleftrightarrow> is_wide_space W u = Some True \<or> is_punctuation W u = Some True"

text \<open>A character that carries a word on: punctuation does when it is a separator.\<close>

definition inner :: "wide_ctype \<Rightarrow> bstring \<Rightarrow> bool" where
  "inner W u \<longleftrightarrow> \<not> emoji u \<and> is_wide_space W u \<noteq> Some True \<and> (is_punctuation W u = Some True \<longrightarrow> is_seperator u)"

function words_of :: "wide_ctype \<Rightarrow> bstring list \<Rightarrow> bstring list list" where
  "words_of W [] = []"
| "words_of W (u # us) =
     (if emoji u then [u] # words_of W us
      else if blank W u then words_of W us
      else (u # takeWhile (inner W) us) # words_of W (dropWhile (inner W) us))"
  by pat_completeness auto
termination by (relation "measure (length \<circ> snd)") (auto simp: le_imp_less_Suc length_dropWhile_le)

fun segments :: "('a \<Rightarrow> bool) \<Rightarrow> 'a list \<Rightarrow> 'a list \<Rightarrow> 'a list list" where
  "segments sep acc [] = (if acc = [] then [] else [acc])"
| "segments sep acc (x # xs) =
     (if sep x then (if acc = [] then [] else [acc]) @ segments sep [] xs else segments sep (acc @ [x]) xs)"

text \<open>The tokens of a word are its parts between the separators and the word as a whole.\<close>

definition word_tokens :: "bstring list \<Rightarrow> bstring list list" where
  "word_tokens w = segments is_seperator [] w @ [w]"

definition lower_token :: "wide_ctype \<Rightarrow> bstring list \<Rightarrow> bstring" where
  "lower_token W w = the (to_lower W (concat w))"

section \<open>Characters\<close>

lemma of_char_int: "(of_char c :: int) = int (of_char c)"
  by (rule of_nat_of_char [symmetric])

lemma wide_char_first:
  assumes "utf8_to_wstring u = Some [c]"
  shows "read_code_point (map of_char u) = Some (c, [])"
proof -
  have "u \<noteq> []" using assms by (auto simp: utf8_to_wstring_def wide_codes.simps)
  with assms obtain r where r: "read_code_point (map of_char u) = Some (c, r)" "wide_codes r = Some []"
    by (auto simp: utf8_to_wstring_def wide_codes.simps [of "map of_char u"] split: option.splits)
  from r(2) have "r = []" by (subst (asm) wide_codes.simps) (auto split: if_splits option.splits)
  with r(1) show ?thesis by simp
qed

lemma read_code_point_append: "read_code_point s = Some (c, r) \<Longrightarrow> read_code_point (s @ t) = Some (c, r @ t)"
  by (cases s) (auto simp: Let_def split: if_splits list.splits)

lemma wide_append:
  assumes "utf8_to_wstring u = Some [c]"
  shows "utf8_to_wstring (u @ s) = map_option ((#) c) (utf8_to_wstring s)"
proof -
  have "u \<noteq> []" using assms by (auto simp: utf8_to_wstring_def wide_codes.simps)
  moreover have "read_code_point (map of_char u @ map of_char s) = Some (c, map of_char s)"
    using read_code_point_append [OF wide_char_first [OF assms]] by simp
  ultimately show ?thesis by (simp add: utf8_to_wstring_def wide_codes.simps [of "map of_char u @ map of_char s"])
qed

lemma read_code_point_valid: "read_code_point s = Some (c, r) \<Longrightarrow> \<forall>b \<in> set s. 0 \<le> b \<Longrightarrow> code_point c"
  by (cases s) (auto simp: Let_def code_point_def follower_def split: if_splits list.splits)

lemma wide_char_utf8: "wide_char u \<Longrightarrow> utf8_char u"
  using wide_char_first [of u]
  by (cases u) (auto simp: wide_char_def utf8_char_def expected_bytes_range Let_def follower_def of_char_int
      split: if_splits list.splits)

lemma wide_char_nonempty: "wide_char u \<Longrightarrow> u \<noteq> []"
  using wide_char_utf8 [of u] by (simp add: utf8_char_def)

lemma wide_char_classes:
  assumes "wide_char u"
  obtains space punct where "is_emoji u = Some (emoji u)" "is_wide_space W u = Some space" "is_punctuation W u = Some punct"
proof -
  have "\<exists>space punct. is_emoji u = Some (emoji u) \<and> is_wide_space W u = Some space \<and> is_punctuation W u = Some punct"
    using assms wide_char_nonempty [OF assms]
    by (auto simp: wide_char_def emoji_def is_emoji_def is_wide_space_def is_punctuation_def)
  then show thesis using that by blast
qed

lemma wide_concat:
  "\<forall>u \<in> set us. wide_char u \<Longrightarrow> \<exists>cs. utf8_to_wstring (concat us) = Some cs \<and> (\<forall>c \<in> set cs. code_point c)"
proof (induction us)
  case Nil
  then show ?case by (simp add: utf8_to_wstring_def wide_codes.simps)
next
  case (Cons u us)
  then obtain c cs where c: "utf8_to_wstring u = Some [c]"
    and cs: "utf8_to_wstring (concat us) = Some cs" "\<forall>c \<in> set cs. code_point c"
    by (auto simp: wide_char_def)
  have "code_point c" by (rule read_code_point_valid [OF wide_char_first [OF c]]) (simp add: of_char_int)
  with cs wide_append [OF c, of "concat us"] show ?case by simp
qed

lemma wstring_defined: "\<forall>c \<in> set cs. code_point c \<Longrightarrow> wstring_to_utf8 cs \<noteq> None"
  by (induction cs) (auto simp: utf8_code_def)

lemma to_lower_defined:
  assumes "\<forall>u \<in> set w. wide_char u" and "\<forall>c. code_point c \<longrightarrow> code_point (towlower W c)"
  shows "to_lower W (concat w) = Some (lower_token W w)"
proof -
  obtain cs where cs: "utf8_to_wstring (concat w) = Some cs" "\<forall>c \<in> set cs. code_point c"
    using wide_concat [OF assms(1)] by blast
  have "wstring_to_utf8 (map (towlower W) cs) \<noteq> None" by (rule wstring_defined) (use cs(2) assms(2) in simp)
  with cs(1) show ?thesis by (auto simp: lower_token_def to_lower_def)
qed

section \<open>The iterator over characters\<close>

definition skips :: "wide_ctype \<Rightarrow> bstring \<Rightarrow> bool" where
  "skips W u \<longleftrightarrow> \<not> emoji u \<and> blank W u"

lemma skip_blanks_chars:
  assumes "\<forall>u \<in> set us. wide_char u" and "s = p @ concat us"
  shows "skip_blanks W s (length p) [] =
     Some (case dropWhile (skips W) us of
             [] \<Rightarrow> (False, [], length s, [])
           | u # r \<Rightarrow> (emoji u, u, length s - length (concat r), []))"
  using assms
proof (induction us arbitrary: p)
  case Nil
  then show ?case by (simp add: skip_blanks.simps)
next
  case (Cons u us)
  have u: "wide_char u" "u \<noteq> []" using Cons.prems(1) wide_char_nonempty by simp_all
  obtain space punct where
    classes: "is_emoji u = Some (emoji u)" "is_wide_space W u = Some space" "is_punctuation W u = Some punct"
    by (rule wide_char_classes [OF u(1)])
  have step: "next_utf8 s (length p) [] = (u, length (p @ u), [])"
    using next_utf8_char [OF wide_char_utf8 [OF u(1)], of s p "concat us"] Cons.prems(2) by simp
  have inside: "length p < length s" "length (p @ u) = length s - length (concat us)" using u(2) Cons.prems(2) by simp_all
  have rec: "skip_blanks W s (length (p @ u)) [] =
     Some (case dropWhile (skips W) us of
             [] \<Rightarrow> (False, [], length s, [])
           | u # r \<Rightarrow> (emoji u, u, length s - length (concat r), []))"
    by (rule Cons.IH) (use Cons.prems in simp_all)
  show ?case
  proof (cases "skips W u")
    case True
    then have "skip_blanks W s (length p) [] = skip_blanks W s (length (p @ u)) []"
      using classes
      by (subst skip_blanks.simps) (auto simp: inside step skips_def blank_def)
    then show ?thesis using True rec by simp
  next
    case False
    then have "skip_blanks W s (length p) [] = Some (emoji u, u, length (p @ u), [])"
      using classes
      by (subst skip_blanks.simps) (auto simp: inside step skips_def blank_def)
    then show ?thesis using False inside(2) by simp
  qed
qed

text \<open>What is left after a word: a blank that ended it is used up, an emoji is not.\<close>

definition after_word :: "wide_ctype \<Rightarrow> bstring list \<Rightarrow> bstring list" where
  "after_word W us =
     (case dropWhile (inner W) us of [] \<Rightarrow> [] | u # r \<Rightarrow> if emoji u then u # r else r)"

lemma read_word_chars:
  assumes "\<forall>u \<in> set us. wide_char u" and "s = p @ concat us" and "word \<noteq> []"
  shows "read_word W s word (length p) [] =
     Some (word @ concat (takeWhile (inner W) us), length s - length (concat (after_word W us)), [])"
  using assms
proof (induction us arbitrary: p word)
  case Nil
  then show ?case by (simp add: read_word.simps after_word_def)
next
  case (Cons u us)
  have u: "wide_char u" "u \<noteq> []" using Cons.prems(1) wide_char_nonempty by simp_all
  obtain space punct where
    classes: "is_emoji u = Some (emoji u)" "is_wide_space W u = Some space" "is_punctuation W u = Some punct"
    by (rule wide_char_classes [OF u(1)])
  have step: "next_utf8 s (length p) [] = (u, length (p @ u), [])"
    using next_utf8_char [OF wide_char_utf8 [OF u(1)], of s p "concat us"] Cons.prems(2) by simp
  have inside: "length p < length s" "length (p @ u) = length s - length (concat us)"
    "length p = length s - length (concat (u # us))" using u(2) Cons.prems(2) by simp_all
  show ?case
  proof (cases "inner W u")
    case True
    then have "read_word W s word (length p) [] = read_word W s (word @ u) (length (p @ u)) []"
      using classes
      by (subst read_word.simps) (auto simp: inside(1) step inner_def)
    moreover have "read_word W s (word @ u) (length (p @ u)) [] =
       Some ((word @ u) @ concat (takeWhile (inner W) us), length s - length (concat (after_word W us)), [])"
      by (rule Cons.IH) (use Cons.prems in simp_all)
    ultimately show ?thesis using True by (simp add: after_word_def)
  next
    case False
    then have "read_word W s word (length p) [] =
        Some (word, if emoji u then length p else length (p @ u), [])"
      using classes Cons.prems(3)
      by (subst read_word.simps) (auto simp: inside(1) step inner_def)
    then show ?thesis using False inside(2,3) by (simp add: after_word_def)
  qed
qed

lemma words_of_skips: "words_of W us = words_of W (dropWhile (skips W) us)"
  by (induction us) (auto simp: skips_def)

lemma words_of_after: "words_of W (dropWhile (inner W) us) = words_of W (after_word W us)"
proof (cases "dropWhile (inner W) us")
  case (Cons u r)
  then have "\<not> inner W u" by (metis hd_dropWhile list.distinct(1) list.sel(1))
  with Cons show ?thesis by (auto simp: after_word_def inner_def blank_def)
qed (simp add: after_word_def del: dropWhile_eq_Nil_conv)

lemma dropWhile_append_suffix: "\<exists>p. us = p @ dropWhile P us"
  by (metis takeWhile_dropWhile_id)

lemma after_word_suffix: "\<exists>p. us = p @ after_word W us"
proof -
  obtain p where p: "us = p @ dropWhile (inner W) us" using dropWhile_append_suffix by blast
  show ?thesis
  proof (cases "dropWhile (inner W) us")
    case Nil
    then have "us = us @ after_word W us" by (simp add: after_word_def del: dropWhile_eq_Nil_conv)
    then show ?thesis ..
  next
    case (Cons u r)
    with p have us: "us = p @ u # r" by simp
    have "after_word W us = (if emoji u then u # r else r)" by (simp add: after_word_def Cons)
    then have "us = (if emoji u then p else p @ [u]) @ after_word W us" using us by simp
    then show ?thesis ..
  qed
qed

text \<open>One step of the iterator takes one word off the text.\<close>

lemma set_value_chars:
  assumes "\<forall>u \<in> set us. wide_char u" and "s = p @ concat us"
  shows "(words_of W us = [] \<and> set_value W s old (length p) [] = Some (False, old, length s, [])) \<or>
    (\<exists>w p' r. words_of W us = w # words_of W r \<and> set w \<subseteq> set us \<and> set r \<subseteq> set us \<and> s = p' @ concat r \<and>
       set_value W s old (length p) [] = Some (True, concat w, length p', []))"
proof (cases "dropWhile (skips W) us")
  case Nil
  have "read_word W s [] (length s) [] = Some ([], length s, [])" by (simp add: read_word.simps)
  with Nil show ?thesis
    using skip_blanks_chars [OF assms, of W]
    by (simp add: set_value_def words_of_skips [of W us] del: dropWhile_eq_Nil_conv)
next
  case (Cons u r)
  obtain q where q: "us = q @ u # r" using dropWhile_append_suffix [of us "skips W"] Cons by metis
  have u: "wide_char u" "u \<noteq> []" "\<forall>u \<in> set r. wide_char u" using assms(1) q wide_char_nonempty by simp_all
  have "length s - length (concat r) = length (p @ concat q @ u)" by (simp add: assms(2) q)
  then have skip: "skip_blanks W s (length p) [] = Some (emoji u, u, length (p @ concat q @ u), [])"
    using skip_blanks_chars [OF assms, of W] by (simp add: Cons)
  have not_skip: "\<not> skips W u" using Cons by (metis hd_dropWhile list.distinct(1) list.sel(1))
  show ?thesis
  proof (cases "emoji u")
    case True
    have "words_of W us = [u] # words_of W r" using True by (simp add: words_of_skips [of W us] Cons)
    moreover have "set_value W s old (length p) [] = Some (True, concat [u], length (p @ concat q @ u), [])"
      using True by (simp add: set_value_def skip)
    moreover have "s = (p @ concat q @ u) @ concat r" by (simp add: assms(2) q)
    moreover have "set [u] \<subseteq> set us" "set r \<subseteq> set us" using q by auto
    ultimately show ?thesis by blast
  next
    case False
    let ?w = "u # takeWhile (inner W) r" and ?r = "after_word W r"
    obtain q' where q': "r = q' @ ?r" using after_word_suffix by blast
    have s: "s = (p @ concat q @ u) @ concat r" by (simp add: assms(2) q)
    have words: "words_of W us = ?w # words_of W ?r"
      using False not_skip by (simp add: words_of_skips [of W us] Cons words_of_after skips_def)
    have split: "s = (p @ concat q @ u @ concat q') @ concat ?r" using s arg_cong [OF q', of concat] by simp
    then have "length s - length (concat ?r) = length (p @ concat q @ u @ concat q')" by (metis add_diff_cancel_right' length_append)
    then have "set_value W s old (length p) [] = Some (True, concat ?w, length (p @ concat q @ u @ concat q'), [])"
      using read_word_chars [OF u(3) s u(2), of W] False u(2) by (simp add: set_value_def skip)
    moreover have "set ?w \<subseteq> set us" using q by (auto dest: set_takeWhileD)
    moreover have "set ?r \<subseteq> set us" using q q' by (metis set_append set_subset_Cons sup.coboundedI2 sup_ge2 le_supI2 order_trans)
    ultimately show ?thesis using words split by blast
  qed
qed

section \<open>Tokens of a word\<close>

lemma concat_nonempty: "\<forall>u \<in> set us. wide_char u \<Longrightarrow> concat us = [] \<longleftrightarrow> us = []"
  using wide_char_nonempty by (cases us) auto

lemma split_on_dot_chars:
  assumes "\<forall>u \<in> set us. wide_char u" and "\<forall>u \<in> set acc. wide_char u" and "word = p @ concat us"
    and "\<forall>c. code_point c \<longrightarrow> code_point (towlower W c)"
  shows "split_on_dot W word (length p) (concat acc) words =
    Some (words @ map (lower_token W) (segments is_seperator acc us))"
  using assms(1-3)
proof (induction us arbitrary: p acc words)
  case Nil
  then show ?case
    by (subst split_on_dot.simps) (simp add: add_lower_def concat_nonempty [OF Nil.prems(2)] to_lower_defined [OF Nil.prems(2) assms(4)]
        del: concat_eq_Nil_conv)
next
  case (Cons u us)
  have u: "wide_char u" "u \<noteq> []" using Cons.prems(1) wide_char_nonempty by simp_all
  have step: "next_utf8 word (length p) [] = (u, length (p @ u), [])"
    using next_utf8_char [OF wide_char_utf8 [OF u(1)], of word p "concat us"] Cons.prems(3) by simp
  have inside: "length p < length word" using u(2) Cons.prems(3) by simp
  have rest: "\<forall>u \<in> set us. wide_char u" "word = (p @ u) @ concat us" using Cons.prems by simp_all
  have add: "add_lower W (concat acc) words = Some (words @ map (lower_token W) (if acc = [] then [] else [acc]))"
    using concat_nonempty [OF Cons.prems(2)]
    by (simp add: add_lower_def to_lower_defined [OF Cons.prems(2) assms(4)] del: concat_eq_Nil_conv)
  show ?case
  proof (cases "is_seperator u")
    case True
    have "split_on_dot W word (length (p @ u)) (concat []) ws = Some (ws @ map (lower_token W) (segments is_seperator [] us))"
      for ws by (rule Cons.IH [OF rest(1) _ rest(2)]) simp
    then show ?thesis using True inside step add by (subst split_on_dot.simps) simp
  next
    case False
    have "split_on_dot W word (length (p @ u)) (concat (acc @ [u])) words =
        Some (words @ map (lower_token W) (segments is_seperator (acc @ [u]) us))"
      by (rule Cons.IH [OF rest(1) _ rest(2)]) (use Cons.prems(2) u(1) in simp)
    then show ?thesis using False inside step by (subst split_on_dot.simps) simp
  qed
qed

section \<open>Tokens of a text\<close>

definition tokens_of :: "wide_ctype \<Rightarrow> bstring list list \<Rightarrow> bstring list" where
  "tokens_of W ws = concat (map (\<lambda>w. map (lower_token W) (word_tokens w)) ws)"

lemma words_of_subset: "w \<in> set (words_of W us) \<Longrightarrow> set w \<subseteq> set us"
proof (induction W us rule: words_of.induct)
  case (2 W u us)
  then show ?case
    using set_takeWhileD [of _ "inner W" us] set_dropWhileD [of _ "inner W" us]
    by (auto split: if_splits)
qed simp

lemma segments_subset: "t \<in> set (segments sep acc xs) \<Longrightarrow> set t \<subseteq> set acc \<union> set xs"
  by (induction sep acc xs rule: segments.induct) (auto split: if_splits)

lemma word_tokens_subset: "t \<in> set (word_tokens w) \<Longrightarrow> set t \<subseteq> set w"
  using segments_subset [of t is_seperator "[]" w] by (auto simp: word_tokens_def)

lemma token_loop_chars:
  assumes "\<forall>u \<in> set w \<union> set r. wide_char u" and "s = p @ concat r" and "ws = words_of W r"
    and lower: "\<forall>c. code_point c \<longrightarrow> code_point (towlower W c)"
  shows "token_loop W s final \<lparr>it_value = concat w, it_end = False, it_position = length p\<rparr> [] acc =
    Some (acc @ tokens_of W (if final then w # ws else butlast (w # ws)), if final then [] else concat (last (w # ws)), [])"
  using assms(1-3)
proof (induction ws arbitrary: w r p acc)
  case Nil
  have "\<forall>u \<in> set r. wide_char u" using Nil.prems(1) by simp
  from set_value_chars [OF this Nil.prems(2), of W] Nil.prems(3)
  have step: "set_value W s old (length p) [] = Some (False, old, length s, [])" for old by simp
  have w: "\<forall>u \<in> set w. wide_char u" using Nil.prems(1) by simp
  have "split_on_dot W (concat w) 0 [] acc = Some (acc @ map (lower_token W) (segments is_seperator [] w))" for acc
    using split_on_dot_chars [OF w, of "[]" "concat w" "[]" W acc] lower by simp
  then show ?case
    by (subst token_loop.simps, simp add: utf8_increment_def step to_lower_defined [OF w lower])
      (simp add: token_loop.simps tokens_of_def word_tokens_def)
next
  case (Cons w' ws)
  have r: "\<forall>u \<in> set r. wide_char u" using Cons.prems(1) by simp
  from set_value_chars [OF r Cons.prems(2), of W "concat w"] Cons.prems(3)
  obtain p' r' where rest: "ws = words_of W r'" "set w' \<subseteq> set r" "set r' \<subseteq> set r" "s = p' @ concat r'"
    and step: "set_value W s (concat w) (length p) [] = Some (True, concat w', length p', [])" by auto
  have w: "\<forall>u \<in> set w. wide_char u" and w': "\<forall>u \<in> set w' \<union> set r'. wide_char u"
    using Cons.prems(1) rest(2,3) by auto
  have "split_on_dot W (concat w) 0 [] acc = Some (acc @ map (lower_token W) (segments is_seperator [] w))" for acc
    using split_on_dot_chars [OF w, of "[]" "concat w" "[]" W acc] lower by simp
  then have "token_loop W s final \<lparr>it_value = concat w, it_end = False, it_position = length p\<rparr> [] acc =
      token_loop W s final \<lparr>it_value = concat w', it_end = False, it_position = length p'\<rparr> [] (acc @ tokens_of W [w])"
    by (subst token_loop.simps)
      (simp add: utf8_increment_def step to_lower_defined [OF w lower] tokens_of_def word_tokens_def)
  then show ?case
    using Cons.IH [OF w' rest(4,1), of "acc @ tokens_of W [w]"] by (simp add: tokens_of_def)
qed

lemma sorted_remdups: "sorted xs \<Longrightarrow> remdups_adj xs = sorted_list_of_set (set xs)"
proof -
  assume xs: "sorted xs"
  then have "distinct (remdups_adj xs)" by (induction xs rule: remdups_adj.induct) force+
  then have "sorted_list_of_set (set (remdups_adj xs)) = remdups_adj xs"
    using xs by (simp add: sorted_list_of_set.idem_if_sorted_distinct del: remdups_adj_set)
  then show ?thesis by simp
qed

lemma tokenise_chars:
  assumes us: "\<forall>u \<in> set us. wide_char u" and "concat us = part @ s"
    and lower: "\<forall>c. code_point c \<longrightarrow> code_point (towlower W c)"
  shows "tokenise W s part final False =
    Some (sorted_list_of_set (set (tokens_of W (if final then words_of W us else butlast (words_of W us)))),
      if final \<or> words_of W us = [] then [] else concat (last (words_of W us)))"
proof -
  have whole: "part @ s = [] @ concat us" using assms(2) by simp
  from set_value_chars [OF us whole, of W "[]"] show ?thesis
  proof (elim disjE exE conjE)
    assume "words_of W us = []" "set_value W (part @ s) [] (length []) [] = Some (False, [], length (part @ s), [])"
    then show ?thesis
      by (simp add: tokenise_def utf8_begin_def utf8_increment_def token_loop.simps tokens_of_def)
  next
    fix w p r
    assume step: "words_of W us = w # words_of W r" "set w \<subseteq> set us" "set r \<subseteq> set us" "part @ s = p @ concat r"
      "set_value W (part @ s) [] (length []) [] = Some (True, concat w, length p, [])"
    have "\<forall>u \<in> set w \<union> set r. wide_char u" using us step(2,3) by auto
    from token_loop_chars [OF this step(4) refl lower, of final "[]"] step(1,5) show ?thesis
      by (simp add: tokenise_def utf8_begin_def utf8_increment_def sorted_remdups)
  qed
qed

text \<open>
  Property C37: the tokens of a text of UTF-8 characters are its words and their parts between the separators, in lower case,
  in order and without repetition. Words are maximal runs of characters that are neither blank nor punctuation, except
  that separators carry a word on; every emoji is a word of its own.
\<close>

theorem tokenise_words:
  assumes "\<forall>u \<in> set us. wide_char u" and "\<forall>c. code_point c \<longrightarrow> code_point (towlower W c)"
  shows "tokenise W (concat us) [] True False =
      Some (sorted_list_of_set (lower_token W ` (\<Union>w \<in> set (words_of W us). set (word_tokens w))), []) \<and>
    (\<forall>w \<in> set (words_of W us). \<forall>t \<in> set (word_tokens w). to_lower W (concat t) = Some (lower_token W t))"
proof
  have "concat us = [] @ concat us" by simp
  from tokenise_chars [OF assms(1) this assms(2), of True] show "tokenise W (concat us) [] True False =
      Some (sorted_list_of_set (lower_token W ` (\<Union>w \<in> set (words_of W us). set (word_tokens w))), [])"
    by (simp add: tokens_of_def image_UN)
  show "\<forall>w \<in> set (words_of W us). \<forall>t \<in> set (word_tokens w). to_lower W (concat t) = Some (lower_token W t)"
  proof (intro ballI)
    fix w t
    assume "w \<in> set (words_of W us)" "t \<in> set (word_tokens w)"
    then have "set t \<subseteq> set us" using words_of_subset word_tokens_subset by blast
    then show "to_lower W (concat t) = Some (lower_token W t)" using to_lower_defined [of t W] assms by auto
  qed
qed

lemma ascii_lower: "\<forall>c. code_point c \<longrightarrow> code_point (towlower ascii_ctype c)"
  by (auto simp: code_point_def ascii_ctype_def)

theorem tokenise_words_witness:
  "tokenise ascii_ctype ''A-b, a'' [] True False = Some ([''a'', ''a-b'', ''b''], [])"
proof -
  have "\<forall>u \<in> set [''A'', ''-'', ''b'', '','', '' '', ''a'']. wide_char u"
    by (simp add: wide_char_def utf8_to_wstring_def wide_codes.simps)
  note holds = tokenise_words [OF this ascii_lower, THEN conjunct1]
  have "words_of ascii_ctype [''A'', ''-'', ''b'', '','', '' '', ''a''] = [[''A'', ''-'', ''b''], [''a'']]" by code_simp
  moreover have "word_tokens [''A'', ''-'', ''b''] = [[''A''], [''b''], [''A'', ''-'', ''b'']]" "word_tokens [''a''] = [[''a''], [''a'']]"
    by code_simp+
  moreover have "lower_token ascii_ctype [''A''] = ''a''" "lower_token ascii_ctype [''a''] = ''a''"
    "lower_token ascii_ctype [''b''] = ''b''" "lower_token ascii_ctype [''A'', ''-'', ''b''] = ''a-b''" by code_simp+
  ultimately have "lower_token ascii_ctype ` (\<Union>w \<in> set (words_of ascii_ctype [''A'', ''-'', ''b'', '','', '' '', ''a'']).
      set (word_tokens w)) = set [''a'', ''a-b'', ''b'']" by auto
  moreover have "sorted_list_of_set (set [''a'', ''a-b'', ''b'']) = [''a'', ''a-b'', ''b'']"
    by (simp only: sorted_list_of_set_sort_remdups) code_simp
  ultimately show ?thesis using holds by simp
qed

section \<open>Pages\<close>

lemma words_of_some: "us \<noteq> [] \<Longrightarrow> \<not> skips W (last us) \<Longrightarrow> words_of W us \<noteq> []"
  by (induction us) (auto simp: skips_def split: if_splits)

text \<open>A border between two pages after a character that is no blank lies in or behind the last word.\<close>

lemma words_of_append:
  "us = [] \<or> \<not> skips W (last us) \<Longrightarrow>
     words_of W (us @ vs) = butlast (words_of W us) @ words_of W ((if us = [] then [] else last (words_of W us)) @ vs)"
proof (induction W us rule: words_of.induct)
  case (2 W u us)
  show ?case
  proof (cases "emoji u \<or> blank W u")
    case True
    with 2 show ?thesis using words_of_some [of us W] by (auto simp: skips_def split: if_splits)
  next
    case False
    show ?thesis
    proof (cases "dropWhile (inner W) us")
      case Nil
      then have "\<forall>v \<in> set us. inner W v" by simp
      then have all: "takeWhile (inner W) us = us" by simp
      have "words_of W (u # us) = [u # us]" using False by (simp add: all Nil)
      then show ?thesis by (simp del: words_of.simps)
    next
      case (Cons v r)
      note rest = this
      then have us: "us = takeWhile (inner W) us @ v # r" by (metis takeWhile_dropWhile_id)
      then have last: "last us = last (v # r)" by (metis last_appendR list.distinct(1))
      have "us \<noteq> []" using us by auto
      with "2.prems" last have stop: "\<not> skips W (last (v # r))" by simp
      have "\<not> inner W v" using rest by (metis hd_dropWhile list.distinct(1) list.sel(1))
      moreover have "v \<in> set us" by (subst us) simp
      ultimately have "takeWhile (inner W) (us @ vs) = takeWhile (inner W) us" "dropWhile (inner W) (us @ vs) = (v # r) @ vs"
        using rest takeWhile_append1 [of v us "inner W" vs] dropWhile_append1 [of v us "inner W" vs] by simp_all
      moreover have "words_of W (dropWhile (inner W) us @ vs) = butlast (words_of W (dropWhile (inner W) us)) @
          words_of W (last (words_of W (dropWhile (inner W) us)) @ vs)"
        using "2.IH"(3) False rest stop by simp
      moreover have "words_of W (dropWhile (inner W) us) \<noteq> []" using words_of_some [of "v # r" W] rest stop by simp
      ultimately show ?thesis using False rest by (simp del: words_of.simps(2) add: words_of.simps(2) [of W u])
    qed
  qed
qed simp

lemma tokens_of_append: "tokens_of W (vs @ ws) = tokens_of W vs @ tokens_of W ws"
  by (simp add: tokens_of_def)

text \<open>
  Property C38: a text in two pages has the same tokens as in one, when the first page ends with a character that is no blank
  and no punctuation: its last word is held back and put in front of the second page.
\<close>

theorem tokenise_pages:
  assumes "\<forall>u \<in> set us. wide_char u" and "\<forall>u \<in> set vs. wide_char u"
    and "\<forall>c. code_point c \<longrightarrow> code_point (towlower W c)" and "us \<noteq> []" and "\<not> skips W (last us)"
  shows "\<exists>first held second.
    tokenise W (concat us) [] False False = Some (first, held) \<and>
    tokenise W (concat vs) held True False = Some (second, []) \<and>
    tokenise W (concat us @ concat vs) [] True False = Some (sorted_list_of_set (set first \<union> set second), [])"
proof -
  let ?held = "last (words_of W us)"
  have some: "words_of W us \<noteq> []" by (rule words_of_some [OF assms(4,5)])
  then have held: "set ?held \<subseteq> set us" using words_of_subset [of ?held W us] by simp
  have words: "words_of W (us @ vs) = butlast (words_of W us) @ words_of W (?held @ vs)"
    using words_of_append [of us W vs] assms(4,5) by simp
  have "concat us = [] @ concat us" by simp
  from tokenise_chars [OF assms(1) this assms(3), of False] some
  have first: "tokenise W (concat us) [] False False =
      Some (sorted_list_of_set (set (tokens_of W (butlast (words_of W us)))), concat ?held)" by simp
  have both: "\<forall>u \<in> set (?held @ vs). wide_char u" using assms(1,2) held by auto
  have "concat (?held @ vs) = concat ?held @ concat vs" by simp
  from tokenise_chars [OF both this assms(3), of True]
  have second: "tokenise W (concat vs) (concat ?held) True False =
      Some (sorted_list_of_set (set (tokens_of W (words_of W (?held @ vs)))), [])" by simp
  have all: "\<forall>u \<in> set (us @ vs). wide_char u" using assms(1,2) by auto
  have "concat (us @ vs) = [] @ (concat us @ concat vs)" by simp
  from tokenise_chars [OF all this assms(3), of True]
  have "tokenise W (concat us @ concat vs) [] True False = Some (sorted_list_of_set
      (set (tokens_of W (butlast (words_of W us))) \<union> set (tokens_of W (words_of W (?held @ vs)))), [])"
    by (simp add: words tokens_of_append)
  with first second show ?thesis by simp
qed

theorem tokenise_pages_witness:
  "\<exists>first held second.
    tokenise ascii_ctype ''a b'' [] False False = Some (first, held) \<and>
    tokenise ascii_ctype ''c'' held True False = Some (second, []) \<and>
    tokenise ascii_ctype ''a bc'' [] True False = Some (sorted_list_of_set (set first \<union> set second), [])"
proof -
  have "\<forall>u \<in> set [''a'', '' '', ''b'']. wide_char u" "\<forall>u \<in> set [''c'']. wide_char u"
    by (simp_all add: wide_char_def utf8_to_wstring_def wide_codes.simps)
  moreover have "\<not> skips ascii_ctype (last [''a'', '' '', ''b''])" by code_simp
  ultimately show ?thesis using tokenise_pages [of "[''a'', '' '', ''b'']" "[''c'']" ascii_ctype] ascii_lower by simp
qed


end
