(* ===== verification/JSON_Path.thy ===== *)
theory JSON_Path
  imports Query_Results Byte_Words
begin

text \<open>
  JSON documents in the database (code/Database/JSONPath.hpp, JSONDatabase.hpp, JSONIndex.hpp and code/Script/Type.hpp), in the build
  with \<open>JSON_INDEX\<close>, where the identifier of a document is the offset of its branch.

  A \<open>JSONPath\<close> is a path whose data is the type of the value; the value and its parts are below it, under the keys
  \<open>VALUE\<close>, \<open>PROPERTIES\<close>, and so on. Reading creates the branches it asks for, so almost every method threads the file. \<open>None\<close> is
  an exception or undefined behaviour: reading data that is missing, a variable that was not set. The locks are left
  out. \<open>W\<close> is the character classification of the locale that \<open>tokenise\<close> uses.
\<close>

section \<open>Types\<close>

datatype json_type = UNDEFINED | USER | NULL | BOOLEAN | INTEGER | NUMBER | STRING | ARRAY | OBJECT

fun type_number :: "json_type \<Rightarrow> nat" where
  "type_number UNDEFINED = 0"
| "type_number USER = 1"
| "type_number NULL = 2"
| "type_number BOOLEAN = 3"
| "type_number INTEGER = 4"
| "type_number NUMBER = 5"
| "type_number STRING = 6"
| "type_number ARRAY = 7"
| "type_number OBJECT = 8"

definition json_types :: "json_type list" where
  "json_types = [UNDEFINED, USER, NULL, BOOLEAN, INTEGER, NUMBER, STRING, ARRAY, OBJECT]"

text \<open>The four bytes of the enumeration, and the cast back; another number has no enumerator.\<close>

definition type_bytes :: "json_type \<Rightarrow> bstring" where
  "type_bytes t = le_bytes 4 (type_number t)"

definition bytes_type :: "bstring \<Rightarrow> json_type option" where
  "bytes_type bs =
     (if length bs < 4 then None
      else (let n = bytes_index (take 4 bs) in if n < length json_types then Some (json_types ! n) else None))"

definition path_get_type :: "db_file \<Rightarrow> path \<Rightarrow> json_type option" where
  "path_get_type f p = Option.bind (path_get_data f p) bytes_type"

definition path_set_type :: "json_type \<Rightarrow> path \<Rightarrow> db_file \<Rightarrow> (bool \<times> db_file) option" where
  "path_set_type t p f = path_set_data (type_bytes t) p f"

text \<open>\<open>bool\<close> as data: one byte.\<close>

definition bool_bytes :: "bool \<Rightarrow> bstring" where
  "bool_bytes b = [if b then CHR 0x01 else CHR 0x00]"

definition path_get_bool :: "db_file \<Rightarrow> path \<Rightarrow> bool option" where
  "path_get_bool f p =
     do { data \<leftarrow> path_get_data f p;
          case data of [] \<Rightarrow> None | c # _ \<Rightarrow> Some (c \<noteq> CHR 0x00) }"

definition path_set_bool :: "bool \<Rightarrow> path \<Rightarrow> db_file \<Rightarrow> (bool \<times> db_file) option" where
  "path_set_bool b p f = path_set_data (bool_bytes b) p f"

text \<open>\<open>std::to_string\<close>.\<close>

fun decimal :: "nat \<Rightarrow> bstring" where
  "decimal v = (if v < 10 then [char_of (48 + v)] else decimal (v div 10) @ [char_of (48 + v mod 10)])"

declare decimal.simps [simp del]

section \<open>The parts of a database\<close>

abbreviation (input) AUTHENTICATION :: index where "AUTHENTICATION \<equiv> 1"
abbreviation (input) USERS :: index where "USERS \<equiv> 3"
abbreviation (input) JSON :: index where "JSON \<equiv> 5"
abbreviation (input) ROOT_PROPERTIES :: index where "ROOT_PROPERTIES \<equiv> 6"
abbreviation (input) WORDS :: index where "WORDS \<equiv> 7"
abbreviation (input) OBJECTS :: index where "OBJECTS \<equiv> 8"

text \<open>\<open>path[key]\<close> for an \<open>Index\<close>, for a \<open>BString\<close>.\<close>

definition sub_index :: "index \<Rightarrow> cursor \<Rightarrow> cursor" where
  "sub_index k = path_at (\<lambda>wb. put_value wb k)"

definition sub_string :: "bstring \<Rightarrow> cursor \<Rightarrow> cursor" where
  "sub_string s = path_at (\<lambda>wb. put_string wb s)"

definition has_index :: "index \<Rightarrow> db_file \<Rightarrow> path \<Rightarrow> bool" where
  "has_index k = path_contains (\<lambda>wb. put_value wb k)"

definition has_string :: "bstring \<Rightarrow> db_file \<Rightarrow> path \<Rightarrow> bool" where
  "has_string s = path_contains (\<lambda>wb. put_string wb s)"

definition clear_index :: "index \<Rightarrow> path \<Rightarrow> db_file \<Rightarrow> db_file option" where
  "clear_index k = path_clear_value (\<lambda>wb. put_value wb k) (\<lambda>wb. put_value wb k)"

definition clear_string :: "bstring \<Rightarrow> path \<Rightarrow> db_file \<Rightarrow> db_file option" where
  "clear_string s = path_clear_value (\<lambda>wb. put_string wb s) (\<lambda>wb. put_string wb s)"

record json_db =
  jd_root :: path
  jd_authentication :: path
  jd_users :: path
  jd_properties :: path
  jd_words :: path
  jd_objects :: path
  jd_json :: path

text \<open>The constructor: the members in the order of their declaration.\<close>

definition json_db_new :: "db_file \<Rightarrow> json_db \<times> db_file" where
  "json_db_new f =
     (let f = database_new f;
          root = path_new 0;
          (a, f) = sub_index AUTHENTICATION (root, f);
          (u, f) = sub_index USERS (root, f);
          (p, f) = sub_index ROOT_PROPERTIES (root, f);
          (w, f) = sub_index WORDS (root, f);
          (ob, f) = sub_index OBJECTS (root, f);
          (j, f) = sub_index JSON (root, f)
      in (\<lparr>jd_root = root, jd_authentication = path_copy a, jd_users = path_copy u, jd_properties = path_copy p,
           jd_words = path_copy w, jd_objects = path_copy ob, jd_json = path_copy j\<rparr>, f))"

definition json_root_index :: "json_db \<Rightarrow> index" where
  "json_root_index d = path_index (jd_json d)"

text \<open>\<open>Path::isRoot\<close>, with the root of the JSON database.\<close>

definition json_is_root :: "json_db \<Rightarrow> path \<Rightarrow> bool" where
  "json_is_root d p \<longleftrightarrow> path_index p = json_root_index d \<or> path_index p = 0"

section \<open>The parts of a document\<close>

abbreviation (input) VALUE :: index where "VALUE \<equiv> 0"
abbreviation (input) PROPERTIES :: index where "PROPERTIES \<equiv> 1"
abbreviation (input) POSITIONS :: index where "POSITIONS \<equiv> 2"
abbreviation (input) CASCADE :: index where "CASCADE \<equiv> 3"
abbreviation (input) ID :: index where "ID \<equiv> 4"
abbreviation (input) CHILDREN :: index where "CHILDREN \<equiv> 6"

definition json_type_of :: "db_file \<Rightarrow> path \<Rightarrow> json_type option" where
  "json_type_of f p = (if \<not> path_has_data f p then Some UNDEFINED else path_get_type f p)"

definition get_children :: "path \<Rightarrow> db_file \<Rightarrow> cursor" where
  "get_children p f = sub_index CHILDREN (p, f)"

definition get_positions :: "path \<Rightarrow> db_file \<Rightarrow> cursor" where
  "get_positions p f = sub_index POSITIONS (p, f)"

definition get_object_properties :: "path \<Rightarrow> db_file \<Rightarrow> cursor" where
  "get_object_properties p f = sub_index PROPERTIES (p, f)"

definition json_has_id :: "path \<Rightarrow> db_file \<Rightarrow> bool \<times> db_file" where
  "json_has_id p f = (let (q, f) = sub_index ID (p, f) in (path_has_data f q, f))"

definition json_id :: "path \<Rightarrow> db_file \<Rightarrow> (index \<times> db_file) option" where
  "json_id p f = (let (q, f) = sub_index ID (p, f) in map_option (\<lambda>i. (i, f)) (path_get_index f q))"

definition json_set_id :: "index \<Rightarrow> path \<Rightarrow> db_file \<Rightarrow> db_file option" where
  "json_set_id i p f = (let (q, f) = sub_index ID (p, f) in map_option snd (path_set_index i q f))"

definition get_property_count :: "path \<Rightarrow> db_file \<Rightarrow> (index \<times> db_file) option" where
  "get_property_count p f =
     do { t \<leftarrow> json_type_of f p;
          if t \<noteq> OBJECT then Some (0, f)
          else (let (c, f) = get_children p f
                in if path_has_data f c then map_option (\<lambda>n. (n, f)) (path_get_index f c) else Some (0, f)) }"

section \<open>Parents\<close>

text \<open>\<open>Path::parent(T\& value)\<close> for an \<open>Index\<close> and for a \<open>BString\<close>.\<close>

definition parent_index :: "index \<Rightarrow> db_file \<Rightarrow> path \<Rightarrow> index \<Rightarrow> (path \<times> index) option" where
  "parent_index root f p v =
     do { (q, st) \<leftarrow> path_parent_in root f p stack_new;
          v \<leftarrow> (if st_bits st = [] then Some v else map_option fst (read_index (stack_reset st)));
          Some (q, v) }"

definition parent_string :: "index \<Rightarrow> db_file \<Rightarrow> path \<Rightarrow> bstring \<Rightarrow> (path \<times> bstring) option" where
  "parent_string root f p v =
     do { (q, st) \<leftarrow> path_parent_in root f p stack_new;
          v \<leftarrow> (if st_bits st = [] then Some v else map_option fst (read_string (stack_reset st)));
          Some (q, v) }"

definition get_object_property :: "json_db \<Rightarrow> index \<Rightarrow> path \<Rightarrow> db_file \<Rightarrow> (bstring \<times> db_file) option" where
  "get_object_property d position p f =
     (let (q, f) = get_positions p f;
          (q, f) = sub_index position (q, f)
      in do { i \<leftarrow> path_get_index f q;
              (_, property) \<leftarrow> parent_string (json_root_index d) f (path_new i) [];
              Some (property, f) })"

text \<open>
  \<open>JSONPath::parent\<close>: two steps up, over the position and over \<open>CHILDREN\<close>. The first definition is what both uses
  share; the type is read in either case. Without a key the file is not changed.
\<close>

definition parent_steps :: "json_db \<Rightarrow> db_file \<Rightarrow> path \<Rightarrow> (path \<times> index \<times> json_type) option" where
  "parent_steps d f p =
     do { (q, position) \<leftarrow> parent_index (json_root_index d) f p (2 ^ 64 - 1);
          (q, _) \<leftarrow> parent_index (json_root_index d) f q 0;
          t \<leftarrow> path_get_type f q;
          Some (q, position, t) }"

definition json_parent :: "json_db \<Rightarrow> db_file \<Rightarrow> path \<Rightarrow> path option" where
  "json_parent d f p = map_option fst (parent_steps d f p)"

definition json_parent_key ::
    "json_db \<Rightarrow> bstring \<Rightarrow> json_type option \<Rightarrow> path \<Rightarrow> db_file \<Rightarrow>
     (path \<times> bstring \<times> json_type option \<times> db_file) option" where
  "json_parent_key d key key_type p f =
     do { (q, position, t) \<leftarrow> parent_steps d f p;
          if t = ARRAY then Some (q, decimal position, Some INTEGER, f)
          else if t = OBJECT then
            do { (key, f) \<leftarrow> get_object_property d position q f; Some (q, key, Some STRING, f) }
          else Some (q, key, key_type, f) }"

definition is_user_root :: "json_db \<Rightarrow> bstring \<Rightarrow> path \<Rightarrow> db_file \<Rightarrow> (bool \<times> bstring \<times> db_file) option" where
  "is_user_root d user_id p f =
     (if json_is_root d p then Some (True, user_id, f)
      else do { q \<leftarrow> json_parent d f p;
                if json_is_root d q then Some (True, user_id, f)
                else do { q \<leftarrow> json_parent d f q;
                          if json_is_root d q then
                            do { (_, user_id, _, f) \<leftarrow> json_parent_key d user_id (Some STRING) p f;
                                 Some (True, user_id, f) }
                          else Some (False, user_id, f) } })"

end
