(* ===== verification/JSON_Document.thy ===== *)
theory JSON_Document
  imports JSON_Path
begin

text \<open>
  The operations of \<open>JSONPath\<close> (code/Database/JSONPath.hpp): the word index, types, properties, elements, values and
  removal. A loop up to the root of the database is a \<open>partial_function\<close>. \<open>clear\<close> and \<open>deleteProperty\<close> call each
  other and \<open>operator []\<close>, which calls \<open>clear\<close> when the type changes: here the other methods take \<open>clear\<close> as the
  argument \<open>clr\<close>, and \<open>json_clear\<close> has the depth of its calls as a bound.
\<close>

section \<open>The word index\<close>

text \<open>The loop over the words for one document.\<close>

fun add_tokens :: "json_db \<Rightarrow> path \<Rightarrow> bstring list \<Rightarrow> db_file \<Rightarrow> db_file option" where
  "add_tokens d json [] f = Some f"
| "add_tokens d json (word # tokens) f =
     (let (wpath, f) = sub_string word (jd_words d, f)
      in do { (_, f) \<leftarrow> path_pre_inc wpath f;
              (i, f) \<leftarrow> json_id json f;
              let (q, f) = sub_index i (wpath, f);
              (_, f) \<leftarrow> path_pre_inc q f;
              add_tokens d json tokens f })"

text \<open>The loop over the document and those it is in.\<close>

partial_function (option) add_words_loop ::
    "json_db \<Rightarrow> bstring list \<Rightarrow> path \<Rightarrow> db_file \<Rightarrow> db_file option" where
  "add_words_loop d tokens json f =
     (if json_is_root d json then Some f
      else do { q \<leftarrow> json_parent d f json;
                if json_is_root d q then Some f
                else do { f \<leftarrow> add_tokens d json tokens f;
                          q \<leftarrow> json_parent d f json;
                          add_words_loop d tokens q f } })"

declare add_words_loop.simps [code]

definition add_words ::
    "wide_ctype \<Rightarrow> json_db \<Rightarrow> bstring \<Rightarrow> bstring \<Rightarrow> bool \<Rightarrow> bool \<Rightarrow> path \<Rightarrow> db_file \<Rightarrow> (bstring \<times> db_file) option" where
  "add_words W d val part whole final p f =
     do { (tokens, part) \<leftarrow> tokenise W val part final whole;
          f \<leftarrow> add_words_loop d tokens p f;
          Some (part, f) }"

partial_function (option) remove_word_loop ::
    "json_db \<Rightarrow> bstring \<Rightarrow> path \<Rightarrow> path \<Rightarrow> db_file \<Rightarrow> db_file option" where
  "remove_word_loop d word wpath json f =
     (if json_is_root d json then Some f
      else do { q \<leftarrow> json_parent d f json;
                if json_is_root d q then Some f
                else do { (i, f) \<leftarrow> json_id json f;
                          f \<leftarrow> (if has_index i f wpath then
                                  do { (i, f) \<leftarrow> json_id json f;
                                       let (q, f) = sub_index i (wpath, f);
                                       (count, f) \<leftarrow> path_pre_dec q f;
                                       if count = 0 then
                                         do { (i, f) \<leftarrow> json_id json f;
                                              f \<leftarrow> clear_index i wpath f;
                                              if path_dead_end f wpath then clear_string word (jd_words d) f
                                              else Some f }
                                       else Some f }
                                else Some f);
                          q \<leftarrow> json_parent d f json;
                          remove_word_loop d word wpath q f } })"

declare remove_word_loop.simps [code]

fun remove_tokens :: "json_db \<Rightarrow> path \<Rightarrow> bstring list \<Rightarrow> db_file \<Rightarrow> db_file option" where
  "remove_tokens d p [] f = Some f"
| "remove_tokens d p (word # tokens) f =
     (if has_string word f (jd_words d) then
        (let (wpath, f) = sub_string word (jd_words d, f)
         in do { f \<leftarrow> remove_word_loop d word wpath p f; remove_tokens d p tokens f })
      else remove_tokens d p tokens f)"

definition remove_words ::
    "wide_ctype \<Rightarrow> json_db \<Rightarrow> bstring \<Rightarrow> bstring \<Rightarrow> bool \<Rightarrow> bool \<Rightarrow> path \<Rightarrow> db_file \<Rightarrow> (bstring \<times> db_file) option" where
  "remove_words W d val part whole final p f =
     do { (tokens, part) \<leftarrow> tokenise W val part final whole;
          f \<leftarrow> remove_tokens d p tokens f;
          Some (part, f) }"

text \<open>The words of the pages of a string: the iterator is moved on before the words of a page are removed.\<close>

partial_function (option) remove_parts_loop ::
    "wide_ctype \<Rightarrow> json_db \<Rightarrow> path \<Rightarrow> path \<Rightarrow> (cursor, index) iterator \<Rightarrow> bstring \<Rightarrow> db_file \<Rightarrow> db_file option" where
  "remove_parts_loop W d p strings it part f =
     (if iterator_eq it (iterator_end 0) then Some f
      else (let (q, f) = sub_index (it_item it) (strings, f)
            in do { current \<leftarrow> path_get_data f q;
                    (q, _) \<leftarrow> it_path it;
                    it \<leftarrow> iterator_next read_index db_path_ops (it\<lparr>it_path := Some (q, f)\<rparr>);
                    (part, f) \<leftarrow> remove_words W d current part False (iterator_eq it (iterator_end 0)) p f;
                    remove_parts_loop W d p strings it part f }))"

declare remove_parts_loop.simps [code]

definition remove_all_words :: "wide_ctype \<Rightarrow> json_db \<Rightarrow> path \<Rightarrow> db_file \<Rightarrow> db_file option" where
  "remove_all_words W d p f =
     (let (strings, f) = sub_index VALUE (p, f)
      in do { remove \<leftarrow> (if path_has_data f strings then path_get_bool f strings else Some False);
              if remove then
                do { it \<leftarrow> iterator_begin read_index db_path_ops (strings, f) 0;
                     remove_parts_loop W d p strings it [] f }
              else Some f })"

section \<open>Indexing\<close>

text \<open>The words of the names of all properties above the document.\<close>

partial_function (option) index_properties_loop ::
    "wide_ctype \<Rightarrow> json_db \<Rightarrow> path \<Rightarrow> path \<Rightarrow> db_file \<Rightarrow> db_file option" where
  "index_properties_loop W d p json f =
     do { (stop, _, f) \<leftarrow> is_user_root d [] json f;
          if stop then Some f
          else do { (json, property, key_type, f) \<leftarrow> json_parent_key d [] None json f;
                    t \<leftarrow> key_type;
                    f \<leftarrow> (if t = STRING then map_option snd (add_words W d property [] True True p f) else Some f);
                    index_properties_loop W d p json f } }"

declare index_properties_loop.simps [code]

definition index_properties :: "wide_ctype \<Rightarrow> json_db \<Rightarrow> path \<Rightarrow> db_file \<Rightarrow> db_file option" where
  "index_properties W d p f =
     (let (q, f) = sub_index CASCADE (p, f)
      in if path_has_data f q then Some f
         else do { f \<leftarrow> index_properties_loop W d p p f; (_, f) \<leftarrow> path_set_bool True q f; Some f })"

partial_function (option) add_object_loop :: "json_db \<Rightarrow> index \<Rightarrow> path \<Rightarrow> db_file \<Rightarrow> db_file option" where
  "add_object_loop d i json f =
     (if json_is_root d json then Some f
      else (let (q, f) = sub_index (path_index json) (jd_objects d, f);
                (_, f) = sub_index i (q, f)
            in do { json \<leftarrow> json_parent d f json; add_object_loop d i json f }))"

declare add_object_loop.simps [code]

definition add_object :: "json_db \<Rightarrow> path \<Rightarrow> db_file \<Rightarrow> db_file option" where
  "add_object d p f = do { (i, f) \<leftarrow> json_id p f; add_object_loop d i p f }"

partial_function (option) remove_object_loop :: "json_db \<Rightarrow> index \<Rightarrow> path \<Rightarrow> db_file \<Rightarrow> db_file option" where
  "remove_object_loop d i json f =
     (if json_is_root d json then Some f
      else (let (q, f) = sub_index (path_index json) (jd_objects d, f)
            in do { f \<leftarrow> clear_index i q f; json \<leftarrow> json_parent d f json; remove_object_loop d i json f }))"

declare remove_object_loop.simps [code]

definition remove_object :: "json_db \<Rightarrow> path \<Rightarrow> db_file \<Rightarrow> db_file option" where
  "remove_object d p f =
     do { (i, f) \<leftarrow> json_id p f;
          f \<leftarrow> remove_object_loop d i p f;
          clear_index (path_index p) (jd_objects d) f }"

section \<open>Types, properties and elements\<close>

definition set_type ::
    "(path \<Rightarrow> db_file \<Rightarrow> db_file option) \<Rightarrow> json_db \<Rightarrow> json_type \<Rightarrow> path \<Rightarrow> db_file \<Rightarrow> db_file option" where
  "set_type clr d t p f =
     (if \<not> path_has_data f p then
        do { (_, f) \<leftarrow> path_set_type t p f;
             let (has, f) = json_has_id p f;
             f \<leftarrow> (if has then Some f else json_set_id (path_index p) p f);
             add_object d p f }
      else do { t' \<leftarrow> json_type_of f p;
                if t' \<noteq> t then
                  do { (i, f) \<leftarrow> json_id p f;
                       f \<leftarrow> clr p f;
                       (_, f) \<leftarrow> path_set_type t p f;
                       f \<leftarrow> json_set_id i p f;
                       add_object d p f }
                else Some f })"

text \<open>\<open>getObjectPropertyPosition\<close>: the position of a property, which is created when it is new.\<close>

definition property_position ::
    "wide_ctype \<Rightarrow> json_db \<Rightarrow> bstring \<Rightarrow> path \<Rightarrow> db_file \<Rightarrow> (index \<times> db_file) option" where
  "property_position W d property p f =
     (let (property_path, f) = sub_string property (jd_properties d, f);
          (q, f) = get_object_properties p f;
          (object_property, f) = sub_index (path_index property_path) (q, f)
      in do { f \<leftarrow> (if \<not> path_has_data f object_property then
                      (let (_, f) = sub_index (path_index p) (property_path, f);
                           (children, f) = get_children p f
                       in do { (position, f) \<leftarrow> path_pre_inc children f;
                               let (q, f) = get_positions p f;
                               let (q, f) = sub_index position (q, f);
                               (_, f) \<leftarrow> path_set_index (path_index property_path) q f;
                               (_, f) \<leftarrow> path_set_index position object_property f;
                               let (children, f) = get_children p f;
                               let (child, f) = sub_index position (children, f);
                               f \<leftarrow> json_set_id (path_index child) child f;
                               index_properties W d (path_copy child) f })
                    else Some f);
              position \<leftarrow> path_get_index f object_property;
              Some (position, f) })"

definition at_property ::
    "(path \<Rightarrow> db_file \<Rightarrow> db_file option) \<Rightarrow> wide_ctype \<Rightarrow> json_db \<Rightarrow> bstring \<Rightarrow> path \<Rightarrow> db_file \<Rightarrow> cursor option" where
  "at_property clr W d property p f =
     do { f \<leftarrow> set_type clr d OBJECT p f;
          (position, f) \<leftarrow> property_position W d property p f;
          let (children, f) = get_children p f;
          let (child, f) = sub_index position (children, f);
          Some (path_copy child, f) }"

function grow_array ::
    "wide_ctype \<Rightarrow> json_db \<Rightarrow> path \<Rightarrow> index \<Rightarrow> index \<Rightarrow> db_file \<Rightarrow> (index \<times> db_file) option" where
  "grow_array W d children index count f =
     (if count < index then
        (let count = count + 1;
             (child, f) = sub_index count (children, f);
             child = path_copy child;
             (has, f) = json_has_id child f
         in do { f \<leftarrow> (if has then Some f else json_set_id (path_index child) child f);
                 f \<leftarrow> index_properties W d child f;
                 grow_array W d children index count f })
      else Some (count, f))"
  by pat_completeness auto
termination by (relation "measure (\<lambda>(W, d, children, index, count, f). index - count)") auto

declare grow_array.simps [simp del]

definition at_index ::
    "(path \<Rightarrow> db_file \<Rightarrow> db_file option) \<Rightarrow> wide_ctype \<Rightarrow> json_db \<Rightarrow> index \<Rightarrow> path \<Rightarrow> db_file \<Rightarrow> cursor option" where
  "at_index clr W d index p f =
     (if index < 1 then None
      else (let (children, f) = get_children p f
            in do { t \<leftarrow> json_type_of f p;
                    f \<leftarrow> (if t = UNDEFINED then set_type clr d ARRAY p f else Some f);
                    count \<leftarrow> (if path_has_data f children then path_get_index f children else Some 0);
                    f \<leftarrow> (if count < index then
                            do { t \<leftarrow> json_type_of f p;
                                 (count, f) \<leftarrow> (if t = ARRAY then grow_array W d children index count f else None);
                                 map_option snd (path_set_index count children f) }
                          else Some f);
                    let (children, f) = get_children p f;
                    let (child, f) = sub_index index (children, f);
                    Some (path_copy child, f) }))"

definition contains_property :: "json_db \<Rightarrow> bstring \<Rightarrow> path \<Rightarrow> db_file \<Rightarrow> (bool \<times> db_file) option" where
  "contains_property d property p f =
     do { t \<leftarrow> json_type_of f p;
          if t \<noteq> OBJECT then Some (False, f)
          else if \<not> has_string property f (jd_properties d) then Some (False, f)
          else (let (path, f) = sub_string property (jd_properties d, f);
                    (q, f) = get_object_properties p f
                in Some (has_index (path_index path) f q, f)) }"

definition contains_element :: "index \<Rightarrow> path \<Rightarrow> db_file \<Rightarrow> (bool \<times> db_file) option" where
  "contains_element index p f =
     do { t \<leftarrow> json_type_of f p;
          if t \<noteq> ARRAY \<and> t \<noteq> OBJECT then Some (False, f)
          else (let (children, f) = get_children p f in Some (has_index index f children, f)) }"

end
