(* ===== verification/JSON_Value.thy ===== *)
theory JSON_Value
  imports JSON_Document
begin

text \<open>
  The operations of \<open>JSONPath\<close> (code/Database/JSONPath.hpp), continued: removal, scalar values, strings in pages, and arrays.
\<close>

section \<open>Removal\<close>

text \<open>A loop \<open>for (index : Iterable<Index>(path))\<close> whose body changes the file.\<close>

partial_function (option) for_each_index ::
    "(index \<Rightarrow> db_file \<Rightarrow> db_file option) \<Rightarrow> (cursor, index) iterator \<Rightarrow> db_file \<Rightarrow> db_file option" where
  "for_each_index body it f =
     (if iterator_eq it (iterator_end 0) then Some f
      else do { f \<leftarrow> body (it_item it) f;
                (q, _) \<leftarrow> it_path it;
                it \<leftarrow> iterator_next read_index db_path_ops (it\<lparr>it_path := Some (q, f)\<rparr>);
                for_each_index body it f })"

declare for_each_index.simps [code]

text \<open>The words of the property names above the property that is deleted.\<close>

partial_function (option) remove_names_loop ::
    "wide_ctype \<Rightarrow> json_db \<Rightarrow> path \<Rightarrow> path \<Rightarrow> db_file \<Rightarrow> db_file option" where
  "remove_names_loop W d json path f =
     do { (stop, _, f) \<leftarrow> is_user_root d [] path f;
          if stop then Some f
          else do { (path, property, key_type, f) \<leftarrow> json_parent_key d [] None path f;
                    t \<leftarrow> key_type;
                    f \<leftarrow> (if t = STRING then map_option snd (remove_words W d property [] True True json f) else Some f);
                    remove_names_loop W d json path f } }"

declare remove_names_loop.simps [code]

definition delete_property ::
    "(path \<Rightarrow> db_file \<Rightarrow> db_file option) \<Rightarrow> wide_ctype \<Rightarrow> json_db \<Rightarrow> bstring \<Rightarrow> path \<Rightarrow> db_file \<Rightarrow> db_file option" where
  "delete_property clr W d property p f =
     do { (found, f) \<leftarrow> contains_property d property p f;
          if \<not> found then Some f
          else do { (json, f) \<leftarrow> at_property clr W d property p f;
                    f \<leftarrow> remove_names_loop W d json json f;
                    (position, f) \<leftarrow> property_position W d property p f;
                    let (property_path, f) = sub_string property (jd_properties d, f);
                    f \<leftarrow> clr json f;
                    f \<leftarrow> (if has_index (path_index p) f property_path then
                            do { f \<leftarrow> clear_index (path_index p) property_path f;
                                 if path_dead_end f property_path then clear_string property (jd_properties d) f
                                 else Some f }
                          else Some f);
                    let (q, f) = get_object_properties p f;
                    f \<leftarrow> clear_index (path_index property_path) q f;
                    let (children, f) = get_children p f;
                    clear_index position children f } }"

text \<open>\<open>clear\<close>: \<open>None\<close> also when the calls are more than \<open>n\<close> deep.\<close>

fun json_clear :: "nat \<Rightarrow> wide_ctype \<Rightarrow> json_db \<Rightarrow> path \<Rightarrow> db_file \<Rightarrow> db_file option" where
  "json_clear 0 W d p f = None"
| "json_clear (Suc n) W d p f =
     do { t \<leftarrow> json_type_of f p;
          f \<leftarrow> (if t = STRING then do { f \<leftarrow> remove_all_words W d p f; clear_index VALUE p f }
                else if t = ARRAY then
                  (let (children, f) = get_children p f;
                       (clear_children, f) = get_children p f
                   in do { it \<leftarrow> iterator_begin read_index db_path_ops (children, f) 0;
                           for_each_index (\<lambda>index f.
                             do { (item, f) \<leftarrow> at_index (json_clear n W d) W d index p f;
                                  f \<leftarrow> json_clear n W d item f;
                                  clear_index index clear_children f }) it f })
                else if t = OBJECT then
                  (let (children, f) = get_children p f
                   in do { it \<leftarrow> iterator_begin read_index db_path_ops (children, f) 0;
                           for_each_index (\<lambda>index f.
                             do { (property, f) \<leftarrow> get_object_property d index p f;
                                  delete_property (json_clear n W d) W d property p f }) it f })
                else Some f);
          f \<leftarrow> remove_object d p f;
          path_clear p f }"

section \<open>Scalar values\<close>

definition set_undefined ::
    "(path \<Rightarrow> db_file \<Rightarrow> db_file option) \<Rightarrow> wide_ctype \<Rightarrow> json_db \<Rightarrow> path \<Rightarrow> db_file \<Rightarrow> db_file option" where
  "set_undefined clr W d p f =
     do { t \<leftarrow> json_type_of f p;
          if t = UNDEFINED then Some f
          else if \<not> json_is_root d p then
            do { (parent, property, _, f) \<leftarrow> json_parent_key d [] None p f;
                 t \<leftarrow> json_type_of f parent;
                 if t = OBJECT then delete_property clr W d property parent f
                 else if t = ARRAY then set_type clr d NULL p f
                 else set_type clr d UNDEFINED p f }
          else Some f }"

definition set_null :: "(path \<Rightarrow> db_file \<Rightarrow> db_file option) \<Rightarrow> json_db \<Rightarrow> path \<Rightarrow> db_file \<Rightarrow> db_file option" where
  "set_null clr d p f = set_type clr d NULL p f"

definition set_boolean ::
    "(path \<Rightarrow> db_file \<Rightarrow> db_file option) \<Rightarrow> json_db \<Rightarrow> bstring \<Rightarrow> path \<Rightarrow> db_file \<Rightarrow> db_file option" where
  "set_boolean clr d val p f =
     do { f \<leftarrow> set_type clr d BOOLEAN p f;
          let (q, f) = sub_index VALUE (p, f);
          map_option snd (path_set_data val q f) }"

definition set_integer ::
    "(path \<Rightarrow> db_file \<Rightarrow> db_file option) \<Rightarrow> json_db \<Rightarrow> bstring \<Rightarrow> path \<Rightarrow> db_file \<Rightarrow> db_file option" where
  "set_integer clr d val p f =
     do { f \<leftarrow> set_type clr d INTEGER p f;
          let (q, f) = sub_index VALUE (p, f);
          map_option snd (path_set_data val q f) }"

definition set_integer_index ::
    "(path \<Rightarrow> db_file \<Rightarrow> db_file option) \<Rightarrow> json_db \<Rightarrow> index \<Rightarrow> path \<Rightarrow> db_file \<Rightarrow> db_file option" where
  "set_integer_index clr d v p f = set_integer clr d (decimal v) p f"

definition set_number ::
    "(path \<Rightarrow> db_file \<Rightarrow> db_file option) \<Rightarrow> json_db \<Rightarrow> bstring \<Rightarrow> path \<Rightarrow> db_file \<Rightarrow> db_file option" where
  "set_number clr d val p f =
     do { f \<leftarrow> set_type clr d NUMBER p f;
          let (q, f) = sub_index VALUE (p, f);
          map_option snd (path_set_data val q f) }"

text \<open>\<open>getValue\<close>.\<close>

definition get_json_value :: "path \<Rightarrow> db_file \<Rightarrow> (bstring \<times> db_file) option" where
  "get_json_value p f =
     (let (q, f) = sub_index VALUE (p, f)
      in if path_has_data f q then map_option (\<lambda>v. (v, f)) (path_get_data f q) else Some ([], f))"

section \<open>Strings\<close>

text \<open>\<open>getString\<close>: all pages; on a constant path the first one.\<close>

partial_function (option) get_string_loop ::
    "path \<Rightarrow> (cursor, index) iterator \<Rightarrow> bstring \<Rightarrow> db_file \<Rightarrow> (bstring \<times> db_file) option" where
  "get_string_loop p it val f =
     (if iterator_eq it (iterator_end 0) then Some (val, f)
      else (let (q, f) = sub_index VALUE (p, f);
                (q, f) = sub_index (it_item it) (q, f)
            in do { page \<leftarrow> path_get_data f q;
                    (q, _) \<leftarrow> it_path it;
                    it \<leftarrow> iterator_next read_index db_path_ops (it\<lparr>it_path := Some (q, f)\<rparr>);
                    get_string_loop p it (val @ page) f }))"

declare get_string_loop.simps [code]

definition get_string_value :: "path \<Rightarrow> db_file \<Rightarrow> (bstring \<times> db_file) option" where
  "get_string_value p f =
     (let (q, f) = sub_index VALUE (p, f)
      in do { it \<leftarrow> iterator_begin read_index db_path_ops (q, f) 0; get_string_loop p it [] f })"

definition get_string_const :: "path \<Rightarrow> db_file \<Rightarrow> (bstring \<times> db_file) option" where
  "get_string_const p f =
     (let (q, f) = sub_index VALUE (p, f)
      in if path_dead_end f q then Some ([], f)
         else (let (q, f) = sub_index VALUE (p, f);
                   (q, f) = sub_index 0 (q, f)
               in map_option (\<lambda>v. (v, f)) (path_get_data f q)))"

text \<open>\<open>path.max<Index>()\<close> throws when there is none.\<close>

definition max_index :: "path \<Rightarrow> db_file \<Rightarrow> index option" where
  "max_index p f = Option.bind (path_max read_index db_path_ops (p, f)) (\<lambda>m. m)"

text \<open>The loop that removes the pages from \<open>i\<close> to \<open>mx\<close> of the string below \<open>strings\<close>, with their words.\<close>

function remove_pages ::
    "wide_ctype \<Rightarrow> json_db \<Rightarrow> path \<Rightarrow> path \<Rightarrow> bool \<Rightarrow> index \<Rightarrow> index \<Rightarrow> bstring \<Rightarrow> db_file \<Rightarrow> (bstring \<times> db_file) option" where
  "remove_pages W d p strings indexed i mx part f =
     (if i \<le> mx then
        do { (part, f) \<leftarrow>
               (if indexed then
                  (let (q, f) = sub_index i (strings, f)
                   in do { current \<leftarrow> path_get_data f q; remove_words W d current part False (i = mx) p f })
                else Some (part, f));
             f \<leftarrow> clear_index i strings f;
             remove_pages W d p strings indexed (i + 1) mx part f }
      else Some (part, f))"
  by pat_completeness auto
termination by (relation "measure (\<lambda>(W, d, p, strings, indexed, i, mx, part, f). Suc mx - i)") auto

declare remove_pages.simps [simp del]

definition pages_indexed :: "path \<Rightarrow> db_file \<Rightarrow> bool option" where
  "pages_indexed q f = (if path_has_data f q then path_get_bool f q else Some False)"

definition set_string_page ::
    "(path \<Rightarrow> db_file \<Rightarrow> db_file option) \<Rightarrow> wide_ctype \<Rightarrow> json_db \<Rightarrow> bstring \<Rightarrow> index \<Rightarrow> bool \<Rightarrow> bstring \<Rightarrow> path \<Rightarrow> db_file \<Rightarrow>
     (bstring \<times> db_file) option" where
  "set_string_page clr W d val page index_data part p f =
     do { f \<leftarrow> (if page = 0 then set_type clr d STRING p f
                else if path_has_data f p \<and> path_get_type f p = Some STRING then Some f else None);
          let (q, f) = sub_index VALUE (p, f);
          mx \<leftarrow> (if \<not> path_dead_end f q then max_index q f else Some 0);
          (changed, f) \<leftarrow>
            (if page \<le> mx \<and> \<not> path_dead_end f q then
               (let (r, f) = sub_index page (q, f)
                in do { current \<leftarrow> path_get_data f r;
                        if current \<noteq> val then
                          do { indexed \<leftarrow> pages_indexed q f;
                               f \<leftarrow> (if indexed then map_option snd (remove_pages W d p q True page mx part f)
                                     else Some f);
                               Some (True, f) }
                        else Some (False, f) })
             else Some (True, f));
          let (q, f) = sub_index VALUE (p, f);
          let (r, f) = sub_index page (q, f);
          (_, f) \<leftarrow> path_set_data val r f;
          if index_data \<and> changed then add_words W d val part False False p f else Some (part, f) }"

definition end_string ::
    "(path \<Rightarrow> db_file \<Rightarrow> db_file option) \<Rightarrow> wide_ctype \<Rightarrow> json_db \<Rightarrow> index \<Rightarrow> bool \<Rightarrow> bstring \<Rightarrow> path \<Rightarrow> db_file \<Rightarrow> db_file option" where
  "end_string clr W d page_count index_data part p f =
     do { f \<leftarrow> set_type clr d STRING p f;
          (part, f) \<leftarrow> add_words W d [] part False True p f;
          let (q, f) = sub_index VALUE (p, f);
          mx \<leftarrow> (if \<not> path_dead_end f q then max_index q f else Some 0);
          indexed \<leftarrow> pages_indexed q f;
          (_, f) \<leftarrow> remove_pages W d p q indexed page_count mx part f;
          map_option snd (path_set_bool index_data q f) }"

text \<open>With one page. The flag only says whether the words of the page are indexed.\<close>

definition set_string ::
    "(path \<Rightarrow> db_file \<Rightarrow> db_file option) \<Rightarrow> wide_ctype \<Rightarrow> json_db \<Rightarrow> bstring \<Rightarrow> index \<Rightarrow> bool \<Rightarrow> path \<Rightarrow> db_file \<Rightarrow> db_file option" where
  "set_string clr W d val page index_data p f =
     do { (part, f) \<leftarrow> set_string_page clr W d val page index_data [] p f;
          end_string clr W d 1 True part p f }"

section \<open>Objects and arrays\<close>

definition set_object :: "(path \<Rightarrow> db_file \<Rightarrow> db_file option) \<Rightarrow> json_db \<Rightarrow> path \<Rightarrow> db_file \<Rightarrow> db_file option" where
  "set_object clr d p f = set_type clr d OBJECT p f"

definition set_array :: "(path \<Rightarrow> db_file \<Rightarrow> db_file option) \<Rightarrow> json_db \<Rightarrow> path \<Rightarrow> db_file \<Rightarrow> db_file option" where
  "set_array clr d p f = set_type clr d ARRAY p f"

text \<open>The loop over the elements from \<open>i\<close> to \<open>mx\<close>.\<close>

function truncate_loop ::
    "(path \<Rightarrow> db_file \<Rightarrow> db_file option) \<Rightarrow> path \<Rightarrow> index \<Rightarrow> index \<Rightarrow> db_file \<Rightarrow> db_file option" where
  "truncate_loop clr children i mx f =
     (if i \<le> mx then
        (let (child, f) = sub_index i (children, f)
         in do { f \<leftarrow> clr (path_copy child) f;
                 f \<leftarrow> clear_index i children f;
                 truncate_loop clr children (i + 1) mx f })
      else Some f)"
  by pat_completeness auto
termination by (relation "measure (\<lambda>(clr, children, i, mx, f). Suc mx - i)") auto

declare truncate_loop.simps [simp del]

definition truncate_array ::
    "(path \<Rightarrow> db_file \<Rightarrow> db_file option) \<Rightarrow> index \<Rightarrow> path \<Rightarrow> db_file \<Rightarrow> db_file option" where
  "truncate_array clr n p f =
     (let (children, f) = get_children p f
      in do { f \<leftarrow> (if \<not> path_dead_end f children then
                      do { mx \<leftarrow> max_index children f; truncate_loop clr children (n + 1) mx f }
                    else Some f);
              map_option snd (path_set_index n children f) })"

end
