(* ===== verification/JSON_Frame.thy ===== *)
theory JSON_Frame
  imports JSON_Value
begin

text \<open>
  Frames for the operations of \<open>JSONPath\<close>. A place in the database is a list of complete codes, the keys that lead to it.
  \<open>grows f g A B n\<close> says that the file \<open>g\<close> has everything \<open>f\<close> has, with other data at most at the places \<open>A\<close> and new
  branches at most on the way to the places \<open>B\<close>, and is longer by at most \<open>n\<close> units. The rules of the operations of \<open>Path\<close>
  below are all that the proofs about documents use.
\<close>

section \<open>The size of codes\<close>

lemma number_code_length:
  assumes "\<And>p. p < n \<Longrightarrow> length (number_code p) \<le> b" and "v < 2 ^ n"
  shows "length (number_code v) \<le> 1 + n * (1 + b)"
  using assms
proof (induction n arbitrary: v rule: less_induct)
  case (less n)
  show ?case
  proof (cases "v = 0")
    case False
    then have b: "2 ^ power_of v \<le> v" "v < 2 * 2 ^ power_of v" using power_of_bounds [of v] by auto
    then have "(2::nat) ^ power_of v < 2 ^ n" using less.prems(2) by linarith
    with b have p: "power_of v < n" "remainder v (power_of v) < 2 ^ power_of v"
      by (auto simp: remainder_def)
    have "length (number_code (remainder v (power_of v))) \<le> 1 + power_of v * (1 + b)"
      using p less.prems(1) by (intro less.IH) auto
    moreover have "length (number_code (power_of v)) \<le> b" by (rule less.prems(1) [OF p(1)])
    moreover have "(1 + power_of v) * (1 + b) \<le> n * (1 + b)" using p(1) by (intro mult_le_mono1) simp
    ultimately show ?thesis using False by (simp add: number_code.simps [of v])
  qed (simp add: number_code.simps [of 0])
qed

lemma number_code_tiny: "p < 6 \<Longrightarrow> length (number_code p) \<le> 9"
proof -
  have "list_all (\<lambda>p. length (number_code p) \<le> 9) [0..<6]" by code_simp
  then show "p < 6 \<Longrightarrow> length (number_code p) \<le> 9" by (simp add: list_all_iff)
qed

lemma number_code_small: "v < 64 \<Longrightarrow> length (number_code v) \<le> 61"
  using number_code_length [of 6 9 v] number_code_tiny by simp

lemma value_code_length: "v < 2 ^ 64 \<Longrightarrow> length (value_code v) \<le> 3970"
  using number_code_length [of 64 61 v] number_code_small by (simp add: value_code_def)

lemma string_code_length: "length (string_code s) \<le> 2 + 1000 * length s"
proof -
  have "length (value_code (of_char c)) \<le> 1000" for c :: char
    using number_code_length [of 8 61 "of_char c"] number_code_small of_char_less [of c] by (simp add: value_code_def)
  then have "length (concat (map (\<lambda>c. value_code (of_char c)) s)) \<le> 1000 * length s"
    by (induction s) (auto intro: add_mono)
  then show ?thesis by (simp add: string_code_def)
qed

section \<open>Places\<close>

definition codes :: "bits list \<Rightarrow> bool" where
  "codes cs \<longleftrightarrow> list_all complete_code cs"

lemma codes_simps [simp]: "codes []" "codes (c # cs) \<longleftrightarrow> complete_code c \<and> codes cs"
  "codes (cs @ ds) \<longleftrightarrow> codes cs \<and> codes ds"
  by (simp_all add: codes_def)

declare value_code_complete [simp] string_code_complete [simp] value_code_inject [simp] string_code_inject [simp]

lemma prefix_concat_codes: "codes cs \<Longrightarrow> codes ds \<Longrightarrow> prefix (concat cs) (concat ds) \<longleftrightarrow> prefix cs ds"
proof (induction cs arbitrary: ds)
  case (Cons c cs)
  then have c: "complete_code c" "c \<noteq> []" by (auto simp: complete_code_def)
  show ?case
  proof (cases ds)
    case Nil
    with c show ?thesis by auto
  next
    case (Cons e es)
    with Cons.prems have e: "complete_code e" "codes es" by auto
    have same: "c = e" if "prefix (c @ concat cs) (e @ concat es)"
    proof -
      from that have "prefix c (e @ concat es)" "prefix e (e @ concat es)" by (auto elim: prefix_order.trans [rotated])
      then have "prefix c e \<or> prefix e c" by (rule prefix_same_cases)
      with c(1) e(1) show ?thesis using complete_prefix_free by auto
    qed
    have "prefix (concat cs) (concat es) \<longleftrightarrow> prefix cs es" using Cons.IH [OF _ e(2)] Cons.prems by simp
    with Cons same show ?thesis by (cases "c = e") auto
  qed
qed simp

lemma concat_codes_inject: "codes cs \<Longrightarrow> codes ds \<Longrightarrow> concat cs = concat ds \<longleftrightarrow> cs = ds"
  by (metis prefix_concat_codes prefix_order.antisym prefix_order.order_refl)

definition node :: "db_file \<Rightarrow> bits list \<Rightarrow> index option" where
  "node f cs = walk f 0 (concat cs)"

lemma node_extend: "node f (cs @ ds) \<noteq> None \<Longrightarrow> node f cs \<noteq> None"
  by (auto simp: node_def walk_append split: bind_splits)

lemma node_above: "node f cs = None \<Longrightarrow> prefix cs ds \<Longrightarrow> node f ds = None"
  using node_extend by (fastforce elim: prefixE)

definition data :: "db_file \<Rightarrow> bits list \<Rightarrow> bstring option" where
  "data f cs = entry f (concat cs)"

definition stands_at :: "db_file \<Rightarrow> path \<Rightarrow> bits list \<Rightarrow> bool" where
  "stands_at f p cs \<longleftrightarrow> codes cs \<and> node f cs = Some (path_index p)"

lemma stands_at_path: "stands_at f p cs \<Longrightarrow> at_path f p (concat cs)"
  by (simp add: stands_at_def at_path_def node_def)

lemma stands_at_codes: "stands_at f p cs \<Longrightarrow> codes cs"
  by (simp add: stands_at_def)

lemma stands_at_copy [simp]: "stands_at f (path_copy p) cs \<longleftrightarrow> stands_at f p cs"
  by (simp add: stands_at_def path_copy_def path_new_def)

lemma stands_at_new: "stands_at f (path_new i) cs \<longleftrightarrow> codes cs \<and> node f cs = Some i"
  by (simp add: stands_at_def path_new_def)

lemma node_unique:
  assumes "store_ok f" and "codes cs" and "codes ds" and "node f cs = Some i" and "node f ds = Some i"
  shows "cs = ds"
proof -
  from assms(1) obtain N E where inv: "db_inv f N E" by (auto simp: store_ok_def)
  have "concat cs = concat ds"
    using walk_unique [OF inv inv_root [OF inv]] assms(4,5) by (auto simp: node_def)
  with assms(2,3) show ?thesis by (simp add: concat_codes_inject)
qed

lemma node_bound:
  assumes "store_ok f" and "node f cs = Some i"
  shows "i < length f" and "length f \<le> 2 ^ 64"
proof -
  from assms(1) obtain N E where inv: "db_inv f N E" by (auto simp: store_ok_def)
  with assms(2) have "i \<in> N" using walk_in [OF inv inv_root [OF inv]] by (simp add: node_def)
  with inv_node(3) [OF inv this] inv show "i < length f" "length f \<le> 2 ^ 64" by (auto simp: db_inv_def)
qed

section \<open>Tidy files\<close>

text \<open>
  Every branch is on the way to a place, so that no descent ends inside a key; and below \<open>JSON\<close> all keys are numbers.
\<close>

definition tidy :: "db_file \<Rightarrow> bool" where
  "tidy f \<longleftrightarrow> (\<forall>p \<in> paths f 0. \<exists>cs. codes cs \<and> node f cs \<noteq> None \<and> prefix p (concat cs)) \<and>
     (\<forall>cs. codes cs \<longrightarrow> node f (value_code JSON # cs) \<noteq> None \<longrightarrow> (\<forall>c \<in> set cs. \<exists>k < 2 ^ 64. c = value_code k))"

lemma tidyD:
  assumes "tidy f"
  shows "p \<in> paths f 0 \<Longrightarrow> \<exists>cs. codes cs \<and> node f cs \<noteq> None \<and> prefix p (concat cs)"
    and "codes cs \<Longrightarrow> node f (value_code JSON # cs) \<noteq> None \<Longrightarrow> c \<in> set cs \<Longrightarrow> \<exists>k < 2 ^ 64. c = value_code k"
  using assms unfolding tidy_def by blast+

lemma node_paths: "node f cs \<noteq> None \<longleftrightarrow> concat cs \<in> paths f 0"
  by (auto simp: node_def paths_def)

lemma tidy_same: "paths g 0 = paths f 0 \<Longrightarrow> tidy f \<Longrightarrow> tidy g"
  unfolding tidy_def node_paths by simp

lemma tidy_code:
  assumes t: "tidy f" and at: "codes cs" "node f cs \<noteq> None" and k: "complete_code k"
    and shape: "(\<exists>i < 2 ^ 64. k = value_code i) \<or> cs \<noteq> [] \<and> hd cs \<noteq> value_code JSON"
    and p: "paths g 0 = paths f 0 \<union> {r. prefix r (concat cs @ k)}"
  shows "tidy g"
  unfolding tidy_def
proof (intro conjI ballI allI impI)
  have sub: "node g ds \<noteq> None" if "node f ds \<noteq> None" for ds using that p unfolding node_paths by blast
  have new: "codes (cs @ [k]) \<and> node g (cs @ [k]) \<noteq> None" using at k p unfolding node_paths by simp
  show "\<exists>cs. codes cs \<and> node g cs \<noteq> None \<and> prefix q (concat cs)" if "q \<in> paths g 0" for q
  proof (cases "q \<in> paths f 0")
    case True
    with tidyD(1) [OF t] sub show ?thesis by blast
  next
    case False
    with that p have "prefix q (concat (cs @ [k]))" by simp
    with new show ?thesis by blast
  qed
  fix ds c
  assume ds: "codes ds" "node g (value_code JSON # ds) \<noteq> None" and c: "c \<in> set ds"
  show "\<exists>k < 2 ^ 64. c = value_code k"
  proof (cases "node f (value_code JSON # ds) = None")
    case False
    with tidyD(2) [OF t ds(1)] c show ?thesis by blast
  next
    case True
    then have "concat (value_code JSON # ds) \<notin> paths f 0" using node_paths by blast
    moreover have "concat (value_code JSON # ds) \<in> paths g 0" using ds(2) node_paths by blast
    ultimately have "prefix (concat (value_code JSON # ds)) (concat (cs @ [k]))" using p by simp
    then have pre: "prefix (value_code JSON # ds) (cs @ [k])" 
      by (rule prefix_concat_codes [THEN iffD1, rotated 2]) (use ds(1) at(1) k in simp_all)
    then obtain e es where cs: "cs @ [k] = value_code JSON # e" "prefix ds e"
      by (elim prefixE) (simp add: that [of "ds @ _"])
    show ?thesis
    proof (cases cs)
      case Nil
      with cs c show ?thesis by auto
    next
      case (Cons x xs)
      with cs(1) have x: "x = value_code JSON" "e = xs @ [k]" by auto
      with shape Cons obtain i where i: "i < 2 ^ 64" "k = value_code i" by auto
      have "\<exists>k < 2 ^ 64. b = value_code k" if "b \<in> set xs" for b
        using tidyD(2) [OF t, of xs] at Cons x(1) that by auto
      with x(2) i cs(2) c show ?thesis by (auto dest: set_mono_prefix)
    qed
  qed
qed

section \<open>Growing\<close>

definition room :: "db_file \<Rightarrow> nat \<Rightarrow> bool" where
  "room f n \<longleftrightarrow> length f + n * 2 ^ 17 \<le> 2 ^ 64"

definition grows :: "db_file \<Rightarrow> db_file \<Rightarrow> bits list set \<Rightarrow> bits list set \<Rightarrow> nat \<Rightarrow> bool" where
  "grows f g A B n \<longleftrightarrow> store_ok g \<and> (\<forall>cs i. node f cs = Some i \<longrightarrow> node g cs = Some i) \<and>
     (\<forall>cs. codes cs \<longrightarrow> cs \<notin> A \<longrightarrow> data g cs = data f cs) \<and>
     (\<forall>cs. codes cs \<longrightarrow> node g cs \<noteq> None \<longrightarrow> node f cs \<noteq> None \<or> (\<exists>ds \<in> B. prefix cs ds)) \<and>
     length g \<le> length f + n * 2 ^ 17 \<and> (tidy f \<longrightarrow> tidy g)"

lemma growsD:
  assumes "grows f g A B n"
  shows "store_ok g" and "node f cs = Some i \<Longrightarrow> node g cs = Some i"
    and "codes cs \<Longrightarrow> cs \<notin> A \<Longrightarrow> data g cs = data f cs"
    and "codes cs \<Longrightarrow> node g cs \<noteq> None \<Longrightarrow> node f cs \<noteq> None \<or> (\<exists>ds \<in> B. prefix cs ds)"
    and "length g \<le> length f + n * 2 ^ 17" and "stands_at f p cs \<Longrightarrow> stands_at g p cs" and "tidy f \<Longrightarrow> tidy g"
  using assms by (auto simp: grows_def stands_at_def)

lemma grows_refl: "store_ok f \<Longrightarrow> grows f f A B n"
  by (simp add: grows_def)

lemma grows_trans:
  assumes "grows f g A B n" and "grows g h A' B' m"
  shows "grows f h (A \<union> A') (B \<union> B') (n + m)"
  unfolding grows_def
proof (intro conjI allI impI)
  show "node h cs = Some i" if "node f cs = Some i" for cs i
    using growsD(2) [OF assms(2) growsD(2) [OF assms(1) that]] .
  show "data h cs = data f cs" if "codes cs" "cs \<notin> A \<union> A'" for cs
    using growsD(3) [OF assms(1) that(1)] growsD(3) [OF assms(2) that(1)] that(2) by simp
  show "node f cs \<noteq> None \<or> (\<exists>ds \<in> B \<union> B'. prefix cs ds)" if "codes cs" "node h cs \<noteq> None" for cs
    using growsD(4) [OF assms(2) that] growsD(4) [OF assms(1) that(1)] by blast
  show "length h \<le> length f + (n + m) * 2 ^ 17"
    using growsD(5) [OF assms(1)] growsD(5) [OF assms(2)] by (simp add: distrib_right)
  show "tidy h" if "tidy f" using growsD(7) [OF assms(2) growsD(7) [OF assms(1) that]] .
qed (rule growsD(1) [OF assms(2)])

lemma grows_mono: "grows f g A B n \<Longrightarrow> A \<subseteq> A' \<Longrightarrow> B \<subseteq> B' \<Longrightarrow> n \<le> m \<Longrightarrow> grows f g A' B' m"
  unfolding grows_def by (elim conjE, intro conjI allI impI) (blast | erule order_trans, simp)+

text \<open>One step after others, inside given bounds.\<close>

lemma grows_step:
  "grows f g A B n \<Longrightarrow> grows g h A' B' m \<Longrightarrow> A' \<subseteq> A \<Longrightarrow> B' \<subseteq> B \<Longrightarrow> grows f h A B (n + m)"
  by (drule (1) grows_trans) (simp add: Un_absorb2)

lemma room_grows: "grows f g A B n \<Longrightarrow> room f (n + m) \<Longrightarrow> room g m"
  using growsD(5) by (fastforce simp: room_def distrib_right)

lemma room_less: "room f n \<Longrightarrow> m \<le> n \<Longrightarrow> room f m"
  by (simp add: room_def)

lemma room_after: "room f m \<Longrightarrow> grows f g A B n \<Longrightarrow> n + k \<le> m \<Longrightarrow> room g k"
  using room_grows room_less by blast

section \<open>The operations of a path\<close>

lemma sub_code_step:
  assumes ok: "store_ok f" and at: "stands_at f p cs" and k: "complete_code k" "32 * length k \<le> n * 2 ^ 17"
    and room: "room f n" and put: "\<And>st. put path_write_bit st = fold path_write_bit k st"
    and shape: "(\<exists>i < 2 ^ 64. k = value_code i) \<or> cs \<noteq> [] \<and> hd cs \<noteq> value_code JSON"
  shows "\<exists>q g. path_at put (p, f) = (q, g) \<and> grows f g {} {cs @ [k]} n \<and> stands_at g q (cs @ [k])"
proof -
  from ok obtain N E where inv: "db_inv f N E" by (auto simp: store_ok_def)
  note cs = stands_at_codes [OF at]
  have len: "length f + 32 * length k \<le> 2 ^ 64" using room k(2) by (simp add: room_def)
  from path_at_code [OF inv stands_at_path [OF at] len, of put] put obtain q g N' E' where
    g: "path_at put (p, f) = (q, g)" "db_inv g N' E'" "grown f N g N'" "at_path g q (concat cs @ k)"
      "paths g 0 = paths f 0 \<union> {r. prefix r (concat cs @ k)}" "entry g = entry f" "length g \<le> length f + 32 * length k"
    by blast
  have "node f ds \<noteq> None \<or> prefix ds (cs @ [k])" if "codes ds" "node g ds \<noteq> None" for ds
  proof -
    from that(2) have "concat ds \<in> paths g 0" by (simp add: node_def paths_def)
    with g(5) have "concat ds \<in> paths f 0 \<or> prefix (concat ds) (concat (cs @ [k]))" by auto
    then show ?thesis using that(1) cs k(1) by (subst (asm) prefix_concat_codes) (auto simp: node_def paths_def)
  qed
  moreover have "node g ds = Some i" if "node f ds = Some i" for ds i
    using walk_grown [OF inv g(3) inv_root [OF inv]] that by (simp add: node_def)
  moreover have "tidy g" if "tidy f"
    using tidy_code [OF that cs _ k(1) shape g(5)] at by (auto simp: stands_at_def)
  ultimately have "grows f g {} {cs @ [k]} n"
    using g(2,6,7) k(2) by (auto simp: grows_def data_def store_ok_def)
  moreover have "stands_at g q (cs @ [k])" using g(4) cs k(1) by (simp add: stands_at_def at_path_def node_def)
  ultimately show ?thesis using g(1) by blast
qed

lemma sub_index_step:
  assumes "store_ok f" and "stands_at f p cs" and "k < 2 ^ 64" and "room f 1"
  shows "\<exists>q g. sub_index k (p, f) = (q, g) \<and> grows f g {} {cs @ [value_code k]} 1 \<and> stands_at g q (cs @ [value_code k])"
  unfolding sub_index_def
  using value_code_length [OF assms(3)] assms(3) by (intro sub_code_step assms) (auto simp: code_lens)

lemma sub_string_step:
  assumes "store_ok f" and "stands_at f p cs" and "room f (1 + length s)" and "cs \<noteq> [] \<and> hd cs \<noteq> value_code JSON"
  shows "\<exists>q g. sub_string s (p, f) = (q, g) \<and> grows f g {} {cs @ [string_code s]} (1 + length s) \<and>
    stands_at g q (cs @ [string_code s])"
  unfolding sub_string_def
  using string_code_length [of s] assms(4) by (intro sub_code_step assms) (simp_all add: code_lens)

text \<open>A branch that is there is found without writing.\<close>

lemma write_bits_same:
  assumes "walk f 0 pre = Some (path_index p)" and "walk f 0 (pre @ bs) = Some i"
  shows "\<exists>q. fold path_write_bit bs (p, f) = (q, f) \<and> path_index q = i"
  using assms
proof (induction bs arbitrary: pre p)
  case (Cons b bs)
  have "walk f 0 (pre @ [b]) \<noteq> None" using Cons.prems(2) walk_append [of f 0 "pre @ [b]" bs] by (auto split: bind_splits)
  with Cons.prems(1) have c: "child b (path_branch f p) \<noteq> 0" and
    w: "walk f 0 (pre @ [b]) = Some (child b (path_branch f p))" by (auto simp: walk_snoc path_branch_def split: if_splits)
  from go_dir_cases(1) [OF c] obtain m where
    run: "path_write_bit b (p, f) = (p\<lparr>path_index := child b (path_branch f p), path_count := m\<rparr>, f)"
    by (simp add: path_write_bit_go)
  from Cons.IH [of "pre @ [b]" "p\<lparr>path_index := child b (path_branch f p), path_count := m\<rparr>"] w Cons.prems(2) run
  show ?case by simp
qed simp

lemma sub_code_there:
  assumes "stands_at f p cs" and "complete_code k" and "node f (cs @ [k]) \<noteq> None"
    and "\<And>st. put path_write_bit st = fold path_write_bit k st"
  shows "\<exists>q. path_at put (p, f) = (q, f) \<and> stands_at f q (cs @ [k])"
proof -
  from assms(3) obtain i where i: "walk f 0 (concat cs @ k) = Some i" by (auto simp: node_def)
  have "walk f 0 (concat cs) = Some (path_index (path_copy p))"
    using assms(1) by (simp add: stands_at_def node_def path_copy_def path_new_def)
  from write_bits_same [OF this i] obtain q where "fold path_write_bit k (path_copy p, f) = (q, f)" "path_index q = i" by blast
  with assms(1,2,4) i show ?thesis by (auto simp: path_at_def stands_at_def node_def)
qed

lemma sub_index_there:
  "stands_at f p cs \<Longrightarrow> node f (cs @ [value_code k]) \<noteq> None \<Longrightarrow>
    \<exists>q. sub_index k (p, f) = (q, f) \<and> stands_at f q (cs @ [value_code k])"
  unfolding sub_index_def by (rule sub_code_there) (simp_all add: code_lens)

lemma put_data_step:
  assumes ok: "store_ok f" and at: "stands_at f p cs" and "8 + length v \<le> n * 2 ^ 17" and "room f n"
  shows "\<exists>r g. path_set_data v p f = Some (r, g) \<and> grows f g {cs} {} n \<and> data g cs = Some v"
proof -
  note cs = stands_at_codes [OF at]
  have "length f + 8 + length v \<le> 2 ^ 64" using assms(3,4) by (simp add: room_def)
  from set_data_step [OF ok stands_at_path [OF at] this] obtain r g where
    g: "path_set_data v p f = Some (r, g)" "store_ok g" "paths g 0 = paths f 0" "entry g = (entry f)(concat cs \<mapsto> v)"
      "\<forall>q r. at_path f q r \<longrightarrow> at_path g q r" "length g \<le> length f + 8 + length v" by blast
  have "node g ds = Some i" if "node f ds = Some i" for ds i
    using g(5) [rule_format, of "path_new i" "concat ds"] that by (simp add: at_path_def node_def path_new_def)
  moreover have "node f ds \<noteq> None" if "node g ds \<noteq> None" for ds
    using g(3) that by (auto simp: node_def paths_def)
  moreover have "data g ds = data f ds" if "codes ds" "ds \<noteq> cs" for ds
    using g(4) that cs by (simp add: data_def concat_codes_inject)
  moreover have "tidy g" if "tidy f" using tidy_same [OF g(3) that] .
  ultimately have "grows f g {cs} {} n" using g(2,6) assms(3) by (auto simp: grows_def)
  with g(1,4) show ?thesis by (auto simp: data_def)
qed

lemma put_index_step:
  assumes "store_ok f" and "stands_at f p cs" and "room f 1"
  shows "\<exists>r g. path_set_index v p f = Some (r, g) \<and> grows f g {cs} {} 1 \<and> data g cs = Some (index_bytes v)"
  unfolding path_set_index_def by (intro put_data_step assms) simp

lemma get_data_at:
  assumes "store_ok f" and "stands_at f p cs"
  shows "path_get_data f p = Some (case data f cs of None \<Rightarrow> [] | Some v \<Rightarrow> v)"
    and "path_has_data f p \<longleftrightarrow> data f cs \<noteq> None"
  using get_data_step [OF assms(1) stands_at_path [OF assms(2)]] by (simp_all add: data_def)

lemma get_index_at:
  assumes "store_ok f" and "stands_at f p cs" and "data f cs = Some (index_bytes v)" and "v < 2 ^ 64"
  shows "path_get_index f p = Some v"
  using get_data_at(1) [OF assms(1,2)] assms(3,4) by (simp add: path_get_index_def)

lemma has_code_at:
  assumes "stands_at f p cs" and "complete_code k"
    and "\<And>c. put (contains_write_bit f) c = fold (contains_write_bit f) k c"
  shows "path_contains put f p \<longleftrightarrow> node f (cs @ [k]) \<noteq> None"
  using path_contains_bits [of put f k p] assms at_path_walk [OF stands_at_path [OF assms(1)], of k]
  by (auto simp: node_def complete_code_def)

lemma has_index_at: "stands_at f p cs \<Longrightarrow> has_index k f p \<longleftrightarrow> node f (cs @ [value_code k]) \<noteq> None"
  unfolding has_index_def by (rule has_code_at) (simp_all add: code_lens)

lemma has_string_at: "stands_at f p cs \<Longrightarrow> has_string s f p \<longleftrightarrow> node f (cs @ [string_code s]) \<noteq> None"
  unfolding has_string_def by (rule has_code_at) (simp_all add: code_lens)

lemma data_node: "data f cs \<noteq> None \<Longrightarrow> node f cs \<noteq> None"
  by (cases "walk f 0 (concat cs)") (auto simp: data_def node_def entry_def)

text \<open>The parent over one code, below the root of the database.\<close>

lemma parent_code_at:
  assumes ok: "store_ok f" and at: "stands_at f p (cs @ [k])" and root: "node f ds = Some root" "codes ds"
  shows "\<exists>q st. path_parent_in root f p stack_new = Some (q, st) \<and> stands_at f q cs \<and> st_bits st = k \<and>
    st_it st = Some 0 \<and> st_count st = 0"
proof -
  from ok obtain N E where inv: "db_inv f N E" by (auto simp: store_ok_def)
  from stands_at_codes [OF at] have k: "complete_code k" "codes cs" by auto
  from at obtain i where i: "node f cs = Some i" "walk f i k = Some (path_index p)"
    by (auto simp: stands_at_def node_def walk_append split: bind_splits)
  have iN: "i \<in> N" using walk_in [OF inv inv_root [OF inv]] i(1) by (auto simp: node_def)
  have "walk f i c \<noteq> Some root" if c: "strict_prefix c k" "c \<noteq> []" for c
  proof
    assume "walk f i c = Some root"
    with i(1) have "walk f 0 (concat cs @ c) = Some root" by (simp add: node_def walk_append)
    with root(1) have eq: "concat ds = concat cs @ c"
      using walk_unique [OF inv inv_root [OF inv]] by (auto simp: node_def)
    then have "prefix (concat cs) (concat ds)" by simp
    with k(2) root(2) obtain es where es: "ds = cs @ es" by (auto simp: prefix_concat_codes elim: prefixE)
    with eq have "concat es = c" by simp
    with c root(2) es obtain e es' where e: "es = e # es'" "complete_code e" by (cases es) auto
    with \<open>concat es = c\<close> c(1) have "strict_prefix e k \<or> e = k \<and> False"
      by (auto simp: strict_prefix_def elim!: prefixE)
    with e(2) k(1) show False using complete_prefix_free by (auto simp: strict_prefix_def)
  qed
  from path_parent_in_complete [OF inv iN k(1) i(2) this] obtain st where
    "path_parent_in root f p stack_new = Some (path_new i, st)" "st_bits st = k" "st_it st = Some 0" "st_count st = 0"
    by blast
  with i(1) k(2) show ?thesis by (auto simp: stands_at_new)
qed

lemma parent_index_at:
  assumes "store_ok f" and "stands_at f p (cs @ [value_code k])" and "node f ds = Some root" and "codes ds"
  shows "\<exists>q. parent_index root f p v = Some (q, k) \<and> stands_at f q cs"
proof -
  from parent_code_at [OF assms] obtain q st where
    st: "path_parent_in root f p stack_new = Some (q, st)" "stands_at f q cs" "st_bits st = value_code k" by blast
  have "\<exists>t. read_index (stack_reset st) = Some (k, t)"
    using read_index_items [of "{value_code k}" ] st(3) by (auto simp: reads_items_def decode_index_code)
  with st value_code_complete [of k] show ?thesis by (auto simp: parent_index_def complete_code_def)
qed

lemma parent_string_at:
  assumes "store_ok f" and "stands_at f p (cs @ [string_code s])" and "node f ds = Some root" and "codes ds"
  shows "\<exists>q. parent_string root f p v = Some (q, s) \<and> stands_at f q cs"
proof -
  from parent_code_at [OF assms] obtain q st where
    st: "path_parent_in root f p stack_new = Some (q, st)" "stands_at f q cs" "st_bits st = string_code s" by blast
  have "\<exists>t. read_string (stack_reset st) = Some (s, t)"
    using read_string_items [of "{string_code s}" ] st(3) by (auto simp: reads_items_def decode_string_code)
  with st string_code_complete [of s] show ?thesis by (auto simp: parent_string_def complete_code_def)
qed

end
