(* ===== verification/JSON_Store.thy ===== *)
theory JSON_Store
  imports JSON_Frame
begin

text \<open>
  Documents in the database. A document is addressed by the positions that lead to it from the root of the documents;
  \<open>keys_of\<close> gives the names of these positions. The rules say what the methods of \<open>JSONPath\<close> that only move and
  read (parents, identifiers, names) do at a document.
\<close>

section \<open>Addresses\<close>

fun below_doc :: "nat list \<Rightarrow> bits list" where
  "below_doc [] = []"
| "below_doc (k # ps) = value_code CHILDREN # value_code k # below_doc ps"

definition doc :: "nat list \<Rightarrow> bits list" where
  "doc ps = value_code JSON # below_doc ps"

lemma below_doc_append [simp]: "below_doc (ps @ qs) = below_doc ps @ below_doc qs"
  by (induction ps) auto

lemma doc_snoc: "doc (ps @ [k]) = doc ps @ [value_code CHILDREN, value_code k]"
  by (simp add: doc_def)

lemma codes_doc [simp]: "codes (doc ps)"
proof -
  have "codes (below_doc ps)" by (induction ps) auto
  then show ?thesis by (simp add: doc_def)
qed

lemma below_doc_prefix:
  assumes "s \<noteq> CHILDREN"
  shows "prefix (below_doc ps @ value_code s # xs) (below_doc qs @ ys) \<longleftrightarrow>
    (\<exists>rs. ps = qs @ rs \<and> prefix (below_doc rs @ value_code s # xs) ys)"
proof (induction qs arbitrary: ps)
  case (Cons q qs)
  show ?case using assms Cons [of "tl ps"] by (cases ps) auto
qed simp

lemma below_doc_prefix_slot: "t \<noteq> CHILDREN \<Longrightarrow> prefix (below_doc rs) (below_doc qs @ value_code t # ys) \<longleftrightarrow> prefix rs qs"
proof (induction rs arbitrary: qs)
  case (Cons r rs)
  then show ?case by (cases qs) auto
qed simp

lemma below_doc_prefix_count: "prefix (below_doc rs) (below_doc qs @ [c]) \<longleftrightarrow> prefix rs qs"
proof (induction rs arbitrary: qs)
  case (Cons r rs)
  then show ?case by (cases qs) auto
qed simp

lemma below_doc_prefix_doc: "prefix (below_doc rs) (below_doc qs) \<longleftrightarrow> prefix rs qs"
proof (induction rs arbitrary: qs)
  case (Cons r rs)
  then show ?case by (cases qs) auto
qed simp

text \<open>What leads through a document.\<close>

lemma doc_prefix_doc [simp]: "t \<noteq> CHILDREN \<Longrightarrow> prefix (doc rs) (doc qs @ value_code t # ys) \<longleftrightarrow> prefix rs qs"
  "prefix (doc rs) (doc qs @ [c]) \<longleftrightarrow> prefix rs qs" "prefix (doc rs) (doc qs) \<longleftrightarrow> prefix rs qs"
  using below_doc_prefix_slot below_doc_prefix_count below_doc_prefix_doc by (simp_all add: doc_def del: prefix_snoc)

text \<open>Two places inside documents.\<close>

lemma doc_prefix:
  assumes "s \<noteq> CHILDREN" and "t \<noteq> CHILDREN"
  shows "prefix (doc ps @ value_code s # xs) (doc qs @ value_code t # ys) \<longleftrightarrow> ps = qs \<and> s = t \<and> prefix xs ys"
proof -
  have "prefix (below_doc rs @ value_code s # xs) (value_code t # ys) \<longleftrightarrow> rs = [] \<and> s = t \<and> prefix xs ys" for rs
    using assms(2) by (cases rs) auto
  then show ?thesis using below_doc_prefix [OF assms(1)] by (auto simp: doc_def)
qed

lemma doc_slot_outside [simp]:
  "s \<noteq> CHILDREN \<Longrightarrow> \<not> prefix (doc ps @ value_code s # xs) (doc qs)"
  "t \<noteq> JSON \<Longrightarrow> \<not> prefix (doc ps @ xs) (value_code t # ys)" "t \<noteq> JSON \<Longrightarrow> \<not> prefix (doc ps) (value_code t # ys)"
  using below_doc_prefix [of s ps xs qs "[]"] by (auto simp: doc_def)

lemma doc_slot_eq [simp]:
  assumes "s \<noteq> CHILDREN" and "t \<noteq> CHILDREN"
  shows "doc ps @ value_code s # xs = doc qs @ value_code t # ys \<longleftrightarrow> ps = qs \<and> s = t \<and> xs = ys"
  using doc_prefix [OF assms, of ps xs qs ys] doc_prefix [OF assms(2,1), of qs ys ps xs]
  by (metis prefix_order.antisym prefix_order.order_refl)

lemma doc_slot_ne [simp]: "s \<noteq> CHILDREN \<Longrightarrow> doc ps @ value_code s # xs \<noteq> doc qs"
  "s \<noteq> CHILDREN \<Longrightarrow> doc qs \<noteq> doc ps @ value_code s # xs"
  using below_doc_prefix [of s ps xs qs "[]"] by (auto simp: doc_def)

lemma doc_count_ne [simp]: "doc ps @ [value_code CHILDREN] \<noteq> doc qs" "doc qs \<noteq> doc ps @ [value_code CHILDREN]"
proof -
  have "even (length (below_doc rs))" for rs by (induction rs rule: below_doc.induct) auto
  then have "odd (length (doc rs))" for rs by (simp add: doc_def)
  then have "length (doc ps @ [value_code CHILDREN]) \<noteq> length (doc qs)" by (metis even_Suc length_append_singleton)
  then show "doc ps @ [value_code CHILDREN] \<noteq> doc qs" "doc qs \<noteq> doc ps @ [value_code CHILDREN]" by metis+
qed

lemma doc_count_slot [simp]:
  assumes "s \<noteq> CHILDREN"
  shows "doc ps @ value_code s # xs \<noteq> doc qs @ [value_code CHILDREN]" "doc qs @ [value_code CHILDREN] \<noteq> doc ps @ value_code s # xs"
proof -
  have "\<not> prefix (below_doc rs @ value_code s # xs) [value_code CHILDREN]" for rs using assms by (cases rs) auto
  then have "\<not> prefix (doc ps @ value_code s # xs) (doc qs @ [value_code CHILDREN])"
    using below_doc_prefix [OF assms, of ps xs qs "[value_code CHILDREN]"] by (simp add: doc_def del: prefix_snoc)
  then show "doc ps @ value_code s # xs \<noteq> doc qs @ [value_code CHILDREN]"
    "doc qs @ [value_code CHILDREN] \<noteq> doc ps @ value_code s # xs" by (metis prefix_order.order_refl)+
qed

lemma doc_prefix_count: "s \<noteq> CHILDREN \<Longrightarrow> \<not> prefix (doc ps @ value_code s # xs) (doc qs @ [value_code CHILDREN])"
  by simp

lemma doc_inject [simp]: "doc ps = doc qs \<longleftrightarrow> ps = qs"
  using doc_slot_eq [of 0 0 ps "[]" qs "[]"] by auto

lemma doc_count_inject [simp]: "doc ps @ [c] = doc qs @ [c] \<longleftrightarrow> ps = qs"
  by simp

text \<open>The places of the word index and of the index of documents.\<close>

definition word_places :: "bits list set" where
  "word_places = range (\<lambda>r. value_code WORDS # r)"

definition object_places :: "bits list set" where
  "object_places = range (\<lambda>r. value_code OBJECTS # r)"

lemma doc_not_index [simp]: "doc ps @ xs \<notin> word_places" "doc ps @ xs \<notin> object_places"
  "doc ps \<notin> word_places" "doc ps \<notin> object_places"
  by (auto simp: word_places_def object_places_def doc_def)

lemma index_places [simp]: "value_code WORDS # r \<in> word_places" "value_code OBJECTS # r \<in> object_places"
  "value_code OBJECTS # r \<notin> word_places" "value_code WORDS # r \<notin> object_places"
  "value_code ROOT_PROPERTIES # r \<notin> word_places" "value_code ROOT_PROPERTIES # r \<notin> object_places"
  by (auto simp: word_places_def object_places_def)

section \<open>The database\<close>

definition db_at :: "json_db \<Rightarrow> db_file \<Rightarrow> bool" where
  "db_at d f \<longleftrightarrow> store_ok f \<and> tidy f \<and> stands_at f (jd_properties d) [value_code ROOT_PROPERTIES] \<and>
     stands_at f (jd_words d) [value_code WORDS] \<and> stands_at f (jd_objects d) [value_code OBJECTS] \<and>
     stands_at f (jd_json d) [value_code JSON]"

lemma db_atD:
  assumes "db_at d f"
  shows "store_ok f" and "stands_at f (jd_properties d) [value_code ROOT_PROPERTIES]"
    and "stands_at f (jd_words d) [value_code WORDS]" and "stands_at f (jd_objects d) [value_code OBJECTS]"
    and "stands_at f (jd_json d) [value_code JSON]" and "node f (doc []) = Some (json_root_index d)"
    and "tidy f"
  using assms by (auto simp: db_at_def doc_def stands_at_def json_root_index_def)

lemma db_at_grows: "db_at d f \<Longrightarrow> grows f g A B n \<Longrightarrow> db_at d g"
  unfolding db_at_def using growsD(1,6,7) by blast

lemma node_zero: "store_ok f \<Longrightarrow> codes cs \<Longrightarrow> node f cs = Some 0 \<Longrightarrow> cs = []"
  using node_unique [of f cs "[]" 0] by (simp add: node_def)

lemma json_is_root_at:
  assumes "db_at d f" and "stands_at f p (doc ps)"
  shows "json_is_root d p \<longleftrightarrow> ps = []"
proof -
  have "path_index p \<noteq> 0"
    using node_zero [OF db_atD(1) [OF assms(1)], of "doc ps"] assms(2) by (auto simp: stands_at_def doc_def)
  moreover have "path_index p = json_root_index d \<longleftrightarrow> ps = []"
    using node_unique [OF db_atD(1) [OF assms(1)], of "doc ps" "doc []"] assms(2) db_atD(6) [OF assms(1)]
    by (auto simp: stands_at_def)
  ultimately show ?thesis by (simp add: json_is_root_def)
qed

section \<open>The parts of a document\<close>

definition type_at :: "db_file \<Rightarrow> nat list \<Rightarrow> json_type \<Rightarrow> bool" where
  "type_at f ps t \<longleftrightarrow> data f (doc ps) = Some (type_bytes t)"

definition own_id :: "db_file \<Rightarrow> nat list \<Rightarrow> bool" where
  "own_id f ps \<longleftrightarrow> (\<exists>i. node f (doc ps) = Some i \<and> data f (doc ps @ [value_code ID]) = Some (index_bytes i))"

text \<open>The position \<open>k\<close> of the object \<open>ps\<close> belongs to the property \<open>s\<close>; the property \<open>s\<close> is at the position \<open>k\<close>.\<close>

definition named :: "db_file \<Rightarrow> nat list \<Rightarrow> nat \<Rightarrow> bstring \<Rightarrow> bool" where
  "named f ps k s \<longleftrightarrow> (\<exists>i. node f [value_code ROOT_PROPERTIES, string_code s] = Some i \<and>
     data f (doc ps @ [value_code POSITIONS, value_code k]) = Some (index_bytes i))"

definition placed :: "db_file \<Rightarrow> nat list \<Rightarrow> bstring \<Rightarrow> nat \<Rightarrow> bool" where
  "placed f ps s k \<longleftrightarrow> k < 2 ^ 64 \<and> (\<exists>i. node f [value_code ROOT_PROPERTIES, string_code s] = Some i \<and>
     data f (doc ps @ [value_code PROPERTIES, value_code i]) = Some (index_bytes k))"

lemma type_bytes_inject [simp]: "bytes_type (type_bytes t) = Some t"
  by (cases t) (simp_all add: bytes_type_def type_bytes_def bytes_le_bytes json_types_def Let_def)

lemma type_bytes_eq [simp]: "type_bytes t = type_bytes u \<longleftrightarrow> t = u"
  by (metis option.inject type_bytes_inject)

lemma type_at_unique: "type_at f ps t \<Longrightarrow> type_at f ps u \<Longrightarrow> t = u"
  by (simp add: type_at_def)

lemma type_of_at:
  assumes "store_ok f" and "stands_at f p (doc ps)" and "type_at f ps t"
  shows "path_has_data f p" and "path_get_type f p = Some t" and "json_type_of f p = Some t"
  using get_data_at [OF assms(1,2)] assms(3) by (simp_all add: type_at_def path_get_type_def json_type_of_def)

lemma type_of_none:
  assumes "store_ok f" and "stands_at f p (doc ps)" and "data f (doc ps) = None"
  shows "\<not> path_has_data f p" and "json_type_of f p = Some UNDEFINED"
  using get_data_at [OF assms(1,2)] assms(3) by (simp_all add: json_type_of_def)

lemma json_id_at:
  assumes "store_ok f" and "stands_at f p (doc ps)" and "own_id f ps" and "room f 1"
  shows "\<exists>g. json_id p f = Some (path_index p, g) \<and> grows f g {} {doc ps @ [value_code ID]} 1"
proof -
  from sub_index_step [OF assms(1,2) _ assms(4), of ID] obtain q g where
    g: "sub_index ID (p, f) = (q, g)" "grows f g {} {doc ps @ [value_code ID]} 1" "stands_at g q (doc ps @ [value_code ID])"
    by auto
  from assms(2,3) have "data f (doc ps @ [value_code ID]) = Some (index_bytes (path_index p))"
    by (auto simp: own_id_def stands_at_def)
  then have "data g (doc ps @ [value_code ID]) = Some (index_bytes (path_index p))"
    using growsD(3) [OF g(2)] by simp
  moreover have "path_index p < 2 ^ 64"
    using node_bound [OF assms(1), of "doc ps" "path_index p"] assms(2) by (auto simp: stands_at_def)
  ultimately have "path_get_index g q = Some (path_index p)" using get_index_at growsD(1) [OF g(2)] g(3) by blast
  with g show ?thesis by (simp add: json_id_def)
qed

lemma set_id_at:
  assumes "store_ok f" and "stands_at f p (doc ps)" and "room f 2"
  shows "\<exists>g. json_set_id i p f = Some g \<and> grows f g {doc ps @ [value_code ID]} {doc ps @ [value_code ID]} 2 \<and>
    data g (doc ps @ [value_code ID]) = Some (index_bytes i)"
proof -
  from sub_index_step [OF assms(1,2) _ room_less [OF assms(3)], of ID] obtain q h where
    h: "sub_index ID (p, f) = (q, h)" "grows f h {} {doc ps @ [value_code ID]} 1" "stands_at h q (doc ps @ [value_code ID])"
    by auto
  have "room h 1" using room_grows [OF h(2), of 1] assms(3) by (simp add: numeral_2_eq_2)
  from put_index_step [OF growsD(1) [OF h(2)] h(3) this] obtain r g where
    g: "path_set_index i q h = Some (r, g)" "grows h g {doc ps @ [value_code ID]} {} 1"
      "data g (doc ps @ [value_code ID]) = Some (index_bytes i)" by blast
  from grows_trans [OF h(2) g(2)] g h show ?thesis by (auto simp: json_set_id_def numeral_2_eq_2)
qed

end
