(* ===== verification/JSON_Parents.thy ===== *)
theory JSON_Parents
  imports JSON_Store
begin

text \<open>
  The way from a document up to the root: what \<open>parent\<close>, \<open>getObjectProperty\<close> and \<open>isUserRoot\<close> return.
\<close>

text \<open>A step of an address: the name of a property, or the position of an element.\<close>

datatype json_key = Property bstring | Element nat

text \<open>The document \<open>ps\<close> has the key \<open>key\<close> for its part \<open>k\<close>.\<close>

definition part_key :: "db_file \<Rightarrow> nat list \<Rightarrow> nat \<Rightarrow> json_key \<Rightarrow> bool" where
  "part_key f ps k key \<longleftrightarrow> k < 2 ^ 64 \<and>
     (case key of Property s \<Rightarrow> type_at f ps OBJECT \<and> named f ps k s | Element j \<Rightarrow> type_at f ps ARRAY \<and> j = k)"

text \<open>\<open>ps\<close> is the address of a document, and \<open>names\<close> are the keys on the way to it.\<close>

inductive document :: "db_file \<Rightarrow> nat list \<Rightarrow> json_key list \<Rightarrow> bool" for f where
  root: "document f [] []"
| part: "document f ps names \<Longrightarrow> part_key f ps k key \<Longrightarrow> own_id f (ps @ [k]) \<Longrightarrow> document f (ps @ [k]) (names @ [key])"

inductive_simps document_Nil [simp]: "document f [] names"
inductive_cases document_snocE: "document f (ps @ [k]) names"

lemma document_snoc:
  "document f (ps @ [k]) names \<longleftrightarrow>
     (\<exists>names' key. names = names' @ [key] \<and> document f ps names' \<and> part_key f ps k key \<and> own_id f (ps @ [k]))"
  by (auto elim: document_snocE intro: document.part)

lemma document_length: "document f ps names \<Longrightarrow> length names = length ps"
  by (induction rule: document.induct) auto

lemma document_own_id: "document f ps names \<Longrightarrow> ps \<noteq> [] \<Longrightarrow> own_id f ps"
  by (cases rule: document.cases) auto

section \<open>What growing keeps\<close>

text \<open>The data documents are made of: types, identifiers, and the positions of the properties.\<close>

definition doc_places :: "bits list set" where
  "doc_places = range doc \<union> range (\<lambda>ps. doc ps @ [value_code ID]) \<union>
     (\<Union>ps. range (\<lambda>k. doc ps @ [value_code POSITIONS, value_code k]))"

lemma own_id_grows:
  "own_id f ps \<Longrightarrow> grows f g A B n \<Longrightarrow> doc ps @ [value_code ID] \<notin> A \<Longrightarrow> own_id g ps"
  unfolding own_id_def using growsD(2,3) [of f g A B n] by (metis codes_doc codes_simps value_code_complete)

lemma type_at_grows: "type_at f ps t \<Longrightarrow> grows f g A B n \<Longrightarrow> doc ps \<notin> A \<Longrightarrow> type_at g ps t"
  unfolding type_at_def using growsD(3) [of f g A B n "doc ps"] by simp

lemma named_grows:
  "named f ps k s \<Longrightarrow> grows f g A B n \<Longrightarrow> doc ps @ [value_code POSITIONS, value_code k] \<notin> A \<Longrightarrow> named g ps k s"
  unfolding named_def using growsD(2,3) [of f g A B n] by (metis codes_doc codes_simps value_code_complete)

lemma part_key_grows:
  "part_key f ps k key \<Longrightarrow> grows f g A B n \<Longrightarrow> doc ps \<notin> A \<Longrightarrow>
    doc ps @ [value_code POSITIONS, value_code k] \<notin> A \<Longrightarrow> part_key g ps k key"
  unfolding part_key_def using type_at_grows named_grows by (auto split: json_key.splits)

lemma document_grows_at:
  assumes "document f ps names" and "grows f g A B n"
    and "\<And>qs. strict_prefix qs ps \<Longrightarrow> doc qs \<notin> A" and "\<And>qs k. prefix (qs @ [k]) ps \<Longrightarrow> doc qs @ [value_code POSITIONS, value_code k] \<notin> A"
    and "\<And>qs. prefix qs ps \<Longrightarrow> qs \<noteq> [] \<Longrightarrow> doc qs @ [value_code ID] \<in> A \<Longrightarrow> own_id g qs"
  shows "document g ps names"
  using assms(1,3,4,5)
proof (induction rule: document.induct)
  case (part ps names k key)
  have "document g ps names"
    by (rule part.IH) (use part.prems in \<open>simp_all add: strict_prefix_snoc_iff prefix_order.less_imp_le\<close>)
  moreover have "part_key g ps k key"
    using part.prems(1,2) by (intro part_key_grows [OF part.hyps(2) assms(2)]) (simp_all add: strict_prefix_snoc_iff)
  moreover have "own_id g (ps @ [k])"
    using part.prems(3) own_id_grows [OF part.hyps(3) assms(2)] by (cases "doc (ps @ [k]) @ [value_code ID] \<in> A") auto
  ultimately show ?case by (rule document.part)
qed (rule document.root)

lemma document_grows:
  assumes "document f ps names" and "grows f g A B n" and "A \<inter> doc_places = {}"
  shows "document g ps names"
  using assms(3) unfolding doc_places_def disjoint_iff by (intro document_grows_at [OF assms(1,2)]) blast+

lemma index_places_doc: "word_places \<inter> doc_places = {}" "object_places \<inter> doc_places = {}"
  by (auto simp: doc_places_def)

section \<open>Moving up\<close>

lemma parent_steps_at:
  assumes "db_at d f" and "stands_at f p (doc (ps @ [k]))" and "type_at f ps t"
  shows "\<exists>q. parent_steps d f p = Some (q, k, t) \<and> stands_at f q (doc ps)"
proof -
  note db = db_atD [OF assms(1)]
  from assms(2) have "stands_at f p ((doc ps @ [value_code CHILDREN]) @ [value_code k])" by (simp add: doc_snoc)
  from parent_index_at [OF db(1) this db(6) codes_doc] obtain r where
    r: "parent_index (json_root_index d) f p (2 ^ 64 - 1) = Some (r, k)" "stands_at f r (doc ps @ [value_code CHILDREN])"
    by blast
  from parent_index_at [OF db(1) r(2) db(6) codes_doc] obtain q where
    q: "parent_index (json_root_index d) f r 0 = Some (q, CHILDREN)" "stands_at f q (doc ps)" by blast
  with r type_of_at(2) [OF db(1) q(2) assms(3)] show ?thesis by (simp add: parent_steps_def)
qed

lemma json_parent_at:
  assumes "db_at d f" and "stands_at f p (doc (ps @ [k]))" and "document f (ps @ [k]) names"
  shows "\<exists>q. json_parent d f p = Some q \<and> stands_at f q (doc ps)"
proof -
  from assms(3) obtain key where "part_key f ps k key" by (auto simp: document_snoc)
  then obtain t where "type_at f ps t" by (auto simp: part_key_def split: json_key.splits)
  from parent_steps_at [OF assms(1,2) this] show ?thesis by (auto simp: json_parent_def)
qed

text \<open>Reading a name creates the branches of its position.\<close>

definition position_places :: "nat list \<Rightarrow> nat \<Rightarrow> bits list set" where
  "position_places ps k = {doc ps @ [value_code POSITIONS], doc ps @ [value_code POSITIONS, value_code k]}"

lemma get_object_property_at:
  assumes "db_at d f" and "stands_at f p (doc ps)" and "named f ps k s" and "k < 2 ^ 64" and "room f 2"
  shows "\<exists>g. get_object_property d k p f = Some (s, g) \<and> grows f g {} (position_places ps k) 2"
proof -
  note db = db_atD [OF assms(1)]
  from assms(3) obtain i where i: "node f [value_code ROOT_PROPERTIES, string_code s] = Some i"
    "data f (doc ps @ [value_code POSITIONS, value_code k]) = Some (index_bytes i)" by (auto simp: named_def)
  from sub_index_step [OF db(1) assms(2) _ room_less [OF assms(5)], of POSITIONS] obtain q h where
    h: "sub_index POSITIONS (p, f) = (q, h)" "grows f h {} {doc ps @ [value_code POSITIONS]} 1"
      "stands_at h q (doc ps @ [value_code POSITIONS])" by auto
  have "room h 1" using room_grows [OF h(2), of 1] assms(5) by (simp add: numeral_2_eq_2)
  from sub_index_step [OF growsD(1) [OF h(2)] h(3) assms(4) this] obtain r g where
    g: "sub_index k (q, h) = (r, g)" "grows h g {} {doc ps @ [value_code POSITIONS, value_code k]} 1"
      "stands_at g r (doc ps @ [value_code POSITIONS, value_code k])" by auto
  have fg: "grows f g {} (position_places ps k) 2"
    using grows_trans [OF h(2) g(2)] by (simp add: position_places_def numeral_2_eq_2 insert_commute)
  note db' = db_atD [OF db_at_grows [OF assms(1) fg]]
  have i': "node g [value_code ROOT_PROPERTIES, string_code s] = Some i"
    "data g (doc ps @ [value_code POSITIONS, value_code k]) = Some (index_bytes i)"
    using growsD(2,3) [OF fg] i by auto
  have "i < 2 ^ 64" using node_bound [OF db(1) i(1)] by simp
  note get = get_index_at [OF db'(1) g(3) i'(2) this]
  have "stands_at g (path_new i) ([value_code ROOT_PROPERTIES] @ [string_code s])"
    using i'(1) by (simp add: stands_at_new)
  from parent_string_at [OF db'(1) this db'(6) codes_doc] obtain u where
    "parent_string (json_root_index d) g (path_new i) [] = Some (u, s)" by blast
  with h g get fg show ?thesis by (simp add: get_object_property_def get_positions_def)
qed

text \<open>\<open>parent\<close> with the key.\<close>

fun key_bytes :: "json_key \<Rightarrow> bstring" where
  "key_bytes (Property s) = s"
| "key_bytes (Element k) = decimal k"

fun key_type_of :: "json_key \<Rightarrow> json_type" where
  "key_type_of (Property s) = STRING"
| "key_type_of (Element k) = INTEGER"

lemma json_parent_key_at:
  assumes "db_at d f" and "stands_at f p (doc (ps @ [k]))" and "part_key f ps k key" and "room f 2"
  shows "\<exists>q g. json_parent_key d u kt p f = Some (q, key_bytes key, Some (key_type_of key), g) \<and>
    stands_at g q (doc ps) \<and> grows f g {} (position_places ps k) 2"
proof (cases key)
  case (Property s)
  with assms(3) have t: "type_at f ps OBJECT" "named f ps k s" "k < 2 ^ 64" by (auto simp: part_key_def)
  from parent_steps_at [OF assms(1,2) t(1)] obtain q where
    q: "parent_steps d f p = Some (q, k, OBJECT)" "stands_at f q (doc ps)" by blast
  from get_object_property_at [OF assms(1) q(2) t(2,3) assms(4)] obtain g where
    "get_object_property d k q f = Some (s, g)" "grows f g {} (position_places ps k) 2" by blast
  with q growsD(6) Property show ?thesis by (fastforce simp: json_parent_key_def)
next
  case (Element j)
  with assms(3) have t: "type_at f ps ARRAY" "j = k" by (auto simp: part_key_def)
  from parent_steps_at [OF assms(1,2) t(1)] grows_refl [OF db_atD(1) [OF assms(1)]] Element t(2)
  show ?thesis by (fastforce simp: json_parent_key_def)
qed

lemma is_user_root_at:
  assumes "db_at d f" and "stands_at f p (doc ps)" and "document f ps names" and "room f 2"
  shows "\<exists>u' g. is_user_root d u p f = Some (length ps \<le> 2, u', g) \<and> grows f g {} (\<Union>k. position_places (butlast ps) k) 2"
proof -
  note refl = grows_refl [OF db_atD(1) [OF assms(1)]]
  show ?thesis
  proof (cases ps rule: rev_cases)
    case Nil
    with json_is_root_at [OF assms(1,2)] refl show ?thesis by (auto simp: is_user_root_def)
  next
    case (snoc qs k)
    from assms(3) obtain names' key where doc: "document f qs names'" "part_key f qs k key" by (auto simp: snoc document_snoc)
    have root: "\<not> json_is_root d p" using json_is_root_at [OF assms(1,2)] snoc by simp
    from json_parent_at [OF assms(1), of p qs k names] assms(2,3) snoc obtain q where
      q: "json_parent d f p = Some q" "stands_at f q (doc qs)" by auto
    note root' = json_is_root_at [OF assms(1) q(2)]
    show ?thesis
    proof (cases qs rule: rev_cases)
      case Nil
      with root q(1) root' snoc refl show ?thesis by (auto simp: is_user_root_def)
    next
      case (snoc rs j)
      from json_parent_at [OF assms(1), of q rs j names'] q(2) doc(1) snoc obtain r where
        r: "json_parent d f q = Some r" "stands_at f r (doc rs)" by auto
      from json_parent_key_at [OF assms(1), of p qs k key u "Some STRING"] assms(2,4) doc(2) \<open>ps = qs @ [k]\<close>
      obtain q' g where g: "json_parent_key d u (Some STRING) p f = Some (q', key_bytes key, Some (key_type_of key), g)"
        "grows f g {} (position_places qs k) 2" by auto
      have "grows f g {} (\<Union>k. position_places qs k) 2" by (rule grows_mono [OF g(2)]) auto
      with root q(1) root' r(1) json_is_root_at [OF assms(1) r(2)] g(1) refl snoc \<open>ps = qs @ [k]\<close> show ?thesis
        by (auto simp: is_user_root_def)
    qed
  qed
qed

end
