(* ===== verification/JSON_Words.thy ===== *)
theory JSON_Words
  imports JSON_Parents
begin

text \<open>
  The word index: \<open>hits f w i\<close> is how often the word \<open>w\<close> has been added to the document whose branch is at \<open>i\<close>. Adding words
  to a document adds them to it and to every document it is in, below the first two levels.
\<close>

section \<open>Counters\<close>

definition count_at :: "db_file \<Rightarrow> bits list \<Rightarrow> nat \<Rightarrow> bool" where
  "count_at f cs n \<longleftrightarrow> n < 2 ^ 64 \<and> (data f cs = Some (index_bytes n) \<or> data f cs = None \<and> n = 0)"

lemma count_at_grows: "count_at f cs n \<Longrightarrow> grows f g A B m \<Longrightarrow> codes cs \<Longrightarrow> cs \<notin> A \<Longrightarrow> count_at g cs n"
  by (simp add: count_at_def growsD(3))

lemma increment_at:
  assumes "store_ok f" and "stands_at f p cs" and "count_at f cs n" and "room f 1"
  defines "n' \<equiv> (n + 1) mod 2 ^ 64"
  shows "\<exists>g. path_pre_inc p f = Some (n', g) \<and> grows f g {cs} {} 1 \<and> count_at g cs n'"
proof -
  from put_index_step [OF assms(1,2,4), of n'] obtain r g where
    g: "path_set_index n' p f = Some (r, g)" "grows f g {cs} {} 1" "data g cs = Some (index_bytes n')" by blast
  have "path_pre_inc p f = Some (n', g)"
  proof (cases "data f cs")
    case None
    with assms(3) have "n' = 1" by (simp add: count_at_def n'_def)
    with None g(1) get_data_at(2) [OF assms(1,2)] show ?thesis by (simp add: path_pre_inc_def)
  next
    case (Some b)
    with assms(3) have "data f cs = Some (index_bytes n)" "n < 2 ^ 64" by (auto simp: count_at_def)
    with g(1) get_data_at(2) [OF assms(1,2)] get_index_at [OF assms(1,2)] show ?thesis
      by (simp add: path_pre_inc_def n'_def)
  qed
  with g show ?thesis by (simp add: count_at_def n'_def)
qed

definition hits :: "db_file \<Rightarrow> bstring \<Rightarrow> index \<Rightarrow> nat" where
  "hits f w i = (case data f [value_code WORDS, string_code w, value_code i] of None \<Rightarrow> 0 | Some b \<Rightarrow> bytes_index b)"

definition words_ok :: "db_file \<Rightarrow> bool" where
  "words_ok f \<longleftrightarrow> (\<forall>w. (\<exists>n. count_at f [value_code WORDS, string_code w] n) \<and>
     (\<forall>i. \<exists>n. count_at f [value_code WORDS, string_code w, value_code i] n))"

lemma count_hits: "count_at f [value_code WORDS, string_code w, value_code i] n \<Longrightarrow> hits f w i = n \<and> n < 2 ^ 64"
  by (auto simp: count_at_def hits_def)

lemma words_okD:
  assumes "words_ok f"
  shows "\<exists>n. count_at f [value_code WORDS, string_code w] n"
    and "count_at f [value_code WORDS, string_code w, value_code i] (hits f w i)" and "hits f w i < 2 ^ 64"
  using assms count_hits unfolding words_ok_def by metis+

lemma words_grows:
  assumes "grows f g A B n" and "A \<inter> word_places = {}"
  shows "words_ok f \<Longrightarrow> words_ok g" and "hits g w i = hits f w i"
proof -
  have A: "value_code WORDS # r \<notin> A" for r using assms(2) index_places(1) by blast
  show "words_ok f \<Longrightarrow> words_ok g"
    unfolding words_ok_def using count_at_grows [OF _ assms(1)] A by (metis codes_simps(1,2) string_code_complete value_code_complete)
  show "hits g w i = hits f w i" using growsD(3) [OF assms(1)] A by (simp add: hits_def)
qed

section \<open>Adding words\<close>

fun words_cost :: "bstring list \<Rightarrow> nat" where
  "words_cost [] = 0"
| "words_cost (w # ws) = 5 + length w + words_cost ws"

text \<open>The identifiers of a document and of those it is in.\<close>

definition id_places :: "nat list \<Rightarrow> bits list set" where
  "id_places ps = (\<lambda>qs. doc qs @ [value_code ID]) ` {qs. prefix qs ps}"

lemma id_places_mono: "prefix qs ps \<Longrightarrow> id_places qs \<subseteq> id_places ps"
  unfolding id_places_def using prefix_order.trans by blast

lemma id_places_self [simp]: "doc ps @ [value_code ID] \<in> id_places ps"
  by (simp add: id_places_def)

lemma add_token_at:
  assumes db: "db_at d f" and json: "stands_at f json (doc ps)" and own: "own_id f ps" and words: "words_ok f"
    and room: "room f (5 + length w + n)"
  defines "i \<equiv> path_index json"
  shows "\<exists>g. add_tokens d json (w # ws) f = add_tokens d json ws g \<and>
    grows f g word_places (word_places \<union> id_places ps) (5 + length w) \<and> words_ok g \<and>
    (\<forall>v j. hits g v j = (hits f v j + (if v = w \<and> j = i then 1 else 0)) mod 2 ^ 64)"
proof -
  let ?w = "[value_code WORDS, string_code w]"
  note d = db_atD [OF db]
  have "room f (1 + length w)" by (rule room_less [OF room]) simp
  from sub_string_step [OF d(1,3) this] obtain p1 f1 where
    f1: "sub_string w (jd_words d, f) = (p1, f1)" "grows f f1 {} {?w} (1 + length w)" "stands_at f1 p1 ?w"
    by auto
  have r1: "room f1 4" by (rule room_after [OF room f1(2)]) simp
  have w1: "words_ok f1" "\<And>v j. hits f1 v j = hits f v j" using words_grows [OF f1(2)] words by auto
  from words_okD(1) [OF w1(1)] obtain n1 where n1: "count_at f1 ?w n1" by blast
  from increment_at [OF growsD(1) [OF f1(2)] f1(3) n1 room_less [OF r1]] obtain f2 where
    f2: "path_pre_inc p1 f1 = Some ((n1 + 1) mod 2 ^ 64, f2)" "grows f1 f2 {?w} {} 1" "count_at f2 ?w ((n1 + 1) mod 2 ^ 64)"
    by auto
  have r2: "room f2 3" by (rule room_after [OF r1 f2(2)]) simp
  have json2: "stands_at f2 json (doc ps)" using json growsD(6) f1(2) f2(2) by blast
  have "own_id f2 ps" using own_id_grows [OF own_id_grows [OF own f1(2)] f2(2)] by (simp add: doc_def)
  from json_id_at [OF growsD(1) [OF f2(2)] json2 this room_less [OF r2]] obtain f3 where
    f3: "json_id json f2 = Some (i, f3)" "grows f2 f3 {} {doc ps @ [value_code ID]} 1" by (auto simp: i_def)
  have r3: "room f3 2" by (rule room_after [OF r2 f3(2)]) simp
  have p3: "stands_at f3 p1 ?w" using f1(3) growsD(6) f2(2) f3(2) by blast
  have i: "i < 2 ^ 64" using node_bound [OF d(1), of "doc ps" i] json by (simp add: stands_at_def i_def)
  from sub_index_step [OF growsD(1) [OF f3(2)] p3 i room_less [OF r3]] obtain p4 f4 where
    f4: "sub_index i (p1, f3) = (p4, f4)" "grows f3 f4 {} {?w @ [value_code i]} 1" "stands_at f4 p4 (?w @ [value_code i])"
    by auto
  have r4: "room f4 1" by (rule room_after [OF r3 f4(2)]) simp
  have c: "count_at f4 (?w @ [value_code i]) (hits f w i)"
    using words_okD(2) [OF w1(1), of w i] w1(2) count_at_grows [OF _ f2(2)] count_at_grows [OF _ f3(2)] count_at_grows [OF _ f4(2)]
    by simp
  from increment_at [OF growsD(1) [OF f4(2)] f4(3) c r4] obtain g where
    g: "path_pre_inc p4 f4 = Some ((hits f w i + 1) mod 2 ^ 64, g)" "grows f4 g {?w @ [value_code i]} {} 1"
      "count_at g (?w @ [value_code i]) ((hits f w i + 1) mod 2 ^ 64)" by blast
  have run: "add_tokens d json (w # ws) f = add_tokens d json ws g"
    using f1(1) f2(1) f3(1) f4(1) g(1) by simp
  note all = grows_trans [OF grows_trans [OF grows_trans [OF grows_trans [OF f1(2) f2(2)] f3(2)] f4(2)] g(2)]
  have fg: "grows f g {?w, ?w @ [value_code i]} (word_places \<union> id_places ps) (5 + length w)"
    by (rule grows_mono [OF all]) (auto)
  have keep: "count_at g cs m" if "count_at f cs m" "codes cs" "cs \<noteq> ?w" "cs \<noteq> ?w @ [value_code i]" for cs m
    using that by (intro count_at_grows [OF _ fg]) auto
  have "count_at g ?w ((n1 + 1) mod 2 ^ 64)"
    using count_at_grows [OF count_at_grows [OF count_at_grows [OF f2(3) f3(2)] f4(2)] g(2)] by simp
  moreover have "count_at g [value_code WORDS, string_code v, value_code j]
      ((hits f v j + (if v = w \<and> j = i then 1 else 0)) mod 2 ^ 64)" for v j
    using g(3) keep [OF words_okD(2) [OF words, of v j]] words_okD(3) [OF words, of v j] by (cases "v = w \<and> j = i") auto
  moreover have "\<exists>n. count_at g [value_code WORDS, string_code v] n" for v
    using calculation(1) words_okD(1) [OF words, of v] keep [of "[value_code WORDS, string_code v]"] by (cases "v = w") auto
  ultimately have "words_ok g"
    "\<And>v j. hits g v j = (hits f v j + (if v = w \<and> j = i then 1 else 0)) mod 2 ^ 64"
    using count_hits unfolding words_ok_def by blast+
  moreover have "grows f g word_places (word_places \<union> id_places ps) (5 + length w)"
    by (rule grows_mono [OF fg]) auto
  ultimately show ?thesis using run by (intro exI [of _ g] conjI allI)
qed

lemma add_tokens_at:
  assumes "db_at d f" and "stands_at f json (doc ps)" and "own_id f ps" and "words_ok f" and "room f (words_cost ws)"
  shows "\<exists>g. add_tokens d json ws f = Some g \<and> grows f g word_places (word_places \<union> id_places ps) (words_cost ws) \<and>
    words_ok g \<and> (\<forall>v j. hits g v j = (hits f v j + (if j = path_index json then count_list ws v else 0)) mod 2 ^ 64)"
  using assms
proof (induction ws arbitrary: f)
  case Nil
  then show ?case using grows_refl [OF db_atD(1)] words_okD(3) by fastforce
next
  case (Cons w ws)
  from Cons.prems(5) have "room f (5 + length w + words_cost ws)" by simp
  from add_token_at [OF Cons.prems(1-4) this, of ws] obtain g where
    g: "add_tokens d json (w # ws) f = add_tokens d json ws g"
      "grows f g word_places (word_places \<union> id_places ps) (5 + length w)" "words_ok g"
      "\<forall>v j. hits g v j = (hits f v j + (if v = w \<and> j = path_index json then 1 else 0)) mod 2 ^ 64" by blast
  have own: "own_id g ps" using own_id_grows [OF Cons.prems(3) g(2)] by simp
  from Cons.prems(5) have "room g (words_cost ws)" by (rule room_after [OF _ g(2)]) simp
  from Cons.IH [OF db_at_grows [OF Cons.prems(1) g(2)] growsD(6) [OF g(2) Cons.prems(2)] own g(3) this] obtain h where
    h: "add_tokens d json ws g = Some h" "grows g h word_places (word_places \<union> id_places ps) (words_cost ws)" "words_ok h"
      "\<forall>v j. hits h v j = (hits g v j + (if j = path_index json then count_list ws v else 0)) mod 2 ^ 64" by blast
  have "hits h v j = (hits f v j + (if j = path_index json then count_list (w # ws) v else 0)) mod 2 ^ 64" for v j
    using h(4) g(4) by (auto simp: mod_simps add_ac)
  moreover have "grows f h word_places (word_places \<union> id_places ps) (words_cost (w # ws))"
    using grows_step [OF g(2) h(2)] by (simp add: add_ac)
  ultimately show ?case using g(1) h(1,3) by simp
qed

text \<open>The documents that the words of the document \<open>ps\<close> are added to: all but the two outermost levels.\<close>

definition indexed :: "db_file \<Rightarrow> nat list \<Rightarrow> index \<Rightarrow> bool" where
  "indexed f ps i \<longleftrightarrow> (\<exists>qs. prefix qs ps \<and> 2 \<le> length qs \<and> node f (doc qs) = Some i)"

lemma indexed_snoc:
  "indexed f (ps @ [k]) i \<longleftrightarrow> indexed f ps i \<or> 1 \<le> length ps \<and> node f (doc (ps @ [k])) = Some i"
  by (auto simp: indexed_def)

lemma indexed_node: "indexed f ps i \<Longrightarrow> \<exists>qs. prefix qs ps \<and> node f (doc qs) = Some i"
  by (auto simp: indexed_def)

lemma document_prefix: "document f ps names \<Longrightarrow> prefix qs ps \<Longrightarrow> node f (doc qs) \<noteq> None \<or> qs = []"
proof (induction rule: document.induct)
  case (part ps names k key)
  then show ?case by (auto simp: own_id_def)
qed simp

lemma indexed_grows:
  assumes "document f ps names" and "grows f g A B n" and "node f (doc []) \<noteq> None"
  shows "indexed g ps i \<longleftrightarrow> indexed f ps i"
proof -
  have "node g (doc qs) = node f (doc qs)" if "prefix qs ps" for qs
    using document_prefix [OF assms(1) that] assms(3) growsD(2) [OF assms(2)] by fastforce
  then show ?thesis by (auto simp: indexed_def)
qed

text \<open>Adding words to all these documents.\<close>

definition words_added :: "db_file \<Rightarrow> db_file \<Rightarrow> bstring list \<Rightarrow> nat list \<Rightarrow> bool" where
  "words_added f g ws ps \<longleftrightarrow> words_ok g \<and>
     (\<forall>w i. hits g w i = (hits f w i + (if indexed f ps i then count_list ws w else 0)) mod 2 ^ 64)"

lemma add_words_loop_at:
  assumes "db_at d f" and "stands_at f p (doc ps)" and "document f ps names" and "words_ok f"
    and "room f (length ps * words_cost ws)"
  shows "\<exists>g. add_words_loop d ws p f = Some g \<and>
    grows f g word_places (word_places \<union> id_places ps) (length ps * words_cost ws) \<and> words_added f g ws ps"
  using assms
proof (induction ps arbitrary: p f names rule: rev_induct)
  case Nil
  then have "json_is_root d p" using json_is_root_at by blast
  with Nil words_okD(3) grows_refl [OF db_atD(1)] show ?case
    by (auto simp: add_words_loop.simps words_added_def indexed_def)
next
  case (snoc k ps)
  note db = snoc.prems(1)
  have root: "\<not> json_is_root d p" using json_is_root_at [OF db snoc.prems(2)] by simp
  from json_parent_at [OF db snoc.prems(2,3)] obtain q where
    q: "json_parent d f p = Some q" "stands_at f q (doc ps)" by blast
  note root' = json_is_root_at [OF db q(2)]
  show ?case
  proof (cases "ps = []")
    case True
    have "\<not> indexed f [k] i" for i by (auto simp: indexed_def dest: prefix_length_le)
    with True root root' q(1) snoc.prems(4) words_okD(3) grows_refl [OF db_atD(1) [OF db]] show ?thesis
      by (auto simp: add_words_loop.simps words_added_def)
  next
    case False
    have own: "own_id f (ps @ [k])" using snoc.prems(3) by (auto simp: document_snoc)
    have room: "room f (words_cost ws + length ps * words_cost ws)" using snoc.prems(5) by (simp add: add_ac)
    from add_tokens_at [OF db snoc.prems(2) own snoc.prems(4) room_less [OF room, of "words_cost ws"]] obtain g where
      g: "add_tokens d p ws f = Some g" "grows f g word_places (word_places \<union> id_places (ps @ [k])) (words_cost ws)" "words_ok g"
        "\<forall>v j. hits g v j = (hits f v j + (if j = path_index p then count_list ws v else 0)) mod 2 ^ 64" by auto
    note db' = db_at_grows [OF db g(2)] and doc' = document_grows [OF snoc.prems(3) g(2) index_places_doc(1)]
    from json_parent_at [OF db' growsD(6) [OF g(2) snoc.prems(2)] doc'] obtain r where
      r: "json_parent d g p = Some r" "stands_at g r (doc ps)" by blast
    from doc' obtain names' where names': "document g ps names'" by (auto simp: document_snoc)
    from snoc.IH [OF db' r(2) names' g(3) room_after [OF room g(2) order_refl]] obtain h where
      h: "add_words_loop d ws r g = Some h" "grows g h word_places (word_places \<union> id_places ps) (length ps * words_cost ws)"
        "words_added g h ws ps" by blast
    have at: "node f (doc (ps @ [k])) = Some (path_index p)" using snoc.prems(2) by (simp add: stands_at_def)
    have fresh: "\<not> indexed f ps (path_index p)"
    proof
      assume "indexed f ps (path_index p)"
      then obtain qs where qs: "prefix qs ps" "node f (doc qs) = Some (path_index p)" by (auto simp: indexed_def)
      have "doc qs = doc (ps @ [k])" by (rule node_unique [OF db_atD(1) [OF db] _ _ qs(2) at]) simp_all
      then have "qs = ps @ [k]" by simp
      with qs(1) show False by (auto dest: prefix_length_le)
    qed
    from snoc.prems(3) obtain names'' where "document f ps names''" by (auto simp: document_snoc)
    from indexed_grows [OF this g(2)] db_atD(6) [OF db] have same: "indexed g ps i \<longleftrightarrow> indexed f ps i" for i by simp
    have hits: "hits h w i = (hits g w i + (if indexed f ps i then count_list ws w else 0)) mod 2 ^ 64" for w i
      using h(3) same by (simp add: words_added_def)
    have "hits h w i = (hits f w i + (if indexed f (ps @ [k]) i then count_list ws w else 0)) mod 2 ^ 64" for w i
    proof -
      have ix: "indexed f (ps @ [k]) i \<longleftrightarrow> indexed f ps i \<or> i = path_index p"
        unfolding indexed_snoc using at False by (auto simp: Suc_le_eq)
      show ?thesis
        unfolding hits ix using g(4) fresh words_okD(3) [OF g(3), of w i] by (cases "i = path_index p") (simp_all add: mod_simps)
    qed
    with h(3) have "words_added f h ws (ps @ [k])" by (simp add: words_added_def)
    moreover have "grows f h word_places (word_places \<union> id_places (ps @ [k])) (length (ps @ [k]) * words_cost ws)"
      using grows_step [OF g(2) h(2)] id_places_mono [of ps "ps @ [k]"] by (auto simp: add_ac)
    moreover have "add_words_loop d ws p f = Some h"
      using root root' False q(1) g(1) r(1) h(1) by (simp add: add_words_loop.simps)
    ultimately show ?thesis by blast
  qed
qed

lemma add_words_at:
  assumes "db_at d f" and "stands_at f p (doc ps)" and "document f ps names" and "words_ok f"
    and "tokenise W v part final whole = Some (ws, part')" and "room f (length ps * words_cost ws)"
  shows "\<exists>g. add_words W d v part whole final p f = Some (part', g) \<and>
    grows f g word_places (word_places \<union> id_places ps) (length ps * words_cost ws) \<and> words_added f g ws ps"
  using add_words_loop_at [OF assms(1-4,6)] assms(5) by (auto simp: add_words_def)

end
