(* ===== verification/JSON_Index.thy ===== *)
theory JSON_Index
  imports JSON_Words
begin

text \<open>
  Indexing a document: the words of the names on the way to it (\<open>indexProperties\<close>), and its entry with every
  document it is in (\<open>addObject\<close>).
\<close>

section \<open>Names\<close>

definition key_words :: "wide_ctype \<Rightarrow> json_key \<Rightarrow> bstring list" where
  "key_words W key = (case key of
       Property s \<Rightarrow> (case tokenise W s [] True True of Some (ws, _) \<Rightarrow> ws | None \<Rightarrow> [])
     | Element _ \<Rightarrow> [])"

text \<open>The names are texts that can be converted to lower case.\<close>

definition names_ok :: "wide_ctype \<Rightarrow> json_key list \<Rightarrow> bool" where
  "names_ok W names \<longleftrightarrow> (\<forall>s. Property s \<in> set names \<longrightarrow> tokenise W s [] True True \<noteq> None)"

definition index_words :: "wide_ctype \<Rightarrow> json_key list \<Rightarrow> bstring list" where
  "index_words W names = concat (map (key_words W) (drop 2 names))"

text \<open>The cost of the loop over \<open>names\<close>, for a document at depth \<open>n\<close>.\<close>

fun index_cost :: "wide_ctype \<Rightarrow> nat \<Rightarrow> json_key list \<Rightarrow> nat" where
  "index_cost W n [] = 2"
| "index_cost W n (key # names) = 4 + n * words_cost (key_words W key) + index_cost W n names"

lemma index_cost_snoc: "index_cost W n (names @ [key]) = index_cost W n names + (4 + n * words_cost (key_words W key))"
  by (induction names) auto

lemma index_cost_min: "2 \<le> index_cost W n names"
  by (induction names) auto

lemma index_words_short: "length names \<le> 2 \<Longrightarrow> index_words W names = []"
  by (simp add: index_words_def)

lemma index_words_snoc: "2 \<le> length names \<Longrightarrow> index_words W (names @ [key]) = index_words W names @ key_words W key"
  by (simp add: index_words_def)

definition name_places :: "nat list \<Rightarrow> bits list set" where
  "name_places ps = (\<Union>qs \<in> {qs. prefix qs ps}. \<Union>k. position_places qs k)"

lemma name_places_mono: "prefix qs ps \<Longrightarrow> name_places qs \<subseteq> name_places ps"
  unfolding name_places_def using prefix_order.trans by blast

lemma words_added_trans:
  assumes "words_added f g us ps" and "words_added g h vs ps" and "\<And>i. indexed g ps i \<longleftrightarrow> indexed f ps i"
  shows "words_added f h (vs @ us) ps"
  using assms by (auto simp: words_added_def mod_simps add_ac)

lemma words_added_none:
  assumes "words_ok f" and "grows f g A B n" and "A \<inter> word_places = {}"
  shows "words_added f g [] ps"
  using words_grows [OF assms(2,3)] words_okD(3) [OF assms(1)] assms(1) by (simp add: words_added_def)

lemma words_added_grows:
  assumes "words_added f g ws ps" and "grows g h A B n" and "A \<inter> word_places = {}"
  shows "words_added f h ws ps"
  using words_grows [OF assms(2,3)] assms(1) by (simp add: words_added_def)

lemma add_key_at:
  assumes "db_at d f" and "stands_at f p (doc ps)" and "document f ps pnames" and "words_ok f"
    and "names_ok W [key]" and "room f (length ps * words_cost (key_words W key))"
  shows "\<exists>g. (if key_type_of key = STRING then map_option snd (add_words W d (key_bytes key) [] True True p f) else Some f) = Some g \<and>
    grows f g word_places (word_places \<union> id_places ps) (length ps * words_cost (key_words W key)) \<and>
    words_added f g (key_words W key) ps"
proof (cases key)
  case (Property s)
  with assms(5) obtain ws part where t: "tokenise W s [] True True = Some (ws, part)" by (auto simp: names_ok_def)
  then have ws: "key_words W key = ws" by (simp add: key_words_def Property)
  from add_words_at [OF assms(1-4) t] assms(6) show ?thesis by (fastforce simp: Property ws [unfolded Property])
next
  case (Element j)
  have "words_added f f [] ps" by (rule words_added_none [OF assms(4) grows_refl [OF db_atD(1) [OF assms(1)]]]) auto
  with Element grows_refl [OF db_atD(1) [OF assms(1)]] show ?thesis by (simp add: key_words_def)
qed

lemma index_properties_loop_at:
  assumes "db_at d f" and "stands_at f p (doc ps)" and "document f ps pnames" and "stands_at f json (doc qs)"
    and "document f qs names" and "words_ok f" and "names_ok W (drop 2 names)" and "prefix qs ps"
    and "room f (index_cost W (length ps) (drop 2 names))"
  shows "\<exists>g. index_properties_loop W d p json f = Some g \<and>
    grows f g word_places (word_places \<union> id_places ps \<union> name_places ps) (index_cost W (length ps) (drop 2 names)) \<and>
    words_added f g (index_words W names) ps"
  using assms
proof (induction qs arbitrary: f json names rule: rev_induct)
  case Nil
  note db = Nil.prems(1)
  have names: "names = []" using Nil.prems(5) by simp
  from is_user_root_at [OF db Nil.prems(4,5) room_less [OF Nil.prems(9) index_cost_min], of "[]"] obtain u g where
    g: "is_user_root d [] json f = Some (True, u, g)" "grows f g {} (\<Union>k. position_places [] k) 2" by auto
  have "grows f g word_places (word_places \<union> id_places ps \<union> name_places ps) 2"
    by (rule grows_mono [OF g(2)]) (auto simp: name_places_def)
  with g words_added_none [OF Nil.prems(6) g(2)] show ?case
    by (simp add: index_properties_loop.simps [of W d p json f] names index_words_def)
next
  case (snoc k qs)
  note db = snoc.prems(1)
  from snoc.prems(5) obtain names' key where names: "names = names' @ [key]" "document f qs names'" "part_key f qs k key"
    by (auto simp: document_snoc)
  note len = document_length [OF snoc.prems(5)] document_length [OF names(2)]
  have pre: "prefix qs ps" using snoc.prems(8) by (rule append_prefixD)
  from is_user_root_at [OF db snoc.prems(4,5) room_less [OF snoc.prems(9) index_cost_min], of "[]"] obtain u g where
    g: "is_user_root d [] json f = Some (length (qs @ [k]) \<le> 2, u, g)" "grows f g {} (\<Union>k. position_places qs k) 2"
    by auto
  have g': "grows f g word_places (word_places \<union> id_places ps \<union> name_places ps) 2"
    by (rule grows_mono [OF g(2)]) (use pre in \<open>auto simp: name_places_def\<close>)
  show ?case
  proof (cases "length (qs @ [k]) \<le> 2")
    case True
    with len names have "drop 2 names = []" by simp
    with True g g' words_added_none [OF snoc.prems(6) g(2)] show ?thesis
      by (simp add: index_properties_loop.simps [of W d p json f] index_words_def)
  next
    case False
    with len names(1) have l2: "2 \<le> length names'" and dn: "drop 2 names = drop 2 names' @ [key]" by simp_all
    let ?c = "length ps * words_cost (key_words W key)"
    have room: "room f (4 + ?c + index_cost W (length ps) (drop 2 names'))"
      using snoc.prems(9) by (simp add: dn index_cost_snoc add_ac)
    note db1 = db_at_grows [OF db g(2)] and r1 = room_after [OF room g(2)]
    have pk: "part_key g qs k key" by (rule part_key_grows [OF names(3) g(2)]) auto
    from json_parent_key_at [OF db1 growsD(6) [OF g(2) snoc.prems(4)] pk, of "[]" None] r1 [of 2] obtain q h where
      h: "json_parent_key d [] None json g = Some (q, key_bytes key, Some (key_type_of key), h)"
        "stands_at h q (doc qs)" "grows g h {} (position_places qs k) 2" by auto
    have fh: "grows f h {} (\<Union>k. position_places qs k) 4"
      using grows_mono [OF grows_trans [OF g(2) h(3)], of "{}" "\<Union>k. position_places qs k" 4] by auto
    have keep: "document h rs ns" if "document f rs ns" for rs ns by (rule document_grows [OF that fh]) simp
    have nk: "names_ok W [key]" "names_ok W (drop 2 names')" using snoc.prems(7) by (auto simp: dn names_ok_def)
    have "words_ok h" using words_grows(1) [OF fh] snoc.prems(6) by simp
    moreover have "room h ?c" by (rule room_after [OF room fh]) simp
    ultimately obtain m where m:
      "(if key_type_of key = STRING then map_option snd (add_words W d (key_bytes key) [] True True p h) else Some h) = Some m"
      "grows h m word_places (word_places \<union> id_places ps) ?c" "words_added h m (key_words W key) ps"
      using add_key_at [OF db_at_grows [OF db fh] growsD(6) [OF fh snoc.prems(2)] keep [OF snoc.prems(3)] _ nk(1)] by blast
    note fm = grows_trans [OF fh m(2)]
    have keep': "document m rs ns" if "document f rs ns" for rs ns
      by (rule document_grows [OF that fm]) (simp add: index_places_doc)
    have "room m (index_cost W (length ps) (drop 2 names'))" by (rule room_after [OF room fm]) simp
    with snoc.IH [OF db_at_grows [OF db fm] growsD(6) [OF fm snoc.prems(2)] keep' [OF snoc.prems(3)] growsD(6) [OF m(2) h(2)]
        keep' [OF names(2)] _ nk(2) pre] m(3) obtain r where
      r: "index_properties_loop W d p q m = Some r"
        "grows m r word_places (word_places \<union> id_places ps \<union> name_places ps) (index_cost W (length ps) (drop 2 names'))"
        "words_added m r (index_words W names') ps" by (auto simp: words_added_def)
    have same: "indexed h ps i \<longleftrightarrow> indexed f ps i" "indexed m ps i \<longleftrightarrow> indexed f ps i" for i
      using indexed_grows [OF snoc.prems(3) fh] indexed_grows [OF snoc.prems(3) fm] db_atD(6) [OF db] by simp_all
    have "words_added f h [] ps" by (rule words_added_none [OF snoc.prems(6) fh]) simp
    from words_added_trans [OF this m(3) same(1)] have "words_added f m (key_words W key) ps" by simp
    from words_added_trans [OF this r(3) same(2)] have "words_added f r (index_words W names) ps"
      by (simp add: names(1) index_words_snoc [OF l2])
    moreover have "grows f r word_places (word_places \<union> id_places ps \<union> name_places ps) (index_cost W (length ps) (drop 2 names))"
      by (rule grows_mono [OF grows_trans [OF fm r(2)]])
        (use index_cost_snoc pre in \<open>auto simp: name_places_def dn\<close>)
    moreover have "index_properties_loop W d p json f = Some r"
      using g(1) False h(1) m(1) r(1) by (subst index_properties_loop.simps) simp
    ultimately show ?thesis by blast
  qed
qed

text \<open>\<open>indexProperties\<close> does its work once; the flag \<open>CASCADE\<close> remembers it.\<close>

lemma index_properties_at:
  assumes "db_at d f" and "stands_at f p (doc ps)" and "document f ps names" and "words_ok f"
    and "names_ok W (drop 2 names)" and room: "room f (2 + index_cost W (length ps) (drop 2 names))"
  defines "c \<equiv> doc ps @ [value_code CASCADE]"
  shows "\<exists>g. index_properties W d p f = Some g \<and>
    grows f g (insert c word_places) (insert c (word_places \<union> id_places ps \<union> name_places ps))
      (2 + index_cost W (length ps) (drop 2 names)) \<and>
    words_added f g (if data f c = None then index_words W names else []) ps \<and> data g c \<noteq> None"
proof -
  let ?c = "index_cost W (length ps) (drop 2 names)"
  note db = assms(1)
  from sub_index_step [OF db_atD(1) [OF db] assms(2) _ room_less [OF room], of CASCADE] obtain q h where
    h: "sub_index CASCADE (p, f) = (q, h)" "grows f h {} {c} 1" "stands_at h q c" by (auto simp: c_def)
  have cc: "codes c" by (simp add: c_def)
  have dh: "data h c = data f c" using growsD(3) [OF h(2) cc] by simp
  note none = words_added_none [OF assms(4) h(2), of ps]
  note hd = get_data_at(2) [OF growsD(1) [OF h(2)] h(3)]
  show ?thesis
  proof (cases "data f c = None")
    case False
    have "index_properties W d p f = Some h" using h(1) hd dh False by (simp add: index_properties_def)
    moreover have "grows f h (insert c word_places) (insert c (word_places \<union> id_places ps \<union> name_places ps)) (2 + ?c)"
      by (rule grows_mono [OF h(2)]) auto
    ultimately show ?thesis using none False dh by auto
  next
    case True
    have doc': "document h ps names" by (rule document_grows [OF assms(3) h(2)]) simp
    have w': "words_ok h" using words_grows(1) [OF h(2)] assms(4) by simp
    have "room h ?c" by (rule room_after [OF room h(2)]) simp
    from index_properties_loop_at [OF db_at_grows [OF db h(2)] growsD(6) [OF h(2) assms(2)] doc' growsD(6) [OF h(2) assms(2)]
        doc' w' assms(5) prefix_order.refl this] obtain m where
      m: "index_properties_loop W d p p h = Some m"
        "grows h m word_places (word_places \<union> id_places ps \<union> name_places ps) ?c" "words_added h m (index_words W names) ps" by blast
    note hm = grows_trans [OF h(2) m(2)]
    have "room m 1" by (rule room_after [OF room hm]) simp
    from put_data_step [OF growsD(1) [OF m(2)] growsD(6) [OF m(2) h(3)] _ this, of "bool_bytes True"] obtain r g where
      g: "path_set_bool True q m = Some (r, g)" "grows m g {c} {} 1" "data g c \<noteq> None"
      by (auto simp: bool_bytes_def path_set_bool_def)
    have run: "index_properties W d p f = Some g"
      using h(1) hd dh True m(1) g(1) by (simp add: index_properties_def)
    have all: "grows f g (insert c word_places) (insert c (word_places \<union> id_places ps \<union> name_places ps)) (2 + ?c)"
      by (rule grows_mono [OF grows_trans [OF hm g(2)]]) auto
    have same: "indexed h ps i \<longleftrightarrow> indexed f ps i" for i
      using indexed_grows [OF assms(3) h(2)] db_atD(6) [OF db] by simp
    have "words_added f g (index_words W names) ps"
      using words_added_grows [OF words_added_trans [OF none m(3) same] g(2)] by (simp add: c_def)
    with run all True g(3) show ?thesis by auto
  qed
qed

section \<open>Objects\<close>

text \<open>The document at \<open>i\<close> is listed with every document on the way \<open>ps\<close>.\<close>

definition listed :: "db_file \<Rightarrow> index \<Rightarrow> nat list \<Rightarrow> bool" where
  "listed f i ps \<longleftrightarrow> (\<forall>qs. prefix qs ps \<longrightarrow> qs \<noteq> [] \<longrightarrow>
     (\<exists>j. node f (doc qs) = Some j \<and> node f [value_code OBJECTS, value_code j, value_code i] \<noteq> None))"

lemma listed_grows: "listed f i ps \<Longrightarrow> grows f g A B n \<Longrightarrow> listed g i ps"
  unfolding listed_def using growsD(2) [of f g A B n] by blast

lemma add_object_loop_at:
  assumes "db_at d f" and "stands_at f p (doc ps)" and "document f ps names" and "i < 2 ^ 64"
    and "room f (2 * length ps)"
  shows "\<exists>g. add_object_loop d i p f = Some g \<and> grows f g {} object_places (2 * length ps) \<and> listed g i ps"
  using assms
proof (induction ps arbitrary: p f names rule: rev_induct)
  case Nil
  then show ?case using json_is_root_at grows_refl [OF db_atD(1)]
    by (fastforce simp: add_object_loop.simps listed_def)
next
  case (snoc k ps)
  note db = snoc.prems(1)
  let ?i = "path_index p"
  have at: "node f (doc (ps @ [k])) = Some ?i" using snoc.prems(2) by (simp add: stands_at_def)
  have small: "?i < 2 ^ 64" using node_bound [OF db_atD(1) [OF db] at] by simp
  have room: "room f (2 + 2 * length ps)" using snoc.prems(5) by simp
  from sub_index_step [OF db_atD(1,4) [OF db] small room_less [OF room]] obtain q h where
    h: "sub_index ?i (jd_objects d, f) = (q, h)" "grows f h {} {[value_code OBJECTS, value_code ?i]} 1"
      "stands_at h q [value_code OBJECTS, value_code ?i]" by auto
  have "room h 1" by (rule room_after [OF room h(2)]) simp
  from sub_index_step [OF growsD(1) [OF h(2)] h(3) snoc.prems(4) this] obtain r m where
    m: "sub_index i (q, h) = (r, m)" "grows h m {} {[value_code OBJECTS, value_code ?i, value_code i]} 1"
      "stands_at m r [value_code OBJECTS, value_code ?i, value_code i]" by auto
  have fm: "grows f m {} object_places 2"
    by (rule grows_mono [OF grows_trans [OF h(2) m(2)]]) auto
  have doc': "document m (ps @ [k]) names" by (rule document_grows [OF snoc.prems(3) fm]) simp
  note db' = db_at_grows [OF db fm]
  from json_parent_at [OF db' growsD(6) [OF fm snoc.prems(2)] doc'] obtain u where
    u: "json_parent d m p = Some u" "stands_at m u (doc ps)" by blast
  from doc' obtain names' where "document m ps names'" by (auto simp: document_snoc)
  from snoc.IH [OF db' u(2) this snoc.prems(4) room_after [OF room fm order_refl]] obtain g where
    g: "add_object_loop d i u m = Some g" "grows m g {} object_places (2 * length ps)" "listed g i ps" by blast
  have "\<not> json_is_root d p" using json_is_root_at [OF db snoc.prems(2)] by simp
  then have run: "add_object_loop d i p f = Some g"
    using h(1) m(1) u(1) g(1) by (subst add_object_loop.simps) simp
  have "node g (doc (ps @ [k])) = Some ?i" using growsD(2) [OF g(2) growsD(2) [OF fm at]] .
  moreover have "node g [value_code OBJECTS, value_code ?i, value_code i] \<noteq> None"
    using growsD(2) [OF g(2)] m(3) by (fastforce simp: stands_at_def)
  ultimately have "listed g i (ps @ [k])" using g(3) by (auto simp: listed_def)
  with run grows_step [OF fm g(2)] show ?case by (auto simp: add_ac)
qed

lemma add_object_at:
  assumes "db_at d f" and "stands_at f p (doc ps)" and "document f ps names" and "own_id f ps"
    and "room f (1 + 2 * length ps)"
  shows "\<exists>g. add_object d p f = Some g \<and> grows f g {} (object_places \<union> id_places ps) (1 + 2 * length ps) \<and>
    listed g (path_index p) ps"
proof -
  note db = assms(1)
  from json_id_at [OF db_atD(1) [OF db] assms(2,4) room_less [OF assms(5)]] obtain h where
    h: "json_id p f = Some (path_index p, h)" "grows f h {} {doc ps @ [value_code ID]} 1" by auto
  have doc': "document h ps names" by (rule document_grows [OF assms(3) h(2)]) simp
  have "path_index p < 2 ^ 64"
    using node_bound [OF db_atD(1) [OF db], of "doc ps" "path_index p"] assms(2) by (simp add: stands_at_def)
  from add_object_loop_at [OF db_at_grows [OF db h(2)] growsD(6) [OF h(2) assms(2)] doc' this
      room_after [OF assms(5) h(2) order_refl]] obtain g where
    g: "add_object_loop d (path_index p) p h = Some g" "grows h g {} object_places (2 * length ps)" "listed g (path_index p) ps"
    by blast
  have "grows f g {} (object_places \<union> id_places ps) (1 + 2 * length ps)"
    by (rule grows_mono [OF grows_trans [OF h(2) g(2)]]) (auto simp: id_places_def)
  with h(1) g show ?thesis by (auto simp: add_object_def)
qed

section \<open>Types\<close>

text \<open>A document that has no type yet.\<close>

lemma set_type_new:
  assumes "db_at d f" and "stands_at f p (doc ps)" and "document f ps names" and "data f (doc ps) = None"
    and own: "own_id f ps \<or> data f (doc ps @ [value_code ID]) = None" and room: "room f (5 + 2 * length ps)"
  shows "\<exists>g. set_type clr d t p f = Some g \<and>
    grows f g (if own_id f ps then {doc ps} else {doc ps, doc ps @ [value_code ID]}) (object_places \<union> id_places ps)
      (5 + 2 * length ps) \<and>
    type_at g ps t \<and> own_id g ps \<and> listed g (path_index p) ps"
proof -
  note db = assms(1)
  let ?id = "doc ps @ [value_code ID]"
  have "8 + length (type_bytes t) \<le> 1 * 2 ^ 17" by (simp add: type_bytes_def)
  from put_data_step [OF db_atD(1) [OF db] assms(2) this room_less [OF room]] obtain r h where
    h: "path_set_type t p f = Some (r, h)" "grows f h {doc ps} {} 1" "type_at h ps t"
    by (auto simp: path_set_type_def type_at_def)
  have r1: "room h (4 + 2 * length ps)" by (rule room_after [OF room h(2)]) simp
  have dh: "data h ?id = data f ?id" using growsD(3) [OF h(2), of ?id] by simp
  note ph = growsD(6) [OF h(2) assms(2)]
  from sub_index_step [OF growsD(1) [OF h(2)] ph _ room_less [OF r1], of ID] obtain q m where
    m: "sub_index ID (p, h) = (q, m)" "grows h m {} {?id} 1" "stands_at m q ?id" by auto
  have r2: "room m (3 + 2 * length ps)" by (rule room_after [OF r1 m(2)]) simp
  note pm = growsD(6) [OF m(2) ph]
  have dm: "data m ?id = data f ?id" using growsD(3) [OF m(2), of ?id] dh by simp
  note hd = get_data_at(2) [OF growsD(1) [OF m(2)] m(3)]
  note fm = grows_trans [OF h(2) m(2)]
  have keep: "own_id m ps" if "own_id f ps" by (rule own_id_grows [OF that fm]) simp
  have at: "node f (doc ps) = Some (path_index p)" using assms(2) by (simp add: stands_at_def)
  let ?I = "if own_id f ps then {} else {?id}"
  obtain k where k: "(if path_has_data m q then Some m else json_set_id (path_index p) p m) = Some k"
    "grows m k ?I {?id} 2" "own_id k ps"
  proof (cases "data f ?id = None")
    case True
    from set_id_at [OF growsD(1) [OF m(2)] pm room_less [OF r2], of "path_index p"] obtain k where
      k: "json_set_id (path_index p) p m = Some k" "grows m k {?id} {?id} 2"
        "data k ?id = Some (index_bytes (path_index p))" by auto
    have "node k (doc ps) = Some (path_index p)" using growsD(2) [OF k(2) growsD(2) [OF fm at]] .
    with k(3) have "own_id k ps" by (auto simp: own_id_def)
    moreover have "\<not> own_id f ps" using True by (simp add: own_id_def)
    ultimately show thesis using k(1,2) True hd dm that [of k] by simp
  next
    case False
    with own keep have "own_id m ps" by blast
    with False hd dm that [of m] grows_refl [OF growsD(1) [OF m(2)]] show thesis by simp
  qed
  note fk = grows_trans [OF fm k(2)]
  have doc': "document k ps names"
    by (rule document_grows_at [OF assms(3) fk]) (use k(3) in \<open>auto simp: strict_prefix_def split: if_splits\<close>)
  have "room k (1 + 2 * length ps)" by (rule room_after [OF room fk]) simp
  from add_object_at [OF db_at_grows [OF db fk] growsD(6) [OF fk assms(2)] doc' k(3) this] obtain g where
    g: "add_object d p k = Some g" "grows k g {} (object_places \<union> id_places ps) (1 + 2 * length ps)"
      "listed g (path_index p) ps" by blast
  have "grows f g (if own_id f ps then {doc ps} else {doc ps, ?id}) (object_places \<union> id_places ps) (5 + 2 * length ps)"
    by (rule grows_mono [OF grows_trans [OF fk g(2)]]) (auto simp: id_places_def)
  moreover have "type_at g ps t"
    using type_at_grows [OF type_at_grows [OF type_at_grows [OF h(3) m(2)] k(2)] g(2)] by (simp split: if_splits)
  moreover have "own_id g ps" using own_id_grows [OF k(3) g(2)] by simp
  moreover have "set_type clr d t p f = Some g"
    using type_of_none(1) [OF db_atD(1) [OF db] assms(2,4)] h(1) m(1) k(1) g(1)
    by (simp add: set_type_def json_has_id_def)
  ultimately show ?thesis using g(3) by blast
qed

text \<open>A document that has this type already.\<close>

lemma set_type_same:
  assumes "db_at d f" and "stands_at f p (doc ps)" and "type_at f ps t"
  shows "set_type clr d t p f = Some f"
  using type_of_at [OF db_atD(1) [OF assms(1)] assms(2,3)] by (simp add: set_type_def)

end
