(* ===== verification/JSON_Objects.thy ===== *)
theory JSON_Objects
  imports JSON_Index
begin

text \<open>
  Objects: the invariant of the dictionary of an object, from names to positions and back, and \<open>operator []\<close>, which finds a
  property or creates it.
\<close>

section \<open>The invariant of an object\<close>

definition object_ok :: "db_file \<Rightarrow> nat list \<Rightarrow> nat \<Rightarrow> bool" where
  "object_ok f ps n \<longleftrightarrow> type_at f ps OBJECT \<and> count_at f (doc ps @ [value_code CHILDREN]) n \<and>
     (\<forall>i. node f (doc ps @ [value_code PROPERTIES, value_code i]) \<noteq> None \<longrightarrow>
        (\<exists>s k. node f [value_code ROOT_PROPERTIES, string_code s] = Some i \<and> placed f ps s k)) \<and>
     (\<forall>s k. placed f ps s k \<longrightarrow> 1 \<le> k \<and> k \<le> n \<and> named f ps k s \<and> own_id f (ps @ [k])) \<and>
     (\<forall>k. k = 0 \<or> n < k \<longrightarrow> node f (doc (ps @ [k])) = None)"

text \<open>A document without contents, and one that has not been given a value yet.\<close>

definition bare_doc :: "db_file \<Rightarrow> nat list \<Rightarrow> bool" where
  "bare_doc f ps \<longleftrightarrow> data f (doc ps @ [value_code CHILDREN]) = None \<and> data f (doc ps @ [value_code VALUE]) = None \<and>
     (\<forall>i. node f (doc ps @ [value_code VALUE, value_code i]) = None) \<and>
     (\<forall>i. node f (doc ps @ [value_code PROPERTIES, value_code i]) = None) \<and> (\<forall>k. node f (doc (ps @ [k])) = None)"

definition blank_doc :: "db_file \<Rightarrow> nat list \<Rightarrow> bool" where
  "blank_doc f ps \<longleftrightarrow> data f (doc ps) = None \<and> bare_doc f ps"

lemma data_none: "node f cs = None \<Longrightarrow> data f cs = None"
  using data_node by blast

lemma property_unique:
  assumes "store_ok f" and "node f [value_code ROOT_PROPERTIES, string_code s] = Some i"
    and "node f [value_code ROOT_PROPERTIES, string_code t] = Some i"
  shows "s = t"
  using node_unique [OF assms(1) _ _ assms(2,3)] by simp

lemma index_bytes_inject: "v < 2 ^ 64 \<Longrightarrow> w < 2 ^ 64 \<Longrightarrow> index_bytes v = index_bytes w \<longleftrightarrow> v = w"
  by (metis bytes_index_bytes)

lemma placed_unique: "placed f ps s k \<Longrightarrow> placed f ps s j \<Longrightarrow> k = j"
  by (auto simp: placed_def index_bytes_inject)

lemma new_node: "grows f g A B n \<Longrightarrow> codes cs \<Longrightarrow> node f cs = None \<Longrightarrow> (\<And>b. b \<in> B \<Longrightarrow> \<not> prefix cs b) \<Longrightarrow> node g cs = None"
  using growsD(4) by blast

lemma named_unique:
  assumes "store_ok f" and "named f ps k s" and "named f ps k t"
  shows "s = t"
proof -
  from assms(2,3) obtain i j where ij: "node f [value_code ROOT_PROPERTIES, string_code s] = Some i"
    "node f [value_code ROOT_PROPERTIES, string_code t] = Some j" "index_bytes i = index_bytes j"
    by (auto simp: named_def)
  with node_bound [OF assms(1)] have "i = j" by (metis index_bytes_inject order_less_le_trans)
  with ij property_unique [OF assms(1)] show ?thesis by blast
qed

lemma object_okD:
  assumes "object_ok f ps n"
  shows "type_at f ps OBJECT" and "count_at f (doc ps @ [value_code CHILDREN]) n" and "n < 2 ^ 64"
    and "node f (doc ps @ [value_code PROPERTIES, value_code i]) \<noteq> None \<Longrightarrow>
      \<exists>s k. node f [value_code ROOT_PROPERTIES, string_code s] = Some i \<and> placed f ps s k"
    and "placed f ps s k \<Longrightarrow> 1 \<le> k" and "placed f ps s k \<Longrightarrow> k \<le> n" and "placed f ps s k \<Longrightarrow> named f ps k s"
    and "placed f ps s k \<Longrightarrow> own_id f (ps @ [k])" and "n < k \<Longrightarrow> node f (doc (ps @ [k])) = None"
    and "node f (doc (ps @ [0])) = None"
  using assms unfolding object_ok_def count_at_def by blast+

text \<open>Two properties are never at the same position.\<close>

lemma placed_inject: "store_ok f \<Longrightarrow> object_ok f ps n \<Longrightarrow> placed f ps s k \<Longrightarrow> placed f ps t k \<Longrightarrow> s = t"
  using named_unique object_okD(7) by blast

lemma placed_part: "object_ok f ps n \<Longrightarrow> placed f ps s k \<Longrightarrow> part_key f ps k (Property s)"
  using object_okD [of f ps n] by (fastforce simp: part_key_def)

text \<open>A property that is not there has no branch below \<open>PROPERTIES\<close>.\<close>

lemma unplaced_node:
  assumes "store_ok f" and "object_ok f ps n" and "\<And>k. \<not> placed f ps s k"
    and "node f [value_code ROOT_PROPERTIES, string_code s] = Some i"
  shows "node f (doc ps @ [value_code PROPERTIES, value_code i]) = None"
  using object_okD(4) [OF assms(2)] property_unique [OF assms(1) assms(4)] assms(3) by blast

section \<open>What other operations keep\<close>

lemma placed_grows:
  assumes "grows f g A B n" and "\<And>i. doc ps @ [value_code PROPERTIES, value_code i] \<notin> A" and "store_ok f"
    and "object_ok f ps m \<or> (\<exists>k. placed f ps s k) \<or> (\<forall>i. node f (doc ps @ [value_code PROPERTIES, value_code i]) = None)"
  shows "placed g ps s k \<longleftrightarrow> placed f ps s k"
proof
  show "placed f ps s k \<Longrightarrow> placed g ps s k"
    using growsD(2,3) [OF assms(1)] assms(2) unfolding placed_def
    by (metis codes_doc codes_simps value_code_complete)
  assume "placed g ps s k"
  then obtain i where i: "node g [value_code ROOT_PROPERTIES, string_code s] = Some i"
    "data g (doc ps @ [value_code PROPERTIES, value_code i]) = Some (index_bytes k)" "k < 2 ^ 64" by (auto simp: placed_def)
  from i(2) have d: "data f (doc ps @ [value_code PROPERTIES, value_code i]) = Some (index_bytes k)"
    using growsD(3) [OF assms(1)] assms(2) by simp
  have "node f [value_code ROOT_PROPERTIES, string_code s] = Some i"
  proof -
    have "node f (doc ps @ [value_code PROPERTIES, value_code i]) \<noteq> None" using data_node d by fastforce
    with assms(4) consider (ok) "object_ok f ps m" | (there) k where "placed f ps s k" by metis
    then show ?thesis
    proof cases
      case ok
      from object_okD(4) [OF ok] \<open>node f (doc ps @ _) \<noteq> None\<close> obtain t where
        t: "node f [value_code ROOT_PROPERTIES, string_code t] = Some i" by blast
      from property_unique [OF growsD(1) [OF assms(1)] i(1) growsD(2) [OF assms(1) t]] t show ?thesis by simp
    next
      case there
      then obtain j where "node f [value_code ROOT_PROPERTIES, string_code s] = Some j" by (auto simp: placed_def)
      with growsD(2) [OF assms(1) this] i(1) show ?thesis by simp
    qed
  qed
  with d i(3) show "placed f ps s k" by (auto simp: placed_def)
qed

text \<open>The places that change or appear outside the object \<open>ps\<close>.\<close>

definition apart :: "nat list \<Rightarrow> bits list set \<Rightarrow> bits list set \<Rightarrow> bool" where
  "apart ps A B \<longleftrightarrow> doc ps \<notin> A \<and> doc ps @ [value_code CHILDREN] \<notin> A \<and>
     (\<forall>k. doc ps @ [value_code POSITIONS, value_code k] \<notin> A \<and> doc ps @ [value_code PROPERTIES, value_code k] \<notin> A) \<and>
     (\<forall>k. \<forall>b \<in> B. \<not> prefix (doc ps @ [value_code PROPERTIES, value_code k]) b)"

lemma object_ok_grows:
  assumes ok: "object_ok f ps n" and g: "grows f g A B m" and st: "store_ok f" and ap: "apart ps A B"
    and ids: "\<And>k. k \<le> n \<Longrightarrow> doc (ps @ [k]) @ [value_code ID] \<notin> A"
    and new: "\<And>k b. k = 0 \<or> n < k \<Longrightarrow> b \<in> B \<Longrightarrow> \<not> prefix (doc (ps @ [k])) b"
  shows "object_ok g ps n" and "placed g ps s k \<longleftrightarrow> placed f ps s k"
proof -
  have pl: "placed g ps s k \<longleftrightarrow> placed f ps s k" for s k
    by (rule placed_grows [OF g _ st]) (use ok ap in \<open>auto simp: apart_def\<close>)
  then show "placed g ps s k \<longleftrightarrow> placed f ps s k" .
  have "type_at g ps OBJECT" using type_at_grows [OF object_okD(1) [OF ok] g] ap by (simp add: apart_def)
  moreover have "count_at g (doc ps @ [value_code CHILDREN]) n"
    using count_at_grows [OF object_okD(2) [OF ok] g] ap by (simp add: apart_def)
  moreover have "\<exists>s k. node g [value_code ROOT_PROPERTIES, string_code s] = Some i \<and> placed g ps s k"
    if "node g (doc ps @ [value_code PROPERTIES, value_code i]) \<noteq> None" for i
  proof -
    have "node f (doc ps @ [value_code PROPERTIES, value_code i]) \<noteq> None"
      using growsD(4) [OF g _ that] ap by (auto simp: apart_def)
    with object_okD(4) [OF ok] growsD(2) [OF g] pl show ?thesis by blast
  qed
  moreover have "1 \<le> k \<and> k \<le> n \<and> named g ps k s \<and> own_id g (ps @ [k])" if "placed g ps s k" for s k
  proof -
    from that pl have "placed f ps s k" by blast
    note k = object_okD(5-8) [OF ok this]
    with named_grows [OF k(3) g] own_id_grows [OF k(4) g] ids ap show ?thesis by (auto simp: apart_def)
  qed
  moreover have "node g (doc (ps @ [k])) = None" if "k = 0 \<or> n < k" for k
    by (rule new_node [OF g]) (use object_okD(9,10) [OF ok] new [OF that] that in auto)
  ultimately show "object_ok g ps n" unfolding object_ok_def by blast
qed

lemma blank_object:
  assumes "blank_doc f ps" and "grows f g A B m" and "type_at g ps OBJECT" and "doc ps @ [value_code CHILDREN] \<notin> A"
    and "\<And>i. doc ps @ [value_code PROPERTIES, value_code i] \<notin> A"
    and "\<And>i b. b \<in> B \<Longrightarrow> \<not> prefix (doc ps @ [value_code PROPERTIES, value_code i]) b"
    and "\<And>k b. b \<in> B \<Longrightarrow> \<not> prefix (doc (ps @ [k])) b"
  shows "object_ok g ps 0" and "\<not> placed g ps s k"
proof -
  have np: "node g (doc ps @ [value_code PROPERTIES, value_code i]) = None" for i
    by (rule new_node [OF assms(2)]) (use assms(1,6) in \<open>simp_all add: blank_doc_def bare_doc_def\<close>)
  then have pl: "\<not> placed g ps s k" for s k using data_none by (fastforce simp: placed_def)
  then show "\<not> placed g ps s k" .
  have "data g (doc ps @ [value_code CHILDREN]) = None"
    using growsD(3) [OF assms(2)] assms(1,4) by (simp add: blank_doc_def bare_doc_def)
  moreover have "node g (doc (ps @ [k])) = None" for k
    by (rule new_node [OF assms(2)]) (use assms(1,7) in \<open>simp_all add: blank_doc_def bare_doc_def\<close>)
  ultimately show "object_ok g ps 0" using assms(3) np pl by (simp add: object_ok_def count_at_def)
qed

end
