(* ===== verification/JSON_Numbers.thy ===== *)
theory JSON_Numbers
  imports JSON_Store
begin

text \<open>
  The numbers below a place: the greatest one, the loop over them, and that reading a branch that is there does not write.
\<close>

section \<open>The last key of a trie in which no descent fails\<close>

context path_cursor
begin

lemma go_to_end_full:
  assumes den: "den s T []" and ne: "keys T \<noteq> {}"
    and full: "\<And>q. q \<in> T \<Longrightarrow> open_path q \<Longrightarrow> \<exists>k \<in> keys T. prefix q k"
  shows "\<exists>s' st q. go_to_end ops d s stack_new = Some (True, s', st) \<and> stands s' st T q \<and> first_key d T True q"
proof -
  from follow_first_spec [OF stands_start [OF den] open_Nil, of d] obtain found s' st r where
    f: "follow_first ops d s stack_new = Some (found, s', st)" "stands s' st T r" "first_only T d [] r"
      "if found then complete_code r else open_path r \<and> (\<forall>b. r @ [b] \<notin> T)" unfolding append_Nil by blast
  have rT: "r \<in> T" using f(2) den_here unfolding stands_def by blast
  have found
  proof (rule ccontr)
    assume "\<not> found"
    with f(4) have leaf: "open_path r" "\<And>b. r @ [b] \<notin> T" by auto
    from full [OF rT leaf(1)] obtain k where k: "k \<in> T" "complete_code k" "prefix r k" by (auto simp: keys_def)
    then obtain z where z: "k = r @ z" by (auto elim: prefixE)
    show False
    proof (cases z)
      case Nil
      with z k(2) leaf(1) complete_not_open [of k r] show False by simp
    next
      case (Cons b y)
      with z k(1) prefix_closedD [OF den_prefix [OF den], of "r @ [b]" y] leaf(2) show False by simp
    qed
  qed
  with f(4) have code: "complete_code r" by simp
  have "k = r \<or> dir_less d r k" if "k \<in> keys T" for k
    using keys_at_descent [OF den_prefix [OF den] f(3) that] code by simp
  with rT code have "first_key d T True r" by (simp add: first_key_def keys_def)
  with f(1,2) \<open>found\<close> show ?thesis by (auto simp: go_to_end_def)
qed

lemma path_max_full:
  assumes "den s T []" and "keys T \<noteq> {}" and "\<And>q. q \<in> T \<Longrightarrow> open_path q \<Longrightarrow> \<exists>k \<in> keys T. prefix q k"
    and "reads_items get dec (keys T)"
  shows "\<exists>q. path_max get ops s = Some (Some (dec q)) \<and> first_key True T True q"
proof -
  from go_to_end_full [OF den_copy [OF assms(1)] assms(2,3), of True] obtain s' st q where
    e: "go_to_end ops True (copy_path ops s) stack_new = Some (True, s', st)" "stands s' st T q" "first_key True T True q"
    by blast
  from e(3) have "q \<in> keys T" by (simp add: first_key_def)
  from stands_item [OF e(2) this assms(4)] obtain st' where "get (stack_reset st) = Some (dec q, st')" by blast
  with e show ?thesis by (auto simp: path_max_def go_to_max_def)
qed

text \<open>The first step of an iterator, and one step when it stands at a value.\<close>

lemma next_item_first:
  assumes "den s T []" and "reads_items get dec (keys T)"
  shows "\<exists>u st q found. next_item get ops s stack_new item = Some (found, u, st, if found then dec q else item) \<and>
    stands u st T q \<and> first_key False T found q"
proof -
  from seek_start [OF assms(1) _ balanced_new, of False] obtain found s' st' q where
    n: "seek ops False s stack_new = Some (found, s', st')" "stands s' st' T q" "first_key False T found q"
    by (auto simp: stack_new_def turn_safe_def)
  have "q \<in> keys T" if found using n(3) that by (simp add: first_key_def)
  from seek_item_result [OF n(1,2) this assms(2), of item] obtain st'' where
    "next_item get ops s stack_new item = Some (found, s', st'', if found then dec q else item)"
    "stands s' st'' T q" by (auto simp: seek_item_def)
  with n(3) show ?thesis by blast
qed

lemma iterator_next_at:
  assumes "stands u (it_stack it) T q" and "q \<in> keys T" and "it_path it = Some u" and "reads_items get dec (keys T)"
  shows "\<exists>it' u' q' found. iterator_next get ops it = Some it' \<and> it_path it' = Some u' \<and> stands u' (it_stack it') T q' \<and>
    next_key False T q found q' \<and> (found \<longrightarrow> it_item it' = dec q') \<and> it_is_end it' = (\<not> found)"
proof -
  have "complete_code q" using assms(2) by (simp add: keys_def)
  from seek_next [OF assms(1) this, of False] obtain found s' st' q' where
    n: "seek ops False u (it_stack it) = Some (found, s', st')" "stands s' st' T q'" "next_key False T q found q'"
    by (auto simp: turn_safe_def)
  have "q' \<in> keys T" if found using n(3) that by (simp add: next_key_def)
  from seek_item_result [OF n(1,2) this assms(4), of "it_item it"] obtain st'' where
    "next_item get ops u (it_stack it) (it_item it) = Some (found, s', st'', if found then dec q' else it_item it)"
    "stands s' st'' T q'" by (auto simp: seek_item_def)
  with n(3) assms(3) show ?thesis by (auto simp: iterator_next_def)
qed

end

section \<open>Numbers below a place\<close>

definition numbers :: "db_file \<Rightarrow> bits list \<Rightarrow> nat set" where
  "numbers f cs = {k. k < 2 ^ 64 \<and> node f (cs @ [value_code k]) \<noteq> None}"

text \<open>A place below \<open>JSON\<close>.\<close>

definition json_place :: "bits list \<Rightarrow> bool" where
  "json_place cs \<longleftrightarrow> codes cs \<and> (\<exists>r. cs = value_code JSON # r)"

lemma json_place_doc [simp]: "codes xs \<Longrightarrow> json_place (doc ps @ xs)" "json_place (doc ps)"
  by (simp_all add: json_place_def) (simp_all add: doc_def)

lemma tidy_key:
  assumes "tidy f" and "json_place cs" and "complete_code c" and "node f (cs @ [c]) \<noteq> None"
  shows "\<exists>k < 2 ^ 64. c = value_code k"
proof -
  from assms(2) obtain r where "cs = value_code JSON # r" "codes r" by (auto simp: json_place_def)
  with tidyD(2) [OF assms(1), of "r @ [c]" c] assms(3,4) show ?thesis by simp
qed

lemma tidy_below:
  assumes t: "tidy f" and cs: "json_place cs"
  shows "codes_below f (concat cs)" and "keys (below_path f (concat cs)) = value_code ` numbers f cs"
    and "q \<in> below_path f (concat cs) \<Longrightarrow> q \<noteq> [] \<Longrightarrow> open_path q \<Longrightarrow> \<exists>k \<in> keys (below_path f (concat cs)). prefix q k"
    and "q \<in> below_path f (concat cs) \<Longrightarrow> q \<noteq> [] \<Longrightarrow> numbers f cs \<noteq> {}"
proof -
  have c: "codes cs" using cs by (simp add: json_place_def)
  have ext: "\<exists>es. codes es \<and> node f (cs @ es) \<noteq> None \<and> prefix q (concat es)" if "q \<in> below_path f (concat cs)" for q
  proof -
    from that tidyD(1) [OF t, of "concat cs @ q"] obtain ds where
      ds: "codes ds" "node f ds \<noteq> None" "prefix (concat cs @ q) (concat ds)" by (auto simp: below_path_def)
    from ds(3) have "prefix (concat cs) (concat ds)" by (auto elim: prefix_order.trans [rotated])
    with c ds(1) obtain es where "ds = cs @ es" by (auto simp: prefix_concat_codes elim: prefixE)
    with ds show ?thesis by auto
  qed
  have key: "\<exists>k \<in> numbers f cs. e = value_code k" if "codes (e # es)" "node f (cs @ e # es) \<noteq> None" for e es
  proof -
    have "node f (cs @ [e]) \<noteq> None" using node_extend [of f "cs @ [e]" es] that(2) by simp
    with tidy_key [OF t cs, of e] that(1) show ?thesis by (auto simp: numbers_def)
  qed
  show "codes_below f (concat cs)"
    unfolding codes_below_def
  proof
    fix q assume "q \<in> below_path f (concat cs)"
    from ext [OF this] obtain es where "codes es" "prefix q (concat es)" by blast
    then show "0 \<le> weight q" using concat_complete_nonneg [of es] by (simp add: codes_def list_all_iff)
  qed
  have inT: "value_code k \<in> keys (below_path f (concat cs))" if "k \<in> numbers f cs" for k
    using that node_paths [of f "cs @ [value_code k]"] by (simp add: numbers_def keys_def below_path_def)
  have first: "\<exists>k \<in> numbers f cs. prefix q (value_code k) \<or> strict_prefix (value_code k) q"
    if "q \<in> below_path f (concat cs)" "q \<noteq> []" for q
  proof -
    from ext [OF that(1)] obtain es where es: "codes es" "node f (cs @ es) \<noteq> None" "prefix q (concat es)" by blast
    with that(2) obtain e es' where e: "es = e # es'" by (cases es) auto
    with key es obtain k where k: "k \<in> numbers f cs" "e = value_code k" by blast
    have "prefix q (concat es)" "prefix e (concat es)" using es(3) e by auto
    then have "prefix q e \<or> prefix e q" by (rule prefix_same_cases)
    with k show ?thesis by (auto simp: strict_prefix_def)
  qed
  then show "q \<in> below_path f (concat cs) \<Longrightarrow> q \<noteq> [] \<Longrightarrow> numbers f cs \<noteq> {}" by blast
  show "keys (below_path f (concat cs)) = value_code ` numbers f cs"
  proof
    show "keys (below_path f (concat cs)) \<subseteq> value_code ` numbers f cs"
    proof
      fix q assume q: "q \<in> keys (below_path f (concat cs))"
      then have code: "complete_code q" "q \<noteq> []" by (auto simp: keys_def complete_code_def)
      from first [of q] q code obtain k where "k \<in> numbers f cs" "prefix q (value_code k) \<or> strict_prefix (value_code k) q"
        by (auto simp: keys_def)
      with code(1) complete_prefix_free [of q "value_code k"] complete_prefix_free [of "value_code k" q]
      show "q \<in> value_code ` numbers f cs" by (auto simp: strict_prefix_def)
    qed
  qed (use inT in blast)
  show "\<exists>k \<in> keys (below_path f (concat cs)). prefix q k"
    if "q \<in> below_path f (concat cs)" "q \<noteq> []" "open_path q"
  proof -
    from first [OF that(1,2)] obtain k where k: "k \<in> numbers f cs" "prefix q (value_code k) \<or> strict_prefix (value_code k) q" by blast
    have "\<not> strict_prefix (value_code k) q"
      using complete_not_open [of "value_code k" q] that(3) by (auto simp: strict_prefix_def)
    with k inT show ?thesis by blast
  qed
qed

text \<open>A path that stands at a place below \<open>JSON\<close>.\<close>

lemma place_den:
  assumes "store_ok f" and "tidy f" and "json_place cs" and "stands_at f p cs"
  shows "db_den (p, f) (below_path f (concat cs)) []"
  using db_den_start [OF assms(1) stands_at_path [OF assms(4)]] tidy_below(1) [OF assms(2,3)] by simp

lemma number_items:
  assumes "tidy f" and "json_place cs"
  shows "reads_items read_index decode_index (keys (below_path f (concat cs)))"
  by (rule read_index_items) (auto simp: tidy_below(2) [OF assms])

lemma dead_end_at:
  assumes "tidy f" and "json_place cs" and at: "stands_at f p cs"
  shows "path_dead_end f p \<longleftrightarrow> numbers f cs = {}"
proof
  have can: "[d] \<in> below_path f (concat cs) \<longleftrightarrow> child d (path_branch f p) \<noteq> 0" for d
    using at_path_child [OF stands_at_path [OF at], of d] by (simp add: below_path_def)
  show "numbers f cs = {}" if d: "path_dead_end f p"
  proof (rule ccontr)
    assume "numbers f cs \<noteq> {}"
    then obtain k where "value_code k \<in> keys (below_path f (concat cs))" using tidy_below(2) [OF assms(1,2)] by blast
    then obtain b v where "concat cs @ b # v \<in> paths f 0" "b # v = value_code k"
      by (cases "value_code k") (auto simp: keys_def below_path_def complete_code_def)
    then have "[b] \<in> below_path f (concat cs)"
      using paths_prefix [of "concat cs @ [b]" v f 0] by (simp add: below_path_def)
    with can [of b] d show False by (cases b) (auto simp: path_dead_end_def branch_dead_end_def child_def)
  qed
  show "path_dead_end f p" if e: "numbers f cs = {}"
  proof -
    have "[d] \<notin> below_path f (concat cs)" for d using tidy_below(4) [OF assms(1,2), of "[d]"] e by auto
    with can [of True] can [of False] show ?thesis by (auto simp: path_dead_end_def branch_dead_end_def child_def)
  qed
qed

lemma max_index_at:
  assumes "store_ok f" and "tidy f" and "json_place cs" and "stands_at f p cs" and "numbers f cs \<noteq> {}"
  shows "\<exists>m \<in> numbers f cs. max_index p f = Some m \<and> (\<forall>k \<in> numbers f cs. k \<le> m)"
proof -
  let ?T = "below_path f (concat cs)"
  note keys = tidy_below(2) [OF assms(2,3)]
  have "\<exists>k \<in> keys ?T. prefix q k" if "q \<in> ?T" "open_path q" for q
    using that tidy_below(3) [OF assms(2,3)] keys assms(5) by (cases "q = []") auto
  from db_path.path_max_full [OF place_den [OF assms(1-4)] _ this number_items [OF assms(2,3)]] keys assms(5)
  obtain q where q: "path_max read_index db_path_ops (p, f) = Some (Some (decode_index q))" "first_key True ?T True q" by auto
  from q(2) keys obtain m where m: "m \<in> numbers f cs" "q = value_code m" by (auto simp: first_key_def)
  have "k \<le> m" if "k \<in> numbers f cs" for k
  proof -
    from q(2) keys that m(2) have "value_code k = value_code m \<or> dir_less True (value_code m) (value_code k)"
      by (auto simp: first_key_def)
    then show ?thesis by (auto simp: dir_less_True value_code_order)
  qed
  with m q(1) show ?thesis by (auto simp: max_index_def decode_index_code)
qed

section \<open>The loop over the numbers\<close>

text \<open>The same contract, for a file that the cursor does not change, and a place it does not leave.\<close>

definition db_den_of :: "db_file \<Rightarrow> bits \<Rightarrow> cursor \<Rightarrow> bits set \<Rightarrow> bits \<Rightarrow> bool" where
  "db_den_of f pre st T q \<longleftrightarrow> snd st = f \<and> store_ok f \<and> at_path f (fst st) (pre @ q) \<and> T = below_path f pre \<and> codes_below f pre"

lemma db_den_of_den: "db_den_of f pre st T q \<Longrightarrow> db_den st T q"
  by (auto simp: db_den_of_def db_den_def)

interpretation file_path: path_cursor db_path_ops "db_den_of f pre" for f pre
proof
  show "\<exists>s'. move db_path_ops d s = Some s' \<and> db_den_of f pre s' T (p @ [d])" if "db_den_of f pre s T p" "p @ [d] \<in> T" for s T p d
  proof -
    note den = that(1)
    obtain c where s: "s = (c, f)" "at_path f c (pre @ p)" using den by (cases s) (auto simp: db_den_of_def)
    have "child d (path_branch f c) \<noteq> 0" using db_den_can [OF db_den_of_den [OF that(1)], of d] that(2) db_can_move [of d c f] s(1) by simp
    from go_dir_cases(1) [OF this] obtain c' where
      c': "go_dir d (c, f) = (c', f)" "path_index c' = child d (path_branch f c)" "child d (path_branch f c) \<noteq> 0"
      using \<open>child d (path_branch f c) \<noteq> 0\<close> by auto
    have "at_path f c' (pre @ p @ [d])"
      using s(2) c'(2,3) walk_snoc [of f 0 "pre @ p" d] by (simp add: at_path_def path_branch_def)
    with that(1) c'(1) s(1) show ?thesis by (simp add: db_den_of_def db_move)
  qed
  show "\<exists>s'. move_up db_path_ops s = Some s' \<and> db_den_of f pre s' T p" if "db_den_of f pre s T (p @ [d])" for s T p d
  proof -
    note den = that
    obtain c where s: "s = (c, f)" "at_path f c ((pre @ p) @ [d])" using den by (cases s) (auto simp: db_den_of_def)
    from den obtain N E where inv: "db_inv f N E" by (auto simp: db_den_of_def store_ok_def)
    have "at_path f (go_up f c) (pre @ p)" using go_up_step(1) [OF inv, of "pre @ p" d c] s(2) by (simp add: at_path_def)
    with that s(1) show ?thesis by (simp add: db_den_of_def db_path_ops_def)
  qed
  show "db_den_of f pre (copy_path db_path_ops s) T []" if "db_den_of f pre s T []" for s T
    using that by (auto simp: db_den_of_def db_path_ops_def at_path_def path_copy_def path_new_def split: prod.splits)
qed (simp_all add: db_den_trie(1-4) [OF db_den_of_den] db_den_can [OF db_den_of_den])

text \<open>What an iterator has still to visit.\<close>

definition visits :: "db_file \<Rightarrow> bits list \<Rightarrow> (cursor, index) iterator \<Rightarrow> nat list \<Rightarrow> bool" where
  "visits f cs it ks \<longleftrightarrow> it_is_end it = (ks = []) \<and> (\<exists>p. it_path it = Some (p, f)) \<and> sorted_wrt (<) ks \<and> set ks \<subseteq> numbers f cs \<and> (case ks of
       [] \<Rightarrow> st_bits (it_stack it) = []
     | k # ks' \<Rightarrow> it_item it = k \<and> set ks' = {j \<in> numbers f cs. k < j} \<and>
         (\<exists>p. it_path it = Some (p, f) \<and>
            file_path.stands f (concat cs) (p, f) (it_stack it) (below_path f (concat cs)) (value_code k)))"

lemma value_code_ne [simp]: "value_code v \<noteq> []" "[] \<noteq> value_code v"
  using value_code_complete [of v] by (auto simp: complete_code_def)

lemma visits_end: "visits f cs it ks \<Longrightarrow> iterator_eq it (iterator_end 0) \<longleftrightarrow> ks = []"
  by (auto simp: visits_def iterator_eq_def iterator_end_def stack_eq_def stack_new_def file_path.stands_def complete_code_def
      split: list.splits)

lemma visits_item: "visits f cs it (k # ks) \<Longrightarrow> it_item it = k \<and> k \<in> numbers f cs \<and> (\<exists>p. it_path it = Some (p, f))"
  by (auto simp: visits_def)

lemma numbers_finite:
  assumes "store_ok f" and "tidy f" and "json_place cs" and "stands_at f p cs"
  shows "finite (numbers f cs)"
proof -
  have "finite (value_code ` numbers f cs)"
    using db_path.keys_finite [OF place_den [OF assms]] tidy_below(2) [OF assms(2,3)] by simp
  then show ?thesis by (rule finite_imageD) (simp add: inj_on_def)
qed

text \<open>The iterator at the least number of a set \<open>K\<close> of those that are left.\<close>

lemma visits_intro:
  assumes t: "tidy f" "json_place cs" and fin: "finite (numbers f cs)"
    and it: "it_path it = Some u" "file_path.stands f (concat cs) u (it_stack it) (below_path f (concat cs)) q"
    and last: "it_is_end it = (\<not> found)"
    and K: "K \<subseteq> numbers f cs" "\<And>k j. k \<in> K \<Longrightarrow> j \<in> numbers f cs \<Longrightarrow> k < j \<Longrightarrow> j \<in> K"
    and q: "if found then \<exists>k \<in> K. q = value_code k \<and> it_item it = k \<and> (\<forall>j \<in> K. k \<le> j) else q = [] \<and> K = {}"
  shows "visits f cs it (sorted_list_of_set K)"
proof (cases found)
  case False
  have "\<exists>p. u = (p, f)" using it(2) by (cases u) (simp add: file_path.stands_def db_den_of_def)
  with False q it last show ?thesis by (auto simp: visits_def file_path.stands_def)
next
  case True
  with q obtain k where k: "k \<in> K" "q = value_code k" "it_item it = k" "\<And>j. j \<in> K \<Longrightarrow> k \<le> j" by auto
  have finK: "finite K" using finite_subset [OF K(1) fin] .
  have "Min K = k" using k(1,4) finK by (intro Min_eqI) auto
  then have list: "sorted_list_of_set K = k # sorted_list_of_set (K - {k})"
    using sorted_list_of_set_nonempty [OF finK] k(1) by auto
  have "K - {k} = {j \<in> numbers f cs. k < j}" using K k(1,4) by (auto simp: order_less_le)
  moreover have "snd u = f" using it(2) by (simp add: file_path.stands_def db_den_of_def)
  then have "\<exists>p. u = (p, f)" by (cases u) auto
  moreover have "sorted_wrt (<) (k # sorted_list_of_set (K - {k}))"
    unfolding list [symmetric] by (rule strict_sorted_list_of_set)
  moreover have "set (k # sorted_list_of_set (K - {k})) \<subseteq> numbers f cs" unfolding list [symmetric] using finK K(1) by simp
  moreover have "set (sorted_list_of_set (K - {k})) = K - {k}" using finK by simp
  moreover have "it_is_end it = (k # sorted_list_of_set (K - {k}) = [])" using last True by simp
  ultimately show ?thesis using it k(2,3) unfolding visits_def list by (simp only: list.case) blast
qed

lemma place_den_of:
  "store_ok f \<Longrightarrow> tidy f \<Longrightarrow> json_place cs \<Longrightarrow> stands_at f p cs \<Longrightarrow> db_den_of f (concat cs) (p, f) (below_path f (concat cs)) []"
  using place_den [of f cs p] stands_at_path [of f p cs] tidy_below(1) [of f cs] by (simp add: db_den_of_def)

lemma code_less [simp]: "dir_less False (value_code j) (value_code k) \<longleftrightarrow> j < k"
  by (simp add: dir_less_False value_code_order)

lemma visits_first:
  assumes "store_ok f" and "tidy f" and "json_place cs" and "stands_at f p cs"
  shows "\<exists>found q st k. next_item read_index db_path_ops (p, f) stack_new 0 = Some (found, (q, f), st, k) \<and>
    visits f cs \<lparr>it_path = Some (q, f), it_item = k, it_stack = st, it_is_end = (\<not> found)\<rparr> (sorted_list_of_set (numbers f cs))"
proof -
  note keys = tidy_below(2) [OF assms(2,3)]
  from file_path.next_item_first [OF place_den_of [OF assms] number_items [OF assms(2,3)], of 0] obtain u st q found where
    n: "next_item read_index db_path_ops (p, f) stack_new 0 = Some (found, u, st, if found then decode_index q else 0)"
      "file_path.stands f (concat cs) u st (below_path f (concat cs)) q" "first_key False (below_path f (concat cs)) found q" by blast
  obtain r where u: "u = (r, f)" using n(2) by (cases u) (simp add: file_path.stands_def db_den_of_def)
  let ?it = "\<lparr>it_path = Some u, it_item = if found then decode_index q else 0, it_stack = st, it_is_end = (\<not> found)\<rparr>"
  have "if found then \<exists>k \<in> numbers f cs. q = value_code k \<and> it_item ?it = k \<and> (\<forall>j \<in> numbers f cs. k \<le> j)
    else q = [] \<and> numbers f cs = {}"
    using n(3) unfolding first_key_def keys by (auto simp: decode_index_code order_le_less split: if_splits)
  from visits_intro [OF assms(2,3) numbers_finite [OF assms] _ _ _ order_refl _ this, of u] n(2)
  have "visits f cs ?it (sorted_list_of_set (numbers f cs))" by simp
  with n(1) u show ?thesis by blast
qed

lemma visits_begin:
  assumes "store_ok f" and "tidy f" and "json_place cs" and "stands_at f p cs"
  shows "\<exists>it. iterator_begin read_index db_path_ops (p, f) 0 = Some it \<and> visits f cs it (sorted_list_of_set (numbers f cs))"
proof -
  have "stands_at f (path_copy p) cs" using assms(4) by simp
  from visits_first [OF assms(1-3) this] show ?thesis by (auto simp: iterator_begin_def db_path_ops_def)
qed

lemma visits_next:
  assumes t: "tidy f" "json_place cs" and fin: "finite (numbers f cs)" and v: "visits f cs it (k # ks)"
  shows "\<exists>it'. iterator_next read_index db_path_ops it = Some it' \<and> visits f cs it' ks"
proof -
  let ?K = "{j \<in> numbers f cs. k < j}"
  note keys = tidy_below(2) [OF t]
  from v have "\<exists>p. it_path it = Some (p, f) \<and> file_path.stands f (concat cs) (p, f) (it_stack it) (below_path f (concat cs)) (value_code k)"
    unfolding visits_def list.case by (elim conjE)
  then obtain p where p: "it_path it = Some (p, f)"
    "file_path.stands f (concat cs) (p, f) (it_stack it) (below_path f (concat cs)) (value_code k)" by blast
  from v have "set (k # ks) \<subseteq> numbers f cs" by (simp only: visits_def)
  then have kin: "k \<in> numbers f cs" by simp
  from v have ks: "set ks = ?K" unfolding visits_def list.case by (elim conjE)
  from v have "sorted_wrt (<) (k # ks)" by (simp only: visits_def)
  then have sorted: "sorted_wrt (<) ks" by simp
  have "value_code k \<in> keys (below_path f (concat cs))" using kin keys by blast
  from file_path.iterator_next_at [OF p(2) this p(1) number_items [OF t]] obtain it' u q found where
    it: "iterator_next read_index db_path_ops it = Some it'" "it_path it' = Some u"
      "file_path.stands f (concat cs) u (it_stack it') (below_path f (concat cs)) q"
      "next_key False (below_path f (concat cs)) (value_code k) found q" "found \<longrightarrow> it_item it' = decode_index q" "it_is_end it' = (\<not> found)" by blast
  have "if found then \<exists>k \<in> ?K. q = value_code k \<and> it_item it' = k \<and> (\<forall>j \<in> ?K. k \<le> j) else q = [] \<and> ?K = {}"
    using it(4,5) unfolding next_key_def keys by (auto simp: decode_index_code order_le_less split: if_splits)
  from visits_intro [OF t fin it(2,3,6) _ _ this] have "visits f cs it' (sorted_list_of_set ?K)" by auto
  moreover have "sorted_list_of_set ?K = ks"
    using ks sorted by (metis sorted_list_of_set.idem_if_sorted_distinct strict_sorted_iff)
  ultimately show ?thesis using it(1) by simp
qed

text \<open>The file may change between the steps of a loop, as long as the numbers stay.\<close>

lemma visits_same:
  assumes v: "visits f cs it (k # ks)" and g: "store_ok g" "tidy g" "json_place cs"
    and num: "numbers g cs = numbers f cs" and st: "\<And>p ds. stands_at f p ds \<Longrightarrow> stands_at g p ds"
  shows "\<exists>p. it_path it = Some (p, f) \<and> visits g cs (it\<lparr>it_path := Some (p, g)\<rparr>) (k # ks)"
proof -
  from v have "\<exists>p. it_path it = Some (p, f) \<and> file_path.stands f (concat cs) (p, f) (it_stack it) (below_path f (concat cs)) (value_code k)"
    unfolding visits_def list.case by (elim conjE)
  then obtain p where p: "it_path it = Some (p, f)"
    "file_path.stands f (concat cs) (p, f) (it_stack it) (below_path f (concat cs)) (value_code k)" by blast
  then have "stands_at f p (cs @ [value_code k])"
    using g(3) by (simp add: file_path.stands_def db_den_of_def stands_at_def node_def at_path_def json_place_def)
  then have "at_path g p (concat cs @ value_code k)" using stands_at_path [OF st] by fastforce
  then have "file_path.stands g (concat cs) (p, g) (it_stack it) (below_path g (concat cs)) (value_code k)"
    using p(2) g(1) tidy_below(1) [OF g(2,3)] by (simp add: file_path.stands_def db_den_of_def)
  then have stands: "\<exists>q. it_path (it\<lparr>it_path := Some (p, g)\<rparr>) = Some (q, g) \<and> file_path.stands g (concat cs) (q, g)
      (it_stack (it\<lparr>it_path := Some (p, g)\<rparr>)) (below_path g (concat cs)) (value_code k)" by simp
  have item: "it_item (it\<lparr>it_path := Some (p, g)\<rparr>) = it_item it" by simp
  from v have parts: "it_is_end it = (k # ks = [])" "sorted_wrt (<) (k # ks)" "set (k # ks) \<subseteq> numbers f cs" "it_item it = k" "set ks = {j \<in> numbers f cs. k < j}"
    unfolding visits_def list.case by - (elim conjE, assumption)+
  have "visits g cs (it\<lparr>it_path := Some (p, g)\<rparr>) (k # ks)"
    unfolding visits_def num list.case item by (intro conjI parts stands) (use parts(1) in simp_all)
  with p(1) show ?thesis by blast
qed

end
