(* ===== verification/JSON_Keeps.thy ===== *)
theory JSON_Keeps
  imports JSON_Objects JSON_Numbers
begin

text \<open>
  What an operation on one document leaves alone: \<open>keeps f g S\<close> says that from \<open>f\<close> to \<open>g\<close> nothing changes in the documents
  outside \<open>S\<close>.
\<close>

section \<open>Arrays\<close>

definition array_ok :: "db_file \<Rightarrow> nat list \<Rightarrow> nat \<Rightarrow> bool" where
  "array_ok f ps n \<longleftrightarrow> type_at f ps ARRAY \<and> count_at f (doc ps @ [value_code CHILDREN]) n \<and>
     (\<forall>k. 1 \<le> k \<longrightarrow> k \<le> n \<longrightarrow> own_id f (ps @ [k])) \<and> (\<forall>k. k = 0 \<or> n < k \<longrightarrow> node f (doc (ps @ [k])) = None)"

section \<open>Documents that stay\<close>

definition same_doc :: "db_file \<Rightarrow> db_file \<Rightarrow> nat list \<Rightarrow> bool" where
  "same_doc f g ps \<longleftrightarrow> data g (doc ps) = data f (doc ps) \<and>
     (\<forall>m. object_ok f ps m \<longrightarrow> object_ok g ps m \<and> (\<forall>t j. placed g ps t j \<longleftrightarrow> placed f ps t j)) \<and>
     (\<forall>m. array_ok f ps m \<longrightarrow> array_ok g ps m) \<and>
     (\<forall>xs. codes xs \<longrightarrow> data g (doc ps @ value_code VALUE # xs) = data f (doc ps @ value_code VALUE # xs)) \<and>
     (\<forall>k. node f (doc ps @ [value_code VALUE, value_code k]) = None \<longrightarrow> node g (doc ps @ [value_code VALUE, value_code k]) = None) \<and>
     (blank_doc f ps \<longrightarrow> blank_doc g ps) \<and> (\<forall>k s. named f ps k s \<longrightarrow> named g ps k s)"

text \<open>No user appears either.\<close>

definition keeps :: "db_file \<Rightarrow> db_file \<Rightarrow> nat list set \<Rightarrow> bool" where
  "keeps f g S \<longleftrightarrow> (\<forall>ps. ps \<notin> S \<longrightarrow> same_doc f g ps) \<and> (\<forall>cs i. node f cs = Some i \<longrightarrow> node g cs = Some i) \<and>
     (\<forall>ps. own_id f ps \<longrightarrow> own_id g ps) \<and>
     (\<forall>s. node f [value_code USERS, string_code s] = None \<longrightarrow> node g [value_code USERS, string_code s] = None)"

lemma keepsD: "keeps f g S \<Longrightarrow> ps \<notin> S \<Longrightarrow> same_doc f g ps" "keeps f g S \<Longrightarrow> node f cs = Some i \<Longrightarrow> node g cs = Some i"
  "keeps f g S \<Longrightarrow> own_id f ps \<Longrightarrow> own_id g ps"
  "keeps f g S \<Longrightarrow> node f [value_code USERS, string_code s] = None \<Longrightarrow> node g [value_code USERS, string_code s] = None"
  by (simp_all add: keeps_def)

lemma same_doc_refl [simp]: "same_doc f f ps"
  by (simp add: same_doc_def)

lemma same_doc_trans: "same_doc f g ps \<Longrightarrow> same_doc g h ps \<Longrightarrow> same_doc f h ps"
  unfolding same_doc_def by (intro conjI allI impI) metis+

lemma keeps_refl [simp]: "keeps f f S"
  by (simp add: keeps_def)

lemma keeps_mono: "keeps f g S \<Longrightarrow> S \<subseteq> T \<Longrightarrow> keeps f g T"
  by (auto simp: keeps_def)

lemma keeps_trans:
  assumes "keeps f g S" and "keeps g h S"
  shows "keeps f h S"
  unfolding keeps_def
proof (intro conjI allI impI)
  show "same_doc f h ps" if "ps \<notin> S" for ps using same_doc_trans keepsD(1) [OF assms(1) that] keepsD(1) [OF assms(2) that] by blast
qed (simp_all add: keepsD(2-4) [OF assms(1)] keepsD(2-4) [OF assms(2)])

lemma array_okD:
  assumes "array_ok f ps n"
  shows "type_at f ps ARRAY" and "count_at f (doc ps @ [value_code CHILDREN]) n" and "n < 2 ^ 64"
    and "1 \<le> k \<Longrightarrow> k \<le> n \<Longrightarrow> own_id f (ps @ [k])" and "n < k \<Longrightarrow> node f (doc (ps @ [k])) = None"
    and "node f (doc (ps @ [0])) = None"
  using assms unfolding array_ok_def count_at_def by blast+

lemma keeps_document:
  assumes "document f ps names" and "keeps f g S" and "\<And>qs. strict_prefix qs ps \<Longrightarrow> qs \<notin> S"
  shows "document g ps names"
  using assms(1,3)
proof (induction rule: document.induct)
  case (part ps names k key)
  have "ps \<notin> S" by (rule part.prems) (simp add: strict_prefix_snoc_iff)
  with keepsD(1) [OF assms(2)] part.hyps(2) have "part_key g ps k key"
    by (auto simp: part_key_def type_at_def same_doc_def split: json_key.splits)
  moreover have "document g ps names"
    by (rule part.IH) (use part.prems in \<open>simp add: strict_prefix_snoc_iff prefix_order.less_imp_le\<close>)
  ultimately show ?case using keepsD(3) [OF assms(2) part.hyps(3)] document.part by blast
qed (rule document.root)

section \<open>Operations that stay within documents\<close>

text \<open>Places outside the list of users.\<close>

definition users_free :: "bits list set \<Rightarrow> bool" where
  "users_free B \<longleftrightarrow> (\<forall>b \<in> B. \<not> prefix [value_code USERS] b)"

lemma doc_ne [simp]: "doc ps \<noteq> []" "[] \<noteq> doc ps"
  by (simp_all add: doc_def)

lemma no_user [simp]: "\<not> prefix [value_code USERS] (doc ps @ xs)" "\<not> prefix [value_code USERS] (doc ps)"
  "\<not> prefix (value_code USERS # r) (doc ps @ xs)" "\<not> prefix (value_code USERS # r) (doc ps)"
  by (simp_all add: doc_def)

lemma users_free_simps [simp]:
  "users_free {}" "users_free (insert b B) \<longleftrightarrow> \<not> prefix [value_code USERS] b \<and> users_free B"
  "users_free (B \<union> C) \<longleftrightarrow> users_free B \<and> users_free C" "users_free word_places" "users_free object_places"
  "users_free (id_places ps)" "users_free (name_places ps)" "users_free (position_places ps k)"
  by (auto simp: users_free_def word_places_def object_places_def id_places_def name_places_def position_places_def)

lemma users_free_mono: "users_free C \<Longrightarrow> B \<subseteq> C \<Longrightarrow> users_free B"
  by (auto simp: users_free_def)

text \<open>
  The places that change (\<open>A\<close>) or appear (\<open>B\<close>) belong to the documents of \<open>S\<close>, or to the lists of names and identifiers.
\<close>

definition within :: "db_file \<Rightarrow> nat list set \<Rightarrow> bits list set \<Rightarrow> bits list set \<Rightarrow> bool" where
  "within f S A B \<longleftrightarrow>
     (\<forall>ps. ps \<notin> S \<longrightarrow> doc ps \<notin> A \<and> doc ps @ [value_code CHILDREN] \<notin> A \<and>
        (\<forall>k. doc ps @ [value_code POSITIONS, value_code k] \<notin> A \<and> doc ps @ [value_code PROPERTIES, value_code k] \<notin> A \<and>
             doc (ps @ [k]) @ [value_code ID] \<notin> A) \<and>
        (\<forall>xs. doc ps @ value_code VALUE # xs \<notin> A) \<and>
        (\<forall>k. \<forall>b \<in> B. \<not> prefix (doc ps @ [value_code PROPERTIES, value_code k]) b \<and>
             \<not> prefix (doc ps @ [value_code VALUE, value_code k]) b \<and>
             (prefix (doc (ps @ [k])) b \<longrightarrow> node f (doc (ps @ [k])) \<noteq> None))) \<and> users_free B"

lemma withinI:
  assumes "\<forall>ps. ps \<notin> S \<longrightarrow> doc ps \<notin> A \<and> doc ps @ [value_code CHILDREN] \<notin> A \<and>
        (\<forall>k. doc ps @ [value_code POSITIONS, value_code k] \<notin> A \<and> doc ps @ [value_code PROPERTIES, value_code k] \<notin> A \<and>
             doc (ps @ [k]) @ [value_code ID] \<notin> A) \<and>
        (\<forall>xs. doc ps @ value_code VALUE # xs \<notin> A) \<and>
        (\<forall>k. \<forall>b \<in> B. \<not> prefix (doc ps @ [value_code PROPERTIES, value_code k]) b \<and>
             \<not> prefix (doc ps @ [value_code VALUE, value_code k]) b \<and>
             (prefix (doc (ps @ [k])) b \<longrightarrow> node f (doc (ps @ [k])) \<noteq> None))"
    and "users_free B"
  shows "within f S A B"
  unfolding within_def using assms by (rule conjI)

lemma withinD:
  assumes "within f S A B" and "ps \<notin> S"
  shows "doc ps \<notin> A" and "doc ps @ [value_code CHILDREN] \<notin> A" and "doc ps @ [value_code POSITIONS, value_code k] \<notin> A"
    and "doc ps @ [value_code PROPERTIES, value_code k] \<notin> A" and "doc (ps @ [k]) @ [value_code ID] \<notin> A"
    and "doc ps @ value_code VALUE # xs \<notin> A"
    and "b \<in> B \<Longrightarrow> \<not> prefix (doc ps @ [value_code PROPERTIES, value_code k]) b"
    and "b \<in> B \<Longrightarrow> \<not> prefix (doc ps @ [value_code VALUE, value_code k]) b"
    and "b \<in> B \<Longrightarrow> prefix (doc (ps @ [k])) b \<Longrightarrow> node f (doc (ps @ [k])) \<noteq> None"
  using assms unfolding within_def by blast+

lemma array_ok_grows:
  assumes ok: "array_ok f ps n" and g: "grows f g A B m" and "doc ps \<notin> A" and "doc ps @ [value_code CHILDREN] \<notin> A"
    and "\<And>k. doc (ps @ [k]) @ [value_code ID] \<notin> A"
    and "\<And>k b. k = 0 \<or> n < k \<Longrightarrow> b \<in> B \<Longrightarrow> \<not> prefix (doc (ps @ [k])) b"
  shows "array_ok g ps n"
  unfolding array_ok_def
proof (intro conjI allI impI)
  show "type_at g ps ARRAY" using type_at_grows [OF array_okD(1) [OF ok] g] assms(3) by simp
  show "count_at g (doc ps @ [value_code CHILDREN]) n" using count_at_grows [OF array_okD(2) [OF ok] g] assms(4) by simp
  show "own_id g (ps @ [k])" if "1 \<le> k" "k \<le> n" for k
    by (rule own_id_grows [OF array_okD(4) [OF ok that] g]) (rule assms(5))
  show "node g (doc (ps @ [k])) = None" if "k = 0 \<or> n < k" for k
    by (rule new_node [OF g]) (use that array_okD(5,6) [OF ok] assms(6) in auto)
qed

lemma keeps_grows:
  assumes g: "grows f g A B m" and st: "store_ok f" and w: "within f S A B"
    and own: "\<And>ps. doc ps @ [value_code ID] \<in> A \<Longrightarrow> own_id f ps \<Longrightarrow> own_id g ps"
  shows "keeps f g S"
proof -
  have "same_doc f g ps" if "ps \<notin> S" for ps
  proof -
    note W = withinD [OF w that]
    have ap: "apart ps A B" using W by (simp add: apart_def)
    have fresh: "\<not> prefix (doc (ps @ [k])) b" if "node f (doc (ps @ [k])) = None" "b \<in> B" for k b
      using W(9) that by blast
    have obj: "object_ok g ps n \<and> (\<forall>t j. placed g ps t j \<longleftrightarrow> placed f ps t j)" if "object_ok f ps n" for n
    proof -
      have none: "node f (doc (ps @ [k])) = None" if "k = 0 \<or> n < k" for k
        using object_okD(9) [OF \<open>object_ok f ps n\<close>, of k] object_okD(10) [OF \<open>object_ok f ps n\<close>] that by auto
      show ?thesis using object_ok_grows [OF that g st ap W(5)] fresh none by metis
    qed
    have arr: "array_ok g ps n" if "array_ok f ps n" for n
      by (rule array_ok_grows [OF that g W(1,2,5)]) (use fresh array_okD(5,6) [OF that] in blast)
    have blank: "blank_doc g ps" if b: "blank_doc f ps"
    proof -
      have "node g (doc ps @ [value_code PROPERTIES, value_code i]) = None"
        "node g (doc ps @ [value_code VALUE, value_code i]) = None" "node g (doc (ps @ [i])) = None" for i
        by (rule new_node [OF g], use b W(7-8) fresh in \<open>simp_all add: blank_doc_def bare_doc_def\<close>)+
      with b W(1,2,6) growsD(3) [OF g, of "doc ps"] growsD(3) [OF g, of "doc ps @ [value_code CHILDREN]"]
        growsD(3) [OF g, of "doc ps @ [value_code VALUE]"] show ?thesis by (simp add: blank_doc_def bare_doc_def)
    qed
    have "named g ps k s" if "named f ps k s" for k s by (rule named_grows [OF that g W(3)])
    moreover have "node g (doc ps @ [value_code VALUE, value_code k]) = None"
      if "node f (doc ps @ [value_code VALUE, value_code k]) = None" for k
      by (rule new_node [OF g _ that]) (use W(8) in simp_all)
    moreover have "data g (doc ps) = data f (doc ps)" using growsD(3) [OF g _ W(1)] by simp
    moreover have "data g (doc ps @ value_code VALUE # xs) = data f (doc ps @ value_code VALUE # xs)" if "codes xs" for xs
      using growsD(3) [OF g _ W(6)] that by simp
    ultimately show ?thesis using obj arr blank by (simp add: same_doc_def)
  qed
  moreover have "own_id g ps" if "own_id f ps" for ps
    using own [OF _ that] own_id_grows [OF that g] by blast
  moreover have "node g [value_code USERS, string_code s] = None" if "node f [value_code USERS, string_code s] = None" for s
    by (rule new_node [OF g _ that]) (use w in \<open>auto simp: within_def users_free_def dest: append_prefixD [of "[_]" "[_]", simplified]\<close>)
  ultimately show ?thesis using growsD(2) [OF g] by (simp add: keeps_def)
qed

text \<open>Reading a part of a document that is there may create the branch of the part.\<close>

lemma keeps_slot:
  assumes g: "grows f g {} B m" and st: "store_ok f" and B: "\<And>b. b \<in> B \<Longrightarrow> \<exists>ps s. b = doc ps @ [value_code s] \<and> node f (doc ps) \<noteq> None"
  shows "keeps f g S"
proof (rule keeps_grows [OF g st])
  have "within f {} {} B"
  proof (rule withinI, intro allI impI conjI ballI)
    show "users_free B"
      unfolding users_free_def
    proof
      fix b assume "b \<in> B"
      from B [OF this] show "\<not> prefix [value_code USERS] b" by (elim exE conjE) simp
    qed
  next
    fix qs k b assume b: "b \<in> B"
    from B [OF b] obtain ps s where ps: "b = doc ps @ [value_code s]" "node f (doc ps) \<noteq> None" by blast
    have slot: "\<not> prefix (doc qs @ [value_code t, value_code k]) b" if "t \<noteq> CHILDREN" for t
      using doc_prefix [OF that, of s qs "[value_code k]" ps "[]"] doc_prefix_count [OF that, of qs "[value_code k]" ps]
      by (cases "s = CHILDREN") (simp_all add: ps(1) del: prefix_snoc)
    show "\<not> prefix (doc qs @ [value_code PROPERTIES, value_code k]) b" "\<not> prefix (doc qs @ [value_code VALUE, value_code k]) b"
      by (rule slot, simp)+
    show "node f (doc (qs @ [k])) \<noteq> None" if "prefix (doc (qs @ [k])) b"
    proof -
      from that have "prefix (qs @ [k]) ps" unfolding ps(1) doc_prefix_doc(2) .
      then have "prefix (doc (qs @ [k])) (doc ps)" unfolding doc_prefix_doc(3) .
      then show ?thesis using node_above [of f "doc (qs @ [k])" "doc ps"] ps(2) by metis
    qed
  qed simp_all
  then show "within f S {} B" unfolding within_def by blast
qed simp

end
