(* ===== verification/JSON_Property.thy ===== *)
theory JSON_Property
  imports JSON_Keeps
begin

text \<open>
  \<open>getObjectPropertyPosition\<close> and \<open>operator []\<close> on an object: a property that is there is found again, and a new one gets the
  next position, a name for this position, an identifier, and the words of its name in the index.
\<close>

section \<open>Finding\<close>

text \<open>The first three steps, whether or not the property is there.\<close>

definition find_places :: "nat list \<Rightarrow> bstring \<Rightarrow> index \<Rightarrow> bits list set" where
  "find_places ps s i = {[value_code ROOT_PROPERTIES, string_code s], doc ps @ [value_code PROPERTIES],
     doc ps @ [value_code PROPERTIES, value_code i]}"

lemma find_property:
  assumes "db_at d f" and "stands_at f p (doc ps)" and room: "room f (3 + length s)"
  shows "\<exists>pp f1 q f2 r g. sub_string s (jd_properties d, f) = (pp, f1) \<and> get_object_properties p f1 = (q, f2) \<and>
    sub_index (path_index pp) (q, f2) = (r, g) \<and> grows f g {} (find_places ps s (path_index pp)) (3 + length s) \<and>
    stands_at g pp [value_code ROOT_PROPERTIES, string_code s] \<and>
    stands_at g r (doc ps @ [value_code PROPERTIES, value_code (path_index pp)]) \<and> path_index pp < 2 ^ 64"
proof -
  note db = db_atD [OF assms(1)]
  have "room f (1 + length s)" by (rule room_less [OF room]) simp
  from sub_string_step [OF db(1,2) this] obtain pp f1 where
    1: "sub_string s (jd_properties d, f) = (pp, f1)" "grows f f1 {} {[value_code ROOT_PROPERTIES, string_code s]} (1 + length s)"
      "stands_at f1 pp [value_code ROOT_PROPERTIES, string_code s]" by auto
  have r1: "room f1 2" by (rule room_after [OF room 1(2)]) simp
  from sub_index_step [OF growsD(1) [OF 1(2)] growsD(6) [OF 1(2) assms(2)] _ room_less [OF r1], of PROPERTIES] obtain q f2 where
    2: "sub_index PROPERTIES (p, f1) = (q, f2)" "grows f1 f2 {} {doc ps @ [value_code PROPERTIES]} 1"
      "stands_at f2 q (doc ps @ [value_code PROPERTIES])" by auto
  have r2: "room f2 1" by (rule room_after [OF r1 2(2)]) simp
  have i: "path_index pp < 2 ^ 64"
    using node_bound [OF growsD(1) [OF 1(2)], of _ "path_index pp"] 1(3) by (force simp: stands_at_def)
  from sub_index_step [OF growsD(1) [OF 2(2)] 2(3) i r2] obtain r g where
    3: "sub_index (path_index pp) (q, f2) = (r, g)" "grows f2 g {} {doc ps @ [value_code PROPERTIES, value_code (path_index pp)]} 1"
      "stands_at g r (doc ps @ [value_code PROPERTIES, value_code (path_index pp)])" by auto
  have "grows f g {} (find_places ps s (path_index pp)) (3 + length s)"
    by (rule grows_mono [OF grows_trans [OF grows_trans [OF 1(2) 2(2)] 3(2)]]) (auto simp: find_places_def)
  moreover have "stands_at g pp [value_code ROOT_PROPERTIES, string_code s]" using 1(3) growsD(6) 2(2) 3(2) by blast
  ultimately show ?thesis using 1(1) 2(1) 3(1,3) i unfolding get_object_properties_def by blast
qed

lemma property_position_old:
  assumes "db_at d f" and "stands_at f p (doc ps)" and "placed f ps s k" and room: "room f (3 + length s)"
  shows "\<exists>g i. property_position W d s p f = Some (k, g) \<and> grows f g {} (find_places ps s i) (3 + length s) \<and>
    node f [value_code ROOT_PROPERTIES, string_code s] = Some i"
proof -
  from find_property [OF assms(1,2) room] obtain pp f1 q f2 r g where
    g: "sub_string s (jd_properties d, f) = (pp, f1)" "get_object_properties p f1 = (q, f2)"
      "sub_index (path_index pp) (q, f2) = (r, g)" "grows f g {} (find_places ps s (path_index pp)) (3 + length s)"
      "stands_at g pp [value_code ROOT_PROPERTIES, string_code s]"
      "stands_at g r (doc ps @ [value_code PROPERTIES, value_code (path_index pp)])" by blast
  from assms(3) have k: "k < 2 ^ 64" by (simp add: placed_def)
  from assms(3) obtain i where i: "node f [value_code ROOT_PROPERTIES, string_code s] = Some i"
    "data f (doc ps @ [value_code PROPERTIES, value_code i]) = Some (index_bytes k)" by (auto simp: placed_def)
  from growsD(2) [OF g(4) i(1)] g(5) have eq: "i = path_index pp" by (simp add: stands_at_def)
  have d: "data g (doc ps @ [value_code PROPERTIES, value_code (path_index pp)]) = Some (index_bytes k)"
    using growsD(3) [OF g(4)] i(2) eq by simp
  from get_data_at(2) [OF growsD(1) [OF g(4)] g(6)] d have "path_has_data g r" by simp
  with g get_index_at [OF growsD(1) [OF g(4)] g(6) d k] i(1) eq show ?thesis
    by (auto simp: property_position_def)
qed

section \<open>Creating\<close>

text \<open>The entries that tie the property at \<open>i\<close> and the position \<open>n\<close> of the object \<open>ps\<close> together.\<close>

lemma link_property:
  assumes "db_at d f" and "stands_at f p (doc ps)" and "count_at f (doc ps @ [value_code CHILDREN]) n" and "n + 1 < 2 ^ 64"
    and "stands_at f pp [value_code ROOT_PROPERTIES, string_code s]"
    and "stands_at f r (doc ps @ [value_code PROPERTIES, value_code i])" and room: "room f 7"
  defines "A \<equiv> {doc ps @ [value_code CHILDREN], doc ps @ [value_code POSITIONS, value_code (n + 1)],
      doc ps @ [value_code PROPERTIES, value_code i]}"
    and "B \<equiv> {[value_code ROOT_PROPERTIES, string_code s, value_code (path_index p)], doc ps @ [value_code CHILDREN],
      doc ps @ [value_code POSITIONS], doc ps @ [value_code POSITIONS, value_code (n + 1)]}"
  shows "\<exists>u f1 ch f2 f3 q f4 v f5 b f6 c g. sub_index (path_index p) (pp, f) = (u, f1) \<and> get_children p f1 = (ch, f2) \<and>
    path_pre_inc ch f2 = Some (n + 1, f3) \<and> get_positions p f3 = (q, f4) \<and> sub_index (n + 1) (q, f4) = (v, f5) \<and>
    path_set_index (path_index pp) v f5 = Some (b, f6) \<and> path_set_index (n + 1) r f6 = Some (c, g) \<and>
    grows f g A B 7 \<and> count_at g (doc ps @ [value_code CHILDREN]) (n + 1) \<and>
    data g (doc ps @ [value_code POSITIONS, value_code (n + 1)]) = Some (index_bytes (path_index pp)) \<and>
    data g (doc ps @ [value_code PROPERTIES, value_code i]) = Some (index_bytes (n + 1))"
proof -
  let ?c = "doc ps @ [value_code CHILDREN]" and ?k = "doc ps @ [value_code POSITIONS, value_code (n + 1)]"
  note ok = db_atD(1) [OF assms(1)]
  have small: "path_index p < 2 ^ 64"
    using node_bound [OF ok, of "doc ps" "path_index p"] assms(2) by (simp add: stands_at_def)
  from sub_index_step [OF ok assms(5) small room_less [OF room]] obtain u f1 where
    1: "sub_index (path_index p) (pp, f) = (u, f1)"
      "grows f f1 {} {[value_code ROOT_PROPERTIES, string_code s, value_code (path_index p)]} 1" by auto
  have r1: "room f1 6" by (rule room_after [OF room 1(2)]) simp
  note p1 = growsD(6) [OF 1(2) assms(2)]
  from sub_index_step [OF growsD(1) [OF 1(2)] p1 _ room_less [OF r1], of CHILDREN] obtain ch f2 where
    2: "get_children p f1 = (ch, f2)" "grows f1 f2 {} {?c} 1" "stands_at f2 ch ?c" by (auto simp: get_children_def)
  have r2: "room f2 5" by (rule room_after [OF r1 2(2)]) simp
  have "count_at f2 ?c n" using count_at_grows [OF count_at_grows [OF assms(3) 1(2)] 2(2)] by simp
  from increment_at [OF growsD(1) [OF 2(2)] 2(3) this room_less [OF r2]] assms(4) obtain f3 where
    3: "path_pre_inc ch f2 = Some (n + 1, f3)" "grows f2 f3 {?c} {} 1" "count_at f3 ?c (n + 1)" by auto
  have r3: "room f3 4" by (rule room_after [OF r2 3(2)]) simp
  note p3 = growsD(6) [OF 3(2) growsD(6) [OF 2(2) p1]]
  from sub_index_step [OF growsD(1) [OF 3(2)] p3 _ room_less [OF r3], of POSITIONS] obtain q f4 where
    4: "get_positions p f3 = (q, f4)" "grows f3 f4 {} {doc ps @ [value_code POSITIONS]} 1"
      "stands_at f4 q (doc ps @ [value_code POSITIONS])" by (auto simp: get_positions_def)
  have r4: "room f4 3" by (rule room_after [OF r3 4(2)]) simp
  from sub_index_step [OF growsD(1) [OF 4(2)] 4(3) assms(4) room_less [OF r4]] obtain v f5 where
    5: "sub_index (n + 1) (q, f4) = (v, f5)" "grows f4 f5 {} {?k} 1" "stands_at f5 v ?k" by auto
  have r5: "room f5 2" by (rule room_after [OF r4 5(2)]) simp
  from put_index_step [OF growsD(1) [OF 5(2)] 5(3) room_less [OF r5], of "path_index pp"] obtain b f6 where
    6: "path_set_index (path_index pp) v f5 = Some (b, f6)" "grows f5 f6 {?k} {} 1" "data f6 ?k = Some (index_bytes (path_index pp))"
    by auto
  note all = grows_trans [OF grows_trans [OF grows_trans [OF grows_trans [OF grows_trans [OF 1(2) 2(2)] 3(2)] 4(2)] 5(2)] 6(2)]
  have r6: "room f6 1" by (rule room_after [OF room all]) simp
  from put_index_step [OF growsD(1) [OF 6(2)] growsD(6) [OF all assms(6)] r6, of "n + 1"] obtain c g where
    7: "path_set_index (n + 1) r f6 = Some (c, g)" "grows f6 g {doc ps @ [value_code PROPERTIES, value_code i]} {} 1"
      "data g (doc ps @ [value_code PROPERTIES, value_code i]) = Some (index_bytes (n + 1))" by auto
  have "grows f g A B 7" by (rule grows_mono [OF grows_trans [OF all 7(2)]]) (auto simp: A_def B_def)
  moreover have "count_at g ?c (n + 1)"
    using count_at_grows [OF count_at_grows [OF count_at_grows [OF count_at_grows [OF 3(3) 4(2)] 5(2)] 6(2)] 7(2)] by simp
  moreover have "data g ?k = Some (index_bytes (path_index pp))" using growsD(3) [OF 7(2), of ?k] 6(3) by simp
  ultimately show ?thesis using 1(1) 2(1) 3(1) 4(1) 5(1) 6(1) 7(1,3) by blast
qed


text \<open>The places a new property changes, and those it creates.\<close>

definition new_data :: "nat list \<Rightarrow> nat \<Rightarrow> index \<Rightarrow> bits list set" where
  "new_data ps n i = {doc ps @ [value_code CHILDREN], doc ps @ [value_code POSITIONS, value_code n],
     doc ps @ [value_code PROPERTIES, value_code i], doc (ps @ [n]) @ [value_code ID], doc (ps @ [n]) @ [value_code CASCADE]}
     \<union> word_places"

definition new_nodes :: "nat list \<Rightarrow> nat \<Rightarrow> bstring \<Rightarrow> index \<Rightarrow> index \<Rightarrow> bits list set" where
  "new_nodes ps n s i j = find_places ps s i \<union>
     {[value_code ROOT_PROPERTIES, string_code s, value_code j], doc ps @ [value_code CHILDREN], doc ps @ [value_code POSITIONS],
      doc ps @ [value_code POSITIONS, value_code n], doc (ps @ [n]), doc (ps @ [n]) @ [value_code ID],
      doc (ps @ [n]) @ [value_code CASCADE]} \<union> word_places \<union> id_places (ps @ [n]) \<union> name_places (ps @ [n])"

definition property_cost :: "wide_ctype \<Rightarrow> bstring \<Rightarrow> json_key list \<Rightarrow> nat" where
  "property_cost W s names = 16 + length s + index_cost W (length names + 1) (drop 2 (names @ [Property s]))"

text \<open>The words added, for a document that is new.\<close>

definition words_grown :: "db_file \<Rightarrow> db_file \<Rightarrow> bstring list \<Rightarrow> nat list \<Rightarrow> bool" where
  "words_grown f g ws ps \<longleftrightarrow> words_ok g \<and>
     (\<forall>w i. hits g w i = (hits f w i + (if indexed g ps i then count_list ws w else 0)) mod 2 ^ 64)"

lemma property_position_run:
  assumes db: "db_at d f" and at: "stands_at f p (doc ps)" and doc: "document f ps names" and ok: "object_ok f ps n"
    and words: "words_ok f" and names: "names_ok W (drop 2 (names @ [Property s]))" and n: "n + 1 < 2 ^ 64"
    and new: "\<And>k. \<not> placed f ps s k" and room: "room f (property_cost W s names)"
  shows "\<exists>g i. property_position W d s p f = Some (n + 1, g) \<and>
    grows f g (new_data ps (n + 1) i) (new_nodes ps (n + 1) s i (path_index p)) (property_cost W s names) \<and>
    node g [value_code ROOT_PROPERTIES, string_code s] = Some i \<and> i < 2 ^ 64 \<and>
    count_at g (doc ps @ [value_code CHILDREN]) (n + 1) \<and>
    data g (doc ps @ [value_code POSITIONS, value_code (n + 1)]) = Some (index_bytes i) \<and>
    data g (doc ps @ [value_code PROPERTIES, value_code i]) = Some (index_bytes (n + 1)) \<and>
    document g (ps @ [n + 1]) (names @ [Property s]) \<and>
    words_grown f g (index_words W (names @ [Property s])) (ps @ [n + 1])"
proof -
  let ?ps = "ps @ [n + 1]" and ?names = "names @ [Property s]"
  let ?ic = "index_cost W (length ?ps) (drop 2 ?names)"
  note len = document_length [OF doc]
  have room': "room f (16 + length s + ?ic)" using room len by (simp add: property_cost_def)
  have "room f (3 + length s)" by (rule room_less [OF room']) simp
  from find_property [OF db at this] obtain pp f1 q f2 r f3 where
    1: "sub_string s (jd_properties d, f) = (pp, f1)" "get_object_properties p f1 = (q, f2)"
      "sub_index (path_index pp) (q, f2) = (r, f3)" "grows f f3 {} (find_places ps s (path_index pp)) (3 + length s)"
      "stands_at f3 pp [value_code ROOT_PROPERTIES, string_code s]"
      "stands_at f3 r (doc ps @ [value_code PROPERTIES, value_code (path_index pp)])" "path_index pp < 2 ^ 64" by blast
  define i where "i = path_index pp"
  let ?r = "doc ps @ [value_code PROPERTIES, value_code i]"
  have pn: "node f3 [value_code ROOT_PROPERTIES, string_code s] = Some i" using 1(5) by (simp add: stands_at_def i_def)
  have none: "data f ?r = None"
  proof (rule ccontr)
    assume "data f ?r \<noteq> None"
    from object_okD(4) [OF ok data_node [OF this]] obtain t k where
      t: "node f [value_code ROOT_PROPERTIES, string_code t] = Some i" "placed f ps t k" by blast
    from property_unique [OF growsD(1) [OF 1(4)] growsD(2) [OF 1(4) t(1)] pn] t(2) new show False by blast
  qed
  have "\<not> path_has_data f3 r"
    using get_data_at(2) [OF growsD(1) [OF 1(4)] 1(6)] growsD(3) [OF 1(4), of ?r] none by (simp add: i_def)
  note nodata = this
  have c3: "count_at f3 (doc ps @ [value_code CHILDREN]) n" by (rule count_at_grows [OF object_okD(2) [OF ok] 1(4)]) simp_all
  have r3: "room f3 (13 + ?ic)" by (rule room_after [OF room' 1(4)]) simp
  note r3' = room_less [OF r3]
  from link_property [OF db_at_grows [OF db 1(4)] growsD(6) [OF 1(4) at] c3 n 1(5) 1(6) r3'] obtain u f4 ch f5 f6 q' f7 v f8 b f9 c f10 where
    2: "sub_index (path_index p) (pp, f3) = (u, f4)" "get_children p f4 = (ch, f5)" "path_pre_inc ch f5 = Some (n + 1, f6)"
      "get_positions p f6 = (q', f7)" "sub_index (n + 1) (q', f7) = (v, f8)" "path_set_index (path_index pp) v f8 = Some (b, f9)"
      "path_set_index (n + 1) r f9 = Some (c, f10)"
    and g10: "grows f3 f10 {doc ps @ [value_code CHILDREN], doc ps @ [value_code POSITIONS, value_code (n + 1)], ?r}
      {[value_code ROOT_PROPERTIES, string_code s, value_code (path_index p)], doc ps @ [value_code CHILDREN],
       doc ps @ [value_code POSITIONS], doc ps @ [value_code POSITIONS, value_code (n + 1)]} 7"
    and d10: "count_at f10 (doc ps @ [value_code CHILDREN]) (n + 1)"
      "data f10 (doc ps @ [value_code POSITIONS, value_code (n + 1)]) = Some (index_bytes i)"
      "data f10 ?r = Some (index_bytes (n + 1))" by (auto simp: i_def)
  note ff10 = grows_trans [OF 1(4) g10]
  have r10: "room f10 (6 + ?ic)" by (rule room_after [OF r3 g10]) simp
  from sub_index_step [OF growsD(1) [OF g10] growsD(6) [OF ff10 at] _ room_less [OF r10], of CHILDREN] obtain ch' f11 where
    3: "get_children p f10 = (ch', f11)" "grows f10 f11 {} {doc ps @ [value_code CHILDREN]} 1"
      "stands_at f11 ch' (doc ps @ [value_code CHILDREN])" by (auto simp: get_children_def)
  have r11: "room f11 (5 + ?ic)" by (rule room_after [OF r10 3(2)]) simp
  from sub_index_step [OF growsD(1) [OF 3(2)] 3(3) n room_less [OF r11]] obtain child f12 where
    4: "sub_index (n + 1) (ch', f11) = (child, f12)" "grows f11 f12 {} {doc ?ps} 1" "stands_at f12 child (doc ?ps)"
    by (auto simp: doc_snoc)
  have r12: "room f12 (4 + ?ic)" by (rule room_after [OF r11 4(2)]) simp
  from set_id_at [OF growsD(1) [OF 4(2)] 4(3) room_less [OF r12], of "path_index child"] obtain f13 where
    5: "json_set_id (path_index child) child f12 = Some f13" "grows f12 f13 {doc ?ps @ [value_code ID]} {doc ?ps @ [value_code ID]} 2"
      "data f13 (doc ?ps @ [value_code ID]) = Some (index_bytes (path_index child))" by auto
  note f13 = grows_trans [OF grows_trans [OF grows_trans [OF ff10 3(2)] 4(2)] 5(2)]
  note g13 = grows_trans [OF grows_trans [OF 3(2) 4(2)] 5(2)]
  have child: "stands_at f13 (path_copy child) (doc ?ps)" using growsD(6) [OF 5(2) 4(3)] by simp
  have own: "own_id f13 ?ps" using 5(3) growsD(6) [OF 5(2) 4(3)] by (auto simp: own_id_def stands_at_def)
  have key: "part_key f13 ps (n + 1) (Property s)"
  proof -
    have "type_at f13 ps OBJECT" by (rule type_at_grows [OF object_okD(1) [OF ok] f13]) simp
    moreover have "node f13 [value_code ROOT_PROPERTIES, string_code s] = Some i"
      using growsD(2) [OF g13 growsD(2) [OF g10 pn]] .
    moreover have "data f13 (doc ps @ [value_code POSITIONS, value_code (n + 1)]) = Some (index_bytes i)"
      using growsD(3) [OF g13, of "doc ps @ [value_code POSITIONS, value_code (n + 1)]"] d10(2) by simp
    ultimately show ?thesis using n by (auto simp: part_key_def named_def)
  qed
  have doc13: "document f13 ps names"
    by (rule document_grows_at [OF doc f13]) (auto dest: prefix_length_le)
  from document.part [OF this key own] have doc13': "document f13 ?ps ?names" .
  have w13: "words_ok f13" by (rule words_grows(1) [OF f13 _ words]) auto
  have "room f13 (2 + ?ic)" by (rule room_after [OF r12 5(2)]) simp
  from index_properties_at [OF db_at_grows [OF db f13] child doc13' w13 names this] obtain g where
    6: "index_properties W d (path_copy child) f13 = Some g"
      "grows f13 g (insert (doc ?ps @ [value_code CASCADE]) word_places)
        (insert (doc ?ps @ [value_code CASCADE]) (word_places \<union> id_places ?ps \<union> name_places ?ps)) (2 + ?ic)"
      "words_added f13 g (if data f13 (doc ?ps @ [value_code CASCADE]) = None then index_words W ?names else []) ?ps" by blast
  have fresh: "data f13 (doc ?ps @ [value_code CASCADE]) = None"
    using growsD(3) [OF f13, of "doc ?ps @ [value_code CASCADE]"]
      data_none [OF node_above [OF object_okD(9) [OF ok], of "n + 1" "doc ?ps @ [value_code CASCADE]"]] by simp
  note fg = grows_trans [OF f13 6(2)] and g10g = grows_trans [OF g13 6(2)]
  have run: "property_position W d s p f = Some (n + 1, g)"
  proof -
    have "stands_at g r ?r" using growsD(6) [OF grows_trans [OF g10 g10g] 1(6)] by (simp add: i_def)
    moreover have "data g ?r = Some (index_bytes (n + 1))" using growsD(3) [OF g10g, of ?r] d10(3) by simp
    ultimately have "path_get_index g r = Some (n + 1)" using get_index_at [OF growsD(1) [OF fg] _ _ n] by blast
    with 1(1-3) nodata 2 3(1) 4(1) 5(1) 6(1) show ?thesis by (simp add: property_position_def)
  qed
  have grows: "grows f g (new_data ps (n + 1) i) (new_nodes ps (n + 1) s i (path_index p)) (property_cost W s names)"
    by (rule grows_mono [OF fg]) (use len in \<open>auto simp: new_data_def new_nodes_def i_def property_cost_def\<close>)
  have "count_at g (doc ps @ [value_code CHILDREN]) (n + 1)" by (rule count_at_grows [OF d10(1) g10g]) simp_all
  moreover have "data g (doc ps @ [value_code POSITIONS, value_code (n + 1)]) = Some (index_bytes i)"
    using growsD(3) [OF g10g, of "doc ps @ [value_code POSITIONS, value_code (n + 1)]"] d10(2) by simp
  moreover have "data g ?r = Some (index_bytes (n + 1))" using growsD(3) [OF g10g, of ?r] d10(3) by simp
  moreover have "document g ?ps ?names" by (rule document_grows_at [OF doc13' 6(2)]) auto
  moreover have "words_grown f g (index_words W ?names) ?ps"
  proof -
    have "hits f13 w j = hits f w j" for w j by (rule words_grows(2) [OF f13]) auto
    moreover have "indexed g ?ps j \<longleftrightarrow> indexed f13 ?ps j" for j
      using indexed_grows [OF doc13' 6(2)] db_atD(6) [OF db_at_grows [OF db f13]] by simp
    ultimately show ?thesis using 6(3) fresh by (simp add: words_added_def words_grown_def)
  qed
  moreover have "node g [value_code ROOT_PROPERTIES, string_code s] = Some i"
    using growsD(2) [OF grows_trans [OF g10 g10g] pn] .
  moreover have "i < 2 ^ 64" using 1(7) by (simp add: i_def)
  ultimately show ?thesis using run grows by blast
qed

end
