(* ===== verification/JSON_Members.thy ===== *)
theory JSON_Members
  imports JSON_Property
begin

text \<open>
  What \<open>operator []\<close> does to the dictionary of an object, to the new document, and to all other documents.
\<close>

declare One_nat_def [simp del]

section \<open>Places\<close>

lemma new_nodes_doc: "b \<in> new_nodes ps n s i j \<Longrightarrow> prefix (doc qs) b \<Longrightarrow> prefix qs (ps @ [n])"
  by (auto simp: new_nodes_def find_places_def word_places_def id_places_def name_places_def position_places_def
      intro: prefix_order.trans)

lemma new_nodes_property:
  "b \<in> new_nodes ps n s i j \<Longrightarrow> prefix (doc qs @ [value_code PROPERTIES, value_code l]) b \<Longrightarrow> qs = ps \<and> l = i"
  by (auto simp: new_nodes_def find_places_def word_places_def id_places_def name_places_def position_places_def doc_prefix
      doc_prefix_count simp del: prefix_snoc)

lemma new_nodes_value:
  "b \<in> new_nodes ps n s i j \<Longrightarrow> \<not> prefix (doc qs @ value_code VALUE # xs) b"
  by (auto simp: new_nodes_def find_places_def word_places_def id_places_def name_places_def position_places_def doc_prefix
      doc_prefix_count simp del: prefix_snoc)

lemma new_data_simps [simp]:
  "doc qs \<notin> new_data ps n i" "doc qs @ value_code VALUE # xs \<notin> new_data ps n i"
  "doc qs @ [value_code CHILDREN] \<in> new_data ps n i \<longleftrightarrow> qs = ps"
  "doc qs @ [value_code POSITIONS, value_code k] \<in> new_data ps n i \<longleftrightarrow> qs = ps \<and> k = n"
  "doc qs @ [value_code PROPERTIES, value_code k] \<in> new_data ps n i \<longleftrightarrow> qs = ps \<and> k = i"
  "doc qs @ [value_code ID] \<in> new_data ps n i \<longleftrightarrow> qs = ps @ [n]"
  by (auto simp: new_data_def)

text \<open>What is new below a document is a blank document.\<close>

lemma blank_new:
  assumes gr: "grows f g A B m" and "A \<subseteq> new_data ps n i" and "B \<subseteq> new_nodes ps n s i j" and fresh: "node f (doc (ps @ [n])) = None"
  shows "blank_doc g (ps @ [n])"
proof -
  have none: "node f (doc (ps @ [n]) @ xs) = None" for xs
    by (rule node_above [OF fresh]) simp
  have out: "\<not> prefix (doc (ps @ [n]) @ [value_code PROPERTIES, value_code k]) b" "\<not> prefix (doc ((ps @ [n]) @ [k])) b"
    "\<not> prefix (doc (ps @ [n]) @ [value_code VALUE, value_code k]) b" if "b \<in> B" for b k
  proof -
    from that assms(3) have b: "b \<in> new_nodes ps n s i j" by blast
    show "\<not> prefix (doc (ps @ [n]) @ [value_code PROPERTIES, value_code k]) b" "\<not> prefix (doc ((ps @ [n]) @ [k])) b"
      "\<not> prefix (doc (ps @ [n]) @ [value_code VALUE, value_code k]) b"
      using new_nodes_property [OF b, of "ps @ [n]" k] new_nodes_doc [OF b, of "(ps @ [n]) @ [k]"] new_nodes_value [OF b]
      by (auto dest: prefix_length_le)
  qed
  have "node g (doc (ps @ [n]) @ [value_code PROPERTIES, value_code k]) = None"
    "node g (doc (ps @ [n]) @ [value_code VALUE, value_code k]) = None" for k
    by (rule new_node [OF gr _ none], use out in simp_all)+
  moreover have "node g (doc ((ps @ [n]) @ [k])) = None" for k
    by (rule new_node [OF gr _ _ out(2)])
      (use none [of "[value_code CHILDREN, value_code k]"] doc_snoc [of "ps @ [n]" k] in simp_all)
  moreover have "data g (doc (ps @ [n]) @ [value_code CHILDREN]) = None" "data g (doc (ps @ [n])) = None"
    "data g (doc (ps @ [n]) @ [value_code VALUE]) = None"
  proof -
    have "doc (ps @ [n]) \<notin> A" "doc (ps @ [n]) @ [value_code CHILDREN] \<notin> A" "doc (ps @ [n]) @ [value_code VALUE] \<notin> A"
      using assms(2) new_data_simps(1,3) [of "ps @ [n]" ps n i] new_data_simps(2) [of "ps @ [n]" "[]" ps n i] by auto
    then show "data g (doc (ps @ [n]) @ [value_code CHILDREN]) = None" "data g (doc (ps @ [n])) = None"
      "data g (doc (ps @ [n]) @ [value_code VALUE]) = None"
      using growsD(3) [OF gr, of "doc (ps @ [n]) @ [value_code CHILDREN]"] growsD(3) [OF gr, of "doc (ps @ [n])"]
        growsD(3) [OF gr, of "doc (ps @ [n]) @ [value_code VALUE]"]
        data_none [OF none [of "[value_code CHILDREN]"]] data_none [OF none [of "[]"]] data_none [OF none [of "[value_code VALUE]"]]
      by simp_all
  qed
  ultimately show ?thesis by (simp add: blank_doc_def bare_doc_def)
qed

section \<open>The object itself\<close>

lemma property_position_new:
  assumes db: "db_at d f" and at: "stands_at f p (doc ps)" and doc: "document f ps names" and ok: "object_ok f ps n"
    and words: "words_ok f" and names: "names_ok W (drop 2 (names @ [Property s]))" and n: "n + 1 < 2 ^ 64"
    and new: "\<And>k. \<not> placed f ps s k" and room: "room f (property_cost W s names)"
  shows "\<exists>g i. property_position W d s p f = Some (n + 1, g) \<and>
    grows f g (new_data ps (n + 1) i) (new_nodes ps (n + 1) s i (path_index p)) (property_cost W s names) \<and>
    object_ok g ps (n + 1) \<and> (\<forall>t k. placed g ps t k \<longleftrightarrow> t = s \<and> k = n + 1 \<or> placed f ps t k) \<and>
    document g (ps @ [n + 1]) (names @ [Property s]) \<and> blank_doc g (ps @ [n + 1]) \<and>
    words_grown f g (index_words W (names @ [Property s])) (ps @ [n + 1])"
proof -
  from property_position_run [OF assms] obtain g i where
    run: "property_position W d s p f = Some (n + 1, g)"
    and gr: "grows f g (new_data ps (n + 1) i) (new_nodes ps (n + 1) s i (path_index p)) (property_cost W s names)"
    and i: "node g [value_code ROOT_PROPERTIES, string_code s] = Some i" "i < 2 ^ 64"
    and cnt: "count_at g (doc ps @ [value_code CHILDREN]) (n + 1)"
    and pos: "data g (doc ps @ [value_code POSITIONS, value_code (n + 1)]) = Some (index_bytes i)"
    and prp: "data g (doc ps @ [value_code PROPERTIES, value_code i]) = Some (index_bytes (n + 1))"
    and doc': "document g (ps @ [n + 1]) (names @ [Property s])"
    and wg: "words_grown f g (index_words W (names @ [Property s])) (ps @ [n + 1])" by blast
  note st = db_atD(1) [OF db] and st' = growsD(1) [OF gr]
  have here: "placed g ps s (n + 1)" using i(1) prp n by (auto simp: placed_def)
  have nm: "named g ps (n + 1) s" using i(1) pos by (auto simp: named_def)
  have own: "own_id g (ps @ [n + 1])" using document_own_id [OF doc'] by simp
  have eq: "t = s" if "node g [value_code ROOT_PROPERTIES, string_code t] = Some i" for t
    using property_unique [OF st' that i(1)] .
  have old: "placed g ps t k \<longleftrightarrow> placed f ps t k" if "t \<noteq> s" for t k
  proof
    assume "placed g ps t k"
    then obtain j where j: "node g [value_code ROOT_PROPERTIES, string_code t] = Some j" "k < 2 ^ 64"
      "data g (doc ps @ [value_code PROPERTIES, value_code j]) = Some (index_bytes k)" by (auto simp: placed_def)
    with eq that have "j \<noteq> i" by blast
    with j(3) have d: "data f (doc ps @ [value_code PROPERTIES, value_code j]) = Some (index_bytes k)"
      using growsD(3) [OF gr, of "doc ps @ [value_code PROPERTIES, value_code j]"] by simp
    from object_okD(4) [OF ok data_node] d obtain u where "node f [value_code ROOT_PROPERTIES, string_code u] = Some j" by blast
    with property_unique [OF st' growsD(2) [OF gr] j(1)] d j(2) show "placed f ps t k" by (auto simp: placed_def)
  next
    assume "placed f ps t k"
    then obtain j where j: "node f [value_code ROOT_PROPERTIES, string_code t] = Some j" "k < 2 ^ 64"
      "data f (doc ps @ [value_code PROPERTIES, value_code j]) = Some (index_bytes k)" by (auto simp: placed_def)
    from growsD(2) [OF gr j(1)] eq that have "j \<noteq> i" by blast
    with j(3) have "data g (doc ps @ [value_code PROPERTIES, value_code j]) = Some (index_bytes k)"
      using growsD(3) [OF gr, of "doc ps @ [value_code PROPERTIES, value_code j]"] by simp
    with growsD(2) [OF gr j(1)] j(2) show "placed g ps t k" by (auto simp: placed_def)
  qed
  have pl: "placed g ps t k \<longleftrightarrow> t = s \<and> k = n + 1 \<or> placed f ps t k" for t k
    using old [of t k] new here placed_unique by (cases "t = s") blast+
  have nodes: "\<exists>t k. node g [value_code ROOT_PROPERTIES, string_code t] = Some j \<and> placed g ps t k"
    if "node g (doc ps @ [value_code PROPERTIES, value_code j]) \<noteq> None" for j
  proof (cases "j = i")
    case False
    from growsD(4) [OF gr _ that] new_nodes_property False
    have "node f (doc ps @ [value_code PROPERTIES, value_code j]) \<noteq> None" by auto
    from object_okD(4) [OF ok this] growsD(2) [OF gr] pl show ?thesis by blast
  qed (use i(1) here in blast)
  have "1 \<le> k \<and> k \<le> n + 1 \<and> named g ps k t \<and> own_id g (ps @ [k])" if "placed g ps t k" for t k
  proof (cases "placed f ps t k")
    case True
    note k = object_okD(5-8) [OF ok True]
    have "named g ps k t" by (rule named_grows [OF k(3) gr]) (use k(2) in simp)
    moreover have "own_id g (ps @ [k])" by (rule own_id_grows [OF k(4) gr]) (use k(2) in simp)
    ultimately show ?thesis using k by simp
  qed (use that pl nm own in auto)
  moreover have "node g (doc (ps @ [k])) = None" if "k = 0 \<or> n + 1 < k" for k
    by (rule new_node [OF gr]) (use that object_okD(9,10) [OF ok] new_nodes_doc in force)+
  moreover have "type_at g ps OBJECT" by (rule type_at_grows [OF object_okD(1) [OF ok] gr]) simp
  ultimately have "object_ok g ps (n + 1)" using cnt nodes unfolding object_ok_def by blast
  moreover have "blank_doc g (ps @ [n + 1])"
    using blank_new [OF gr order_refl order_refl] object_okD(9) [OF ok, of "n + 1"] by simp
  ultimately show ?thesis using run gr pl doc' wg by blast
qed

section \<open>The other documents\<close>

text \<open>A document, and all those it is in, are there.\<close>

lemma document_there:
  "db_at d f \<Longrightarrow> document f ps names \<Longrightarrow> prefix qs ps \<Longrightarrow> node f (doc qs) \<noteq> None"
  using document_prefix db_atD(6) by fastforce

lemma within_new:
  assumes "db_at d f" and "document f ps names"
  shows "within f {ps} (new_data ps n i) (new_nodes ps n s i j)"
proof (rule withinI, intro allI impI conjI ballI)
  show "users_free (new_nodes ps n s i j)" by (simp add: new_nodes_def find_places_def)
next
  fix qs k b assume qs: "qs \<notin> {ps}" and b: "b \<in> new_nodes ps n s i j"
  show "\<not> prefix (doc qs @ [value_code PROPERTIES, value_code k]) b" using new_nodes_property [OF b] qs by blast
  show "\<not> prefix (doc qs @ [value_code VALUE, value_code k]) b" using new_nodes_value [OF b] by simp
  show "node f (doc (qs @ [k])) \<noteq> None" if "prefix (doc (qs @ [k])) b"
    using document_there [OF assms] new_nodes_doc [OF b that] qs by auto
qed (auto simp del: append_assoc)

lemma keeps_new:
  assumes "grows f g (new_data ps n i) (new_nodes ps n s i j) m" and "db_at d f" and "document f ps names"
    and "own_id g (ps @ [n])"
  shows "keeps f g {ps}"
  by (rule keeps_grows [OF assms(1) db_atD(1) [OF assms(2)] within_new [OF assms(2,3)]]) (use assms(4) in simp)

lemma within_mono:
  assumes "within f S A' B'" and "A \<subseteq> A'" and "B \<subseteq> B'"
  shows "within f S A B"
proof (rule withinI)
  have "users_free B'" using assms(1) unfolding within_def by (rule conjunct2)
  then show "users_free B" using assms(3) by (rule users_free_mono)
qed (use conjunct1 [OF assms(1) [unfolded within_def]] assms(2,3) in blast)

lemma keeps_find:
  assumes "grows f g {} (find_places ps s i) m" and "db_at d f" and "document f ps names"
  shows "keeps f g {ps}"
proof (rule keeps_grows [OF assms(1) db_atD(1) [OF assms(2)]])
  show "within f {ps} {} (find_places ps s i)"
    by (rule within_mono [OF within_new [OF assms(2,3), of 0 i s 0]]) (auto simp: new_nodes_def)
qed simp

lemma keeps_type:
  assumes "grows f g (if own_id f ps then {doc ps} else {doc ps, doc ps @ [value_code ID]}) (object_places \<union> id_places ps) m"
    and "db_at d f" and "document f ps names"
  shows "keeps f g {ps}"
proof (rule keeps_grows [OF assms(1) db_atD(1) [OF assms(2)]])
  show "within f {ps} (if own_id f ps then {doc ps} else {doc ps, doc ps @ [value_code ID]}) (object_places \<union> id_places ps)"
  proof (rule withinI, intro allI impI conjI ballI)
    fix qs k b assume qs: "qs \<notin> {ps}" and b: "b \<in> object_places \<union> id_places ps"
    show "\<not> prefix (doc qs @ [value_code PROPERTIES, value_code k]) b" using b by (auto simp: object_places_def id_places_def)
    show "\<not> prefix (doc qs @ [value_code VALUE, value_code k]) b" using b by (auto simp: object_places_def id_places_def)
    show "node f (doc (qs @ [k])) \<noteq> None" if "prefix (doc (qs @ [k])) b"
      using b that document_there [OF assms(2,3)] by (auto simp: object_places_def id_places_def intro: prefix_order.trans)
  next
    fix qs k assume qs: "qs \<notin> {ps}"
    show "doc (qs @ [k]) @ [value_code ID] \<notin> (if own_id f ps then {doc ps} else {doc ps, doc ps @ [value_code ID]})"
      using document_own_id [OF assms(3)] by auto
  qed auto
qed (auto split: if_splits)

section \<open>\<open>operator []\<close>\<close>

definition container :: "db_file \<Rightarrow> nat list \<Rightarrow> nat \<Rightarrow> bool" where
  "container f ps n \<longleftrightarrow> object_ok f ps n \<or>
     blank_doc f ps \<and> n = 0 \<and> (own_id f ps \<or> data f (doc ps @ [value_code ID]) = None)"

lemma blank_unplaced: "blank_doc f ps \<Longrightarrow> \<not> placed f ps s k"
  using data_none by (fastforce simp: blank_doc_def bare_doc_def placed_def)

lemma make_object:
  assumes db: "db_at d f" and at: "stands_at f p (doc ps)" and doc: "document f ps names" and con: "container f ps n"
    and words: "words_ok f" and room: "room f (5 + 2 * length ps)"
  shows "\<exists>h. set_type clr d OBJECT p f = Some h \<and> object_ok h ps n \<and> (\<forall>t k. placed h ps t k \<longleftrightarrow> placed f ps t k) \<and>
    keeps f h {ps} \<and> document h ps names \<and> words_ok h \<and> (\<forall>w i. hits h w i = hits f w i) \<and> stands_at h p (doc ps) \<and>
    db_at d h \<and> length h \<le> length f + (5 + 2 * length ps) * 2 ^ 17"
proof (cases "object_ok f ps n")
  case True
  with set_type_same [OF db at object_okD(1)] assms show ?thesis by auto
next
  case False
  with con have b: "blank_doc f ps" "n = 0" "own_id f ps \<or> data f (doc ps @ [value_code ID]) = None" by (auto simp: container_def)
  note root = db_atD(6) [OF db]
  from b(1) have "data f (doc ps) = None" by (simp add: blank_doc_def bare_doc_def)
  from set_type_new [OF db at doc this b(3) room, of clr OBJECT] obtain h where
    h: "set_type clr d OBJECT p f = Some h"
      "grows f h (if own_id f ps then {doc ps} else {doc ps, doc ps @ [value_code ID]}) (object_places \<union> id_places ps) (5 + 2 * length ps)"
      "type_at h ps OBJECT" "own_id h ps" by blast
  have "\<not> prefix (doc (ps @ [k])) b" if "b \<in> object_places \<union> id_places ps" for k b
  proof -
    have "\<not> (prefix (ps @ [k]) qs \<and> prefix qs ps)" for qs using prefix_length_le [of "ps @ [k]" qs] prefix_length_le [of qs ps] by auto
    with that show ?thesis by (auto simp: object_places_def id_places_def)
  qed
  note below = this
  have out: "\<not> prefix (doc ps @ [value_code PROPERTIES, value_code i]) b" if "b \<in> object_places \<union> id_places ps" for i b
    using that by (auto simp: object_places_def id_places_def)
  have "object_ok h ps 0" "\<And>t k. \<not> placed h ps t k"
    by (rule blank_object [OF b(1) h(2,3) _ _ out below]; simp)+
  moreover have "keeps f h {ps}" using keeps_type [OF h(2) db doc] .
  moreover have "document h ps names"
    by (rule document_grows_at [OF doc h(2)]) (use h(4) in \<open>auto simp: strict_prefix_def split: if_splits\<close>)
  moreover have "words_ok h" "\<And>w i. hits h w i = hits f w i"
    using words_grows [OF h(2)] words by (auto split: if_splits)
  ultimately show ?thesis
    using h(1) growsD(5,6) [OF h(2)] at db_at_grows [OF db h(2)] blank_unplaced [OF b(1)] by (auto simp: b(2))
qed

text \<open>The path to a position that is there.\<close>

lemma child_path:
  assumes db: "db_at d f" and at: "stands_at f p (doc ps)" and doc: "document f (ps @ [k]) names" and room: "room f 2"
  shows "\<exists>ch h c g. get_children p f = (ch, h) \<and> sub_index k (ch, h) = (c, g) \<and> stands_at g c (doc (ps @ [k])) \<and>
    grows f g {} {doc ps @ [value_code CHILDREN]} 2"
proof -
  from doc obtain key where key: "part_key f ps k key" "own_id f (ps @ [k])" by (auto simp: document_snoc)
  then have k: "k < 2 ^ 64" by (simp add: part_key_def)
  from sub_index_step [OF db_atD(1) [OF db] at _ room_less [OF room], of CHILDREN] obtain ch h where
    1: "get_children p f = (ch, h)" "grows f h {} {doc ps @ [value_code CHILDREN]} 1" "stands_at h ch (doc ps @ [value_code CHILDREN])"
    by (auto simp: get_children_def)
  have "room h 1" by (rule room_after [OF room 1(2)]) simp
  from sub_index_step [OF growsD(1) [OF 1(2)] 1(3) k this] obtain c g where
    2: "sub_index k (ch, h) = (c, g)" "grows h g {} {doc (ps @ [k])} 1" "stands_at g c (doc (ps @ [k]))"
    by (auto simp: doc_snoc)
  have all: "grows f g {} {doc ps @ [value_code CHILDREN], doc (ps @ [k])} 2"
    using grows_mono [OF grows_trans [OF 1(2) 2(2)], of "{}" "{doc ps @ [value_code CHILDREN], doc (ps @ [k])}" 2] by auto
  from key(2) have there: "node f (doc (ps @ [k])) \<noteq> None" by (auto simp: own_id_def)
  have "node f cs \<noteq> None \<or> prefix cs (doc ps @ [value_code CHILDREN])" if "codes cs" "node g cs \<noteq> None" for cs
    using growsD(4) [OF all that] node_above [of f cs "doc (ps @ [k])"] there by auto
  with all have "grows f g {} {doc ps @ [value_code CHILDREN]} 2" by (auto simp: grows_def)
  with 1(1) 2(1,3) show ?thesis by blast
qed

lemma object_children_grows:
  assumes gr: "grows f g {} {doc ps @ [value_code CHILDREN]} m" and st: "store_ok f"
  shows "object_ok f ps n \<Longrightarrow> object_ok g ps n" and "object_ok f ps n \<Longrightarrow> placed g ps s k \<longleftrightarrow> placed f ps s k"
    and "blank_doc f (ps @ [k]) \<Longrightarrow> blank_doc g (ps @ [k])"
proof -
  have ap: "apart ps {} {doc ps @ [value_code CHILDREN]}" by (auto simp: apart_def)
  have "\<not> prefix (doc (ps @ [k])) b" if "b \<in> {doc ps @ [value_code CHILDREN]}" for k b
    using that by (auto dest: prefix_length_le)
  then show "object_ok f ps n \<Longrightarrow> object_ok g ps n" "object_ok f ps n \<Longrightarrow> placed g ps s k \<longleftrightarrow> placed f ps s k"
    using object_ok_grows [OF _ gr st ap] by auto
  assume b: "blank_doc f (ps @ [k])"
  have "node g (doc (ps @ [k]) @ [value_code PROPERTIES, value_code i]) = None" for i
    by (rule new_node [OF gr]) (use b in \<open>auto simp: blank_doc_def bare_doc_def\<close>)
  moreover have "node g (doc ((ps @ [k]) @ [i])) = None" for i
    by (rule new_node [OF gr]) (use b in \<open>auto simp: blank_doc_def bare_doc_def dest: prefix_length_le\<close>)
  moreover have "node g (doc (ps @ [k]) @ [value_code VALUE, value_code i]) = None" for i
    by (rule new_node [OF gr]) (use b in \<open>auto simp: blank_doc_def bare_doc_def\<close>)
  ultimately show "blank_doc g (ps @ [k])"
    using b growsD(3) [OF gr, of "doc (ps @ [k]) @ [value_code VALUE]"] growsD(3) [OF gr, of "doc (ps @ [k])"] growsD(3) [OF gr, of "doc (ps @ [k]) @ [value_code CHILDREN]"]
    by (simp add: blank_doc_def bare_doc_def)
qed

section \<open>A new database\<close>

lemma new_database_node: "codes cs \<Longrightarrow> node (database_new []) cs \<noteq> None \<Longrightarrow> cs = []"
proof -
  assume c: "codes cs" and "node (database_new []) cs \<noteq> None"
  then have e: "concat cs = concat []" using database_new_paths by (auto simp: node_def paths_def simp del: concat_eq_Nil_conv)
  show "cs = []"
  proof (cases cs)
    case (Cons b bs)
    with c e have "complete_code b" "b = []" by (simp_all add: codes_def)
    then show ?thesis by (simp add: complete_code_def)
  qed simp
qed

lemma new_database_tidy: "tidy (database_new [])"
  unfolding tidy_def
proof (intro conjI ballI allI impI)
  show "\<exists>cs. codes cs \<and> node (database_new []) cs \<noteq> None \<and> prefix p (concat cs)" if "p \<in> paths (database_new []) 0" for p
    using that database_new_paths by (intro exI [of _ "[]"]) (auto simp: node_def)
  show "\<exists>k < 2 ^ 64. c = value_code k" if "codes cs" "node (database_new []) (value_code JSON # cs) \<noteq> None" for cs c
    using new_database_node [OF _ that(2)] that(1) by simp
qed

lemma new_root_step:
  assumes "store_ok f" and "stands_at f (path_new 0) []" and "k < 2 ^ 64" and "room f (1 + n)"
  shows "\<exists>q g. sub_index k (path_new 0, f) = (q, g) \<and> grows f g {} {[value_code k]} 1 \<and> stands_at g q [value_code k] \<and>
    store_ok g \<and> stands_at g (path_new 0) [] \<and> room g n"
proof -
  from sub_index_step [OF assms(1-3) room_less [OF assms(4)]] obtain q g where
    g: "sub_index k (path_new 0, f) = (q, g)" "grows f g {} {[value_code k]} 1" "stands_at g q [value_code k]" by auto
  from growsD(1) [OF g(2)] growsD(6) [OF g(2) assms(2)] room_after [OF assms(4) g(2) order_refl] g show ?thesis by blast
qed

lemma new_json_db:
  defines "d \<equiv> fst (json_db_new [])" and "f \<equiv> snd (json_db_new [])"
  shows "db_at d f" and "words_ok f" and "stands_at f (jd_json d) (doc [])" and "container f [] 0" and "room f (2 ^ 40)"
    and "blank_doc f []" and "stands_at f (jd_users d) [value_code USERS]" and "node f [value_code USERS, string_code s] = None"
proof -
  let ?r = "path_new 0" and ?B = "{[value_code 1], [value_code 3], [value_code 6], [value_code 7], [value_code 8], [value_code 5]}"
  have 0: "store_ok (database_new [])" "stands_at (database_new []) ?r []" "room (database_new []) (6 + 2 ^ 40)"
    using database_new_ok by (simp_all add: stands_at_def node_def path_new_def room_def fresh_database(3))
  from new_root_step [OF 0(1,2), of 1 "5 + 2 ^ 40"] 0(3) obtain a f1 where
    1: "sub_index 1 (?r, database_new []) = (a, f1)" "grows (database_new []) f1 {} {[value_code 1]} 1" "stands_at f1 a [value_code 1]"
      "store_ok f1" "stands_at f1 ?r []" "room f1 (5 + 2 ^ 40)" by auto
  from new_root_step [OF 1(4,5), of 3 "4 + 2 ^ 40"] 1(6) obtain u f2 where
    2: "sub_index 3 (?r, f1) = (u, f2)" "grows f1 f2 {} {[value_code 3]} 1" "stands_at f2 u [value_code 3]"
      "store_ok f2" "stands_at f2 ?r []" "room f2 (4 + 2 ^ 40)" by auto
  from new_root_step [OF 2(4,5), of 6 "3 + 2 ^ 40"] 2(6) obtain p f3 where
    3: "sub_index 6 (?r, f2) = (p, f3)" "grows f2 f3 {} {[value_code 6]} 1" "stands_at f3 p [value_code 6]"
      "store_ok f3" "stands_at f3 ?r []" "room f3 (3 + 2 ^ 40)" by auto
  from new_root_step [OF 3(4,5), of 7 "2 + 2 ^ 40"] 3(6) obtain w f4 where
    4: "sub_index 7 (?r, f3) = (w, f4)" "grows f3 f4 {} {[value_code 7]} 1" "stands_at f4 w [value_code 7]"
      "store_ok f4" "stands_at f4 ?r []" "room f4 (2 + 2 ^ 40)" by auto
  from new_root_step [OF 4(4,5), of 8 "1 + 2 ^ 40"] 4(6) obtain ob f5 where
    5: "sub_index 8 (?r, f4) = (ob, f5)" "grows f4 f5 {} {[value_code 8]} 1" "stands_at f5 ob [value_code 8]"
      "store_ok f5" "stands_at f5 ?r []" "room f5 (1 + 2 ^ 40)" by auto
  from new_root_step [OF 5(4,5), of 5 "2 ^ 40"] 5(6) obtain j f6 where
    6: "sub_index 5 (?r, f5) = (j, f6)" "grows f5 f6 {} {[value_code 5]} 1" "stands_at f6 j [value_code 5]"
      "store_ok f6" "room f6 (2 ^ 40)" by auto
  have run: "json_db_new [] = (\<lparr>jd_root = ?r, jd_authentication = path_copy a, jd_users = path_copy u, jd_properties = path_copy p,
      jd_words = path_copy w, jd_objects = path_copy ob, jd_json = path_copy j\<rparr>, f6)"
    using 1(1) 2(1) 3(1) 4(1) 5(1) 6(1) by (simp add: json_db_new_def database_new_def)
  note all = grows_trans [OF grows_trans [OF grows_trans [OF grows_trans [OF grows_trans [OF 1(2) 2(2)] 3(2)] 4(2)] 5(2)] 6(2)]
  have f: "f = f6" by (simp add: f_def run)
  have gr: "grows (database_new []) f {} ?B 6" unfolding f by (rule grows_mono [OF all]) auto
  have none: "data f cs = None" if "codes cs" for cs
    using growsD(3) [OF gr that] by (simp add: data_def database_new_entry)
  from new_database_tidy have "tidy f6" using growsD(7) [OF all] by simp
  moreover have "stands_at f6 p [value_code 6]" "stands_at f6 w [value_code 7]" "stands_at f6 ob [value_code 8]"
    using 3(3) 4(3) 5(3) 4(2) 5(2) 6(2) growsD(6) by blast+
  ultimately show "db_at d f" using 6(3,4) by (simp add: db_at_def d_def f_def run)
  show "words_ok f" by (auto simp: words_ok_def count_at_def none)
  show "stands_at f (jd_users d) [value_code USERS]"
    using growsD(6) [OF 6(2) growsD(6) [OF 5(2) growsD(6) [OF 4(2) growsD(6) [OF 3(2) 2(3)]]]] by (simp add: d_def f_def run)
  show "stands_at f (jd_json d) (doc [])" using 6(3) by (simp add: d_def f_def run doc_def)
  have out: "node f cs = None" if "codes cs" "2 \<le> length cs" for cs
  proof (rule new_node [OF gr that(1)])
    show "node (database_new []) cs = None" using new_database_node [OF that(1)] that(2) by fastforce
  qed (use that(2) in \<open>auto dest: prefix_length_le\<close>)
  show "node f [value_code USERS, string_code s] = None" by (rule out) simp_all
  show "blank_doc f []"
    unfolding blank_doc_def bare_doc_def by (intro conjI allI none out) (simp_all add: doc_def)
  then show "container f [] 0" by (simp add: container_def none)
  show "room f (2 ^ 40)" using 6(5) by (simp add: f_def run)
qed

end
