(* ===== verification/JSON_Step.thy ===== *)
theory JSON_Step
  imports JSON_Members
begin

text \<open>
  Steps of a program on documents: \<open>stepped d f g S n\<close> collects what every operation keeps, when it changes the documents \<open>S\<close>
  and the file grows by at most \<open>n\<close> units; and the operations that give a document its type and a scalar value.
\<close>

definition stepped :: "json_db \<Rightarrow> db_file \<Rightarrow> db_file \<Rightarrow> nat list set \<Rightarrow> nat \<Rightarrow> bool" where
  "stepped d f g S n \<longleftrightarrow> db_at d g \<and> words_ok g \<and> keeps f g S \<and> length g \<le> length f + n * 2 ^ 17"

lemma steppedD:
  assumes "stepped d f g S n"
  shows "db_at d g" and "words_ok g" and "keeps f g S" and "length g \<le> length f + n * 2 ^ 17"
    and "stands_at f p cs \<Longrightarrow> stands_at g p cs" and "own_id f ps \<Longrightarrow> own_id g ps"
    and "ps \<notin> S \<Longrightarrow> same_doc f g ps" and "node f cs = Some i \<Longrightarrow> node g cs = Some i"
  using assms keepsD unfolding stepped_def stands_at_def by blast+

lemma stepped_refl: "db_at d f \<Longrightarrow> words_ok f \<Longrightarrow> stepped d f f S n"
  by (simp add: stepped_def)

lemma stepped_trans: "stepped d f g S n \<Longrightarrow> stepped d g h S m \<Longrightarrow> stepped d f h S (n + m)"
  unfolding stepped_def using keeps_trans by (auto simp: distrib_right)

lemma stepped_mono: "stepped d f g S n \<Longrightarrow> S \<subseteq> T \<Longrightarrow> n \<le> m \<Longrightarrow> stepped d f g T m"
  unfolding stepped_def using keeps_mono mult_le_mono1 [of n m "2 ^ 17"] by auto

lemma stepped_then: "stepped d f g S n \<Longrightarrow> stepped d g h T m \<Longrightarrow> S \<subseteq> U \<Longrightarrow> T \<subseteq> U \<Longrightarrow> stepped d f h U (n + m)"
  using stepped_trans [of d f g U n h m] stepped_mono by blast

lemma stepped_room: "room f m \<Longrightarrow> stepped d f g S n \<Longrightarrow> n + k \<le> m \<Longrightarrow> room g k"
proof -
  assume r: "room f m" and s: "stepped d f g S n" and "n + k \<le> m"
  then have "(n + k) * 2 ^ 17 \<le> m * 2 ^ 17" by (intro mult_le_mono1)
  with r steppedD(4) [OF s] show "room g k" by (simp add: room_def distrib_right)
qed

lemma stepped_grows:
  assumes "grows f g A B n" and "db_at d f" and "words_ok f" and "within f S A B"
    and "A \<inter> word_places = {}" and "\<And>ps. doc ps @ [value_code ID] \<in> A \<Longrightarrow> own_id f ps \<Longrightarrow> own_id g ps"
  shows "stepped d f g S n"
  unfolding stepped_def
  using db_at_grows [OF assms(2,1)] words_grows(1) [OF assms(1) assms(5) assms(3)]
    keeps_grows [OF assms(1) db_atD(1) [OF assms(2)] assms(4,6)] growsD(5) [OF assms(1)] by blast

lemma stepped_document:
  "document f ps names \<Longrightarrow> stepped d f g S n \<Longrightarrow> (\<And>qs. strict_prefix qs ps \<Longrightarrow> qs \<notin> S) \<Longrightarrow> document g ps names"
  using keeps_document steppedD(3) by blast

section \<open>A type for a new document\<close>

lemma bare_grows:
  assumes "bare_doc f ps" and g: "grows f g A B n" and "doc ps @ [value_code CHILDREN] \<notin> A" and "doc ps @ [value_code VALUE] \<notin> A"
    and "\<And>b k. b \<in> B \<Longrightarrow> \<not> prefix (doc ps @ [value_code VALUE, value_code k]) b"
    and "\<And>b k. b \<in> B \<Longrightarrow> \<not> prefix (doc ps @ [value_code PROPERTIES, value_code k]) b"
    and "\<And>b k. b \<in> B \<Longrightarrow> \<not> prefix (doc (ps @ [k])) b"
  shows "bare_doc g ps"
proof -
  have "node g (doc ps @ [value_code PROPERTIES, value_code i]) = None"
    "node g (doc ps @ [value_code VALUE, value_code i]) = None" "node g (doc (ps @ [i])) = None" for i
    by (rule new_node [OF g], use assms(1,5-7) in \<open>simp_all add: bare_doc_def\<close>)+
  with assms(1,3,4) growsD(3) [OF g, of "doc ps @ [value_code CHILDREN]"] growsD(3) [OF g, of "doc ps @ [value_code VALUE]"]
  show ?thesis by (simp add: bare_doc_def)
qed

lemma bare_object: "bare_doc f ps \<Longrightarrow> type_at f ps OBJECT \<Longrightarrow> object_ok f ps 0"
  using data_none by (fastforce simp: object_ok_def bare_doc_def count_at_def placed_def)

lemma bare_unplaced: "bare_doc f ps \<Longrightarrow> \<not> placed f ps s k"
  using data_none by (fastforce simp: bare_doc_def placed_def)

lemma bare_array: "bare_doc f ps \<Longrightarrow> type_at f ps ARRAY \<Longrightarrow> array_ok f ps 0"
  by (simp add: array_ok_def bare_doc_def count_at_def)

text \<open>The branches that \<open>addObject\<close> and the identifiers make.\<close>

lemma type_places_out:
  assumes "b \<in> object_places \<union> id_places ps"
  shows "\<not> prefix (doc qs @ [value_code PROPERTIES, value_code k]) b" and "\<not> prefix (doc qs @ [value_code VALUE, value_code k]) b"
    and "\<not> prefix (doc (ps @ [k])) b"
proof -
  show "\<not> prefix (doc qs @ [value_code PROPERTIES, value_code k]) b" "\<not> prefix (doc qs @ [value_code VALUE, value_code k]) b"
    using assms by (auto simp: object_places_def id_places_def)
  have "\<not> (prefix (ps @ [k]) rs \<and> prefix rs ps)" for rs using prefix_length_le [of "ps @ [k]" rs] prefix_length_le [of rs ps] by auto
  with assms show "\<not> prefix (doc (ps @ [k])) b" by (auto simp: object_places_def id_places_def)
qed

lemma set_type_bare:
  assumes db: "db_at d f" and words: "words_ok f" and at: "stands_at f p (doc ps)" and doc: "document f ps names"
    and blank: "blank_doc f ps" and own: "own_id f ps \<or> data f (doc ps @ [value_code ID]) = None"
    and room: "room f (5 + 2 * length ps)"
  shows "\<exists>g. set_type clr d t p f = Some g \<and> type_at g ps t \<and> bare_doc g ps \<and> own_id g ps \<and> listed g (path_index p) ps \<and>
    stepped d f g {ps} (5 + 2 * length ps)"
proof -
  from blank have none: "data f (doc ps) = None" "bare_doc f ps" by (simp_all add: blank_doc_def)
  from set_type_new [OF db at doc none(1) own room, of clr t] obtain g where
    g: "set_type clr d t p f = Some g"
      "grows f g (if own_id f ps then {doc ps} else {doc ps, doc ps @ [value_code ID]}) (object_places \<union> id_places ps) (5 + 2 * length ps)"
      "type_at g ps t" "own_id g ps" "listed g (path_index p) ps" by blast
  have "bare_doc g ps" by (rule bare_grows [OF none(2) g(2)]) (use type_places_out in auto)
  moreover have "words_ok g" by (rule words_grows(1) [OF g(2) _ words]) auto
  ultimately show ?thesis
    using g keeps_type [OF g(2) db doc] db_at_grows [OF db g(2)] growsD(5) [OF g(2)] by (auto simp: stepped_def)
qed

section \<open>Scalar values\<close>

text \<open>Places at \<open>VALUE\<close> belong to the document.\<close>

lemma within_value:
  assumes "A \<subseteq> range (\<lambda>xs. doc ps @ value_code VALUE # xs)" and "B \<subseteq> range (\<lambda>xs. doc ps @ value_code VALUE # xs)"
    and "node f (doc ps) \<noteq> None"
  shows "within f {ps} A B"
proof (rule withinI, intro allI impI conjI ballI)
  show "users_free B" using assms(2) by (auto simp: users_free_def)
next
  fix qs k b assume "qs \<notin> {ps}" and "b \<in> B"
  with assms(2) obtain xs where b: "b = doc ps @ value_code VALUE # xs" "qs \<noteq> ps" by auto
  then show "\<not> prefix (doc qs @ [value_code PROPERTIES, value_code k]) b" "\<not> prefix (doc qs @ [value_code VALUE, value_code k]) b"
    by (simp_all add: doc_prefix del: prefix_snoc)
  show "node f (doc (qs @ [k])) \<noteq> None" if "prefix (doc (qs @ [k])) b"
  proof -
    from that b have "prefix (doc (qs @ [k])) (doc ps)" by simp
    then show ?thesis using node_above [of f "doc (qs @ [k])" "doc ps"] assms(3) by metis
  qed
qed (use assms(1) in \<open>auto simp: image_iff\<close>)

lemma put_value_at:
  assumes db: "db_at d f" and words: "words_ok f" and at: "stands_at f p (doc ps)" and room: "room f (2 + length v)"
  shows "\<exists>q g r h. sub_index VALUE (p, f) = (q, g) \<and> path_set_data v q g = Some (r, h) \<and>
    data h (doc ps @ [value_code VALUE]) = Some v \<and> data h (doc ps) = data f (doc ps) \<and>
    stepped d f h {ps} (2 + length v)"
proof -
  let ?V = "doc ps @ [value_code VALUE]"
  from sub_index_step [OF db_atD(1) [OF db] at _ room_less [OF room], of VALUE] obtain q g where
    g: "sub_index VALUE (p, f) = (q, g)" "grows f g {} {?V} 1" "stands_at g q ?V" by auto
  have r: "room g (1 + length v)" by (rule room_after [OF room g(2)]) simp
  from put_data_step [OF growsD(1) [OF g(2)] g(3) _ r, of v] obtain r h where
    h: "path_set_data v q g = Some (r, h)" "grows g h {?V} {} (1 + length v)" "data h ?V = Some v" by auto
  have gr: "grows f h {?V} {?V} (2 + length v)" by (rule grows_mono [OF grows_trans [OF g(2) h(2)]]) auto
  have "node f (doc ps) \<noteq> None" using at by (simp add: stands_at_def)
  then have "within f {ps} {?V} {?V}" by (intro within_value) auto
  then have "stepped d f h {ps} (2 + length v)" by (rule stepped_grows [OF gr db words]) auto
  moreover have "data h (doc ps) = data f (doc ps)" using growsD(3) [OF gr, of "doc ps"] by simp
  ultimately show ?thesis using g(1) h(1,3) by blast
qed

end
