(* ===== verification/JSON_Elements.thy ===== *)
theory JSON_Elements
  imports JSON_Step
begin

text \<open>
  Arrays: \<open>operator []\<close> with an index makes the elements that are missing.
\<close>

section \<open>A new element\<close>

text \<open>The cost of an element does not depend on its position.\<close>

definition element_cost :: "wide_ctype \<Rightarrow> json_key list \<Rightarrow> nat" where
  "element_cost W names = 6 + index_cost W (length names + 1) (drop 2 (names @ [Element 0]))"

lemma index_cost_element: "index_cost W n (drop 2 (names @ [Element j])) = index_cost W n (drop 2 (names @ [Element 0]))"
proof -
  have snoc: "index_cost W n (xs @ [Element j]) = index_cost W n (xs @ [Element 0])" for xs
    by (induction xs) (simp_all add: key_words_def)
  show ?thesis
  proof (cases "length names < 2")
    case False
    then have "drop 2 (names @ [Element i]) = drop 2 names @ [Element i]" for i by simp
    with snoc show ?thesis by metis
  qed simp
qed

lemma names_ok_element: "names_ok W (drop 2 names) \<Longrightarrow> names_ok W (drop 2 (names @ [Element j]))"
  by (auto simp: names_ok_def dest: in_set_dropD)

text \<open>The elements up to \<open>n\<close> are there; the count is written later.\<close>

definition array_upto :: "db_file \<Rightarrow> nat list \<Rightarrow> nat \<Rightarrow> bool" where
  "array_upto f ps n \<longleftrightarrow> type_at f ps ARRAY \<and> (\<forall>k. 1 \<le> k \<longrightarrow> k \<le> n \<longrightarrow> own_id f (ps @ [k])) \<and>
     (\<forall>k. k = 0 \<or> n < k \<longrightarrow> node f (doc (ps @ [k])) = None)"

lemma array_ok_upto: "array_ok f ps n \<longleftrightarrow> array_upto f ps n \<and> count_at f (doc ps @ [value_code CHILDREN]) n"
  by (auto simp: array_ok_def array_upto_def)

lemma element_new:
  assumes db: "db_at d f" and words: "words_ok f" and at: "stands_at f ch (doc ps @ [value_code CHILDREN])"
    and doc: "document f ps names" and ok: "array_upto f ps m" and m: "m + 1 < 2 ^ 64"
    and names: "names_ok W (drop 2 names)" and room: "room f (element_cost W names)"
  shows "\<exists>child f1 f2 f3 g. sub_index (m + 1) (ch, f) = (child, f1) \<and> json_has_id (path_copy child) f1 = (False, f2) \<and>
    json_set_id (path_index (path_copy child)) (path_copy child) f2 = Some f3 \<and> index_properties W d (path_copy child) f3 = Some g \<and>
    array_upto g ps (m + 1) \<and> document g (ps @ [m + 1]) (names @ [Element (m + 1)]) \<and> blank_doc g (ps @ [m + 1]) \<and>
    data g (doc ps @ [value_code CHILDREN]) = data f (doc ps @ [value_code CHILDREN]) \<and>
    stepped d f g {ps} (element_cost W names)"
proof -
  let ?ps = "ps @ [m + 1]" and ?names = "names @ [Element (m + 1)]"
  let ?id = "doc ?ps @ [value_code ID]" and ?c = "doc ?ps @ [value_code CASCADE]"
  let ?ic = "index_cost W (length ?ps) (drop 2 ?names)"
  have cost: "element_cost W names = 6 + ?ic"
    using document_length [OF doc] index_cost_element [of W _ names "m + 1"] by (simp add: element_cost_def Suc_eq_plus1)
  have none: "node f (doc ?ps) = None" using ok by (simp add: array_upto_def)
  have room': "room f (6 + ?ic)" using room cost by simp
  from sub_index_step [OF db_atD(1) [OF db] at m room_less [OF room']] obtain child f1 where
    1: "sub_index (m + 1) (ch, f) = (child, f1)" "grows f f1 {} {doc ?ps} 1" "stands_at f1 child (doc ?ps)"
    by (auto simp: doc_snoc)
  have r1: "room f1 (5 + ?ic)" by (rule room_after [OF room' 1(2)]) simp
  have c1: "stands_at f1 (path_copy child) (doc ?ps)" using 1(3) by simp
  from sub_index_step [OF growsD(1) [OF 1(2)] c1 _ room_less [OF r1], of ID] obtain q f2 where
    2: "sub_index ID (path_copy child, f1) = (q, f2)" "grows f1 f2 {} {?id} 1" "stands_at f2 q ?id" by auto
  have r2: "room f2 (4 + ?ic)" by (rule room_after [OF r1 2(2)]) simp
  note f2 = grows_trans [OF 1(2) 2(2)]
  have "data f ?id = None" by (rule data_none, rule node_above [OF none]) simp
  then have "data f2 ?id = None" using growsD(3) [OF f2, of ?id] by simp
  then have has: "json_has_id (path_copy child) f1 = (False, f2)"
    using 2(1) get_data_at(2) [OF growsD(1) [OF 2(2)] 2(3)] by (simp add: json_has_id_def)
  from set_id_at [OF growsD(1) [OF 2(2)] growsD(6) [OF 2(2) c1] room_less [OF r2], of "path_index (path_copy child)"] obtain f3 where
    3: "json_set_id (path_index (path_copy child)) (path_copy child) f2 = Some f3" "grows f2 f3 {?id} {?id} 2"
      "data f3 ?id = Some (index_bytes (path_index (path_copy child)))" by auto
  note f3 = grows_trans [OF f2 3(2)]
  have c3: "stands_at f3 (path_copy child) (doc ?ps)" using growsD(6) [OF 3(2) growsD(6) [OF 2(2) c1]] .
  have own: "own_id f3 ?ps" using 3(3) c3 by (auto simp: own_id_def stands_at_def)
  have "type_at f3 ps ARRAY" by (rule type_at_grows [OF _ f3]) (use ok in \<open>simp_all add: array_upto_def\<close>)
  then have "part_key f3 ps (m + 1) (Element (m + 1))" using m by (simp add: part_key_def)
  moreover have "document f3 ps names" by (rule document_grows_at [OF doc f3]) (auto dest: prefix_length_le)
  ultimately have doc3: "document f3 ?ps ?names" using own by (intro document.part)
  have w3: "words_ok f3" by (rule words_grows(1) [OF f3 _ words]) auto
  have "room f3 (2 + ?ic)" by (rule room_after [OF r2 3(2)]) simp
  from index_properties_at [OF db_at_grows [OF db f3] c3 doc3 w3 names_ok_element [OF names] this] obtain g where
    4: "index_properties W d (path_copy child) f3 = Some g"
      "grows f3 g (insert ?c word_places) (insert ?c (word_places \<union> id_places ?ps \<union> name_places ?ps)) (2 + ?ic)" "words_ok g"
    by (auto simp: words_added_def)
  have gr: "grows f g ({?id, ?c} \<union> word_places) ({doc ?ps, ?id, ?c} \<union> word_places \<union> id_places ?ps \<union> name_places ?ps) (6 + ?ic)"
    by (rule grows_mono [OF grows_trans [OF f3 4(2)]]) auto
  have sub: "{?id, ?c} \<union> word_places \<subseteq> new_data ps (m + 1) 0"
    "{doc ?ps, ?id, ?c} \<union> word_places \<union> id_places ?ps \<union> name_places ?ps \<subseteq> new_nodes ps (m + 1) [] 0 0"
    by (auto simp: new_data_def new_nodes_def)
  have doc': "document g ?ps ?names" by (rule document_grows_at [OF doc3 4(2)]) auto
  then have own': "own_id g ?ps" by (auto simp: document_snoc)
  have "keeps f g {ps}"
    by (rule keeps_grows [OF gr db_atD(1) [OF db] within_mono [OF within_new [OF db doc] sub]]) (use own' in auto)
  then have st: "stepped d f g {ps} (6 + ?ic)"
    using db_at_grows [OF db gr] 4(3) growsD(5) [OF gr] by (simp add: stepped_def)
  have "array_upto g ps (m + 1)"
    unfolding array_upto_def
  proof (intro conjI allI impI)
    show "type_at g ps ARRAY" by (rule type_at_grows [OF _ gr]) (use ok in \<open>simp_all add: array_upto_def\<close>)
    show "own_id g (ps @ [k])" if "1 \<le> k" "k \<le> m + 1" for k
    proof (cases "k = m + 1")
      case False
      with that ok have "own_id f (ps @ [k])" by (simp add: array_upto_def)
      then show ?thesis by (rule steppedD(6) [OF st])
    qed (use own' in simp)
    show "node g (doc (ps @ [k])) = None" if "k = 0 \<or> m + 1 < k" for k
    proof (rule new_node [OF gr])
      show "node f (doc (ps @ [k])) = None" using that ok by (auto simp: array_upto_def)
      show "\<not> prefix (doc (ps @ [k])) b"
        if "b \<in> {doc ?ps, ?id, ?c} \<union> word_places \<union> id_places ?ps \<union> name_places ?ps" for b
        using new_nodes_doc [of b ps "m + 1" "[]" 0 0 "ps @ [k]"] that sub(2) \<open>k = 0 \<or> m + 1 < k\<close> by auto
    qed simp
  qed
  moreover have "data g (doc ps @ [value_code CHILDREN]) = data f (doc ps @ [value_code CHILDREN])"
    using growsD(3) [OF gr, of "doc ps @ [value_code CHILDREN]"] by simp
  ultimately show ?thesis
    using 1(1) has 3(1) 4(1) doc' blank_new [OF gr sub none] st cost by auto
qed

section \<open>Growing an array\<close>

lemma grow_array_at:
  assumes "db_at d f" and "words_ok f" and "stands_at f ch (doc ps @ [value_code CHILDREN])" and "document f ps names"
    and "array_upto f ps m" and "m \<le> k" and "k < 2 ^ 64" and "names_ok W (drop 2 names)"
    and "room f ((k - m) * element_cost W names)"
  shows "\<exists>g. grow_array W d ch k m f = Some (k, g) \<and> array_upto g ps k \<and>
    (\<forall>j. m < j \<longrightarrow> j \<le> k \<longrightarrow> document g (ps @ [j]) (names @ [Element j]) \<and> blank_doc g (ps @ [j])) \<and>
    data g (doc ps @ [value_code CHILDREN]) = data f (doc ps @ [value_code CHILDREN]) \<and>
    stepped d f g {ps} ((k - m) * element_cost W names)"
  using assms
proof (induction "k - m" arbitrary: m f)
  case 0
  then have "m = k" by simp
  then show ?case using 0 stepped_refl [OF 0(2,3)] by (auto simp: grow_array.simps [of W d ch k k])
next
  case (Suc n)
  let ?e = "element_cost W names"
  have less: "m < k" "k - (m + 1) = n" "k - m = n + 1" using Suc.hyps(2) by simp_all
  have room: "room f (?e + n * ?e)" using Suc.prems(9) less(3) by (simp add: distrib_right add.commute)
  have m: "m + 1 < 2 ^ 64" using less(1) Suc.prems(7) by simp
  from element_new [OF Suc.prems(1-5) m Suc.prems(8) room_less [OF room]] obtain child f1 f2 f3 h where
    h: "sub_index (m + 1) (ch, f) = (child, f1)" "json_has_id (path_copy child) f1 = (False, f2)"
      "json_set_id (path_index (path_copy child)) (path_copy child) f2 = Some f3" "index_properties W d (path_copy child) f3 = Some h"
      "array_upto h ps (m + 1)" "document h (ps @ [m + 1]) (names @ [Element (m + 1)])" "blank_doc h (ps @ [m + 1])"
      "data h (doc ps @ [value_code CHILDREN]) = data f (doc ps @ [value_code CHILDREN])" "stepped d f h {ps} ?e" by auto
  have "document h ps names" using h(6) by (auto simp: document_snoc)
  moreover have "room h ((k - (m + 1)) * ?e)" by (rule stepped_room [OF room h(9)]) (simp add: less(2))
  ultimately obtain g where
    g: "grow_array W d ch k (m + 1) h = Some (k, g)" "array_upto g ps k"
      "\<And>j. m + 1 < j \<Longrightarrow> j \<le> k \<Longrightarrow> document g (ps @ [j]) (names @ [Element j]) \<and> blank_doc g (ps @ [j])"
      "data g (doc ps @ [value_code CHILDREN]) = data h (doc ps @ [value_code CHILDREN])"
      "stepped d h g {ps} ((k - (m + 1)) * ?e)"
    using Suc.hyps(1) [of "m + 1" h] less steppedD(1,2) [OF h(9)] steppedD(5) [OF h(9) Suc.prems(3)] h(5) Suc.prems(7,8)
    by (simp add: less(2)) blast
  have run: "grow_array W d ch k m f = Some (k, g)"
    using h(1-4) g(1) less(1) by (simp add: grow_array.simps [of W d ch k m])
  have "document g (ps @ [m + 1]) (names @ [Element (m + 1)])"
  proof -
    have "document g ps names" by (rule stepped_document [OF \<open>document h ps names\<close> g(5)]) (auto simp: strict_prefix_def)
    moreover have "part_key g ps (m + 1) (Element (m + 1))" using g(2) m by (simp add: part_key_def array_upto_def)
    moreover have "own_id g (ps @ [m + 1])" using g(2) less(1) by (simp add: array_upto_def)
    ultimately show ?thesis by (rule document.part)
  qed
  moreover have "blank_doc g (ps @ [m + 1])"
    using steppedD(7) [OF g(5), of "ps @ [m + 1]"] h(7) by (simp add: same_doc_def)
  ultimately have "document g (ps @ [j]) (names @ [Element j]) \<and> blank_doc g (ps @ [j])" if "m < j" "j \<le> k" for j
    using g(3) [of j] that by (cases "j = m + 1") auto
  moreover have "(k - m) * ?e = ?e + (k - (m + 1)) * ?e" unfolding less by (simp add: distrib_right)
  then have "stepped d f g {ps} ((k - m) * ?e)" using stepped_trans [OF h(9) g(5)] by (simp only:)
  ultimately show ?case using run g(2,4) h(8) by auto
qed

section \<open>\<open>operator []\<close> with an index\<close>

text \<open>A document that is an array with \<open>n\<close> elements, or has no value yet.\<close>

definition sequence :: "db_file \<Rightarrow> nat list \<Rightarrow> nat \<Rightarrow> bool" where
  "sequence f ps n \<longleftrightarrow> array_ok f ps n \<or>
     blank_doc f ps \<and> n = 0 \<and> (own_id f ps \<or> data f (doc ps @ [value_code ID]) = None)"

lemma get_children_at:
  assumes "db_at d f" and "words_ok f" and "stands_at f p (doc ps)" and "room f 1"
  shows "\<exists>ch g. get_children p f = (ch, g) \<and> grows f g {} {doc ps @ [value_code CHILDREN]} 1 \<and>
    stands_at g ch (doc ps @ [value_code CHILDREN]) \<and> stepped d f g S 1"
proof -
  from sub_index_step [OF db_atD(1) [OF assms(1)] assms(3) _ assms(4), of CHILDREN] obtain ch g where
    g: "get_children p f = (ch, g)" "grows f g {} {doc ps @ [value_code CHILDREN]} 1" "stands_at g ch (doc ps @ [value_code CHILDREN])"
    by (auto simp: get_children_def)
  have "keeps f g S"
    by (rule keeps_slot [OF g(2) db_atD(1) [OF assms(1)]]) (use assms(3) in \<open>auto simp: stands_at_def\<close>)
  moreover have "words_ok g" by (rule words_grows(1) [OF g(2) _ assms(2)]) simp
  ultimately show ?thesis using g db_at_grows [OF assms(1) g(2)] growsD(5) [OF g(2)] by (auto simp: stepped_def)
qed

lemma make_array:
  assumes db: "db_at d f" and words: "words_ok f" and at: "stands_at f p (doc ps)" and doc: "document f ps names"
    and seq: "sequence f ps n" and room: "room f (5 + 2 * length ps)"
  shows "\<exists>g. (do { t \<leftarrow> json_type_of f p; if t = UNDEFINED then set_type clr d ARRAY p f else Some f }) = Some g \<and>
    array_ok g ps n \<and> stepped d f g {ps} (5 + 2 * length ps)"
proof (cases "array_ok f ps n")
  case True
  with type_of_at(3) [OF db_atD(1) [OF db] at array_okD(1)] stepped_refl [OF db words] show ?thesis by auto
next
  case False
  with seq have b: "blank_doc f ps" "n = 0" "own_id f ps \<or> data f (doc ps @ [value_code ID]) = None" by (auto simp: sequence_def)
  have "data f (doc ps) = None" using b(1) by (simp add: blank_doc_def)
  from set_type_bare [OF db words at doc b(1,3) room, of clr ARRAY] bare_array type_of_none(2) [OF db_atD(1) [OF db] at this] b(2)
  show ?thesis by auto
qed

definition index_op_cost :: "wide_ctype \<Rightarrow> json_key list \<Rightarrow> nat \<Rightarrow> nat \<Rightarrow> nat" where
  "index_op_cost W names n k = 9 + 2 * length names + (k - n) * element_cost W names"

lemma at_index_at:
  assumes db: "db_at d f" and words: "words_ok f" and at: "stands_at f p (doc ps)" and doc: "document f ps names"
    and seq: "sequence f ps n" and k: "1 \<le> k" "k < 2 ^ 64" and names: "names_ok W (drop 2 names)"
    and room: "room f (index_op_cost W names n k)"
  shows "\<exists>c g. at_index clr W d k p f = Some (c, g) \<and> stands_at g c (doc (ps @ [k])) \<and> array_ok g ps (max n k) \<and>
    (\<forall>j. n < j \<longrightarrow> j \<le> k \<longrightarrow> document g (ps @ [j]) (names @ [Element j]) \<and> blank_doc g (ps @ [j])) \<and>
    stepped d f g {ps} (index_op_cost W names n k)"
proof -
  let ?C = "doc ps @ [value_code CHILDREN]" and ?e = "(k - n) * element_cost W names"
  have len: "length names = length ps" by (rule document_length [OF doc])
  have room0: "room f (9 + 2 * length ps + ?e)" using room len by (simp add: index_op_cost_def)
  from get_children_at [OF db words at room_less [OF room0], of "{ps}"] obtain ch f1 where
    1: "get_children p f = (ch, f1)" "grows f f1 {} {?C} 1" "stands_at f1 ch ?C" "stepped d f f1 {ps} 1" by auto
  have r1: "room f1 (8 + 2 * length ps + ?e)" by (rule stepped_room [OF room0 1(4)]) simp
  have at1: "stands_at f1 p (doc ps)" by (rule growsD(6) [OF 1(2) at])
  have doc1: "document f1 ps names" by (rule stepped_document [OF doc 1(4)]) (auto simp: strict_prefix_def)
  have seq1: "sequence f1 ps n"
  proof -
    have "keeps f f1 {}"
      by (rule keeps_slot [OF 1(2) db_atD(1) [OF db]]) (use at in \<open>auto simp: stands_at_def\<close>)
    then have "same_doc f f1 ps" by (rule keepsD(1)) simp
    moreover have "data f1 (doc ps @ [value_code ID]) = data f (doc ps @ [value_code ID])"
      using growsD(3) [OF 1(2), of "doc ps @ [value_code ID]"] by simp
    ultimately show ?thesis using seq steppedD(6) [OF 1(4), of ps] by (auto simp: sequence_def same_doc_def)
  qed
  from make_array [OF steppedD(1,2) [OF 1(4)] at1 doc1 seq1 room_less [OF r1], of clr] obtain f2 where
    2: "(do { t \<leftarrow> json_type_of f1 p; if t = UNDEFINED then set_type clr d ARRAY p f1 else Some f1 }) = Some f2"
      "array_ok f2 ps n" "stepped d f1 f2 {ps} (5 + 2 * length ps)" by auto
  have at2: "stands_at f2 p (doc ps)" "stands_at f2 ch ?C" using steppedD(5) [OF 2(3)] at1 1(3) by blast+
  have doc2: "document f2 ps names" by (rule stepped_document [OF doc1 2(3)]) (auto simp: strict_prefix_def)
  note db2 = steppedD(1,2) [OF 2(3)]
  have r2: "room f2 (?e + 3)" by (rule stepped_room [OF r1 2(3)]) simp
  have cnt: "(if path_has_data f2 ch then path_get_index f2 ch else Some 0) = Some n"
    using array_okD(2) [OF 2(2)] get_data_at(2) [OF db_atD(1) [OF db2(1)] at2(2)] get_index_at [OF db_atD(1) [OF db2(1)] at2(2)]
    by (auto simp: count_at_def)
  obtain f3 where 3: "(if n < k then do { t \<leftarrow> json_type_of f2 p;
        (count, f) \<leftarrow> (if t = ARRAY then grow_array W d ch k n f2 else None);
        map_option snd (path_set_index count ch f) } else Some f2) = Some f3"
    "array_ok f3 ps (max n k)" "stepped d f2 f3 {ps} (?e + 1)"
    "\<forall>j. n < j \<longrightarrow> j \<le> k \<longrightarrow> document f3 (ps @ [j]) (names @ [Element j]) \<and> blank_doc f3 (ps @ [j])"
  proof (cases "n < k")
    case False
    show thesis by (rule that [of f2]) (use False 2(2) stepped_refl [OF db2] in \<open>simp_all add: max_def\<close>)
  next
    case True
    have up: "array_upto f2 ps n" using 2(2) by (simp add: array_ok_upto)
    from grow_array_at [OF db2 at2(2) doc2 up _ k(2) names room_less [OF r2]] True obtain g where
      g: "grow_array W d ch k n f2 = Some (k, g)" "array_upto g ps k"
        "\<forall>j. n < j \<longrightarrow> j \<le> k \<longrightarrow> document g (ps @ [j]) (names @ [Element j]) \<and> blank_doc g (ps @ [j])"
        "stepped d f2 g {ps} ?e" by auto
    have "room g 1" by (rule stepped_room [OF r2 g(4)]) simp
    from put_index_step [OF db_atD(1) [OF steppedD(1) [OF g(4)]] steppedD(5) [OF g(4) at2(2)] this, of k] obtain r h where
      h: "path_set_index k ch g = Some (r, h)" "grows g h {?C} {} 1" "data h ?C = Some (index_bytes k)" by blast
    have "within g {ps} {?C} {}" by (auto simp: within_def)
    from stepped_grows [OF h(2) steppedD(1,2) [OF g(4)] this] have st: "stepped d g h {ps} 1" by auto
    have "array_ok h ps k"
      unfolding array_ok_upto array_upto_def
    proof (intro conjI allI impI)
      show "type_at h ps ARRAY" by (rule type_at_grows [OF _ h(2)]) (use g(2) in \<open>simp_all add: array_upto_def\<close>)
      show "count_at h ?C k" using h(3) k(2) by (simp add: count_at_def)
      show "own_id h (ps @ [j])" if "1 \<le> j" "j \<le> k" for j
        using steppedD(6) [OF st] g(2) that by (simp add: array_upto_def)
      show "node h (doc (ps @ [j])) = None" if "j = 0 \<or> k < j" for j
        by (rule new_node [OF h(2)]) (use g(2) that in \<open>auto simp: array_upto_def\<close>)
    qed
    moreover have "document h (ps @ [j]) (names @ [Element j]) \<and> blank_doc h (ps @ [j])" if "n < j" "j \<le> k" for j
    proof -
      have "document g (ps @ [j]) (names @ [Element j])" "blank_doc g (ps @ [j])" using g(3) that by blast+
      moreover from this(1) have "document h (ps @ [j]) (names @ [Element j])" by (rule document_grows_at [OF _ h(2)]) auto
      ultimately show ?thesis using steppedD(7) [OF st, of "ps @ [j]"] by (simp add: same_doc_def)
    qed
    moreover have "json_type_of f2 p = Some ARRAY"
      by (rule type_of_at(3) [OF db_atD(1) [OF db2(1)] at2(1) array_okD(1) [OF 2(2)]])
    moreover have "stepped d f2 h {ps} (?e + 1)" using stepped_trans [OF g(4) st] .
    ultimately show thesis using g(1) h(1) True by (intro that [of h]) (simp_all add: max_def)
  qed
  have at3: "stands_at f3 p (doc ps)" "stands_at f3 ch ?C" using steppedD(5) [OF 3(3)] at2 by blast+
  have r3: "room f3 2" by (rule stepped_room [OF r2 3(3)]) simp
  note db3 = steppedD(1,2) [OF 3(3)]
  have there: "node f3 (?C @ [value_code k]) \<noteq> None"
    using array_okD(4) [OF 3(2) k(1)] by (auto simp: own_id_def doc_snoc)
  have "\<exists>q. sub_index CHILDREN (p, f3) = (q, f3) \<and> stands_at f3 q ?C"
    by (rule sub_index_there [OF at3(1)]) (use at3(2) in \<open>simp add: stands_at_def\<close>)
  then obtain ch' where c: "get_children p f3 = (ch', f3)" "stands_at f3 ch' ?C" by (auto simp: get_children_def)
  from sub_index_there [OF c(2) there] obtain c' where c': "sub_index k (ch', f3) = (c', f3)" "stands_at f3 c' (doc (ps @ [k]))"
    by (auto simp: doc_snoc)
  have "at_index clr W d k p f = Some (path_copy c', f3)"
  proof -
    from 2(1) obtain t where t: "json_type_of f1 p = Some t"
      "(if t = UNDEFINED then set_type clr d ARRAY p f1 else Some f1) = Some f2" by (auto split: bind_splits)
    show ?thesis
      unfolding at_index_def
      using k(1) 1(1) t cnt 3(1) c(1) c'(1) by simp
  qed
  moreover have "stepped d f f3 {ps} (index_op_cost W names n k)"
    by (rule stepped_mono [OF stepped_trans [OF stepped_trans [OF 1(4) 2(3)] 3(3)]]) (simp_all add: index_op_cost_def len)
  ultimately show ?thesis using c'(2) 3(2,4) by auto
qed

end
