(* ===== verification/JSON_Properties.thy ===== *)
theory JSON_Properties
  imports JSON_Elements
begin

text \<open>
  The properties of JSON documents in the database: properties of objects, parents, types and values.
\<close>

section \<open>Properties\<close>

lemma containsD: "object_ok f ps n \<Longrightarrow> placed f ps s k \<Longrightarrow> k \<le> n \<and> part_key f ps k (Property s) \<and> own_id f (ps @ [k])"
  using object_okD(6,8) placed_part by blast

text \<open>Places that are there already are not new.\<close>

lemma grows_there:
  assumes "grows f g A B n" and "\<And>b. b \<in> B \<Longrightarrow> node f b \<noteq> None"
  shows "grows f g A {} n"
proof -
  have "node f cs \<noteq> None" if "codes cs" "node g cs \<noteq> None" for cs
    using growsD(4) [OF assms(1) that] node_above assms(2) by blast
  with assms(1) show ?thesis by (auto simp: grows_def)
qed

text \<open>The position of a property, found or made.\<close>

lemma property_position_at:
  assumes db: "db_at d f" and at: "stands_at f p (doc ps)" and doc: "document f ps names" and ok: "object_ok f ps n"
    and words: "words_ok f" and names: "names_ok W (drop 2 (names @ [Property s]))" and n: "n + 1 < 2 ^ 64"
    and room: "room f (property_cost W s names)"
  shows "\<exists>k g. property_position W d s p f = Some (k, g) \<and> db_at d g \<and> words_ok g \<and> stands_at g p (doc ps) \<and>
    object_ok g ps (max n k) \<and> placed g ps s k \<and> (\<forall>t j. t \<noteq> s \<longrightarrow> placed g ps t j \<longleftrightarrow> placed f ps t j) \<and>
    (\<forall>j. placed f ps s j \<longrightarrow> j = k) \<and> ((\<forall>j. \<not> placed f ps s j) \<longrightarrow> k = n + 1 \<and> blank_doc g (ps @ [k])) \<and>
    document g (ps @ [k]) (names @ [Property s]) \<and> keeps f g {ps} \<and>
    length g \<le> length f + property_cost W s names * 2 ^ 17"
proof -
  have root: "node f (doc []) \<noteq> None" using db_atD(6) [OF db] by simp
  note st = db_atD(1) [OF db]
  show ?thesis
  proof (cases "\<exists>k. placed f ps s k")
    case True
    then obtain k where k: "placed f ps s k" by blast
    have "room f (3 + length s)" by (rule room_less [OF room]) (simp add: property_cost_def)
    from property_position_old [OF db at k this] obtain g i where
      g: "property_position W d s p f = Some (k, g)" "grows f g {} (find_places ps s i) (3 + length s)"
        "node f [value_code ROOT_PROPERTIES, string_code s] = Some i" by blast
    have there: "node f (doc ps @ [value_code PROPERTIES, value_code i]) \<noteq> None"
      using k g(3) data_node by (fastforce simp: placed_def)
    have same: "grows f g {} {} (3 + length s)"
      by (rule grows_there [OF g(2)])
        (use there node_extend [of f "doc ps @ [value_code PROPERTIES]" "[value_code i]"] g(3) in \<open>auto simp: find_places_def\<close>)
    have "apart ps {} {}" by (simp add: apart_def)
    note keep = object_ok_grows [OF ok same st this]
    have own: "part_key f ps k (Property s)" "own_id f (ps @ [k])" "k \<le> n" using containsD [OF ok k] by auto
    then have "document f (ps @ [k]) (names @ [Property s])" using doc document.part by blast
    then have "document g (ps @ [k]) (names @ [Property s])" by (rule document_grows [OF _ same]) simp
    moreover have "keeps f g {ps}" by (rule keeps_find [OF g(2) db doc])
    moreover have "length g \<le> length f + property_cost W s names * 2 ^ 17"
      using growsD(5) [OF same] by (rule order_trans) (simp add: property_cost_def)
    moreover have "words_ok g" using words_grows(1) [OF same _ words] by simp
    moreover have "\<forall>j. placed f ps s j \<longrightarrow> j = k" using placed_unique [OF _ k] by blast
    moreover have "object_ok g ps (max n k)" "placed g ps s k" "\<forall>t j. t \<noteq> s \<longrightarrow> placed g ps t j \<longleftrightarrow> placed f ps t j"
      using keep k own(3) by (simp_all add: max_def)
    moreover have "db_at d g" "stands_at g p (doc ps)" using db_at_grows [OF db same] growsD(6) [OF same at] .
    ultimately show ?thesis using g(1) k by blast
  next
    case False
    then have new: "\<not> placed f ps s k" for k by blast
    from property_position_new [OF assms(1-7) new room] obtain g i where
      g: "property_position W d s p f = Some (n + 1, g)"
        "grows f g (new_data ps (n + 1) i) (new_nodes ps (n + 1) s i (path_index p)) (property_cost W s names)"
        "object_ok g ps (n + 1)" "\<forall>t k. placed g ps t k \<longleftrightarrow> t = s \<and> k = n + 1 \<or> placed f ps t k"
        "document g (ps @ [n + 1]) (names @ [Property s])" "blank_doc g (ps @ [n + 1])"
        "words_grown f g (index_words W (names @ [Property s])) (ps @ [n + 1])" by blast
    have "max n (n + 1) = n + 1" by simp
    with g new keeps_new [OF g(2) db doc document_own_id [OF g(5)]] growsD(5,6) [OF g(2)] at db_at_grows [OF db g(2)] show ?thesis
      by (intro exI [of _ "n + 1"] exI [of _ g]) (auto simp: words_grown_def)
  qed
qed

text \<open>The path of a property.\<close>

definition member_cost :: "wide_ctype \<Rightarrow> bstring \<Rightarrow> json_key list \<Rightarrow> nat" where
  "member_cost W s names = 7 + 2 * length names + property_cost W s names"

lemma at_property_at:
  assumes "db_at d f" and "words_ok f" and "stands_at f p (doc ps)" and "document f ps names" and "container f ps n"
    and "names_ok W (drop 2 (names @ [Property s]))" and "n + 1 < 2 ^ 64"
    and member: "room f (member_cost W s names)"
  shows "\<exists>c g k. at_property clr W d s p f = Some (c, g) \<and> stands_at g c (doc (ps @ [k])) \<and>
    document g (ps @ [k]) (names @ [Property s]) \<and> object_ok g ps (max n k) \<and> placed g ps s k \<and>
    (\<forall>t j. t \<noteq> s \<longrightarrow> placed g ps t j \<longleftrightarrow> placed f ps t j) \<and> (\<forall>j. placed f ps s j \<longrightarrow> j = k) \<and>
    ((\<forall>j. \<not> placed f ps s j) \<longrightarrow> k = n + 1 \<and> blank_doc g (ps @ [k])) \<and>
    stepped d f g {ps} (member_cost W s names)"
proof -
  have room: "room f (7 + 2 * length ps + property_cost W s names)"
    using member document_length [OF assms(4)] by (simp add: member_cost_def)
  from make_object [OF assms(1,3,4,5,2) room_less [OF room], of clr] obtain h where
    h: "set_type clr d OBJECT p f = Some h" "object_ok h ps n" "\<forall>t k. placed h ps t k \<longleftrightarrow> placed f ps t k" "keeps f h {ps}"
      "document h ps names" "words_ok h" "stands_at h p (doc ps)" "db_at d h" "length h \<le> length f + (5 + 2 * length ps) * 2 ^ 17"
    by auto
  have rh: "room h (2 + property_cost W s names)" using room h(9) by (simp add: room_def)
  from property_position_at [OF h(8,7,5,2,6) assms(6,7) room_less [OF rh]] obtain k m where
    m: "property_position W d s p h = Some (k, m)" "db_at d m" "words_ok m" "stands_at m p (doc ps)" "object_ok m ps (max n k)"
      "placed m ps s k" "\<forall>t j. t \<noteq> s \<longrightarrow> placed m ps t j \<longleftrightarrow> placed h ps t j" "\<forall>j. placed h ps s j \<longrightarrow> j = k"
      "(\<forall>j. \<not> placed h ps s j) \<longrightarrow> k = n + 1 \<and> blank_doc m (ps @ [k])" "document m (ps @ [k]) (names @ [Property s])"
      "keeps h m {ps}" "length m \<le> length h + property_cost W s names * 2 ^ 17" by auto
  have "room m 2" using rh m(12) by (simp add: room_def)
  from child_path [OF m(2,4,10) this] obtain ch m' c g where
    g: "get_children p m = (ch, m')" "sub_index k (ch, m') = (c, g)" "stands_at g c (doc (ps @ [k]))"
      "grows m g {} {doc ps @ [value_code CHILDREN]} 2" by blast
  note st = db_atD(1) [OF m(2)] and keep = object_children_grows [OF g(4) db_atD(1) [OF m(2)]]
  have "document m ps names" using m(10) by (auto simp: document_snoc)
  have "keeps m g {ps}"
    by (rule keeps_slot [OF g(4) st]) (use document_there [OF m(2) \<open>document m ps names\<close>] in auto)
  with h(4) m(11) have "keeps f g {ps}" by (blast intro: keeps_trans)
  moreover have "document g (ps @ [k]) (names @ [Property s])" by (rule document_grows [OF m(10) g(4)]) simp
  moreover have "words_ok g" by (rule words_grows(1) [OF g(4) _ m(3)]) simp
  moreover have "at_property clr W d s p f = Some (path_copy c, g)"
    using h(1) m(1) g(1,2) by (simp add: at_property_def)
  moreover have nb: "(\<forall>j. \<not> placed f ps s j) \<longrightarrow> k = n + 1 \<and> blank_doc g (ps @ [k])"
    using keep(3) [of k] m(9) h(3) by blast
  moreover have "length g \<le> length f + member_cost W s names * 2 ^ 17"
    using growsD(5) [OF g(4)] m(12) h(9) document_length [OF assms(4)] by (simp add: member_cost_def)
  ultimately show ?thesis
    using g(3) keep(1,2) [of "max n k"] nb m(5-8) h(3) db_at_grows [OF m(2) g(4)]
    by (intro exI [of _ "path_copy c"] exI [of _ g] exI [of _ k]) (simp add: stepped_def)
qed

text \<open>
  Property C9: \<open>json[property]\<close> on an object, or on a document without a value, returns the path of the property: the
  property has a position of its own, which is the one it had before if it was there, and the next one if it was not; the
  properties the object had keep their positions, and no other document, and no value, changes.
\<close>

theorem json_at_property:
  assumes "db_at d f" and "words_ok f" and "stands_at f p (doc ps)" and "document f ps names" and "container f ps n"
    and "names_ok W (drop 2 (names @ [Property s]))" and "n + 1 < 2 ^ 64"
    and "room f (member_cost W s names)"
  shows "\<exists>c g k. at_property clr W d s p f = Some (c, g) \<and> stands_at g c (doc (ps @ [k])) \<and>
    document g (ps @ [k]) (names @ [Property s]) \<and> object_ok g ps (max n k) \<and> placed g ps s k \<and>
    (\<forall>t j. t \<noteq> s \<longrightarrow> placed g ps t j \<longleftrightarrow> placed f ps t j) \<and> (\<forall>j. placed f ps s j \<longrightarrow> j = k) \<and>
    ((\<forall>j. \<not> placed f ps s j) \<longrightarrow> k = n + 1 \<and> blank_doc g (ps @ [k])) \<and>
    stepped d f g {ps} (member_cost W s names)"
  by (rule at_property_at [OF assms])

theorem json_at_property_witness:
  "\<forall>clr W. case json_db_new [] of (d, f) \<Rightarrow> \<exists>c g. at_property clr W d ''a'' (jd_json d) f = Some (c, g) \<and>
     placed g [] ''a'' 1 \<and> document g [1] [Property ''a'']"
proof (intro allI)
  fix clr W
  let ?d = "fst (json_db_new [])" and ?f = "snd (json_db_new [])"
  have free: "\<not> placed ?f [] s k" for s k using new_json_db(6) by (simp add: blank_unplaced)
  have "room ?f (member_cost W ''a'' [])"
    by (rule room_less [OF new_json_db(5)]) (simp add: property_cost_def member_cost_def)
  from json_at_property [OF new_json_db(1,2,3) document.root new_json_db(4), of W "''a''" clr] this
  obtain c g k where "at_property clr W ?d ''a'' (jd_json ?d) ?f = Some (c, g)" "placed g [] ''a'' k"
    "document g [k] [Property ''a'']" "k = 1"
    using free by (auto simp: names_ok_def)
  then show "case json_db_new [] of (d, f) \<Rightarrow> \<exists>c g. at_property clr W d ''a'' (jd_json d) f = Some (c, g) \<and>
     placed g [] ''a'' 1 \<and> document g [1] [Property ''a'']"
    by (auto split: prod.splits)
qed

end
