(* ===== verification/JSON_Strings.thy ===== *)
theory JSON_Strings
  imports JSON_Elements
begin

text \<open>
  Strings are stored in pages below \<open>VALUE\<close>: \<open>setString\<close> writes the pages one after the other, \<open>endString\<close> the flag, and
  \<open>getString\<close> puts the pages together again.
\<close>

section \<open>Pages\<close>

definition pages_at :: "db_file \<Rightarrow> nat list \<Rightarrow> bstring list \<Rightarrow> bool" where
  "pages_at f ps pages \<longleftrightarrow> length pages < 2 ^ 64 \<and>
     (\<forall>i < length pages. data f (doc ps @ [value_code VALUE, value_code i]) = Some (pages ! i)) \<and>
     (\<forall>i. length pages \<le> i \<longrightarrow> node f (doc ps @ [value_code VALUE, value_code i]) = None)"

lemma bare_pages: "bare_doc f ps \<Longrightarrow> pages_at f ps []"
  by (simp add: bare_doc_def pages_at_def)

lemma pages_numbers:
  assumes "pages_at f ps pages"
  shows "numbers f (doc ps @ [value_code VALUE]) = {0..<length pages}"
proof -
  have "k \<in> numbers f (doc ps @ [value_code VALUE]) \<longleftrightarrow> k \<in> {0..<length pages}" for k
  proof (cases "k < length pages")
    case True
    with assms have "data f (doc ps @ [value_code VALUE, value_code k]) \<noteq> None" "k < 2 ^ 64" by (simp_all add: pages_at_def)
    with True data_node show ?thesis by (simp add: numbers_def)
  next
    case False
    with assms have "node f (doc ps @ [value_code VALUE, value_code k]) = None" by (simp add: pages_at_def)
    with False show ?thesis by (simp add: numbers_def)
  qed
  then show ?thesis by blast
qed

lemma pages_grows:
  assumes "pages_at f ps pages" and g: "grows f g A B n"
    and "\<And>k. k < length pages \<Longrightarrow> doc ps @ [value_code VALUE, value_code k] \<notin> A"
    and "\<And>k b. b \<in> B \<Longrightarrow> length pages \<le> k \<Longrightarrow> \<not> prefix (doc ps @ [value_code VALUE, value_code k]) b"
  shows "pages_at g ps pages"
  unfolding pages_at_def
proof (intro conjI allI impI)
  show "data g (doc ps @ [value_code VALUE, value_code i]) = Some (pages ! i)" if "i < length pages" for i
    using growsD(3) [OF g _ assms(3) [OF that]] assms(1) that by (simp add: pages_at_def)
  show "node g (doc ps @ [value_code VALUE, value_code i]) = None" if "length pages \<le> i" for i
    by (rule new_node [OF g]) (use assms(1,4) that in \<open>simp_all add: pages_at_def\<close>)
qed (use assms(1) in \<open>simp add: pages_at_def\<close>)

lemma pages_same: "pages_at f ps pages \<Longrightarrow> same_doc f g ps \<Longrightarrow> pages_at g ps pages"
  by (simp add: pages_at_def same_doc_def)

text \<open>The last page, as \<open>setString\<close> and \<open>endString\<close> compute it.\<close>

lemma last_page:
  assumes "db_at d f" and "pages_at f ps pages" and "stands_at f q (doc ps @ [value_code VALUE])"
  shows "path_dead_end f q \<longleftrightarrow> pages = []"
    and "(if \<not> path_dead_end f q then max_index q f else Some 0) = Some (length pages - 1)"
proof -
  note db = db_atD [OF assms(1)] and num = pages_numbers [OF assms(2)]
  have place: "json_place (doc ps @ [value_code VALUE])" by simp
  show dead: "path_dead_end f q \<longleftrightarrow> pages = []"
    using dead_end_at [OF db(7) place assms(3)] num by auto
  show "(if \<not> path_dead_end f q then max_index q f else Some 0) = Some (length pages - 1)"
  proof (cases "pages = []")
    case False
    with max_index_at [OF db(1,7) place assms(3)] num obtain m where
      m: "m < length pages" "max_index q f = Some m" "\<And>k. k < length pages \<Longrightarrow> k \<le> m" by auto
    from m(3) [of "length pages - 1"] m(1) False have "m = length pages - 1" by simp
    with m(2) dead False show ?thesis by simp
  qed (use dead in simp)
qed

text \<open>The words of a page change nothing in a document.\<close>

lemma add_words_step:
  assumes "db_at d f" and "stands_at f p (doc ps)" and "document f ps names" and "words_ok f"
    and "tokenise W v part final whole = Some (ws, part')" and "room f (length ps * words_cost ws)"
  shows "\<exists>g. add_words W d v part whole final p f = Some (part', g) \<and>
    grows f g word_places (word_places \<union> id_places ps) (length ps * words_cost ws) \<and> words_added f g ws ps \<and>
    stepped d f g {} (length ps * words_cost ws)"
proof -
  from add_words_at [OF assms] obtain g where
    g: "add_words W d v part whole final p f = Some (part', g)"
      "grows f g word_places (word_places \<union> id_places ps) (length ps * words_cost ws)" "words_added f g ws ps" by blast
  have "within f {} word_places (word_places \<union> id_places ps)"
  proof (rule withinI, intro allI impI conjI ballI)
    fix qs k b assume b: "b \<in> word_places \<union> id_places ps"
    then show "\<not> prefix (doc qs @ [value_code PROPERTIES, value_code k]) b" "\<not> prefix (doc qs @ [value_code VALUE, value_code k]) b"
      by (auto simp: word_places_def id_places_def)
    show "node f (doc (qs @ [k])) \<noteq> None" if "prefix (doc (qs @ [k])) b"
      using b that document_there [OF assms(1,3)] by (auto simp: word_places_def id_places_def intro: prefix_order.trans)
  qed auto
  from keeps_grows [OF g(2) db_atD(1) [OF assms(1)] this] have "keeps f g {}" by simp
  with g db_at_grows [OF assms(1) g(2)] growsD(5) [OF g(2)] show ?thesis by (auto simp: stepped_def words_added_def)
qed

lemma word_places_out:
  "b \<in> word_places \<union> id_places ps \<Longrightarrow> \<not> prefix (doc qs @ value_code VALUE # xs) b" "doc qs @ value_code VALUE # xs \<notin> word_places"
  by (auto simp: id_places_def) (auto simp: word_places_def)

section \<open>A page\<close>

definition page_cost :: "nat \<Rightarrow> bstring \<Rightarrow> bstring list \<Rightarrow> nat" where
  "page_cost n val ws = 8 + 2 * n + length val + n * words_cost ws"

text \<open>A string that is being written: its pages so far, and no flag.\<close>

definition open_string :: "db_file \<Rightarrow> nat list \<Rightarrow> bstring list \<Rightarrow> bool" where
  "open_string f ps pages \<longleftrightarrow> pages_at f ps pages \<and> data f (doc ps @ [value_code VALUE]) = None \<and>
     (if pages = [] then blank_doc f ps \<and> (own_id f ps \<or> data f (doc ps @ [value_code ID]) = None) else type_at f ps STRING)"

lemma set_page_at:
  assumes db: "db_at d f" and words: "words_ok f" and at: "stands_at f p (doc ps)" and doc: "document f ps names"
    and str: "open_string f ps pages" and size: "length pages + 1 < 2 ^ 64"
    and tok: "if ix then tokenise W val part False False = Some (ws, part') else part' = part \<and> ws = []"
    and room: "room f (page_cost (length ps) val ws)"
  shows "\<exists>g. set_string_page clr W d val (length pages) ix part p f = Some (part', g) \<and>
    open_string g ps (pages @ [val]) \<and> stepped d f g {ps} (page_cost (length ps) val ws)"
proof -
  let ?V = "doc ps @ [value_code VALUE]" and ?n = "length pages" and ?w = "length ps * words_cost ws"
  let ?P = "doc ps @ [value_code VALUE, value_code ?n]"
  have room0: "room f (8 + 2 * length ps + length val + ?w)" using room by (simp add: page_cost_def)
  obtain f1 where 1: "(if ?n = 0 then set_type clr d STRING p f
      else if path_has_data f p \<and> path_get_type f p = Some STRING then Some f else None) = Some f1"
    "type_at f1 ps STRING" "pages_at f1 ps pages" "data f1 ?V = None" "stepped d f f1 {ps} (5 + 2 * length ps)"
  proof (cases "pages = []")
    case True
    with str have b: "blank_doc f ps" "own_id f ps \<or> data f (doc ps @ [value_code ID]) = None" by (auto simp: open_string_def)
    from set_type_bare [OF db words at doc b room_less [OF room0], of clr STRING] obtain g where
      "set_type clr d STRING p f = Some g" "type_at g ps STRING" "bare_doc g ps" "stepped d f g {ps} (5 + 2 * length ps)" by auto
    with True bare_pages that show thesis by (auto simp: bare_doc_def)
  next
    case False
    with str type_of_at [OF db_atD(1) [OF db] at, of STRING] stepped_refl [OF db words] that [of f] show thesis
      by (auto simp: open_string_def)
  qed
  note db1 = steppedD(1,2) [OF 1(5)]
  have at1: "stands_at f1 p (doc ps)" by (rule steppedD(5) [OF 1(5) at])
  have r1: "room f1 (3 + length val + ?w)" by (rule stepped_room [OF room0 1(5)]) simp
  from sub_index_step [OF db_atD(1) [OF db1(1)] at1 _ room_less [OF r1], of VALUE] obtain q f2 where
    2: "sub_index VALUE (p, f1) = (q, f2)" "grows f1 f2 {} {?V} 1" "stands_at f2 q ?V" by auto
  have r2: "room f2 (2 + length val + ?w)" by (rule room_after [OF r1 2(2)]) simp
  have at2: "stands_at f2 p (doc ps)" by (rule growsD(6) [OF 2(2) at1])
  have pages2: "pages_at f2 ps pages" by (rule pages_grows [OF 1(3) 2(2)]) (auto dest: prefix_length_le)
  have db2: "db_at d f2" by (rule db_at_grows [OF db1(1) 2(2)])
  have last: "path_dead_end f2 q \<or> \<not> ?n \<le> ?n - 1"
    using last_page(1) [OF db2 pages2 2(3)] by (cases pages) auto
  have "\<exists>q'. sub_index VALUE (p, f2) = (q', f2) \<and> stands_at f2 q' ?V"
    by (rule sub_index_there [OF at2]) (use 2(3) in \<open>simp add: stands_at_def\<close>)
  then obtain q' where q': "sub_index VALUE (p, f2) = (q', f2)" "stands_at f2 q' ?V" by blast
  have small: "?n < 2 ^ 64" using size by simp
  from sub_index_step [OF growsD(1) [OF 2(2)] q'(2) small room_less [OF r2]] obtain r f3 where
    3: "sub_index ?n (q', f2) = (r, f3)" "grows f2 f3 {} {?P} 1" "stands_at f3 r ?P" by auto
  have r3: "room f3 (1 + length val + ?w)" by (rule room_after [OF r2 3(2)]) simp
  have "room f3 (1 + length val)" by (rule room_less [OF r3]) simp
  from put_data_step [OF growsD(1) [OF 3(2)] 3(3) _ this, of val] obtain u f4 where
    4: "path_set_data val r f3 = Some (u, f4)" "grows f3 f4 {?P} {} (1 + length val)" "data f4 ?P = Some val" by auto
  have g14: "grows f1 f4 {?P} {?V, ?P} (3 + length val)"
    by (rule grows_mono [OF grows_trans [OF grows_trans [OF 2(2) 3(2)] 4(2)]]) auto
  have "within f1 {ps} {?P} {?V, ?P}" by (rule within_value) (use at1 in \<open>auto simp: stands_at_def\<close>)
  from stepped_grows [OF g14 db1 this] have st4: "stepped d f1 f4 {ps} (3 + length val)" by auto
  have at4: "stands_at f4 p (doc ps)" by (rule growsD(6) [OF g14 at1])
  have doc4: "document f4 ps names"
    by (rule stepped_document [OF stepped_document [OF doc 1(5)] st4]) (auto simp: strict_prefix_def)
  have r4: "room f4 ?w" by (rule stepped_room [OF r1 st4]) simp
  have pages4: "pages_at f4 ps (pages @ [val])"
    unfolding pages_at_def
  proof (intro conjI allI impI)
    show "data f4 (doc ps @ [value_code VALUE, value_code i]) = Some ((pages @ [val]) ! i)" if "i < length (pages @ [val])" for i
    proof (cases "i = ?n")
      case False
      with that 1(3) growsD(3) [OF g14, of "doc ps @ [value_code VALUE, value_code i]"] show ?thesis
        by (simp add: pages_at_def nth_append)
    qed (use 4(3) in simp)
    show "node f4 (doc ps @ [value_code VALUE, value_code i]) = None" if "length (pages @ [val]) \<le> i" for i
      by (rule new_node [OF g14]) (use that 1(3) in \<open>auto simp: pages_at_def dest: prefix_length_le\<close>)
  qed (use size in simp)
  have V4: "data f4 ?V = None" using growsD(3) [OF g14, of ?V] 1(4) by simp
  have type4: "type_at f4 ps STRING" by (rule type_at_grows [OF 1(2) g14]) simp
  obtain f5 where 5: "(if ix then add_words W d val part False False p f4 else Some (part, f4)) = Some (part', f5)"
    "open_string f5 ps (pages @ [val])" "stepped d f4 f5 {} ?w"
  proof (cases ix)
    case False
    with tok V4 type4 pages4 that [of f4] stepped_refl [OF steppedD(1,2) [OF st4]] show thesis by (auto simp: open_string_def)
  next
    case True
    with tok have t: "tokenise W val part False False = Some (ws, part')" by simp
    from add_words_step [OF steppedD(1) [OF st4] at4 doc4 steppedD(2) [OF st4] t r4] obtain g where
      g: "add_words W d val part False False p f4 = Some (part', g)" "grows f4 g word_places (word_places \<union> id_places ps) ?w"
        "stepped d f4 g {} ?w" by blast
    have "same_doc f4 g ps" by (rule steppedD(7) [OF g(3)]) simp
    then have "open_string g ps (pages @ [val])"
      using pages_same [OF pages4] V4 type4 by (simp add: open_string_def same_doc_def type_at_def)
    with g True that [of g] show thesis by simp
  qed
  have "set_string_page clr W d val ?n ix part p f = Some (part', f5)"
    using 1(1) 2(1) last_page(2) [OF db2 pages2 2(3)] last q'(1) 3(1) 4(1) 5(1)
    by (elim disjE) (simp_all add: set_string_page_def)
  moreover have "stepped d f f5 {ps} (page_cost (length ps) val ws)"
    by (rule stepped_mono [OF stepped_then [OF stepped_trans [OF 1(5) st4] 5(3), of "{ps}"]]) (simp_all add: page_cost_def)
  ultimately show ?thesis using 5(2) by blast
qed

section \<open>The end of a string\<close>

text \<open>A string that is complete.\<close>

definition string_ok :: "db_file \<Rightarrow> nat list \<Rightarrow> bstring list \<Rightarrow> bool" where
  "string_ok f ps pages \<longleftrightarrow> type_at f ps STRING \<and> pages_at f ps pages \<and> data f (doc ps @ [value_code VALUE]) \<noteq> None"

lemma string_same:
  assumes "string_ok f ps pages" and "same_doc f g ps"
  shows "string_ok g ps pages"
proof -
  have "data g (doc ps @ value_code VALUE # []) = data f (doc ps @ value_code VALUE # [])"
    using assms(2) unfolding same_doc_def by (metis codes_simps(1))
  with assms pages_same [of f ps pages g] show ?thesis by (simp add: string_ok_def same_doc_def type_at_def)
qed

text \<open>There are no pages to remove; the first one of an empty string is not there.\<close>

lemma remove_no_pages:
  assumes "db_at d f" and "pages_at f ps pages" and "stands_at f q (doc ps @ [value_code VALUE])"
  shows "remove_pages W d p q False (length pages) (length pages - 1) part f = Some (part, f)"
proof (cases "pages = []")
  case True
  have "\<not> has_index 0 f q" using has_index_at [OF assms(3), of 0] assms(2) True by (simp add: pages_at_def)
  then have "clear_index 0 q f = Some f" by (simp add: clear_index_def has_index_def path_clear_value_def)
  with True show ?thesis
    by (simp add: remove_pages.simps [of W d p q False 0 0] remove_pages.simps [of W d p q False 1 0])
next
  case False
  then have "\<not> length pages \<le> length pages - 1" by (cases pages) auto
  then show ?thesis by (simp add: remove_pages.simps [of W d p q False "length pages"])
qed

definition end_cost :: "nat \<Rightarrow> bstring list \<Rightarrow> nat" where
  "end_cost n ws = 8 + 2 * n + n * words_cost ws"

lemma end_string_at:
  assumes db: "db_at d f" and words: "words_ok f" and at: "stands_at f p (doc ps)" and doc: "document f ps names"
    and str: "open_string f ps pages" and tok: "tokenise W [] part True False = Some (ws, part')"
    and room: "room f (end_cost (length ps) ws)"
  shows "\<exists>g. end_string clr W d (length pages) ix part p f = Some g \<and> string_ok g ps pages \<and>
    stepped d f g {ps} (end_cost (length ps) ws)"
proof -
  let ?V = "doc ps @ [value_code VALUE]" and ?w = "length ps * words_cost ws"
  have room0: "room f (8 + 2 * length ps + ?w)" using room by (simp add: end_cost_def)
  obtain f1 where 1: "set_type clr d STRING p f = Some f1" "type_at f1 ps STRING" "pages_at f1 ps pages" "data f1 ?V = None"
    "stepped d f f1 {ps} (5 + 2 * length ps)"
  proof (cases "pages = []")
    case True
    with str have b: "blank_doc f ps" "own_id f ps \<or> data f (doc ps @ [value_code ID]) = None" by (auto simp: open_string_def)
    from set_type_bare [OF db words at doc b room_less [OF room0], of clr STRING] obtain g where
      "set_type clr d STRING p f = Some g" "type_at g ps STRING" "bare_doc g ps" "stepped d f g {ps} (5 + 2 * length ps)" by auto
    with True bare_pages that show thesis by (auto simp: bare_doc_def)
  next
    case False
    with str set_type_same [OF db at, of STRING clr] stepped_refl [OF db words] that [of f] show thesis
      by (auto simp: open_string_def)
  qed
  note db1 = steppedD(1,2) [OF 1(5)]
  have at1: "stands_at f1 p (doc ps)" by (rule steppedD(5) [OF 1(5) at])
  have doc1: "document f1 ps names" by (rule stepped_document [OF doc 1(5)]) (auto simp: strict_prefix_def)
  have r1: "room f1 (?w + 3)" by (rule stepped_room [OF room0 1(5)]) simp
  from add_words_step [OF db1(1) at1 doc1 db1(2) tok room_less [OF r1]] obtain f2 where
    2: "add_words W d [] part False True p f1 = Some (part', f2)" "stepped d f1 f2 {} ?w" by auto
  note db2 = steppedD(1,2) [OF 2(2)]
  have same: "same_doc f1 f2 ps" by (rule steppedD(7) [OF 2(2)]) simp
  have V2: "data f2 ?V = None" "type_at f2 ps STRING" "pages_at f2 ps pages"
    using same 1(2,4) pages_same [OF 1(3) same] by (simp_all add: same_doc_def type_at_def)
  have at2: "stands_at f2 p (doc ps)" by (rule steppedD(5) [OF 2(2) at1])
  have r2: "room f2 3" by (rule stepped_room [OF r1 2(2)]) simp
  from sub_index_step [OF db_atD(1) [OF db2(1)] at2 _ room_less [OF r2], of VALUE] obtain q f3 where
    3: "sub_index VALUE (p, f2) = (q, f3)" "grows f2 f3 {} {?V} 1" "stands_at f3 q ?V" by auto
  have pages3: "pages_at f3 ps pages" by (rule pages_grows [OF V2(3) 3(2)]) (auto dest: prefix_length_le)
  have db3: "db_at d f3" by (rule db_at_grows [OF db2(1) 3(2)])
  have "data f3 ?V = None" using growsD(3) [OF 3(2), of ?V] V2(1) by simp
  with get_data_at(2) [OF growsD(1) [OF 3(2)] 3(3)] have flag: "pages_indexed q f3 = Some False" by (simp add: pages_indexed_def)
  have r3: "room f3 2" by (rule room_after [OF r2 3(2)]) simp
  have "8 + length (bool_bytes ix) \<le> 2 * 2 ^ 17" by (simp add: bool_bytes_def)
  from put_data_step [OF growsD(1) [OF 3(2)] 3(3) this r3] obtain u g where
    4: "path_set_bool ix q f3 = Some (u, g)" "grows f3 g {?V} {} 2" "data g ?V = Some (bool_bytes ix)"
    by (auto simp: path_set_bool_def)
  have gr: "grows f2 g {?V} {?V} 3" by (rule grows_mono [OF grows_trans [OF 3(2) 4(2)]]) auto
  have "within f2 {ps} {?V} {?V}" by (rule within_value) (use at2 in \<open>auto simp: stands_at_def\<close>)
  from stepped_grows [OF gr db2 this] have st: "stepped d f2 g {ps} 3" by auto
  have "end_string clr W d (length pages) ix part p f = Some g"
    using 1(1) 2(1) 3(1) last_page(2) [OF db3 pages3 3(3)] flag remove_no_pages [OF db3 pages3 3(3)] 4(1)
    by (simp add: end_string_def)
  moreover have "string_ok g ps pages"
    using pages_grows [OF pages3 4(2)] 4(3) type_at_grows [OF V2(2) gr] by (simp add: string_ok_def)
  moreover have "stepped d f g {ps} (end_cost (length ps) ws)"
    by (rule stepped_mono [OF stepped_then [OF stepped_then [OF 1(5) 2(2), of "{ps}"] st, of "{ps}"]]) (simp_all add: end_cost_def)
  ultimately show ?thesis by blast
qed

section \<open>Reading a string\<close>

lemma get_string_loop_at:
  assumes "tidy f" and "pages_at f ps pages" and fin: "finite (numbers f (doc ps @ [value_code VALUE]))"
    and at: "stands_at f p (doc ps)"
    and "visits f (doc ps @ [value_code VALUE]) it [i..<length pages]" and st: "store_ok f"
  shows "get_string_loop p it val f = Some (val @ concat (drop i pages), f)"
  using assms(5)
proof (induction "length pages - i" arbitrary: i it val)
  case 0
  then show ?case using visits_end [OF 0(2)] by (simp add: get_string_loop.simps [of p it])
next
  case (Suc n)
  let ?V = "doc ps @ [value_code VALUE]"
  have i: "i < length pages" using Suc.hyps(2) by simp
  have list: "[i..<length pages] = i # [Suc i..<length pages]" by (rule upt_conv_Cons [OF i])
  have V: "visits f ?V it (i # [Suc i..<length pages])" using Suc.prems unfolding list .
  from visits_item [OF V] obtain u where u: "it_item it = i" "it_path it = Some (u, f)" by blast
  have page: "data f (?V @ [value_code i]) = Some (pages ! i)" using assms(2) i by (simp add: pages_at_def)
  then have there: "node f (?V @ [value_code i]) \<noteq> None" using data_node by blast
  then have "node f ?V \<noteq> None" by (rule node_extend)
  from sub_index_there [OF at this] obtain q where q: "sub_index VALUE (p, f) = (q, f)" "stands_at f q ?V" by blast
  from sub_index_there [OF q(2) there] obtain r where r: "sub_index i (q, f) = (r, f)" "stands_at f r (?V @ [value_code i])" by blast
  have data: "path_get_data f r = Some (pages ! i)" using get_data_at(1) [OF st r(2)] page by simp
  from visits_next [OF assms(1) _ fin V] obtain it' where
    it': "iterator_next read_index db_path_ops it = Some it'" "visits f ?V it' [Suc i..<length pages]" by auto
  have same: "it\<lparr>it_path := Some (u, f)\<rparr> = it" using u(2) by (cases it) simp
  have "iterator_next read_index db_path_ops (it\<lparr>it_path := Some (u, f)\<rparr>) = Some it'" unfolding same by (rule it'(1))
  then have "get_string_loop p it val f = get_string_loop p it' (val @ pages ! i) f"
    using visits_end [OF V] u q(1) r(1) data by (simp add: get_string_loop.simps [of p it])
  moreover have "drop i pages = pages ! i # drop (Suc i) pages" by (rule Cons_nth_drop_Suc [OF i, symmetric])
  ultimately show ?case using Suc.hyps(1) [OF _ it'(2), of "val @ pages ! i"] Suc.hyps(2) by simp
qed

lemma get_string_at:
  assumes db: "db_at d f" and at: "stands_at f p (doc ps)" and ok: "string_ok f ps pages"
  shows "get_string_value p f = Some (concat pages, f)"
proof -
  let ?V = "doc ps @ [value_code VALUE]"
  note inv = db_atD [OF db]
  have "node f ?V \<noteq> None" using ok data_node by (simp add: string_ok_def)
  from sub_index_there [OF at this] obtain q where q: "sub_index VALUE (p, f) = (q, f)" "stands_at f q ?V" by blast
  have pages: "pages_at f ps pages" using ok by (simp add: string_ok_def)
  have place: "json_place ?V" by simp
  from visits_begin [OF inv(1,7) place q(2)] obtain it where
    it: "iterator_begin read_index db_path_ops (q, f) 0 = Some it" "visits f ?V it [0..<length pages]"
    unfolding pages_numbers [OF pages] sorted_list_of_set_range by blast
  from get_string_loop_at [OF inv(7) pages numbers_finite [OF inv(1,7) place q(2)] at it(2) inv(1), of "[]"] q(1) it(1)
  show ?thesis by (simp add: get_string_value_def)
qed

end
