(* ===== verification/JSON_Import.thy ===== *)
theory JSON_Import
  imports JSON_Value
begin

text \<open>
  Loading a JSON text into the database (class \<open>JSONPathParser\<close>, code/Database/JSONPathParser.hpp): the JSON parser calls the
  methods \<open>on...\<close> while it reads, and these keep stacks of the documents, positions, names and types above the
  value that is read. Here a call is an event. A stack is a list with its top first; the top of an empty one is undefined (\<open>None\<close>). The
  log is the default \<open>cnull\<close>, which drops what is written, and nobody has registered callbacks for
  single properties. \<open>userId\<close> is the identifier of the user, which the name \<open>my\<close> stands for.
\<close>

section \<open>The state\<close>

text \<open>The values of a JSON match that its events report: the type and the text.\<close>

datatype import_event =
    Begin_Object
  | Object_Key bstring
  | Object_Value bstring json_type bstring
  | End_Object
  | Begin_Array
  | Array_Value json_type bstring
  | End_Array
  | Begin_String
  | Part_String bstring
  | End_String
  | Value json_type bstring

record import_state =
  im_start :: path
  im_paths :: "path list"
  im_indexes :: "index list"
  im_keys :: "bstring list"
  im_types :: "json_type list"
  im_string :: "path option"
  im_part_word :: bstring
  im_page :: index
  im_index_string :: bool

definition import_new :: "path \<Rightarrow> import_state" where
  "import_new p =
     \<lparr>im_start = p, im_paths = [], im_indexes = [], im_keys = [], im_types = [], im_string = None, im_part_word = [],
      im_page = 0, im_index_string = True\<rparr>"

definition stack_top :: "'a list \<Rightarrow> 'a option" where
  "stack_top xs = (case xs of [] \<Rightarrow> None | x # _ \<Rightarrow> Some x)"

definition stack_pop :: "'a list \<Rightarrow> 'a list option" where
  "stack_pop xs = (case xs of [] \<Rightarrow> None | _ # ys \<Rightarrow> Some ys)"

section \<open>The private methods\<close>

definition set_variable ::
    "(path \<Rightarrow> db_file \<Rightarrow> db_file option) \<Rightarrow> wide_ctype \<Rightarrow> json_db \<Rightarrow> json_type \<Rightarrow> bstring \<Rightarrow> path \<Rightarrow> db_file \<Rightarrow> db_file option" where
  "set_variable clr W d t val p f =
     (case t of
        UNDEFINED \<Rightarrow> set_undefined clr W d p f
      | NULL \<Rightarrow> set_null clr d p f
      | BOOLEAN \<Rightarrow> set_boolean clr d val p f
      | INTEGER \<Rightarrow> set_integer clr d val p f
      | NUMBER \<Rightarrow> set_number clr d val p f
      | STRING \<Rightarrow> Some f
      | ARRAY \<Rightarrow> set_array clr d p f
      | OBJECT \<Rightarrow> set_object clr d p f
      | USER \<Rightarrow> None)"

text \<open>The path of the value that begins.\<close>

definition next_path ::
    "(path \<Rightarrow> db_file \<Rightarrow> db_file option) \<Rightarrow> wide_ctype \<Rightarrow> json_db \<Rightarrow> import_state \<Rightarrow> db_file \<Rightarrow> cursor option" where
  "next_path clr W d st f =
     (case im_paths st of
        [] \<Rightarrow> Some (im_start st, f)
      | p # _ \<Rightarrow>
          do { t \<leftarrow> stack_top (im_types st);
               if t = OBJECT then do { key \<leftarrow> stack_top (im_keys st); at_property clr W d key p f }
               else do { i \<leftarrow> stack_top (im_indexes st); at_index clr W d ((i + 1) mod 2 ^ 64) p f } })"

definition push_back_path ::
    "(path \<Rightarrow> db_file \<Rightarrow> db_file option) \<Rightarrow> wide_ctype \<Rightarrow> json_db \<Rightarrow> json_type \<Rightarrow> import_state \<Rightarrow> db_file \<Rightarrow>
     (import_state \<times> db_file) option" where
  "push_back_path clr W d t st f =
     do { (p, f) \<leftarrow> next_path clr W d st f;
          f \<leftarrow> (if t = OBJECT then set_object clr d p f else if t = ARRAY then set_array clr d p f else Some f);
          Some (st\<lparr>im_paths := p # im_paths st, im_indexes := (if t = ARRAY then 0 # im_indexes st else im_indexes st),
                   im_types := t # im_types st\<rparr>, f) }"

definition pop_back_path :: "import_state \<Rightarrow> import_state option" where
  "pop_back_path st =
     do { paths \<leftarrow> stack_pop (im_paths st);
          t \<leftarrow> stack_top (im_types st);
          indexes \<leftarrow> (if t = ARRAY then stack_pop (im_indexes st) else Some (im_indexes st));
          types \<leftarrow> stack_pop (im_types st);
          Some (st\<lparr>im_paths := paths, im_indexes := indexes, im_types := types\<rparr>) }"

definition push_back_key :: "bstring \<Rightarrow> bstring \<Rightarrow> import_state \<Rightarrow> import_state" where
  "push_back_key user_id key st = st\<lparr>im_keys := (if key = ''my'' then user_id else key) # im_keys st\<rparr>"

definition pop_back_key :: "import_state \<Rightarrow> import_state option" where
  "pop_back_key st = map_option (\<lambda>keys. st\<lparr>im_keys := keys\<rparr>) (stack_pop (im_keys st))"

text \<open>\<open>++topIndex()\<close>.\<close>

definition next_index :: "import_state \<Rightarrow> (index \<times> import_state) option" where
  "next_index st =
     (case im_indexes st of [] \<Rightarrow> None
      | i # indexes \<Rightarrow> (let i = (i + 1) mod 2 ^ 64 in Some (i, st\<lparr>im_indexes := i # indexes\<rparr>)))"

section \<open>The callbacks\<close>

definition on_object_value ::
    "(path \<Rightarrow> db_file \<Rightarrow> db_file option) \<Rightarrow> wide_ctype \<Rightarrow> json_db \<Rightarrow> bstring \<Rightarrow> json_type \<Rightarrow> bstring \<Rightarrow> import_state \<Rightarrow> db_file \<Rightarrow>
     (import_state \<times> db_file) option" where
  "on_object_value clr W d key t val st f =
     (if t \<noteq> STRING then
        do { p \<leftarrow> stack_top (im_paths st);
             (p, f) \<leftarrow> at_property clr W d key p f;
             f \<leftarrow> set_variable clr W d t val p f;
             st \<leftarrow> pop_back_key st;
             Some (st, f) }
      else Some (st, f))"

definition on_array_value ::
    "(path \<Rightarrow> db_file \<Rightarrow> db_file option) \<Rightarrow> wide_ctype \<Rightarrow> json_db \<Rightarrow> json_type \<Rightarrow> bstring \<Rightarrow> import_state \<Rightarrow> db_file \<Rightarrow>
     (import_state \<times> db_file) option" where
  "on_array_value clr W d t val st f =
     (if t \<noteq> STRING then
        do { p \<leftarrow> stack_top (im_paths st);
             (i, st) \<leftarrow> next_index st;
             (p, f) \<leftarrow> at_index clr W d i p f;
             f \<leftarrow> set_variable clr W d t val p f;
             Some (st, f) }
      else Some (st, f))"

definition on_end_array ::
    "(path \<Rightarrow> db_file \<Rightarrow> db_file option) \<Rightarrow> import_state \<Rightarrow> db_file \<Rightarrow> (import_state \<times> db_file) option" where
  "on_end_array clr st f =
     do { n \<leftarrow> stack_top (im_indexes st);
          p \<leftarrow> stack_top (im_paths st);
          f \<leftarrow> truncate_array clr n p f;
          st \<leftarrow> pop_back_path st;
          Some (st, f) }"

definition on_begin_string ::
    "(path \<Rightarrow> db_file \<Rightarrow> db_file option) \<Rightarrow> wide_ctype \<Rightarrow> json_db \<Rightarrow> import_state \<Rightarrow> db_file \<Rightarrow> (import_state \<times> db_file) option" where
  "on_begin_string clr W d st f =
     (case im_paths st of
        [] \<Rightarrow> Some (st\<lparr>im_string := Some (im_start st), im_page := 0\<rparr>, f)
      | p # _ \<Rightarrow>
          do { t \<leftarrow> stack_top (im_types st);
               if t = OBJECT then
                 do { key \<leftarrow> stack_top (im_keys st);
                      (q, f) \<leftarrow> at_property clr W d key p f;
                      st \<leftarrow> pop_back_key st;
                      Some (st\<lparr>im_string := Some q, im_page := 0\<rparr>, f) }
               else if t = ARRAY then
                 do { (i, st) \<leftarrow> next_index st;
                      (q, f) \<leftarrow> at_index clr W d i p f;
                      Some (st\<lparr>im_string := Some q, im_page := 0\<rparr>, f) }
               else Some (st\<lparr>im_page := 0\<rparr>, f) })"

definition on_part_string ::
    "(path \<Rightarrow> db_file \<Rightarrow> db_file option) \<Rightarrow> wide_ctype \<Rightarrow> json_db \<Rightarrow> bstring \<Rightarrow> import_state \<Rightarrow> db_file \<Rightarrow>
     (import_state \<times> db_file) option" where
  "on_part_string clr W d s st f =
     (let st = (if im_page st = 0 then st\<lparr>im_index_string := \<not> is_data s\<rparr> else st)
      in do { p \<leftarrow> im_string st;
              (part, f) \<leftarrow> set_string_page clr W d s (im_page st) (im_index_string st) (im_part_word st) p f;
              Some (st\<lparr>im_page := (im_page st + 1) mod 2 ^ 64, im_part_word := part\<rparr>, f) })"

text \<open>\<open>endString\<close> sets the part of a word to the empty string.\<close>

definition on_end_string ::
    "(path \<Rightarrow> db_file \<Rightarrow> db_file option) \<Rightarrow> wide_ctype \<Rightarrow> json_db \<Rightarrow> import_state \<Rightarrow> db_file \<Rightarrow> (import_state \<times> db_file) option" where
  "on_end_string clr W d st f =
     do { p \<leftarrow> im_string st;
          f \<leftarrow> end_string clr W d (im_page st) (im_index_string st) (im_part_word st) p f;
          Some (st\<lparr>im_part_word := [], im_page := 0\<rparr>, f) }"

definition on_value ::
    "(path \<Rightarrow> db_file \<Rightarrow> db_file option) \<Rightarrow> wide_ctype \<Rightarrow> json_db \<Rightarrow> json_type \<Rightarrow> bstring \<Rightarrow> import_state \<Rightarrow> db_file \<Rightarrow>
     (import_state \<times> db_file) option" where
  "on_value clr W d t val st f =
     (if im_paths st = [] \<and> t \<noteq> STRING then map_option (\<lambda>f. (st, f)) (set_variable clr W d t val (im_start st) f)
      else Some (st, f))"

fun on_event ::
    "(path \<Rightarrow> db_file \<Rightarrow> db_file option) \<Rightarrow> wide_ctype \<Rightarrow> json_db \<Rightarrow> bstring \<Rightarrow> import_event \<Rightarrow> import_state \<Rightarrow> db_file \<Rightarrow>
     (import_state \<times> db_file) option" where
  "on_event clr W d user_id Begin_Object st f = push_back_path clr W d OBJECT st f"
| "on_event clr W d user_id (Object_Key key) st f = Some (push_back_key user_id key st, f)"
| "on_event clr W d user_id (Object_Value key t val) st f = on_object_value clr W d key t val st f"
| "on_event clr W d user_id End_Object st f = map_option (\<lambda>st. (st, f)) (pop_back_path st)"
| "on_event clr W d user_id Begin_Array st f = push_back_path clr W d ARRAY st f"
| "on_event clr W d user_id (Array_Value t val) st f = on_array_value clr W d t val st f"
| "on_event clr W d user_id End_Array st f = on_end_array clr st f"
| "on_event clr W d user_id Begin_String st f = on_begin_string clr W d st f"
| "on_event clr W d user_id (Part_String s) st f = on_part_string clr W d s st f"
| "on_event clr W d user_id End_String st f = on_end_string clr W d st f"
| "on_event clr W d user_id (Value t val) st f = on_value clr W d t val st f"

text \<open>The calls of a text, in the order in which the parser makes them.\<close>

fun import_events ::
    "(path \<Rightarrow> db_file \<Rightarrow> db_file option) \<Rightarrow> wide_ctype \<Rightarrow> json_db \<Rightarrow> bstring \<Rightarrow> import_event list \<Rightarrow> import_state \<Rightarrow> db_file \<Rightarrow>
     (import_state \<times> db_file) option" where
  "import_events clr W d user_id [] st f = Some (st, f)"
| "import_events clr W d user_id (e # es) st f =
     do { (st, f) \<leftarrow> on_event clr W d user_id e st f; import_events clr W d user_id es st f }"

text \<open>The destructor ends a string that the text did not end.\<close>

definition import_close ::
    "(path \<Rightarrow> db_file \<Rightarrow> db_file option) \<Rightarrow> wide_ctype \<Rightarrow> json_db \<Rightarrow> import_state \<Rightarrow> db_file \<Rightarrow> db_file option" where
  "import_close clr W d st f =
     (if im_page st \<noteq> 0 then
        do { p \<leftarrow> im_string st; end_string clr W d (im_page st) (im_index_string st) (im_part_word st) p f }
      else Some f)"

end
