(* ===== verification/JSON_Load.thy ===== *)
theory JSON_Load
  imports JSON_Properties JSON_Strings JSON_Import
begin

text \<open>
  What a document holds, and what loading a JSON text stores: a value without parts, a string, an array whose elements are
  stored, an object whose properties are stored.
\<close>

declare One_nat_def [simp del]

section \<open>JSON values\<close>

datatype json_doc =
    Scalar json_type bstring
  | Text "bstring list"
  | Items "json_doc list"
  | Members "(bstring \<times> json_doc) list"

abbreviation members_size :: "(bstring \<times> json_doc) list \<Rightarrow> nat" where
  "members_size \<equiv> size_list (size_prod (\<lambda>_. 0) size)"

lemma json_doc_induct [case_names Scalar Text Items Members]:
  assumes "\<And>t x. P (Scalar t x)" and "\<And>ss. P (Text ss)" and "\<And>vs. (\<And>v. v \<in> set vs \<Longrightarrow> P v) \<Longrightarrow> P (Items vs)"
    and "\<And>kvs. (\<And>s v. (s, v) \<in> set kvs \<Longrightarrow> P v) \<Longrightarrow> P (Members kvs)"
  shows "P v"
proof (induction v)
  case (Members kvs)
  show ?case by (rule assms(4)) (use Members in \<open>auto simp: snds.simps\<close>)
qed (use assms in blast)+

fun doc_type :: "json_doc \<Rightarrow> json_type" where
  "doc_type (Scalar t _) = t"
| "doc_type (Text _) = STRING"
| "doc_type (Items _) = ARRAY"
| "doc_type (Members _) = OBJECT"

fun doc_text :: "json_doc \<Rightarrow> bstring" where
  "doc_text (Scalar _ x) = x"
| "doc_text (Text ss) = (if ss = [] then [] else last ss)"
| "doc_text (Items _) = []"
| "doc_text (Members _) = []"

text \<open>The events of a value. A string comes in parts.\<close>

function (sequential) value_events :: "json_doc \<Rightarrow> import_event list"
  and item_events :: "json_doc list \<Rightarrow> import_event list"
  and member_events :: "(bstring \<times> json_doc) list \<Rightarrow> import_event list" where
  "value_events (Scalar t x) = []"
| "value_events (Text ss) = Begin_String # map Part_String ss @ [End_String]"
| "value_events (Items vs) = Begin_Array # item_events vs @ [End_Array]"
| "value_events (Members kvs) = Begin_Object # member_events kvs @ [End_Object]"
| "item_events [] = []"
| "item_events (v # vs) =
     value_events v @ Value (doc_type v) (doc_text v) # Array_Value (doc_type v) (doc_text v) # item_events vs"
| "member_events [] = []"
| "member_events ((s, v) # kvs) =
     Object_Key s # value_events v @ Value (doc_type v) (doc_text v) # Object_Value s (doc_type v) (doc_text v) # member_events kvs"
  by pat_completeness auto
termination
  by (relation "measure (case_sum size (case_sum (size_list size) members_size))") auto

definition load_events :: "json_doc \<Rightarrow> import_event list" where
  "load_events v = value_events v @ [Value (doc_type v) (doc_text v)]"

section \<open>What is stored\<close>

function (sequential) stored :: "db_file \<Rightarrow> nat list \<Rightarrow> json_doc \<Rightarrow> bool"
  and stored_items :: "db_file \<Rightarrow> nat list \<Rightarrow> nat \<Rightarrow> json_doc list \<Rightarrow> bool"
  and stored_members :: "db_file \<Rightarrow> nat list \<Rightarrow> nat \<Rightarrow> (bstring \<times> json_doc) list \<Rightarrow> bool" where
  "stored f ps (Scalar t x) =
     (if t = UNDEFINED then blank_doc f ps
      else type_at f ps t \<and> (t = NULL \<or> data f (doc ps @ [value_code VALUE]) = Some x))"
| "stored f ps (Text ss) = string_ok f ps ss"
| "stored f ps (Items vs) = (array_ok f ps (length vs) \<and> stored_items f ps 1 vs)"
| "stored f ps (Members kvs) = (object_ok f ps (length kvs) \<and> stored_members f ps 1 kvs)"
| "stored_items f ps k [] = True"
| "stored_items f ps k (v # vs) = (stored f (ps @ [k]) v \<and> stored_items f ps (k + 1) vs)"
| "stored_members f ps k [] = True"
| "stored_members f ps k ((s, v) # kvs) =
     (placed f ps s k \<and> stored f (ps @ [k]) v \<and> stored_members f ps (k + 1) kvs)"
  by pat_completeness auto
termination
  by (relation "measure (case_sum (\<lambda>(f, ps, v). size v)
        (case_sum (\<lambda>(f, ps, k, vs). size_list size vs) (\<lambda>(f, ps, k, kvs). members_size kvs)))") auto

text \<open>The documents at and below a place.\<close>

definition below :: "nat list \<Rightarrow> nat list set" where
  "below ps = {qs. prefix ps qs}"

lemma below_simps [simp]: "ps \<in> below ps" "below (ps @ [k]) \<subseteq> below ps" "qs \<in> below ps \<longleftrightarrow> prefix ps qs"
  by (auto simp: below_def dest: append_prefixD)

text \<open>A value stays stored when no document of it changes.\<close>

lemma stored_same:
  shows "stored f ps v \<Longrightarrow> (\<And>qs. prefix ps qs \<Longrightarrow> same_doc f g qs) \<Longrightarrow> stored g ps v"
    and "stored_items f ps k vs \<Longrightarrow> (\<And>qs. strict_prefix ps qs \<Longrightarrow> same_doc f g qs) \<Longrightarrow> stored_items g ps k vs"
    and "stored_members f ps k kvs \<Longrightarrow> (\<And>qs. strict_prefix ps qs \<Longrightarrow> same_doc f g qs) \<Longrightarrow>
      (\<And>s j. placed f ps s j \<Longrightarrow> placed g ps s j) \<Longrightarrow> stored_members g ps k kvs"
proof (induction f ps v and f ps k vs and f ps k kvs rule: stored_stored_items_stored_members.induct)
  case (1 f ps t x)
  have s: "same_doc f g ps" using 1 by simp
  have "data g (doc ps @ value_code VALUE # []) = data f (doc ps @ value_code VALUE # [])"
    using s unfolding same_doc_def by (metis codes_simps(1))
  with 1(1) s show ?case by (auto simp: same_doc_def type_at_def split: if_splits)
next
  case (2 f ps ss)
  then show ?case using string_same by simp
next
  case (3 f ps vs)
  then have "same_doc f g ps" by simp
  with 3 show ?case by (simp add: same_doc_def prefix_order.less_imp_le)
next
  case (4 f ps kvs)
  then have ok: "object_ok f ps (length kvs)" "stored_members f ps 1 kvs" and s: "same_doc f g ps" by simp_all
  have keep: "object_ok g ps (length kvs)" "placed f ps t j \<Longrightarrow> placed g ps t j" for t j
    using s ok(1) unfolding same_doc_def by blast+
  have "stored_members g ps 1 kvs" using 4(1) [OF ok(2)] 4(3) keep(2) by (simp add: prefix_order.less_imp_le)
  with keep(1) show ?case by simp
next
  case (6 f ps k v vs)
  then show ?case by (simp add: strict_prefix_def) (metis append_prefixD prefix_snoc same_append_eq append_self_conv not_Cons_self2 prefix_order.antisym prefixI)
next
  case (8 f ps k s v kvs)
  then show ?case by (simp add: strict_prefix_def) (metis append_prefixD prefix_snoc same_append_eq append_self_conv not_Cons_self2 prefix_order.antisym prefixI)
qed simp_all

section \<open>What can be loaded, and what it takes\<close>

text \<open>The words of the parts of a string, in the order in which they are indexed.\<close>

fun part_words :: "wide_ctype \<Rightarrow> bool \<Rightarrow> bstring \<Rightarrow> bstring list \<Rightarrow> bstring list list option" where
  "part_words W ix part [] = map_option (\<lambda>(ws, _). [ws]) (tokenise W [] part True False)"
| "part_words W ix part (s # ss) =
     (if ix then do { (ws, part) \<leftarrow> tokenise W s part False False; map_option ((#) ws) (part_words W ix part ss) }
      else map_option ((#) []) (part_words W ix part ss))"

definition text_words :: "wide_ctype \<Rightarrow> bstring list \<Rightarrow> bstring list list option" where
  "text_words W ss = part_words W (ss = [] \<or> \<not> is_data (hd ss)) [] ss"

fun parts_cost :: "nat \<Rightarrow> bstring list \<Rightarrow> bstring list list \<Rightarrow> nat" where
  "parts_cost n (s # ss) (ws # wss) = page_cost n s ws + parts_cost n ss wss"
| "parts_cost n [] [ws] = end_cost n ws"
| "parts_cost n _ _ = 0"

text \<open>The names are those of the document and of the ones it is in.\<close>

function (sequential) loadable :: "wide_ctype \<Rightarrow> json_key list \<Rightarrow> json_doc \<Rightarrow> bool"
  and loadable_items :: "wide_ctype \<Rightarrow> json_key list \<Rightarrow> nat \<Rightarrow> json_doc list \<Rightarrow> bool"
  and loadable_members :: "wide_ctype \<Rightarrow> json_key list \<Rightarrow> (bstring \<times> json_doc) list \<Rightarrow> bool" where
  "loadable W names (Scalar t x) = (t \<in> {UNDEFINED, NULL, BOOLEAN, INTEGER, NUMBER})"
| "loadable W names (Text ss) = (length ss < 2 ^ 64 \<and> text_words W ss \<noteq> None)"
| "loadable W names (Items vs) =
     (length vs < 2 ^ 64 \<and> names_ok W (drop 2 names) \<and> loadable_items W names 1 vs)"
| "loadable W names (Members kvs) =
     (length kvs + 1 < 2 ^ 64 \<and> distinct (map fst kvs) \<and> loadable_members W names kvs)"
| "loadable_items W names k [] = True"
| "loadable_items W names k (v # vs) = (loadable W (names @ [Element k]) v \<and> loadable_items W names (k + 1) vs)"
| "loadable_members W names [] = True"
| "loadable_members W names ((s, v) # kvs) =
     (s \<noteq> ''my'' \<and> names_ok W (drop 2 (names @ [Property s])) \<and> loadable W (names @ [Property s]) v \<and>
      loadable_members W names kvs)"
  by pat_completeness auto
termination
  by (relation "measure (case_sum (\<lambda>(W, names, v). size v)
        (case_sum (\<lambda>(W, names, k, vs). size_list size vs) (\<lambda>(W, names, kvs). members_size kvs)))") auto

function (sequential) load_cost :: "wide_ctype \<Rightarrow> json_key list \<Rightarrow> json_doc \<Rightarrow> nat"
  and items_cost :: "wide_ctype \<Rightarrow> json_key list \<Rightarrow> nat \<Rightarrow> json_doc list \<Rightarrow> nat"
  and members_cost :: "wide_ctype \<Rightarrow> json_key list \<Rightarrow> (bstring \<times> json_doc) list \<Rightarrow> nat" where
  "load_cost W names (Scalar t x) = 7 + 2 * length names + length x"
| "load_cost W names (Text ss) = parts_cost (length names) ss (the (text_words W ss))"
| "load_cost W names (Items vs) = 8 + 2 * length names + items_cost W names 1 vs"
| "load_cost W names (Members kvs) = 5 + 2 * length names + members_cost W names kvs"
| "items_cost W names k [] = 0"
| "items_cost W names k (v # vs) =
     2 * index_op_cost W names 0 1 + load_cost W (names @ [Element k]) v + items_cost W names (k + 1) vs"
| "members_cost W names [] = 0"
| "members_cost W names ((s, v) # kvs) =
     2 * member_cost W s names + load_cost W (names @ [Property s]) v + members_cost W names kvs"
  by pat_completeness auto
termination
  by (relation "measure (case_sum (\<lambda>(W, names, v). size v)
        (case_sum (\<lambda>(W, names, k, vs). size_list size vs) (\<lambda>(W, names, kvs). members_size kvs)))") auto

section \<open>Steps of the parser\<close>

lemma import_events_append:
  "import_events clr W d u (es @ es') st f =
     Option.bind (import_events clr W d u es st f) (\<lambda>(st, f). import_events clr W d u es' st f)"
  by (induction es arbitrary: st f) (auto split: prod.splits bind_splits)

text \<open>A document that waits for its value.\<close>

definition ready :: "json_db \<Rightarrow> db_file \<Rightarrow> path \<Rightarrow> nat list \<Rightarrow> json_key list \<Rightarrow> bool" where
  "ready d f p ps names \<longleftrightarrow> db_at d f \<and> words_ok f \<and> stands_at f p (doc ps) \<and> document f ps names \<and> blank_doc f ps \<and>
     (own_id f ps \<or> data f (doc ps @ [value_code ID]) = None)"

lemma readyD:
  assumes "ready d f p ps names"
  shows "db_at d f" and "words_ok f" and "stands_at f p (doc ps)" and "document f ps names" and "blank_doc f ps"
    and "own_id f ps \<or> data f (doc ps @ [value_code ID]) = None" and "length names = length ps"
proof -
  show "document f ps names" "own_id f ps \<or> data f (doc ps @ [value_code ID]) = None" using assms by (simp_all add: ready_def)
  then show "length names = length ps" by (simp add: document_length)
qed (use assms in \<open>simp_all add: ready_def\<close>)

lemma ready_type:
  assumes "ready d f p ps names" and "room f (5 + 2 * length names)"
  shows "\<exists>g. set_type clr d t p f = Some g \<and> type_at g ps t \<and> bare_doc g ps \<and> stepped d f g {ps} (5 + 2 * length names)"
proof -
  note r = readyD [OF assms(1)]
  from set_type_bare [OF r(1-6), of clr t] assms(2) r(7) show ?thesis by auto
qed

text \<open>A value without parts.\<close>

lemma set_scalar:
  assumes ready: "ready d f p ps names" and t: "t \<in> {UNDEFINED, NULL, BOOLEAN, INTEGER, NUMBER}"
    and room: "room f (7 + 2 * length names + length x)"
  shows "\<exists>g. set_variable clr W d t x p f = Some g \<and> stored g ps (Scalar t x) \<and>
    stepped d f g {ps} (7 + 2 * length names + length x)"
proof (cases "t = UNDEFINED")
  case True
  note r = readyD [OF ready]
  have "data f (doc ps) = None" using r(5) by (simp add: blank_doc_def)
  from type_of_none(2) [OF db_atD(1) [OF r(1)] r(3) this] True r(5) stepped_refl [OF r(1,2)] show ?thesis
    by (simp add: set_variable_def set_undefined_def)
next
  case False
  from ready_type [OF ready room_less [OF room], of clr t] obtain g where
    g: "set_type clr d t p f = Some g" "type_at g ps t" "stepped d f g {ps} (5 + 2 * length names)" by auto
  show ?thesis
  proof (cases "t = NULL")
    case True
    moreover have "stepped d f g {ps} (7 + 2 * length names + length x)" by (rule stepped_mono [OF g(3)]) auto
    ultimately show ?thesis using g(1,2) by (simp add: set_variable_def set_null_def)
  next
    case other: False
    have "room g (2 + length x)" by (rule stepped_room [OF room g(3)]) simp
    from put_value_at [OF steppedD(1,2) [OF g(3)] steppedD(5) [OF g(3) readyD(3) [OF ready]] this] obtain q h r i where
      h: "sub_index VALUE (p, g) = (q, h)" "path_set_data x q h = Some (r, i)" "data i (doc ps @ [value_code VALUE]) = Some x"
        "data i (doc ps) = data g (doc ps)" "stepped d g i {ps} (2 + length x)" by blast
    have "set_variable clr W d t x p f = Some i"
      using t False other g(1) h(1,2) by (auto simp: set_variable_def set_boolean_def set_integer_def set_number_def)
    moreover have "stored i ps (Scalar t x)" using False g(2) h(3,4) by (simp add: type_at_def)
    moreover have "stepped d f i {ps} (7 + 2 * length names + length x)"
      by (rule stepped_mono [OF stepped_trans [OF g(3) h(5)]]) auto
    ultimately show ?thesis by blast
  qed
qed

text \<open>A value that is stored already has its type.\<close>

lemma set_variable_same:
  assumes "db_at d f" and "stands_at f p (doc ps)" and "stored f ps v" and "\<And>t x. v \<noteq> Scalar t x"
  shows "set_variable clr W d (doc_type v) x p f = Some f"
proof (cases v)
  case (Items vs)
  with assms set_type_same [OF assms(1,2), of ARRAY clr] array_okD(1) show ?thesis
    by (auto simp: set_variable_def set_array_def)
next
  case (Members kvs)
  with assms set_type_same [OF assms(1,2), of OBJECT clr] object_okD(1) show ?thesis
    by (auto simp: set_variable_def set_object_def)
qed (use assms(4) in \<open>simp_all add: set_variable_def\<close>)

section \<open>The end of an array\<close>

lemma array_numbers: "array_ok f ps n \<Longrightarrow> numbers f (doc ps @ [value_code CHILDREN]) = {1..n}"
proof -
  assume ok: "array_ok f ps n"
  have "k \<in> numbers f (doc ps @ [value_code CHILDREN]) \<longleftrightarrow> k \<in> {1..n}" for k
  proof (cases "1 \<le> k \<and> k \<le> n")
    case True
    with array_okD(3) [OF ok] array_okD(4) [OF ok, of k] show ?thesis by (auto simp: own_id_def numbers_def doc_snoc)
  next
    case False
    with array_okD(5) [OF ok, of k] array_okD(6) [OF ok] have "node f (doc (ps @ [k])) = None" by (cases "k = 0") auto
    with False show ?thesis by (simp add: numbers_def doc_snoc)
  qed
  then show ?thesis by blast
qed

lemma truncate_same:
  assumes db: "db_at d f" and words: "words_ok f" and at: "stands_at f p (doc ps)" and ok: "array_ok f ps n" and room: "room f 3"
  shows "\<exists>g. truncate_array clr n p f = Some g \<and> array_ok g ps n \<and> stepped d f g {ps} 3"
proof -
  let ?C = "doc ps @ [value_code CHILDREN]"
  from get_children_at [OF db words at room_less [OF room], of "{}"] obtain ch f1 where
    1: "get_children p f = (ch, f1)" "grows f f1 {} {?C} 1" "stands_at f1 ch ?C" "stepped d f f1 {} 1" by auto
  note db1 = steppedD(1,2) [OF 1(4)] and inv = db_atD [OF steppedD(1) [OF 1(4)]]
  have ok1: "array_ok f1 ps n" using steppedD(7) [OF 1(4)] ok by (simp add: same_doc_def)
  have place: "json_place ?C" by simp
  have loop: "(if \<not> path_dead_end f1 ch then do { mx \<leftarrow> max_index ch f1; truncate_loop clr ch (n + 1) mx f1 } else Some f1) = Some f1"
  proof (cases "n = 0")
    case True
    with array_numbers [OF ok1] dead_end_at [OF inv(7) place 1(3)] show ?thesis by simp
  next
    case False
    with array_numbers [OF ok1] max_index_at [OF inv(1,7) place 1(3)] obtain m where
      m: "m \<in> {1..n}" "max_index ch f1 = Some m" by auto
    then have "truncate_loop clr ch (n + 1) m f1 = Some f1" by (simp add: truncate_loop.simps [of clr ch "n + 1" m f1])
    with m(2) show ?thesis by simp
  qed
  have "room f1 1" by (rule stepped_room [OF room 1(4)]) simp
  from put_index_step [OF inv(1) 1(3) this, of n] obtain r g where
    g: "path_set_index n ch f1 = Some (r, g)" "grows f1 g {?C} {} 1" "data g ?C = Some (index_bytes n)" by blast
  have "within f1 {ps} {?C} {}" by (auto simp: within_def)
  from stepped_grows [OF g(2) db1 this] have st: "stepped d f1 g {ps} 1" by auto
  have "array_ok g ps n"
    unfolding array_ok_def
  proof (intro conjI allI impI)
    show "type_at g ps ARRAY" by (rule type_at_grows [OF array_okD(1) [OF ok1] g(2)]) simp
    show "count_at g ?C n" using g(3) array_okD(3) [OF ok] by (simp add: count_at_def)
    show "own_id g (ps @ [k])" if "1 \<le> k" "k \<le> n" for k
      by (rule steppedD(6) [OF st array_okD(4) [OF ok1 that]])
    show "node g (doc (ps @ [k])) = None" if "k = 0 \<or> n < k" for k
      by (rule new_node [OF g(2)]) (use array_okD(5,6) [OF ok1] that in auto)
  qed
  moreover have "truncate_array clr n p f = Some g"
    using 1(1) loop g(1) by (simp add: truncate_array_def)
  moreover have "stepped d f g {ps} 3" by (rule stepped_mono [OF stepped_then [OF 1(4) st, of "{ps}"]]) auto
  ultimately show ?thesis by blast
qed

end
