(* ===== verification/JSON_Load_Values.thy ===== *)
theory JSON_Load_Values
  imports JSON_Load
begin

text \<open>
  The events of a value, run where its document is ready, store the value and change no document outside it; by induction on
  the value.
\<close>

section \<open>States of the parser\<close>

definition same_stacks :: "import_state \<Rightarrow> import_state \<Rightarrow> bool" where
  "same_stacks st st' \<longleftrightarrow> im_start st' = im_start st \<and> im_paths st' = im_paths st \<and> im_indexes st' = im_indexes st \<and>
     im_keys st' = im_keys st \<and> im_types st' = im_types st \<and> im_part_word st' = [] \<and> im_page st' = 0"

definition in_context :: "import_state \<Rightarrow> bool" where
  "in_context st \<longleftrightarrow> im_part_word st = [] \<and> im_page st = 0 \<and>
     (im_paths st = [] \<or> stack_top (im_types st) = Some OBJECT \<or> stack_top (im_types st) = Some ARRAY)"

text \<open>A string takes its name or its position from the stack when it begins.\<close>

definition consumed :: "import_state \<Rightarrow> import_state" where
  "consumed st =
     (if im_paths st = [] then st
      else if stack_top (im_types st) = Some OBJECT then st\<lparr>im_keys := tl (im_keys st)\<rparr>
      else st\<lparr>im_indexes := (hd (im_indexes st) + 1) mod 2 ^ 64 # tl (im_indexes st)\<rparr>)"

definition after :: "json_doc \<Rightarrow> import_state \<Rightarrow> import_state" where
  "after v st = (if doc_type v = STRING then consumed st else st)"

lemma begin_string_at:
  assumes "next_path clr W d st f = Some (p, g)" and "in_context st"
  shows "on_begin_string clr W d st f = Some ((consumed st)\<lparr>im_string := Some p, im_page := 0\<rparr>, g)"
proof (cases "im_paths st")
  case Nil
  with assms(1) show ?thesis by (simp add: next_path_def on_begin_string_def consumed_def)
next
  case (Cons q P)
  then have ne: "im_paths st \<noteq> []" by simp
  from assms(2) ne consider "stack_top (im_types st) = Some OBJECT" | "stack_top (im_types st) = Some ARRAY" by (auto simp: in_context_def)
  then show ?thesis
  proof cases
    case 1
    with assms(1) Cons show ?thesis
      by (cases "im_keys st") (simp_all add: next_path_def on_begin_string_def consumed_def pop_back_key_def stack_top_def stack_pop_def)
  next
    case 2
    with assms(1) Cons show ?thesis
      by (cases "im_indexes st") (simp_all add: next_path_def on_begin_string_def consumed_def next_index_def stack_top_def Let_def)
  qed
qed

text \<open>What the events of a value do.\<close>

definition loads ::
    "(path \<Rightarrow> db_file \<Rightarrow> db_file option) \<Rightarrow> wide_ctype \<Rightarrow> json_db \<Rightarrow> bstring \<Rightarrow> json_doc \<Rightarrow> bool" where
  "loads clr W d u v \<longleftrightarrow>
     (\<forall>st f p g ps names. (\<forall>t x. v \<noteq> Scalar t x) \<longrightarrow> next_path clr W d st f = Some (p, g) \<longrightarrow> in_context st \<longrightarrow> ready d g p ps names \<longrightarrow>
        loadable W names v \<longrightarrow> room g (load_cost W names v) \<longrightarrow>
        (\<exists>st' h. import_events clr W d u (value_events v) st f = Some (st', h) \<and> same_stacks (after v st) st' \<and>
           stored h ps v \<and> stepped d g h (below ps) (load_cost W names v)))"

lemma loadsD:
  assumes "loads clr W d u v" and "\<nexists>t x. v = Scalar t x" and "next_path clr W d st f = Some (p, g)" and "in_context st" and "ready d g p ps names"
    and "loadable W names v" and "room g (load_cost W names v)"
  shows "\<exists>st' h. import_events clr W d u (value_events v) st f = Some (st', h) \<and> same_stacks (after v st) st' \<and>
    stored h ps v \<and> stepped d g h (below ps) (load_cost W names v)"
  using assms unfolding loads_def by blast

section \<open>Strings\<close>

lemma part_strings_at:
  assumes "db_at d f" and "words_ok f" and "stands_at f p (doc ps)" and "document f ps names"
    and "open_string f ps pages" and "length pages + length ss < 2 ^ 64"
    and "part_words W ix part ss = Some wss" and "room f (parts_cost (length ps) ss wss)"
    and "im_string st = Some p" and "im_page st = length pages" and "im_part_word st = part"
    and "if pages = [] then ss = [] \<or> ix = (\<not> is_data (hd ss)) else im_index_string st = ix"
  shows "\<exists>st' h. import_events clr W d u (map Part_String ss @ [End_String]) st f = Some (st', h) \<and>
    im_start st' = im_start st \<and> im_paths st' = im_paths st \<and> im_indexes st' = im_indexes st \<and> im_keys st' = im_keys st \<and>
    im_types st' = im_types st \<and> im_part_word st' = [] \<and> im_page st' = 0 \<and>
    string_ok h ps (pages @ ss) \<and> stepped d f h {ps} (parts_cost (length ps) ss wss)"
  using assms
proof (induction ss arbitrary: f pages part wss st)
  case Nil
  from Nil.prems(7) obtain ws part' where t: "tokenise W [] part True False = Some (ws, part')" "wss = [ws]" by auto
  have "room f (end_cost (length ps) ws)" using Nil.prems(8) t(2) by simp
  from end_string_at [OF Nil.prems(1-5) t(1) this, of clr "im_index_string st"] obtain h where
    "end_string clr W d (length pages) (im_index_string st) part p f = Some h" "string_ok h ps pages"
    "stepped d f h {ps} (end_cost (length ps) ws)" by auto
  with Nil.prems(9-11) t(2) show ?case by (simp add: on_end_string_def)
next
  case (Cons s ss)
  let ?st = "if im_page st = 0 then st\<lparr>im_index_string := \<not> is_data s\<rparr> else st"
  have ix: "im_index_string ?st = ix" using Cons.prems(10,12) by (auto split: if_splits)
  obtain ws part' wss' where w: "wss = ws # wss'" "part_words W ix part' ss = Some wss'"
    "if ix then tokenise W s part False False = Some (ws, part') else part' = part \<and> ws = []"
    using Cons.prems(7) by (auto split: if_splits bind_splits)
  have room: "room f (page_cost (length ps) s ws + parts_cost (length ps) ss wss')" using Cons.prems(8) w(1) by simp
  have size: "length pages + 1 < 2 ^ 64" using Cons.prems(6) by simp
  from set_page_at [OF Cons.prems(1-5) size w(3) room_less [OF room], of clr] obtain g where
    g: "set_string_page clr W d s (length pages) ix part p f = Some (part', g)" "open_string g ps (pages @ [s])"
      "stepped d f g {ps} (page_cost (length ps) s ws)" by auto
  let ?st' = "?st\<lparr>im_page := length pages + 1, im_part_word := part'\<rparr>"
  have run: "on_part_string clr W d s st f = Some (?st', g)"
    using g(1) ix Cons.prems(9-11) size by (cases "pages = []") (simp_all add: on_part_string_def Let_def)
  have doc: "document g ps names" by (rule stepped_document [OF Cons.prems(4) g(3)]) (auto simp: strict_prefix_def)
  have rg: "room g (parts_cost (length ps) ss wss')" by (rule stepped_room [OF room g(3)]) simp
  have "\<exists>st' h. import_events clr W d u (map Part_String ss @ [End_String]) ?st' g = Some (st', h) \<and>
    im_start st' = im_start ?st' \<and> im_paths st' = im_paths ?st' \<and> im_indexes st' = im_indexes ?st' \<and> im_keys st' = im_keys ?st' \<and>
    im_types st' = im_types ?st' \<and> im_part_word st' = [] \<and> im_page st' = 0 \<and>
    string_ok h ps ((pages @ [s]) @ ss) \<and> stepped d g h {ps} (parts_cost (length ps) ss wss')"
    by (rule Cons.IH [OF steppedD(1,2) [OF g(3)] steppedD(5) [OF g(3) Cons.prems(3)] doc g(2) _ w(2) rg])
      (use Cons.prems(6,9) ix in simp_all)
  then obtain st' h where h: "import_events clr W d u (map Part_String ss @ [End_String]) ?st' g = Some (st', h)"
    "im_start st' = im_start st" "im_paths st' = im_paths st" "im_indexes st' = im_indexes st" "im_keys st' = im_keys st"
    "im_types st' = im_types st" "im_part_word st' = []" "im_page st' = 0" "string_ok h ps (pages @ s # ss)"
    "stepped d g h {ps} (parts_cost (length ps) ss wss')" by auto
  have "import_events clr W d u (map Part_String (s # ss) @ [End_String]) st f = Some (st', h)" using run h(1) by simp
  with h(2-9) stepped_trans [OF g(3) h(10)] w(1) show ?case by auto
qed

lemma loads_text: "loads clr W d u (Text ss)"
  unfolding loads_def
proof (intro allI impI)
  fix st f p g ps names
  assume nx: "next_path clr W d st f = Some (p, g)" and cx: "in_context st" and ready: "ready d g p ps names"
    and ok: "loadable W names (Text ss)" and room: "room g (load_cost W names (Text ss))"
  note r = readyD [OF ready]
  let ?st = "(consumed st)\<lparr>im_string := Some p, im_page := 0\<rparr>"
  from ok obtain wss where w: "part_words W (ss = [] \<or> \<not> is_data (hd ss)) [] ss = Some wss" "length ss < 2 ^ 64"
    by (auto simp: text_words_def)
  have cost: "load_cost W names (Text ss) = parts_cost (length ps) ss wss" using w(1) r(7) by (simp add: text_words_def)
  have str: "open_string g ps []" using r(5,6) bare_pages by (simp add: open_string_def blank_doc_def bare_doc_def pages_at_def)
  have "im_part_word ?st = []" using cx by (simp add: in_context_def consumed_def)
  then have "\<exists>st' h. import_events clr W d u (map Part_String ss @ [End_String]) ?st g = Some (st', h) \<and>
    im_start st' = im_start ?st \<and> im_paths st' = im_paths ?st \<and> im_indexes st' = im_indexes ?st \<and> im_keys st' = im_keys ?st \<and>
    im_types st' = im_types ?st \<and> im_part_word st' = [] \<and> im_page st' = 0 \<and>
    string_ok h ps ([] @ ss) \<and> stepped d g h {ps} (parts_cost (length ps) ss wss)"
    by (intro part_strings_at [OF r(1-4) str _ w(1)]) (use w(2) room cost in auto)
  then obtain st' h where h: "import_events clr W d u (map Part_String ss @ [End_String]) ?st g = Some (st', h)"
    "same_stacks (consumed st) st'" "string_ok h ps ss" "stepped d g h {ps} (parts_cost (length ps) ss wss)"
    by (auto simp: same_stacks_def)
  have "import_events clr W d u (value_events (Text ss)) st f = Some (st', h)"
    using begin_string_at [OF nx cx] h(1) by simp
  moreover have "stepped d g h (below ps) (load_cost W names (Text ss))"
    unfolding cost by (rule stepped_mono [OF h(4)]) auto
  ultimately show "\<exists>st' h. import_events clr W d u (value_events (Text ss)) st f = Some (st', h) \<and>
    same_stacks (after (Text ss) st) st' \<and> stored h ps (Text ss) \<and> stepped d g h (below ps) (load_cost W names (Text ss))"
    using h(2,3) by (auto simp: after_def)
qed

section \<open>Elements\<close>

lemma below_part: "qs \<in> below (ps @ [k]) \<Longrightarrow> qs \<noteq> ps" "\<not> strict_prefix ps ps" "qs \<in> below (ps @ [k]) \<Longrightarrow> \<not> strict_prefix qs ps"
  by (auto simp: strict_prefix_def dest!: prefix_length_le)

lemma stepped_child:
  assumes "stepped d f g (below (ps @ [k])) n"
  shows "same_doc f g ps" and "document f ps names \<Longrightarrow> document g ps names"
proof -
  show "same_doc f g ps" using steppedD(7) [OF assms, of ps] below_part(1) by blast
  show "document g ps names" if "document f ps names"
    by (rule stepped_document [OF that assms]) (use below_part(3) in blast)
qed

lemma stepped_parent:
  assumes "stepped d f g {ps} n"
  shows "stored f (ps @ [k]) v \<Longrightarrow> stored g (ps @ [k]) v" and "document f ps names \<Longrightarrow> document g ps names"
proof -
  show "stored g (ps @ [k]) v" if "stored f (ps @ [k]) v"
  proof (rule stored_same(1) [OF that])
    fix qs assume "prefix (ps @ [k]) qs"
    then show "same_doc f g qs" by (intro steppedD(7) [OF assms]) (auto dest: prefix_length_le)
  qed
  show "document g ps names" if "document f ps names"
    by (rule stepped_document [OF that assms]) (auto simp: strict_prefix_def)
qed

lemma index_op_cost_next:
  "index_op_cost W names n (n + 1) = index_op_cost W names 0 1" "index_op_cost W names n n \<le> index_op_cost W names 0 1"
  by (simp_all add: index_op_cost_def)

text \<open>The value of an element, and its report to the parser.\<close>

lemma item_step:
  assumes loads: "loads clr W d u v" and cx: "im_part_word st = []" "im_page st = 0"
    and st: "im_paths st = p # P" "im_types st = ARRAY # T" "im_indexes st = i # I"
    and db: "db_at d f" and words: "words_ok f" and at: "stands_at f p (doc ps)" and doc: "document f ps names"
    and ok: "array_ok f ps i" and i: "i + 1 < 2 ^ 64" and names: "names_ok W (drop 2 names)"
    and load: "loadable W (names @ [Element (i + 1)]) v"
    and room: "room f (2 * index_op_cost W names 0 1 + load_cost W (names @ [Element (i + 1)]) v)"
  shows "\<exists>st' h. import_events clr W d u
      (value_events v @ [Value (doc_type v) (doc_text v), Array_Value (doc_type v) (doc_text v)]) st f = Some (st', h) \<and>
    same_stacks (st\<lparr>im_indexes := (i + 1) # I\<rparr>) st' \<and> array_ok h ps (i + 1) \<and> stored h (ps @ [i + 1]) v \<and>
    stepped d f h (insert ps (below (ps @ [i + 1]))) (2 * index_op_cost W names 0 1 + load_cost W (names @ [Element (i + 1)]) v)"
proof -
  let ?ps = "ps @ [i + 1]" and ?names = "names @ [Element (i + 1)]" and ?c = "index_op_cost W names 0 1"
  let ?l = "load_cost W ?names v" and ?t = "doc_type v" and ?x = "doc_text v" and ?st = "st\<lparr>im_indexes := (i + 1) # I\<rparr>"
  have seq: "sequence f ps i" using ok by (simp add: sequence_def)
  have mx: "max i (i + 1) = i + 1" by simp
  have r0: "room f (index_op_cost W names i (i + 1))"
    by (rule room_less [OF room]) (simp add: index_op_cost_next(1))
  have mod: "(i + 1) mod 2 ^ 64 = i + 1" using i by (rule mod_less)
  from at_index_at [OF db words at doc seq _ i names r0, of clr] obtain c g where
    g: "at_index clr W d (i + 1) p f = Some (c, g)" "stands_at g c (doc ?ps)" "array_ok g ps (i + 1)"
      "document g ?ps ?names" "blank_doc g ?ps" "stepped d f g {ps} ?c"
    unfolding mx index_op_cost_next(1) by auto
  have nx: "next_path clr W d st f = Some (c, g)" using st g(1) mod by (simp add: next_path_def stack_top_def)
  have ready: "ready d g c ?ps ?names"
    using steppedD(1,2) [OF g(6)] g(2,4,5) document_own_id [OF g(4)] by (simp add: ready_def)
  have rg: "room g (?c + ?l)" by (rule stepped_room [OF room g(6)]) simp
  have idx: "next_index st = Some (i + 1, ?st)" using st(3) mod by (simp add: next_index_def Let_def)
  have val: "on_event clr W d u (Value ?t ?x) st' f' = Some (st', f')" if "im_paths st' = p # P" for st' f'
    using that by (simp add: on_value_def)
  show ?thesis
  proof (cases "\<exists>t x. v = Scalar t x")
    case True
    then obtain t x where v: "v = Scalar t x" by blast
    from set_scalar [OF ready, of t x clr W] load v room_less [OF rg] obtain h where
      h: "set_variable clr W d t x c g = Some h" "stored h ?ps v" "stepped d g h {?ps} ?l" by auto
    have "on_array_value clr W d t x st f = Some (?st, h)"
      using load v st(1) idx g(1) h(1) by (auto simp: on_array_value_def stack_top_def)
    then have "import_events clr W d u (value_events v @ [Value ?t ?x, Array_Value ?t ?x]) st f = Some (?st, h)"
      using v val [OF st(1), of f] by simp
    moreover have "same_stacks ?st ?st" using cx by (simp add: same_stacks_def)
    moreover have "array_ok h ps (i + 1)" using steppedD(7) [OF h(3), of ps] g(3) by (simp add: same_doc_def)
    moreover have "stepped d f h (insert ps (below ?ps)) (2 * ?c + ?l)"
      by (rule stepped_mono [OF stepped_then [OF g(6) h(3), of "insert ps (below ?ps)"]]) auto
    ultimately show ?thesis using h(2) by blast
  next
    case False
    have ic: "in_context st" using cx st(2) by (simp add: in_context_def stack_top_def)
    from loadsD [OF loads False nx ic ready load room_less [OF rg]] obtain st1 h where
      h: "import_events clr W d u (value_events v) st f = Some (st1, h)" "same_stacks (after v st) st1"
        "stored h ?ps v" "stepped d g h (below ?ps) ?l" by auto
    have paths: "im_paths st1 = p # P" using h(2) st(1) by (simp add: same_stacks_def after_def consumed_def split: if_splits)
    have okh: "array_ok h ps (i + 1)" using stepped_child(1) [OF h(4)] g(3) by (simp add: same_doc_def)
    have fh: "stepped d f h (insert ps (below ?ps)) (?c + ?l)" by (rule stepped_then [OF g(6) h(4)]) auto
    show ?thesis
    proof (cases "?t = STRING")
      case True
      then have "same_stacks ?st st1" using h(2) st mod by (simp add: after_def consumed_def stack_top_def)
      moreover have "import_events clr W d u (value_events v @ [Value ?t ?x, Array_Value ?t ?x]) st f = Some (st1, h)"
        using h(1) val [OF paths, of h] True by (simp add: import_events_append on_array_value_def)
      moreover have "stepped d f h (insert ps (below ?ps)) (2 * ?c + ?l)" by (rule stepped_mono [OF fh]) auto
      ultimately show ?thesis using okh h(3) by blast
    next
      case other: False
      then have same: "same_stacks st st1" using h(2) by (simp add: after_def)
      let ?st1 = "st1\<lparr>im_indexes := (i + 1) # I\<rparr>"
      have atf: "stands_at h p (doc ps)" using steppedD(5) [OF fh at] .
      have doch: "document h ps names" using stepped_child(2) [OF h(4)] stepped_parent(2) [OF g(6)] doc by blast
      have seqh: "sequence h ps (i + 1)" using okh by (simp add: sequence_def)
      have rh: "room h (index_op_cost W names (i + 1) (i + 1))"
        by (rule stepped_room [OF room fh]) (use index_op_cost_next(2) [of W names "i + 1"] in simp)
      from at_index_at [OF steppedD(1,2) [OF fh] atf doch seqh _ i names rh, of clr] obtain c' h' where
        h': "at_index clr W d (i + 1) p h = Some (c', h')" "stands_at h' c' (doc ?ps)" "array_ok h' ps (i + 1)"
          "stepped d h h' {ps} (index_op_cost W names (i + 1) (i + 1))" by auto
      have vh: "stored h' ?ps v" by (rule stepped_parent(1) [OF h'(4) h(3)])
      have setv: "set_variable clr W d ?t ?x c' h' = Some h'"
        by (rule set_variable_same [OF steppedD(1) [OF h'(4)] h'(2) vh]) (use False in blast)
      have "next_index st1 = Some (i + 1, ?st1)" using same st(3) mod by (simp add: same_stacks_def next_index_def Let_def)
      then have "on_array_value clr W d ?t ?x st1 h = Some (?st1, h')"
        using other paths h'(1) setv by (simp add: on_array_value_def stack_top_def)
      then have "import_events clr W d u (value_events v @ [Value ?t ?x, Array_Value ?t ?x]) st f = Some (?st1, h')"
        using h(1) val [OF paths, of h] by (simp add: import_events_append)
      moreover have "same_stacks ?st ?st1" using same by (simp add: same_stacks_def)
      moreover have "stepped d f h' (insert ps (below ?ps)) (2 * ?c + ?l)"
        by (rule stepped_mono [OF stepped_then [OF fh h'(4), of "insert ps (below ?ps)"]])
          (use index_op_cost_next(2) [of W names "i + 1"] in auto)
      ultimately show ?thesis using h'(3) vh by blast
    qed
  qed
qed

text \<open>The document and its parts after the first \<open>i\<close>.\<close>

definition later :: "nat list \<Rightarrow> nat \<Rightarrow> nat list set" where
  "later ps i = insert ps {qs. \<exists>k. i < k \<and> prefix (ps @ [k]) qs}"

lemma later_sub: "insert ps (below (ps @ [i + 1])) \<subseteq> later ps i" "later ps (i + 1) \<subseteq> later ps i" "later ps i \<subseteq> below ps"
proof -
  show "insert ps (below (ps @ [i + 1])) \<subseteq> later ps i"
    using lessI [of i] by (simp only: later_def below_def Suc_eq_plus1) blast
  show "later ps (i + 1) \<subseteq> later ps i" using add_lessD1 by (simp only: later_def) blast
  show "later ps i \<subseteq> below ps" by (auto simp: later_def dest: append_prefixD)
qed

lemma child_eq: "prefix (ps @ [k]) qs \<Longrightarrow> prefix (ps @ [j]) qs \<Longrightarrow> j = k"
proof -
  assume "prefix (ps @ [k]) qs" "prefix (ps @ [j]) qs"
  then show "j = k" unfolding prefix_def by (elim exE) simp
qed

lemma stored_later:
  assumes "stored f (ps @ [i + 1]) v" and "stepped d f g (later ps (i + 1)) n"
  shows "stored g (ps @ [i + 1]) v"
proof (rule stored_same(1) [OF assms(1)])
  fix qs assume q: "prefix (ps @ [i + 1]) qs"
  have "qs \<noteq> ps" using q prefix_length_le [OF q] by auto
  moreover have "\<not> prefix (ps @ [k]) qs" if "i + 1 < k" for k using child_eq [OF q] that by blast
  ultimately show "same_doc f g qs" by (intro steppedD(7) [OF assms(2)]) (auto simp: later_def)
qed

lemma stepped_later:
  assumes "stepped d f g (later ps i) n" and "document f ps names"
  shows "document g ps names"
  by (rule stepped_document [OF assms(2,1)]) (auto simp: later_def strict_prefix_def dest!: prefix_length_le)

lemma items_at:
  assumes "\<And>v. v \<in> set vs \<Longrightarrow> loads clr W d u v" and "im_part_word st = []" and "im_page st = 0"
    and "im_paths st = p # P" and "im_types st = ARRAY # T" and "im_indexes st = i # I"
    and "db_at d f" and "words_ok f" and "stands_at f p (doc ps)" and "document f ps names"
    and "array_ok f ps i" and "i + length vs < 2 ^ 64" and "names_ok W (drop 2 names)"
    and "loadable_items W names (i + 1) vs" and "room f (items_cost W names (i + 1) vs)"
  shows "\<exists>st' h. import_events clr W d u (item_events vs) st f = Some (st', h) \<and>
    same_stacks (st\<lparr>im_indexes := (i + length vs) # I\<rparr>) st' \<and> array_ok h ps (i + length vs) \<and> stored_items h ps (i + 1) vs \<and>
    stepped d f h (later ps i) (items_cost W names (i + 1) vs)"
  using assms
proof (induction vs arbitrary: st f i)
  case Nil
  then show ?case using stepped_refl [OF Nil.prems(7,8)] by (auto simp: same_stacks_def)
next
  case (Cons v vs)
  let ?c = "2 * index_op_cost W names 0 1 + load_cost W (names @ [Element (i + 1)]) v"
  have i1: "i + 1 < 2 ^ 64" using Cons.prems(12) by simp
  have lv: "loads clr W d u v" using Cons.prems(1) by simp
  have ok: "loadable W (names @ [Element (i + 1)]) v" "loadable_items W names (i + 1 + 1) vs"
    using Cons.prems(14) by simp_all
  have room: "room f (?c + items_cost W names (i + 1 + 1) vs)" using Cons.prems(15) by simp
  from item_step [OF lv Cons.prems(2-11) i1 Cons.prems(13) ok(1) room_less [OF room]] obtain st1 g where
    g: "import_events clr W d u (value_events v @ [Value (doc_type v) (doc_text v), Array_Value (doc_type v) (doc_text v)]) st f =
        Some (st1, g)" "same_stacks (st\<lparr>im_indexes := (i + 1) # I\<rparr>) st1" "array_ok g ps (i + 1)" "stored g (ps @ [i + 1]) v"
      "stepped d f g (insert ps (below (ps @ [i + 1]))) ?c" by auto
  have fg: "stepped d f g (later ps i) ?c" by (rule stepped_mono [OF g(5) later_sub(1) order_refl])
  have docg: "document g ps names" by (rule stepped_later [OF fg Cons.prems(10)])
  have rg: "room g (items_cost W names (i + 1 + 1) vs)" by (rule stepped_room [OF room fg]) simp
  have st1: "im_part_word st1 = []" "im_page st1 = 0" "im_paths st1 = p # P" "im_types st1 = ARRAY # T" "im_indexes st1 = (i + 1) # I"
    using g(2) Cons.prems(4,5) by (simp_all add: same_stacks_def)
  have "i + 1 + length vs < 2 ^ 64" using Cons.prems(12) by simp
  from Cons.IH [OF _ st1 steppedD(1,2) [OF g(5)] steppedD(5) [OF g(5) Cons.prems(9)] docg g(3) this Cons.prems(13) ok(2) rg]
    Cons.prems(1) obtain st' h where
    h: "import_events clr W d u (item_events vs) st1 g = Some (st', h)" "same_stacks (st1\<lparr>im_indexes := (i + 1 + length vs) # I\<rparr>) st'"
      "array_ok h ps (i + 1 + length vs)" "stored_items h ps (i + 1 + 1) vs"
      "stepped d g h (later ps (i + 1)) (items_cost W names (i + 1 + 1) vs)" by auto
  have ev: "item_events (v # vs) =
    (value_events v @ [Value (doc_type v) (doc_text v), Array_Value (doc_type v) (doc_text v)]) @ item_events vs" by simp
  have run: "import_events clr W d u (item_events (v # vs)) st f = Some (st', h)"
    unfolding ev import_events_append [of clr W d u _ "item_events vs"] g(1) using h(1) by simp
  have stack: "same_stacks (st\<lparr>im_indexes := (i + length (v # vs)) # I\<rparr>) st'"
    using h(2) g(2) by (simp add: same_stacks_def Suc_eq_plus1 add.commute add.left_commute)
  have arr: "array_ok h ps (i + length (v # vs))" using h(3) by (simp add: Suc_eq_plus1 add.commute add.left_commute)
  have items: "stored_items h ps (i + 1) (v # vs)" using stored_later [OF g(4) h(5)] h(4) by simp
  have st: "stepped d f h (later ps i) (items_cost W names (i + 1) (v # vs))"
    using stepped_then [OF fg h(5) order_refl later_sub(2)] by simp
  from run stack arr items st show ?case by blast
qed

lemma loads_items:
  assumes IH: "\<And>v. v \<in> set vs \<Longrightarrow> loads clr W d u v"
  shows "loads clr W d u (Items vs)"
  unfolding loads_def
proof (intro allI impI)
  fix st f p g ps names
  assume nx: "next_path clr W d st f = Some (p, g)" and cx: "in_context st" and ready: "ready d g p ps names"
    and ok: "loadable W names (Items vs)" and room: "room g (load_cost W names (Items vs))"
  note r = readyD [OF ready]
  let ?c = "items_cost W names 1 vs" and ?n = "length vs"
  have room': "room g (5 + 2 * length names + ?c + 3)" using room by (simp add: add.assoc)
  from ready_type [OF ready room_less [OF room'], of clr ARRAY] obtain g1 where
    g1: "set_type clr d ARRAY p g = Some g1" "type_at g1 ps ARRAY" "bare_doc g1 ps" "stepped d g g1 {ps} (5 + 2 * length names)"
    by auto
  let ?st = "st\<lparr>im_paths := p # im_paths st, im_indexes := 0 # im_indexes st, im_types := ARRAY # im_types st\<rparr>"
  have push: "on_event clr W d u Begin_Array st f = Some (?st, g1)"
    using nx g1(1) by (simp add: push_back_path_def set_array_def)
  have rg1: "room g1 (?c + 3)" by (rule stepped_room [OF room' g1(4)]) simp
  have docg: "document g1 ps names" by (rule stepped_parent(2) [OF g1(4) r(4)])
  have arr: "array_ok g1 ps 0" by (rule bare_array [OF g1(3,2)])
  have ok': "loadable_items W names (0 + 1) vs" "names_ok W (drop 2 names)" "0 + ?n < 2 ^ 64" using ok by simp_all
  have rc: "room g1 (items_cost W names (0 + 1) vs)" by (rule room_less [OF rg1]) simp
  have part: "im_part_word ?st = []" "im_page ?st = 0" using cx by (simp_all add: in_context_def)
  have sels: "im_paths ?st = p # im_paths st" "im_types ?st = ARRAY # im_types st" "im_indexes ?st = 0 # im_indexes st" by simp_all
  from items_at [OF IH part sels steppedD(1,2) [OF g1(4)] steppedD(5) [OF g1(4) r(3)] docg arr ok'(3,2,1) rc] obtain st1 h where
    h: "import_events clr W d u (item_events vs) ?st g1 = Some (st1, h)" "same_stacks (?st\<lparr>im_indexes := ?n # im_indexes st\<rparr>) st1"
      "array_ok h ps ?n" "stored_items h ps 1 vs" "stepped d g1 h (later ps 0) ?c" by auto
  have rh: "room h 3" by (rule stepped_room [OF rg1 h(5)]) simp
  have ath: "stands_at h p (doc ps)" by (rule steppedD(5) [OF h(5) steppedD(5) [OF g1(4) r(3)]])
  from truncate_same [OF steppedD(1,2) [OF h(5)] ath h(3) rh, of clr] obtain k where
    k: "truncate_array clr ?n p h = Some k" "array_ok k ps ?n" "stepped d h k {ps} 3" by blast
  let ?st' = "st1\<lparr>im_paths := im_paths st, im_indexes := im_indexes st, im_types := im_types st\<rparr>"
  have pop: "on_event clr W d u End_Array st1 h = Some (?st', k)"
    using h(2) k(1) by (simp add: same_stacks_def on_end_array_def stack_top_def stack_pop_def pop_back_path_def)
  have "import_events clr W d u (value_events (Items vs)) st f = Some (?st', k)"
    using push h(1) pop by (simp add: import_events_append)
  moreover have "same_stacks (after (Items vs) st) ?st'" using h(2) by (simp add: same_stacks_def after_def)
  moreover have "stored_items k ps 1 vs"
    by (rule stored_same(2) [OF h(4)]) (auto intro: steppedD(7) [OF k(3)] simp: strict_prefix_def)
  moreover have "stepped d g k (below ps) (load_cost W names (Items vs))"
  proof -
    have "stepped d g h (below ps) (5 + 2 * length names + ?c)" by (rule stepped_then [OF g1(4) h(5) _ later_sub(3)]) simp
    from stepped_then [OF this k(3) order_refl] have "stepped d g k (below ps) (5 + 2 * length names + ?c + 3)" by simp
    then show ?thesis by (rule stepped_mono) simp_all
  qed
  ultimately show "\<exists>st' h. import_events clr W d u (value_events (Items vs)) st f = Some (st', h) \<and>
    same_stacks (after (Items vs) st) st' \<and> stored h ps (Items vs) \<and> stepped d g h (below ps) (load_cost W names (Items vs))"
    using k(2) by (intro exI [of _ ?st'] exI [of _ k]) simp
qed

section \<open>Properties\<close>

text \<open>A property with its value.\<close>

lemma member_step:
  assumes loads: "loads clr W d u v" and cx: "im_part_word st = []" "im_page st = 0"
    and st: "im_paths st = p # P" "im_types st = OBJECT # T"
    and db: "db_at d f" and words: "words_ok f" and at: "stands_at f p (doc ps)" and doc: "document f ps names"
    and ok: "object_ok f ps n" and new: "\<forall>j. \<not> placed f ps s j" and n: "n + 1 + 1 < 2 ^ 64" and my: "s \<noteq> ''my''"
    and names: "names_ok W (drop 2 (names @ [Property s]))" and load: "loadable W (names @ [Property s]) v"
    and room: "room f (2 * member_cost W s names + load_cost W (names @ [Property s]) v)"
  shows "\<exists>st' h. import_events clr W d u
      (Object_Key s # value_events v @ [Value (doc_type v) (doc_text v), Object_Value s (doc_type v) (doc_text v)]) st f = Some (st', h) \<and>
    same_stacks st st' \<and> object_ok h ps (n + 1) \<and> placed h ps s (n + 1) \<and>
    (\<forall>t j. t \<noteq> s \<longrightarrow> placed h ps t j \<longleftrightarrow> placed f ps t j) \<and> stored h (ps @ [n + 1]) v \<and>
    stepped d f h (insert ps (below (ps @ [n + 1]))) (2 * member_cost W s names + load_cost W (names @ [Property s]) v)"
proof -
  let ?ps = "ps @ [n + 1]" and ?names = "names @ [Property s]" and ?c = "member_cost W s names"
  let ?l = "load_cost W ?names v" and ?t = "doc_type v" and ?x = "doc_text v" and ?st = "st\<lparr>im_keys := s # im_keys st\<rparr>"
  have con: "container f ps n" using ok by (simp add: container_def)
  have r0: "room f ?c" by (rule room_less [OF room]) simp
  have n1: "n + 1 < 2 ^ 64" using n by simp
  have mx: "max n (n + 1) = n + 1" by simp
  from at_property_at [OF db words at doc con names n1 r0, of clr] new obtain c g where
    g: "at_property clr W d s p f = Some (c, g)" "stands_at g c (doc ?ps)" "document g ?ps ?names" "object_ok g ps (max n (n + 1))"
      "placed g ps s (n + 1)" "\<forall>t j. t \<noteq> s \<longrightarrow> placed g ps t j \<longleftrightarrow> placed f ps t j" "blank_doc g ?ps" "stepped d f g {ps} ?c"
    by metis
  have key: "on_event clr W d u (Object_Key s) st f = Some (?st, f)" using my by (simp add: push_back_key_def)
  have nx: "next_path clr W d ?st f = Some (c, g)" using st g(1) by (simp add: next_path_def stack_top_def)
  have ready: "ready d g c ?ps ?names"
    using steppedD(1,2) [OF g(8)] g(2,3,7) document_own_id [OF g(3)] by (simp add: ready_def)
  have rg: "room g (?c + ?l)" by (rule stepped_room [OF room g(8)]) simp
  have val: "on_event clr W d u (Value ?t ?x) st' f' = Some (st', f')" if "im_paths st' = p # P" for st' f'
    using that by (simp add: on_value_def)
  show ?thesis
  proof (cases "\<exists>t x. v = Scalar t x")
    case True
    then obtain t x where v: "v = Scalar t x" by blast
    from set_scalar [OF ready, of t x clr W] load v room_less [OF rg] obtain h where
      h: "set_variable clr W d t x c g = Some h" "stored h ?ps v" "stepped d g h {?ps} ?l" by auto
    have "on_object_value clr W d s t x ?st f = Some (st, h)"
      using load v st(1) g(1) h(1) by (auto simp: on_object_value_def stack_top_def stack_pop_def pop_back_key_def)
    then have "import_events clr W d u (Object_Key s # value_events v @ [Value ?t ?x, Object_Value s ?t ?x]) st f = Some (st, h)"
      using v key val [of ?st f] st(1) by simp
    moreover have "same_stacks st st" using cx by (simp add: same_stacks_def)
    moreover have "object_ok h ps (n + 1)" "\<And>t j. placed h ps t j \<longleftrightarrow> placed g ps t j"
    proof -
      have same: "same_doc g h ps" using steppedD(7) [OF h(3), of ps] by simp
      show "object_ok h ps (n + 1)" "\<And>t j. placed h ps t j \<longleftrightarrow> placed g ps t j"
        using same g(4) unfolding same_doc_def mx by blast+
    qed
    moreover have "stepped d f h (insert ps (below ?ps)) (2 * ?c + ?l)"
      by (rule stepped_mono [OF stepped_then [OF g(8) h(3), of "insert ps (below ?ps)"]]) auto
    ultimately show ?thesis using h(2) g(5,6) by blast
  next
    case False
    have ic: "in_context ?st" using cx st(2) by (simp add: in_context_def stack_top_def)
    from loadsD [OF loads False nx ic ready load room_less [OF rg]] obtain st1 h where
      h: "import_events clr W d u (value_events v) ?st f = Some (st1, h)" "same_stacks (after v ?st) st1"
        "stored h ?ps v" "stepped d g h (below ?ps) ?l" by auto
    have paths: "im_paths st1 = p # P" using h(2) st(1) by (simp add: same_stacks_def after_def consumed_def split: if_splits)
    have okh: "object_ok h ps (n + 1)" and plh: "placed h ps t j \<longleftrightarrow> placed g ps t j" for t j
      using stepped_child(1) [OF h(4)] g(4) unfolding same_doc_def mx by blast+
    have fh: "stepped d f h (insert ps (below ?ps)) (?c + ?l)" by (rule stepped_then [OF g(8) h(4)]) auto
    show ?thesis
    proof (cases "?t = STRING")
      case True
      then have "same_stacks st st1" using h(2) st by (simp add: after_def consumed_def stack_top_def same_stacks_def)
      moreover have "import_events clr W d u (Object_Key s # value_events v @ [Value ?t ?x, Object_Value s ?t ?x]) st f = Some (st1, h)"
        using key h(1) val [OF paths, of h] True by (simp add: import_events_append on_object_value_def)
      moreover have "stepped d f h (insert ps (below ?ps)) (2 * ?c + ?l)" by (rule stepped_mono [OF fh]) auto
      ultimately show ?thesis using okh plh h(3) g(5,6) by blast
    next
      case other: False
      then have same: "same_stacks ?st st1" using h(2) by (simp add: after_def)
      let ?st1 = "st1\<lparr>im_keys := im_keys st\<rparr>"
      have atf: "stands_at h p (doc ps)" using steppedD(5) [OF fh at] .
      have doch: "document h ps names" using stepped_child(2) [OF h(4)] stepped_parent(2) [OF g(8)] doc by blast
      have conh: "container h ps (n + 1)" using okh by (simp add: container_def)
      have rh: "room h ?c" by (rule stepped_room [OF room fh]) simp
      have pl: "placed h ps s (n + 1)" using plh g(5) by blast
      from at_property_at [OF steppedD(1,2) [OF fh] atf doch conh names n rh, of clr] pl obtain c' h' where
        h': "at_property clr W d s p h = Some (c', h')" "stands_at h' c' (doc ?ps)" "object_ok h' ps (max (n + 1) (n + 1))"
          "placed h' ps s (n + 1)" "\<forall>t j. t \<noteq> s \<longrightarrow> placed h' ps t j \<longleftrightarrow> placed h ps t j" "stepped d h h' {ps} ?c"
        by metis
      have vh: "stored h' ?ps v" by (rule stepped_parent(1) [OF h'(6) h(3)])
      have setv: "set_variable clr W d ?t ?x c' h' = Some h'"
        by (rule set_variable_same [OF steppedD(1) [OF h'(6)] h'(2) vh]) (use False in blast)
      have "pop_back_key st1 = Some ?st1" using same by (simp add: same_stacks_def pop_back_key_def stack_pop_def)
      then have "on_object_value clr W d s ?t ?x st1 h = Some (?st1, h')"
        using other paths h'(1) setv by (simp add: on_object_value_def stack_top_def)
      then have "import_events clr W d u (Object_Key s # value_events v @ [Value ?t ?x, Object_Value s ?t ?x]) st f = Some (?st1, h')"
        using key h(1) val [OF paths, of h] by (simp add: import_events_append)
      moreover have "same_stacks st ?st1" using same by (simp add: same_stacks_def)
      moreover have "stepped d f h' (insert ps (below ?ps)) (2 * ?c + ?l)"
        by (rule stepped_mono [OF stepped_then [OF fh h'(6), of "insert ps (below ?ps)"]]) auto
      moreover have "object_ok h' ps (n + 1)" using h'(3) by simp
      ultimately show ?thesis using h'(4,5) vh g(6) plh by blast
    qed
  qed
qed

lemma members_at:
  assumes "\<And>v. v \<in> snd ` set kvs \<Longrightarrow> loads clr W d u v" and "im_part_word st = []" and "im_page st = 0"
    and "im_paths st = p # P" and "im_types st = OBJECT # T"
    and "db_at d f" and "words_ok f" and "stands_at f p (doc ps)" and "document f ps names"
    and "object_ok f ps n" and "\<forall>s j. s \<in> fst ` set kvs \<longrightarrow> \<not> placed f ps s j" and "n + length kvs + 1 < 2 ^ 64"
    and "distinct (map fst kvs)" and "loadable_members W names kvs" and "room f (members_cost W names kvs)"
  shows "\<exists>st' h. import_events clr W d u (member_events kvs) st f = Some (st', h) \<and> same_stacks st st' \<and>
    object_ok h ps (n + length kvs) \<and> stored_members h ps (n + 1) kvs \<and>
    (\<forall>t j. t \<notin> fst ` set kvs \<longrightarrow> placed h ps t j \<longleftrightarrow> placed f ps t j) \<and>
    stepped d f h (later ps n) (members_cost W names kvs)"
  using assms
proof (induction kvs arbitrary: st f n)
  case Nil
  then show ?case using stepped_refl [OF Nil.prems(6,7)] by (auto simp: same_stacks_def)
next
  case (Cons kv kvs)
  obtain s v where kv: "kv = (s, v)" by (cases kv)
  let ?c = "2 * member_cost W s names + load_cost W (names @ [Property s]) v"
  have lv: "loads clr W d u v" using Cons.prems(1) kv by simp
  have n1: "n + 1 + 1 < 2 ^ 64" using Cons.prems(12) by simp
  have ok: "s \<noteq> ''my''" "names_ok W (drop 2 (names @ [Property s]))" "loadable W (names @ [Property s]) v" "loadable_members W names kvs"
    using Cons.prems(14) kv by simp_all
  have s: "s \<notin> fst ` set kvs" "distinct (map fst kvs)" using Cons.prems(13) kv by simp_all
  have new: "\<forall>j. \<not> placed f ps s j" using Cons.prems(11) kv by simp
  have room: "room f (?c + members_cost W names kvs)" using Cons.prems(15) kv by simp
  from member_step [OF lv Cons.prems(2-10) new n1 ok(1-3) room_less [OF room]] obtain st1 g where
    g: "import_events clr W d u (Object_Key s # value_events v @ [Value (doc_type v) (doc_text v), Object_Value s (doc_type v) (doc_text v)])
        st f = Some (st1, g)" "same_stacks st st1" "object_ok g ps (n + 1)" "placed g ps s (n + 1)"
      "\<And>t j. t \<noteq> s \<Longrightarrow> placed g ps t j \<longleftrightarrow> placed f ps t j" "stored g (ps @ [n + 1]) v"
      "stepped d f g (insert ps (below (ps @ [n + 1]))) ?c" by auto
  have fg: "stepped d f g (later ps n) ?c" by (rule stepped_mono [OF g(7) later_sub(1) order_refl])
  have docg: "document g ps names" by (rule stepped_later [OF fg Cons.prems(9)])
  have rg: "room g (members_cost W names kvs)" by (rule stepped_room [OF room fg]) simp
  have st1: "im_part_word st1 = []" "im_page st1 = 0" "im_paths st1 = p # P" "im_types st1 = OBJECT # T"
    using g(2) Cons.prems(4,5) by (simp_all add: same_stacks_def)
  have newg: "\<forall>t j. t \<in> fst ` set kvs \<longrightarrow> \<not> placed g ps t j"
  proof (intro allI impI)
    fix t j assume t: "t \<in> fst ` set kvs"
    then have "t \<noteq> s" "t \<in> fst ` set (kv # kvs)" using s(1) by auto
    then show "\<not> placed g ps t j" using g(5) Cons.prems(11) by blast
  qed
  have size: "n + 1 + length kvs + 1 < 2 ^ 64" using Cons.prems(12) by simp
  have IHv: "loads clr W d u w" if "w \<in> snd ` set kvs" for w using Cons.prems(1) that by simp
  from Cons.IH [OF IHv st1 steppedD(1,2) [OF g(7)] steppedD(5) [OF g(7) Cons.prems(8)] docg g(3) newg size s(2) ok(4) rg] obtain st' h where
    h: "import_events clr W d u (member_events kvs) st1 g = Some (st', h)" "same_stacks st1 st'"
      "object_ok h ps (n + 1 + length kvs)" "stored_members h ps (n + 1 + 1) kvs"
      "\<And>t j. t \<notin> fst ` set kvs \<Longrightarrow> placed h ps t j \<longleftrightarrow> placed g ps t j" "stepped d g h (later ps (n + 1)) (members_cost W names kvs)"
    by auto
  have ev: "member_events (kv # kvs) =
    (Object_Key s # value_events v @ [Value (doc_type v) (doc_text v), Object_Value s (doc_type v) (doc_text v)]) @ member_events kvs"
    using kv by simp
  have run: "import_events clr W d u (member_events (kv # kvs)) st f = Some (st', h)"
    unfolding ev import_events_append [of clr W d u _ "member_events kvs"] g(1) using h(1) by simp
  have stack: "same_stacks st st'" using h(2) g(2) by (simp add: same_stacks_def)
  have obj: "object_ok h ps (n + length (kv # kvs))" using h(3) by (simp add: Suc_eq_plus1 add.commute add.left_commute)
  have mem: "stored_members h ps (n + 1) (kv # kvs)"
    using stored_later [OF g(6) h(6)] h(4) h(5) [OF s(1)] g(4) kv by simp
  have pl: "\<forall>t j. t \<notin> fst ` set (kv # kvs) \<longrightarrow> placed h ps t j \<longleftrightarrow> placed f ps t j" using h(5) g(5) kv by simp
  have st: "stepped d f h (later ps n) (members_cost W names (kv # kvs))"
    using stepped_then [OF fg h(6) order_refl later_sub(2)] kv by simp
  from run stack obj mem pl st show ?case by blast
qed

lemma loads_members:
  assumes IH: "\<And>v. v \<in> snd ` set kvs \<Longrightarrow> loads clr W d u v"
  shows "loads clr W d u (Members kvs)"
  unfolding loads_def
proof (intro allI impI)
  fix st f p g ps names
  assume nx: "next_path clr W d st f = Some (p, g)" and cx: "in_context st" and ready: "ready d g p ps names"
    and ok: "loadable W names (Members kvs)" and room: "room g (load_cost W names (Members kvs))"
  note r = readyD [OF ready]
  let ?c = "members_cost W names kvs" and ?n = "length kvs"
  have room': "room g (5 + 2 * length names + ?c)" using room by simp
  from ready_type [OF ready room_less [OF room'], of clr OBJECT] obtain g1 where
    g1: "set_type clr d OBJECT p g = Some g1" "type_at g1 ps OBJECT" "bare_doc g1 ps" "stepped d g g1 {ps} (5 + 2 * length names)"
    by auto
  let ?st = "st\<lparr>im_paths := p # im_paths st, im_types := OBJECT # im_types st\<rparr>"
  have push: "on_event clr W d u Begin_Object st f = Some (?st, g1)"
    using nx g1(1) by (simp add: push_back_path_def set_object_def)
  have rg1: "room g1 ?c" by (rule stepped_room [OF room' g1(4)]) simp
  have docg: "document g1 ps names" by (rule stepped_parent(2) [OF g1(4) r(4)])
  have obj: "object_ok g1 ps 0" by (rule bare_object [OF g1(3,2)])
  have ok': "0 + ?n + 1 < 2 ^ 64" "distinct (map fst kvs)" "loadable_members W names kvs" using ok by simp_all
  have part: "im_part_word ?st = []" "im_page ?st = 0" using cx by (simp_all add: in_context_def)
  have sels: "im_paths ?st = p # im_paths st" "im_types ?st = OBJECT # im_types st" by simp_all
  have new: "\<forall>s j. s \<in> fst ` set kvs \<longrightarrow> \<not> placed g1 ps s j" using bare_unplaced [OF g1(3)] by blast
  from members_at [OF IH part sels steppedD(1,2) [OF g1(4)] steppedD(5) [OF g1(4) r(3)] docg obj new ok' rg1] obtain st1 h where
    h: "import_events clr W d u (member_events kvs) ?st g1 = Some (st1, h)" "same_stacks ?st st1"
      "object_ok h ps ?n" "stored_members h ps 1 kvs" "stepped d g1 h (later ps 0) ?c" by auto
  let ?st' = "st1\<lparr>im_paths := im_paths st, im_types := im_types st\<rparr>"
  have pop: "on_event clr W d u End_Object st1 h = Some (?st', h)"
    using h(2) by (simp add: same_stacks_def stack_top_def stack_pop_def pop_back_path_def)
  have "import_events clr W d u (value_events (Members kvs)) st f = Some (?st', h)"
    using push h(1) pop by (simp add: import_events_append)
  moreover have "same_stacks (after (Members kvs) st) ?st'" using h(2) by (simp add: same_stacks_def after_def)
  moreover have "stepped d g h (below ps) (load_cost W names (Members kvs))"
    using stepped_then [OF g1(4) h(5) _ later_sub(3)] by simp
  ultimately show "\<exists>st' h. import_events clr W d u (value_events (Members kvs)) st f = Some (st', h) \<and>
    same_stacks (after (Members kvs) st) st' \<and> stored h ps (Members kvs) \<and>
    stepped d g h (below ps) (load_cost W names (Members kvs))"
    using h(3,4) by (intro exI [of _ ?st'] exI [of _ h]) simp
qed

section \<open>Every value\<close>

lemma loads_value: "loads clr W d u v"
proof (induction v rule: json_doc_induct)
  case (Scalar t x)
  show ?case by (simp add: loads_def)
next
  case (Members kvs)
  then show ?case by (intro loads_members) auto
qed (rule loads_text, rule loads_items)

text \<open>A whole text, loaded at a document without a value.\<close>

lemma load_at:
  assumes ready: "ready d f p ps names" and load: "loadable W names v" and room: "room f (load_cost W names v)"
  shows "\<exists>st g. import_events clr W d u (load_events v) (import_new p) f = Some (st, g) \<and> import_close clr W d st g = Some g \<and>
    stored g ps v \<and> stepped d f g (below ps) (load_cost W names v)"
proof (cases "\<exists>t x. v = Scalar t x")
  case True
  then obtain t x where v: "v = Scalar t x" by blast
  from set_scalar [OF ready, of t x clr W] load v room obtain g where
    g: "set_variable clr W d t x p f = Some g" "stored g ps v" "stepped d f g {ps} (load_cost W names v)" by auto
  have "import_events clr W d u (load_events v) (import_new p) f = Some (import_new p, g)"
    using load v g(1) by (auto simp: load_events_def on_value_def import_new_def)
  moreover have "stepped d f g (below ps) (load_cost W names v)" by (rule stepped_mono [OF g(3)]) auto
  ultimately show ?thesis using g(2) by (auto simp: import_close_def import_new_def)
next
  case False
  have nx: "next_path clr W d (import_new p) f = Some (p, f)" and cx: "in_context (import_new p)"
    by (simp_all add: next_path_def in_context_def import_new_def)
  from loadsD [OF loads_value False nx cx ready load room] obtain st g where
    g: "import_events clr W d u (value_events v) (import_new p) f = Some (st, g)" "same_stacks (after v (import_new p)) st"
      "stored g ps v" "stepped d f g (below ps) (load_cost W names v)" by blast
  have st: "im_paths st = []" "im_start st = p" "im_page st = 0"
    using g(2) by (simp_all add: same_stacks_def after_def consumed_def import_new_def split: if_splits)
  have "set_variable clr W d (doc_type v) (doc_text v) p g = Some g"
    by (rule set_variable_same [OF steppedD(1,5) [OF g(4)] g(3)]) (use readyD(3) [OF ready] False in auto)
  then have "on_value clr W d (doc_type v) (doc_text v) st g = Some (st, g)" using st by (simp add: on_value_def)
  then have "import_events clr W d u (load_events v) (import_new p) f = Some (st, g)"
    using g(1) by (simp add: load_events_def import_events_append)
  then show ?thesis using g(3,4) st(3) by (auto simp: import_close_def)
qed

end
