(* ===== verification/JSON_Reading.thy ===== *)
theory JSON_Reading
  imports JSON_Load_Values
begin

text \<open>
  Reading stored documents: types, values, which properties and elements a document has.
\<close>

section \<open>Scalar values\<close>

lemma get_value_at:
  assumes "db_at d f" and "stands_at f p (doc ps)" and "data f (doc ps @ [value_code VALUE]) = Some x"
  shows "get_json_value p f = Some (x, f)"
proof -
  note st = db_atD(1) [OF assms(1)]
  have "node f (doc ps @ [value_code VALUE]) \<noteq> None" using assms(3) data_node by simp
  from sub_index_there [OF assms(2) this] obtain q where
    q: "sub_index VALUE (p, f) = (q, f)" "stands_at f q (doc ps @ [value_code VALUE])" by blast
  from get_data_at [OF st q(2)] assms(3) q(1) show ?thesis by (simp add: get_json_value_def)
qed

section \<open>Elements\<close>

lemma contains_element_at:
  assumes db: "db_at d f" and words: "words_ok f" and at: "stands_at f p (doc ps)" and ok: "array_ok f ps n" and room: "room f 1"
  shows "\<exists>g. contains_element k p f = Some (1 \<le> k \<and> k \<le> n, g) \<and> stepped d f g {} 1"
proof -
  from get_children_at [OF db words at room, of "{}"] obtain ch g where
    g: "get_children p f = (ch, g)" "stands_at g ch (doc ps @ [value_code CHILDREN])" "stepped d f g {} 1" by auto
  have ok': "array_ok g ps n" using steppedD(7) [OF g(3)] ok by (simp add: same_doc_def)
  have "node g (doc (ps @ [k])) \<noteq> None \<longleftrightarrow> 1 \<le> k \<and> k \<le> n"
  proof (cases "1 \<le> k \<and> k \<le> n")
    case True
    with array_okD(4) [OF ok', of k] show ?thesis by (auto simp: own_id_def)
  next
    case False
    then have "k = 0 \<or> n < k" by auto
    with False array_okD(5) [OF ok', of k] array_okD(6) [OF ok'] show ?thesis by auto
  qed
  then have "has_index k g ch \<longleftrightarrow> 1 \<le> k \<and> k \<le> n"
    using has_index_at [OF g(2), of k] by (simp add: doc_snoc)
  with g(1,3) type_of_at(3) [OF db_atD(1) [OF db] at array_okD(1) [OF ok]] show ?thesis by (simp add: contains_element_def)
qed

section \<open>Properties\<close>

lemma sub_string_there:
  "stands_at f p cs \<Longrightarrow> node f (cs @ [string_code s]) \<noteq> None \<Longrightarrow>
    \<exists>q. sub_string s (p, f) = (q, f) \<and> stands_at f q (cs @ [string_code s])"
  unfolding sub_string_def by (rule sub_code_there) (simp_all add: code_lens)

lemma contains_property_at:
  assumes db: "db_at d f" and words: "words_ok f" and at: "stands_at f p (doc ps)" and ok: "object_ok f ps n" and room: "room f 1"
  shows "\<exists>g. contains_property d s p f = Some (\<exists>k. placed f ps s k, g) \<and> stepped d f g {} 1"
proof -
  note inv = db_atD [OF db]
  have type: "json_type_of f p = Some OBJECT" using type_of_at(3) [OF inv(1) at object_okD(1) [OF ok]] .
  show ?thesis
  proof (cases "node f [value_code ROOT_PROPERTIES, string_code s]")
    case None
    then have "\<not> placed f ps s k" for k by (simp add: placed_def)
    moreover have "\<not> has_string s f (jd_properties d)" using has_string_at [OF inv(2)] None by simp
    ultimately show ?thesis using type stepped_refl [OF db words] by (simp add: contains_property_def)
  next
    case (Some i)
    then have there: "node f ([value_code ROOT_PROPERTIES] @ [string_code s]) \<noteq> None" by simp
    from sub_string_there [OF inv(2) there] obtain q where
      q: "sub_string s (jd_properties d, f) = (q, f)" "stands_at f q [value_code ROOT_PROPERTIES, string_code s]" by auto
    have i: "path_index q = i" using q(2) Some by (simp add: stands_at_def)
    from sub_index_step [OF inv(1) at _ room, of PROPERTIES] obtain r g where
      g: "get_object_properties p f = (r, g)" "grows f g {} {doc ps @ [value_code PROPERTIES]} 1"
        "stands_at g r (doc ps @ [value_code PROPERTIES])" by (auto simp: get_object_properties_def)
    have "keeps f g {}" by (rule keeps_slot [OF g(2) inv(1)]) (use at in \<open>auto simp: stands_at_def\<close>)
    moreover have "words_ok g" by (rule words_grows(1) [OF g(2) _ words]) simp
    ultimately have st: "stepped d f g {} 1" using db_at_grows [OF db g(2)] growsD(5) [OF g(2)] by (simp add: stepped_def)
    let ?P = "doc ps @ [value_code PROPERTIES, value_code i]"
    have "node g ?P \<noteq> None \<longleftrightarrow> (\<exists>k. placed f ps s k)"
    proof
      assume n: "node g ?P \<noteq> None"
      have "node f ?P \<noteq> None"
      proof
        assume "node f ?P = None"
        then have "node g ?P = None" by (intro new_node [OF g(2)]) (auto dest: prefix_length_le)
        with n show False by blast
      qed
      with unplaced_node [OF inv(1) ok _ Some] show "\<exists>k. placed f ps s k" by metis
    next
      assume "\<exists>k. placed f ps s k"
      then obtain k j where "node f [value_code ROOT_PROPERTIES, string_code s] = Some j"
        "data f (doc ps @ [value_code PROPERTIES, value_code j]) = Some (index_bytes k)" by (auto simp: placed_def)
      with Some have "node f ?P \<noteq> None" using data_node by fastforce
      then show "node g ?P \<noteq> None" using growsD(2) [OF g(2)] by fastforce
    qed
    then have "has_index i g r \<longleftrightarrow> (\<exists>k. placed f ps s k)" using has_index_at [OF g(3), of i] by simp
    moreover have "has_string s f (jd_properties d)" using has_string_at [OF inv(2)] Some by simp
    ultimately show ?thesis using type q(1) i g(1) st by (simp add: contains_property_def)
  qed
qed

text \<open>Reading the name of a position.\<close>

lemma position_step:
  assumes "grows f g {} (position_places ps k) n" and "db_at d f" and "words_ok f" and "document f ps names"
  shows "stepped d f g {} n"
proof (rule stepped_grows [OF assms(1-3)])
  show "within f {} {} (position_places ps k)"
  proof (rule withinI, intro allI impI conjI ballI)
    fix qs j b assume b: "b \<in> position_places ps k"
    then show "\<not> prefix (doc qs @ [value_code PROPERTIES, value_code j]) b" "\<not> prefix (doc qs @ [value_code VALUE, value_code j]) b"
      by (auto simp: position_places_def doc_prefix simp del: prefix_snoc)
    show "node f (doc (qs @ [j])) \<noteq> None" if "prefix (doc (qs @ [j])) b"
      using b that document_there [OF assms(2,4)] by (auto simp: position_places_def)
  qed auto
qed auto

section \<open>Stored values\<close>

lemma stored_members_placed:
  "stored_members f ps n kvs \<Longrightarrow> k < length kvs \<Longrightarrow> placed f ps (fst (kvs ! k)) (n + k)"
proof (induction kvs arbitrary: n k)
  case (Cons kv kvs)
  obtain t v where kv: "kv = (t, v)" by (cases kv)
  show ?case using Cons.IH [of "n + 1" "k - 1"] Cons.prems kv by (cases k) (auto simp: Suc_eq_plus1 add_ac)
qed simp

lemma members_keys:
  assumes "store_ok f" and "stored f ps (Members kvs)"
  shows "(\<exists>k. placed f ps s k) \<longleftrightarrow> s \<in> fst ` set kvs"
proof
  assume "\<exists>k. placed f ps s k"
  then obtain k where k: "placed f ps s k" by blast
  from assms(2) have ok: "object_ok f ps (length kvs)" and mem: "stored_members f ps 1 kvs" by simp_all
  from object_okD(5,6) [OF ok k] have "k - 1 < length kvs" "1 + (k - 1) = k" by simp_all
  with stored_members_placed [OF mem, of "k - 1"] placed_inject [OF assms(1) ok k] have "s = fst (kvs ! (k - 1))" by simp
  with \<open>k - 1 < length kvs\<close> show "s \<in> fst ` set kvs" by simp
next
  assume "s \<in> fst ` set kvs"
  then obtain k where "k < length kvs" "s = fst (kvs ! k)" by (auto simp: in_set_conv_nth)
  with stored_members_placed [of f ps 1 kvs k] assms(2) show "\<exists>k. placed f ps s k" by auto
qed

end
