(* ===== verification/JSON_Write.thy ===== *)
theory JSON_Write
  imports JSON_Value Byte_Escape
begin

text \<open>
  Writing a document as JSON text: \<open>JSONPath::write\<close> and the class \<open>JSONPath::Iterator\<close> over the properties of an object
  (code/Database/JSONPath.hpp). The text is returned. \<open>tab\<close> counts the levels of indentation, and \<open>user_id\<close> is the
  identifier of the user, whose property is written as \<open>my\<close>; the properties of other users are left out. \<open>write\<close> calls itself for the
  parts of a document: the loops take it as the argument \<open>wr\<close>, and \<open>json_write\<close> has the depth of the calls as a bound.
\<close>

abbreviation (input) newline :: bstring where "newline \<equiv> [CHR 0x0A]"
abbreviation (input) quote :: bstring where "quote \<equiv> [CHR 0x22]"

definition tabs :: "nat \<Rightarrow> bstring" where
  "tabs n = replicate (n * 3) (CHR '' '')"

section \<open>The iterator over the properties\<close>

record member_iterator =
  mi_item :: bstring
  mi_stack :: bit_stack
  mi_is_end :: bool
  mi_children :: "path option"
  mi_position :: index

definition member_end :: member_iterator where
  "member_end = \<lparr>mi_item = [], mi_stack = stack_new, mi_is_end = True, mi_children = None, mi_position = 0\<rparr>"

definition member_begin :: "json_db \<Rightarrow> path \<Rightarrow> db_file \<Rightarrow> (member_iterator \<times> db_file) option" where
  "member_begin d p f =
     (let (children, f) = get_children p f
      in do { (result, (children, f), st, position) \<leftarrow> next_item read_index db_path_ops (children, f) stack_new 0;
              (item, f) \<leftarrow> (if result then get_object_property d position p f else Some ([], f));
              Some (\<lparr>mi_item = item, mi_stack = st, mi_is_end = \<not> result, mi_children = Some children, mi_position = position\<rparr>, f) })"

definition member_next :: "json_db \<Rightarrow> path \<Rightarrow> member_iterator \<Rightarrow> db_file \<Rightarrow> (member_iterator \<times> db_file) option" where
  "member_next d p it f =
     (if mi_is_end it then Some (it, f)
      else do { children \<leftarrow> mi_children it;
                (result, (children, f), st, position) \<leftarrow>
                  next_item read_index db_path_ops (children, f) (mi_stack it) (mi_position it);
                (item, f) \<leftarrow> (if result then get_object_property d position p f else Some (mi_item it, f));
                Some (it\<lparr>mi_item := item, mi_stack := st, mi_is_end := \<not> result, mi_children := Some children,
                         mi_position := position\<rparr>, f) })"

definition member_at_end :: "member_iterator \<Rightarrow> bool" where
  "member_at_end it \<longleftrightarrow> mi_is_end it = mi_is_end member_end \<and> stack_eq (mi_stack it) (mi_stack member_end)"

section \<open>The loops\<close>

text \<open>The pages of a string, escaped; the bytes of a character that is not complete go to the next page.\<close>

partial_function (option) write_pages_loop ::
    "path \<Rightarrow> (cursor, index) iterator \<Rightarrow> bstring \<Rightarrow> db_file \<Rightarrow> (bstring \<times> db_file) option" where
  "write_pages_loop strings it part f =
     (if iterator_eq it (iterator_end 0) then Some ([], f)
      else (let (q, f) = sub_index (it_item it) (strings, f)
            in do { page \<leftarrow> path_get_data f q;
                    let (text, part) = escape_part part page;
                    (q, _) \<leftarrow> it_path it;
                    it \<leftarrow> iterator_next read_index db_path_ops (it\<lparr>it_path := Some (q, f)\<rparr>);
                    (rest, f) \<leftarrow> write_pages_loop strings it part f;
                    Some (text @ rest, f) }))"

declare write_pages_loop.simps [code]

definition write_part ::
    "(nat \<Rightarrow> path \<Rightarrow> db_file \<Rightarrow> (bstring \<times> db_file) option) \<Rightarrow> nat \<Rightarrow> path \<Rightarrow> db_file \<Rightarrow> (bstring \<times> db_file) option" where
  "write_part wr tab item f =
     do { t \<leftarrow> json_type_of f item; if t = UNDEFINED then Some (''null'', f) else wr tab item f }"

partial_function (option) write_items_loop ::
    "(nat \<Rightarrow> path \<Rightarrow> db_file \<Rightarrow> (bstring \<times> db_file) option) \<Rightarrow> (path \<Rightarrow> db_file \<Rightarrow> db_file option) \<Rightarrow> wide_ctype \<Rightarrow> json_db \<Rightarrow>
     path \<Rightarrow> nat \<Rightarrow> index \<Rightarrow> (cursor, index) iterator \<Rightarrow> db_file \<Rightarrow> (bstring \<times> db_file) option" where
  "write_items_loop wr clr W d p tab count it f =
     (if iterator_eq it (iterator_end 0) then Some ([], f)
      else do { (item, f) \<leftarrow> at_index clr W d (it_item it) p f;
                (text, f) \<leftarrow> write_part wr (if count = 1 then tab else tab + 1) item f;
                let separator = (if it_item it < count then '','' @ newline @ tabs (tab + 1) else []);
                (q, _) \<leftarrow> it_path it;
                it \<leftarrow> iterator_next read_index db_path_ops (it\<lparr>it_path := Some (q, f)\<rparr>);
                (rest, f) \<leftarrow> write_items_loop wr clr W d p tab count it f;
                Some (text @ separator @ rest, f) })"

declare write_items_loop.simps [code]

text \<open>The result includes the number of properties that were written.\<close>

partial_function (option) write_members_loop ::
    "(nat \<Rightarrow> path \<Rightarrow> db_file \<Rightarrow> (bstring \<times> db_file) option) \<Rightarrow> (path \<Rightarrow> db_file \<Rightarrow> db_file option) \<Rightarrow> wide_ctype \<Rightarrow> json_db \<Rightarrow>
     bstring \<Rightarrow> path \<Rightarrow> nat \<Rightarrow> member_iterator \<Rightarrow> db_file \<Rightarrow> (bstring \<times> nat \<times> db_file) option" where
  "write_members_loop wr clr W d user_id p tab it f =
     (if member_at_end it then Some ([], 0, f)
      else if mi_item it \<noteq> user_id \<and> has_string (mi_item it) f (jd_users d) then
        do { (it, f) \<leftarrow> member_next d p it f; write_members_loop wr clr W d user_id p tab it f }
      else do { let key = (if mi_item it = user_id then ''my'' else mi_item it);
                (json, f) \<leftarrow> at_property clr W d (mi_item it) p f;
                (text, f) \<leftarrow> write_part wr (tab + 1) json f;
                (it, f) \<leftarrow> member_next d p it f;
                let separator = (if \<not> member_at_end it then '','' @ newline else []);
                (rest, count, f) \<leftarrow> write_members_loop wr clr W d user_id p tab it f;
                Some (tabs (tab + 1) @ quote @ escape key @ quote @ '': '' @ text @ separator @ rest, count + 1, f) })"

declare write_members_loop.simps [code]

section \<open>\<open>write\<close>\<close>

definition write_string :: "path \<Rightarrow> db_file \<Rightarrow> (bstring \<times> db_file) option" where
  "write_string p f =
     (let (strings, f) = sub_index VALUE (p, f)
      in do { it \<leftarrow> iterator_begin read_index db_path_ops (strings, f) 0;
              (text, f) \<leftarrow> write_pages_loop strings it [] f;
              Some (quote @ text @ quote, f) })"

definition write_array ::
    "(nat \<Rightarrow> path \<Rightarrow> db_file \<Rightarrow> (bstring \<times> db_file) option) \<Rightarrow> (path \<Rightarrow> db_file \<Rightarrow> db_file option) \<Rightarrow> wide_ctype \<Rightarrow> json_db \<Rightarrow>
     path \<Rightarrow> nat \<Rightarrow> db_file \<Rightarrow> (bstring \<times> db_file) option" where
  "write_array wr clr W d p tab f =
     (let (children, f) = get_children p f
      in do { count \<leftarrow> (if path_has_data f children then path_get_index f children else Some 0);
              it \<leftarrow> iterator_begin read_index db_path_ops (children, f) 0;
              (text, f) \<leftarrow> write_items_loop wr clr W d p tab count it f;
              Some (''['' @ (if count > 1 then newline @ tabs (tab + 1) else []) @ text @
                    (if count > 1 then newline @ tabs tab else []) @ '']'', f) })"

definition write_object ::
    "(nat \<Rightarrow> path \<Rightarrow> db_file \<Rightarrow> (bstring \<times> db_file) option) \<Rightarrow> (path \<Rightarrow> db_file \<Rightarrow> db_file option) \<Rightarrow> wide_ctype \<Rightarrow> json_db \<Rightarrow>
     bstring \<Rightarrow> path \<Rightarrow> nat \<Rightarrow> db_file \<Rightarrow> (bstring \<times> db_file) option" where
  "write_object wr clr W d user_id p tab f =
     (let (children, f) = get_children p f
      in if path_dead_end f children then Some (''{}'', f)
         else do { (it, f) \<leftarrow> member_begin d p f;
                   (text, count, f) \<leftarrow> write_members_loop wr clr W d user_id p tab it f;
                   Some (''{'' @ newline @ text @ (if count > 0 then newline @ tabs tab else []) @ ''}'', f) })"

fun json_write ::
    "nat \<Rightarrow> (path \<Rightarrow> db_file \<Rightarrow> db_file option) \<Rightarrow> wide_ctype \<Rightarrow> json_db \<Rightarrow> bstring \<Rightarrow> nat \<Rightarrow> path \<Rightarrow> db_file \<Rightarrow>
     (bstring \<times> db_file) option" where
  "json_write 0 clr W d user_id tab p f = None"
| "json_write (Suc n) clr W d user_id tab p f =
     do { t \<leftarrow> json_type_of f p;
          case t of
            UNDEFINED \<Rightarrow> Some (''undefined'', f)
          | NULL \<Rightarrow> Some (''null'', f)
          | STRING \<Rightarrow> write_string p f
          | ARRAY \<Rightarrow> write_array (json_write n clr W d user_id) clr W d p tab f
          | OBJECT \<Rightarrow> write_object (json_write n clr W d user_id) clr W d user_id p tab f
          | USER \<Rightarrow> None
          | _ \<Rightarrow> (let (q, f) = sub_index VALUE (p, f)
                 in if \<not> path_has_data f q then Some (''null'', f) else map_option (\<lambda>v. (v, f)) (path_get_data f q)) }"

end
