(* ===== verification/JSON_Text.thy ===== *)
theory JSON_Text
  imports JSON_Reading JSON_Write
begin

text \<open>
  What \<open>write\<close> writes for a stored value: the text of the value, indented, its properties in the order of their positions.
\<close>

declare One_nat_def [simp del]

section \<open>The text of a value\<close>

fun escape_parts :: "bstring \<Rightarrow> bstring list \<Rightarrow> bstring" where
  "escape_parts part [] = []"
| "escape_parts part (s # ss) = (let (text, part) = escape_part part s in text @ escape_parts part ss)"

function (sequential) render :: "nat \<Rightarrow> json_doc \<Rightarrow> bstring"
  and render_items :: "nat \<Rightarrow> bstring \<Rightarrow> json_doc list \<Rightarrow> bstring"
  and render_members :: "nat \<Rightarrow> (bstring \<times> json_doc) list \<Rightarrow> bstring" where
  "render tab (Scalar t x) = (if t = UNDEFINED then ''undefined'' else if t = NULL then ''null'' else x)"
| "render tab (Text ss) = quote @ escape_parts [] ss @ quote"
| "render tab (Items vs) =
     ''['' @ (if length vs > 1 then newline @ tabs (tab + 1) else []) @
     render_items (if length vs = 1 then tab else tab + 1) (newline @ tabs (tab + 1)) vs @
     (if length vs > 1 then newline @ tabs tab else []) @ '']''"
| "render tab (Members kvs) =
     (if kvs = [] then ''{}'' else ''{'' @ newline @ render_members (tab + 1) kvs @ newline @ tabs tab @ ''}'')"
| "render_items tab line [] = []"
| "render_items tab line (v # vs) =
     (if doc_type v = UNDEFINED then ''null'' else render tab v) @ (if vs \<noteq> [] then '','' @ line else []) @ render_items tab line vs"
| "render_members tab [] = []"
| "render_members tab ((s, v) # kvs) =
     tabs tab @ quote @ escape s @ quote @ '': '' @ (if doc_type v = UNDEFINED then ''null'' else render tab v) @
     (if kvs \<noteq> [] then '','' @ newline else []) @ render_members tab kvs"
  by pat_completeness auto
termination
  by (relation "measure (case_sum (\<lambda>(tab, v). size v)
        (case_sum (\<lambda>(tab, line, vs). size_list size vs) (\<lambda>(tab, kvs). members_size kvs)))") auto

text \<open>Pages of complete characters are escaped as their concatenation is.\<close>

lemma escape_parts_chars:
  "\<forall>us \<in> set uss. \<forall>u \<in> set us. utf8_char u \<Longrightarrow> escape_parts [] (map concat uss) = concat (map escape_char (concat uss))"
proof (induction uss)
  case (Cons us uss)
  have "escape_part [] (concat us) = (concat (map escape_char us), [])"
    using escape_loop_chars [of us "concat us" "[]" "[]"] Cons.prems by (simp add: escape_part_def)
  with Cons show ?case by simp
qed simp

text \<open>The text, whole, when the pages end between characters.\<close>

lemma escape_whole_parts:
  assumes "\<forall>s \<in> set ss. whole_chars s"
  shows "\<exists>us. (\<forall>u \<in> set us. utf8_char u) \<and> concat ss = concat us \<and> escape_parts [] ss = concat (map escape_char us)"
proof -
  from whole_chars_split [OF assms] obtain uss where u: "\<forall>us \<in> set uss. \<forall>u \<in> set us. utf8_char u" "ss = map concat uss" by blast
  have "concat (map concat uss) = concat (concat uss)" by (induction uss) simp_all
  with u escape_parts_chars [OF u(1)] show ?thesis by (intro exI [of _ "concat uss"]) auto
qed

lemma escape_chars: "\<forall>u \<in> set us. utf8_char u \<Longrightarrow> escape (concat us) = concat (map escape_char us)"
  using escape_loop_chars [of us "concat us" "[]" "[]"] by (simp add: escape_def)

lemma unescape_chars: "\<forall>u \<in> set us. utf8_char u \<Longrightarrow> unescape (concat (map escape_char us)) = Some (concat us)"
  by (induction us) (simp_all add: unescape_escape_char)

text \<open>The names of the properties in a value.\<close>

primrec doc_names :: "json_doc \<Rightarrow> bstring set" where
  "doc_names (Scalar t x) = {}"
| "doc_names (Text ss) = {}"
| "doc_names (Items vs) = \<Union> (set (map doc_names vs))"
| "doc_names (Members kvs) = \<Union> (set (map (\<lambda>(s, names). insert s names) (map (map_prod id doc_names) kvs)))"

text \<open>None of the names is the one of a user.\<close>

definition no_users :: "json_db \<Rightarrow> db_file \<Rightarrow> bstring \<Rightarrow> json_doc \<Rightarrow> bool" where
  "no_users d f u v \<longleftrightarrow> stands_at f (jd_users d) [value_code USERS] \<and>
     (\<forall>s \<in> doc_names v. s \<noteq> u \<and> node f [value_code USERS, string_code s] = None)"

lemma no_users_part:
  "no_users d f u (Items vs) \<Longrightarrow> v \<in> set vs \<Longrightarrow> no_users d f u v"
  "no_users d f u (Members kvs) \<Longrightarrow> (s, v) \<in> set kvs \<Longrightarrow> no_users d f u v \<and> s \<noteq> u \<and> \<not> has_string s f (jd_users d)"
proof -
  show "no_users d f u (Items vs) \<Longrightarrow> v \<in> set vs \<Longrightarrow> no_users d f u v" by (auto simp: no_users_def)
  assume n: "no_users d f u (Members kvs)" and s: "(s, v) \<in> set kvs"
  have "insert s (doc_names v) \<subseteq> doc_names (Members kvs)" using s by (force simp: image_iff)
  with n have "no_users d f u v" and u: "s \<noteq> u" "node f [value_code USERS, string_code s] = None"
    "stands_at f (jd_users d) [value_code USERS]" unfolding no_users_def by blast+
  with has_string_at [OF u(3), of s] show "no_users d f u v \<and> s \<noteq> u \<and> \<not> has_string s f (jd_users d)" by simp
qed

lemma no_users_step: "no_users d f u v \<Longrightarrow> stepped d f g S n \<Longrightarrow> no_users d g u v"
  using steppedD(5) keepsD(4) [OF steppedD(3)] by (fastforce simp: no_users_def)

section \<open>Parts by their number\<close>

lemma stored_items_nth: "stored_items f ps n vs \<longleftrightarrow> (\<forall>i < length vs. stored f (ps @ [n + i]) (vs ! i))"
proof (induction vs arbitrary: n)
  case (Cons v vs)
  have "stored_items f ps n (v # vs) \<longleftrightarrow> stored f (ps @ [n]) v \<and> (\<forall>i < length vs. stored f (ps @ [n + 1 + i]) (vs ! i))"
    using Cons.IH [of "n + 1"] by simp
  also have "\<dots> \<longleftrightarrow> (\<forall>i < length (v # vs). stored f (ps @ [n + i]) ((v # vs) ! i))"
    unfolding All_less_Suc2 length_Cons by (simp add: Suc_eq_plus1 add_ac)
  finally show ?case .
qed simp

lemma stored_members_nth:
  "stored_members f ps n kvs \<longleftrightarrow>
     (\<forall>i < length kvs. placed f ps (fst (kvs ! i)) (n + i) \<and> stored f (ps @ [n + i]) (snd (kvs ! i)))"
proof (induction kvs arbitrary: n)
  case (Cons kv kvs)
  obtain s v where kv: "kv = (s, v)" by (cases kv)
  have "stored_members f ps n (kv # kvs) \<longleftrightarrow> (placed f ps s n \<and> stored f (ps @ [n]) v) \<and>
      (\<forall>i < length kvs. placed f ps (fst (kvs ! i)) (n + 1 + i) \<and> stored f (ps @ [n + 1 + i]) (snd (kvs ! i)))"
    using Cons.IH [of "n + 1"] kv by simp
  also have "\<dots> \<longleftrightarrow> (\<forall>i < length (kv # kvs). placed f ps (fst ((kv # kvs) ! i)) (n + i) \<and> stored f (ps @ [n + i]) (snd ((kv # kvs) ! i)))"
    unfolding All_less_Suc2 length_Cons using kv by (simp add: Suc_eq_plus1 add_ac)
  finally show ?case .
qed simp

lemma loadable_items_nth: "loadable_items W names n vs \<Longrightarrow> i < length vs \<Longrightarrow> loadable W (names @ [Element (n + i)]) (vs ! i)"
proof (induction vs arbitrary: n i)
  case (Cons v vs)
  show ?case using Cons.IH [of "n + 1" "i - 1"] Cons.prems by (cases i) (auto simp: Suc_eq_plus1 add_ac)
qed simp

lemma loadable_members_nth:
  "loadable_members W names kvs \<Longrightarrow> (s, v) \<in> set kvs \<Longrightarrow>
     names_ok W (drop 2 (names @ [Property s])) \<and> loadable W (names @ [Property s]) v"
  by (induction kvs) auto

lemma array_numbers_list: "array_ok f ps n \<Longrightarrow> sorted_list_of_set (numbers f (doc ps @ [value_code CHILDREN])) = [1..<n + 1]"
  using array_numbers [of f ps n] by (simp add: atLeastLessThanSuc_atLeastAtMost [symmetric] Suc_eq_plus1)

text \<open>A step in one part leaves the others stored.\<close>

lemma stored_other:
  assumes "stored f (ps @ [j]) v" and "stepped d f g (insert ps (below (ps @ [k]))) n" and "j \<noteq> k"
  shows "stored g (ps @ [j]) v"
proof (rule stored_same(1) [OF assms(1)])
  fix qs assume q: "prefix (ps @ [j]) qs"
  have "qs \<noteq> ps" using q prefix_length_le [OF q] by auto
  moreover have "\<not> prefix (ps @ [k]) qs" using child_eq [OF q] assms(3) by blast
  ultimately show "same_doc f g qs" by (intro steppedD(7) [OF assms(2)]) simp
qed

end
