(* ===== verification/JSON_Written.thy ===== *)
theory JSON_Written
  imports JSON_Text
begin

text \<open>
  \<open>write\<close> on stored values: the loops over pages, elements and properties, and the induction on the value.
\<close>

declare One_nat_def [simp del]

section \<open>Strings\<close>

lemma write_pages_at:
  assumes "tidy f" and "pages_at f ps pages" and fin: "finite (numbers f (doc ps @ [value_code VALUE]))"
    and at: "stands_at f q (doc ps @ [value_code VALUE])" and st: "store_ok f"
    and "visits f (doc ps @ [value_code VALUE]) it [i..<length pages]"
  shows "write_pages_loop q it part f = Some (escape_parts part (drop i pages), f)"
  using assms(6)
proof (induction "length pages - i" arbitrary: i it part)
  case 0
  then show ?case using visits_end [OF 0(2)] by (simp add: write_pages_loop.simps [of q it])
next
  case (Suc n)
  let ?V = "doc ps @ [value_code VALUE]"
  have i: "i < length pages" using Suc.hyps(2) by simp
  have list: "[i..<length pages] = i # [Suc i..<length pages]" by (rule upt_conv_Cons [OF i])
  have V: "visits f ?V it (i # [Suc i..<length pages])" using Suc.prems unfolding list .
  from visits_item [OF V] obtain u where u: "it_item it = i" "it_path it = Some (u, f)" by blast
  have page: "data f (?V @ [value_code i]) = Some (pages ! i)" using assms(2) i by (simp add: pages_at_def)
  then have there: "node f (?V @ [value_code i]) \<noteq> None" using data_node by blast
  from sub_index_there [OF at there] obtain r where r: "sub_index i (q, f) = (r, f)" "stands_at f r (?V @ [value_code i])" by blast
  have data: "path_get_data f r = Some (pages ! i)" using get_data_at(1) [OF st r(2)] page by simp
  from visits_next [OF assms(1) _ fin V] obtain it' where
    it': "iterator_next read_index db_path_ops it = Some it'" "visits f ?V it' [Suc i..<length pages]" by auto
  have same: "it\<lparr>it_path := Some (u, f)\<rparr> = it" using u(2) by (cases it) simp
  have step: "iterator_next read_index db_path_ops (it\<lparr>it_path := Some (u, f)\<rparr>) = Some it'" unfolding same by (rule it'(1))
  obtain out part' where e: "escape_part part (pages ! i) = (out, part')" by force
  have drop: "drop i pages = pages ! i # drop (Suc i) pages" by (rule Cons_nth_drop_Suc [OF i, symmetric])
  have "write_pages_loop q it' part' f = Some (escape_parts part' (drop (Suc i) pages), f)"
    by (rule Suc.hyps(1) [OF _ it'(2)]) (use Suc.hyps(2) in simp)
  then show ?case
    using visits_end [OF V] u r(1) data step e by (simp add: write_pages_loop.simps [of q it] drop)
qed

lemma write_string_at:
  assumes db: "db_at d f" and at: "stands_at f p (doc ps)" and ok: "string_ok f ps pages"
  shows "write_string p f = Some (quote @ escape_parts [] pages @ quote, f)"
proof -
  let ?V = "doc ps @ [value_code VALUE]"
  note inv = db_atD [OF db]
  have "node f ?V \<noteq> None" using ok data_node by (simp add: string_ok_def)
  from sub_index_there [OF at this] obtain q where q: "sub_index VALUE (p, f) = (q, f)" "stands_at f q ?V" by blast
  have pages: "pages_at f ps pages" using ok by (simp add: string_ok_def)
  have place: "json_place ?V" by simp
  from visits_begin [OF inv(1,7) place q(2)] obtain it where
    it: "iterator_begin read_index db_path_ops (q, f) 0 = Some it" "visits f ?V it [0..<length pages]"
    unfolding pages_numbers [OF pages] sorted_list_of_set_range by blast
  from write_pages_at [OF inv(7) pages numbers_finite [OF inv(1,7) place q(2)] q(2) inv(1) it(2), of "[]"] q(1) it(1)
  show ?thesis by (simp add: write_string_def)
qed

section \<open>Parts\<close>

text \<open>What is asked of the function that writes the parts.\<close>

definition writes ::
    "(nat \<Rightarrow> path \<Rightarrow> db_file \<Rightarrow> (bstring \<times> db_file) option) \<Rightarrow> wide_ctype \<Rightarrow> json_db \<Rightarrow> bstring \<Rightarrow> json_doc \<Rightarrow> bool" where
  "writes wr W d u v \<longleftrightarrow>
     (\<forall>tab f p ps names. db_at d f \<longrightarrow> words_ok f \<longrightarrow> stands_at f p (doc ps) \<longrightarrow> document f ps names \<longrightarrow> stored f ps v \<longrightarrow>
        loadable W names v \<longrightarrow> no_users d f u v \<longrightarrow> room f (load_cost W names v) \<longrightarrow>
        (\<exists>g. wr tab p f = Some (render tab v, g) \<and> stored g ps v \<and> stepped d f g (below ps) (load_cost W names v)))"

lemma write_part_at:
  assumes "writes wr W d u v" and "db_at d f" and "words_ok f" and "stands_at f p (doc ps)" and "document f ps names"
    and "stored f ps v" and "loadable W names v" and "no_users d f u v" and "room f (load_cost W names v)"
  shows "\<exists>g. write_part wr tab p f = Some (if doc_type v = UNDEFINED then ''null'' else render tab v, g) \<and> stored g ps v \<and>
    stepped d f g (below ps) (load_cost W names v)"
proof -
  note st = db_atD(1) [OF assms(2)]
  have type: "json_type_of f p = Some (doc_type v)"
  proof (cases v)
    case (Scalar t x)
    then show ?thesis
      using type_of_none(2) [OF st assms(4)] type_of_at(3) [OF st assms(4), of t] assms(6)
      by (cases "t = UNDEFINED") (auto simp: blank_doc_def)
  next
    case (Text ss)
    then show ?thesis using type_of_at(3) [OF st assms(4)] assms(6) by (simp add: string_ok_def)
  next
    case (Items vs)
    then have "type_at f ps ARRAY" using assms(6) by (auto intro: array_okD(1))
    from type_of_at(3) [OF st assms(4) this] Items show ?thesis by simp
  next
    case (Members kvs)
    then have "type_at f ps OBJECT" using assms(6) by (auto intro: object_okD(1))
    from type_of_at(3) [OF st assms(4) this] Members show ?thesis by simp
  qed
  show ?thesis
  proof (cases "doc_type v = UNDEFINED")
    case True
    then show ?thesis using type assms(6) stepped_refl [OF assms(2,3)] by (auto simp: write_part_def)
  next
    case False
    from assms(1) [unfolded writes_def, rule_format, OF assms(2-9), of tab] False type show ?thesis
      by (auto simp: write_part_def)
  qed
qed

section \<open>Elements\<close>

lemma write_items_at:
  assumes IH: "\<And>v. v \<in> set vs \<Longrightarrow> writes wr W d u v" and n: "n = length vs" "n < 2 ^ 64" and names: "names_ok W (drop 2 names)"
    and load: "loadable_items W names 1 vs"
    and "db_at d f" and "words_ok f" and "stands_at f p (doc ps)" and "document f ps names" and "array_ok f ps n"
    and "stored_items f ps 1 vs" and "no_users d f u (Items vs)" and "i \<le> n"
    and "visits f (doc ps @ [value_code CHILDREN]) it [i + 1..<n + 1]" and "room f (items_cost W names (i + 1) (drop i vs))"
  shows "\<exists>g. write_items_loop wr clr W d p tab n it f =
      Some (render_items (if n = 1 then tab else tab + 1) (newline @ tabs (tab + 1)) (drop i vs), g) \<and>
    array_ok g ps n \<and> stored_items g ps 1 vs \<and> stepped d f g (below ps) (items_cost W names (i + 1) (drop i vs))"
  using assms(6-)
proof (induction "n - i" arbitrary: i it f)
  case 0
  then have "i = n" by simp
  then show ?case using 0 n(1) visits_end [OF 0(10)] stepped_refl [OF 0(2,3)]
    by (auto simp: write_items_loop.simps [of wr clr W d p tab "length vs" it f])
next
  case (Suc m)
  let ?C = "doc ps @ [value_code CHILDREN]" and ?k = "i + 1" and ?c = "index_op_cost W names 0 1"
  let ?v = "vs ! i" and ?names = "names @ [Element (i + 1)]"
  let ?l = "load_cost W ?names ?v" and ?rest = "items_cost W names (i + 1 + 1) (drop (i + 1) vs)"
  have i: "i < n" using Suc.hyps(2) by simp
  have drop: "drop i vs = ?v # drop (i + 1) vs" using Cons_nth_drop_Suc [of i vs] i n(1) by (simp add: Suc_eq_plus1)
  have list: "[i + 1..<n + 1] = ?k # [i + 1 + 1..<n + 1]" using upt_conv_Cons [of "i + 1" "n + 1"] i by (simp add: Suc_eq_plus1)
  have V: "visits f ?C it (?k # [i + 1 + 1..<n + 1])" using Suc.prems(9) unfolding list .
  have mem: "?v \<in> set vs" using i n(1) by simp
  have room: "room f (?c + ?l + ?rest)" by (rule room_less [OF Suc.prems(10)]) (simp add: drop)
  have k: "?k < 2 ^ 64" "?k \<le> n" using i n(2) by simp_all
  have seq: "sequence f ps n" using Suc.prems(5) by (simp add: sequence_def)
  have cost: "index_op_cost W names n ?k \<le> ?c" using i by (simp add: index_op_cost_def)
  have r0: "room f (index_op_cost W names n ?k)" by (rule room_less [OF room]) (use cost in simp)
  have mx: "max n ?k = n" using k(2) by simp
  from at_index_at [OF Suc.prems(1-4) seq _ k(1) names r0, of clr] obtain c g where
    g: "at_index clr W d ?k p f = Some (c, g)" "stands_at g c (doc (ps @ [?k]))" "array_ok g ps n"
      "stepped d f g {ps} (index_op_cost W names n ?k)" unfolding mx by auto
  have itemsf: "stored f (ps @ [1 + j]) (vs ! j)" if "j < n" for j using Suc.prems(6) that n(1) by (simp add: stored_items_nth)
  have vg: "stored g (ps @ [?k]) ?v" by (rule stepped_parent(1) [OF g(4)]) (use itemsf [OF i] in \<open>simp add: add.commute\<close>)
  have part: "part_key g ps ?k (Element ?k)" using k(1) array_okD(1) [OF g(3)] by (simp add: part_key_def)
  have docg: "document g (ps @ [?k]) ?names"
    using document.part [OF stepped_parent(2) [OF g(4) Suc.prems(4)] part array_okD(4) [OF g(3) _ k(2)]] by simp
  have loadv: "loadable W ?names ?v" using loadable_items_nth [OF load, of i] i n(1) by (simp add: add.commute)
  have usersg: "no_users d g u ?v" by (rule no_users_step [OF no_users_part(1) [OF Suc.prems(7) mem] g(4)])
  have rg: "room g ?l" by (rule stepped_room [OF room g(4)]) (use cost in simp)
  from write_part_at [OF IH [OF mem] steppedD(1,2) [OF g(4)] g(2) docg vg loadv usersg rg, of "if n = 1 then tab else tab + 1"]
  obtain h where h: "write_part wr (if n = 1 then tab else tab + 1) c g =
      Some (if doc_type ?v = UNDEFINED then ''null'' else render (if n = 1 then tab else tab + 1) ?v, h)"
    "stored h (ps @ [?k]) ?v" "stepped d g h (below (ps @ [?k])) ?l" by auto
  have fh: "stepped d f h (insert ps (below (ps @ [?k]))) (?c + ?l)"
    by (rule stepped_mono [OF stepped_then [OF g(4) h(3), of "insert ps (below (ps @ [?k]))"]]) (use cost in auto)
  have okh: "array_ok h ps n" using stepped_child(1) [OF h(3)] g(3) by (simp add: same_doc_def)
  have "stored h (ps @ [1 + j]) (vs ! j)" if "j < n" for j
  proof (cases "j = i")
    case False
    then show ?thesis by (intro stored_other [OF itemsf [OF that] fh]) simp
  qed (use h(2) in \<open>simp add: add.commute\<close>)
  then have itemsh: "stored_items h ps 1 vs" using n(1) by (simp add: stored_items_nth)
  note dbh = steppedD(1,2) [OF fh]
  have place: "json_place ?C" by simp
  have num: "numbers h ?C = numbers f ?C" using array_numbers [OF okh] array_numbers [OF Suc.prems(5)] by simp
  from visits_same [OF V db_atD(1) [OF dbh(1)] db_atD(7) [OF dbh(1)] place num steppedD(5) [OF fh]] obtain q where
    q: "it_path it = Some (q, f)" "visits h ?C (it\<lparr>it_path := Some (q, h)\<rparr>) (?k # [i + 1 + 1..<n + 1])" by blast
  have fin: "finite (numbers h ?C)" using array_numbers [OF okh] by simp
  from visits_next [OF db_atD(7) [OF dbh(1)] place fin q(2)] obtain it' where
    it': "iterator_next read_index db_path_ops (it\<lparr>it_path := Some (q, h)\<rparr>) = Some it'" "visits h ?C it' [i + 1 + 1..<n + 1]" by blast
  have doch: "document h ps names" using stepped_child(2) [OF h(3)] stepped_parent(2) [OF g(4) Suc.prems(4)] by blast
  have rh: "room h ?rest" by (rule stepped_room [OF room fh]) simp
  have "n - (i + 1) = m" "i + 1 \<le> n" using Suc.hyps(2) by simp_all
  from Suc.hyps(1) [OF this(1) [symmetric] dbh steppedD(5) [OF fh Suc.prems(3)] doch okh itemsh no_users_step [OF Suc.prems(7) fh]
      this(2) it'(2) rh] obtain k where
    k': "write_items_loop wr clr W d p tab n it' h =
        Some (render_items (if n = 1 then tab else tab + 1) (newline @ tabs (tab + 1)) (drop (i + 1) vs), k)"
      "array_ok k ps n" "stored_items k ps 1 vs" "stepped d h k (below ps) ?rest" by blast
  have sep: "(if ?k < n then '','' @ newline @ tabs (tab + 1) else []) =
    (if drop (i + 1) vs \<noteq> [] then '','' @ newline @ tabs (tab + 1) else [])" using n(1) by simp
  have more: "\<not> iterator_eq it (iterator_end 0)" using visits_end [OF V] by simp
  have item: "it_item it = ?k" using visits_item [OF V] by simp
  have run: "write_items_loop wr clr W d p tab n it f =
    Some (render_items (if n = 1 then tab else tab + 1) (newline @ tabs (tab + 1)) (drop i vs), k)"
    unfolding write_items_loop.simps [of wr clr W d p tab n it f] item drop
    using more g(1) h(1) q(1) it'(1) k'(1) sep by (simp add: Let_def)
  have "insert ps (below (ps @ [?k])) \<subseteq> below ps" using below_simps(1,2) by blast
  from stepped_then [OF fh k'(4) this] have "stepped d f k (below ps) (?c + ?l + ?rest)" by simp
  then have "stepped d f k (below ps) (items_cost W names (i + 1) (drop i vs))" by (rule stepped_mono) (simp_all add: drop)
  with run k'(2,3) show ?case by blast
qed

section \<open>The iterator over the properties\<close>

definition mi_iter :: "member_iterator \<Rightarrow> db_file \<Rightarrow> (cursor, index) iterator" where
  "mi_iter it f =
     \<lparr>it_path = map_option (\<lambda>c. (c, f)) (mi_children it), it_item = mi_position it, it_stack = mi_stack it, it_is_end = mi_is_end it\<rparr>"

text \<open>The positions that are left, and the name that the iterator holds.\<close>

definition members_left :: "db_file \<Rightarrow> nat list \<Rightarrow> (bstring \<times> json_doc) list \<Rightarrow> member_iterator \<Rightarrow> nat list \<Rightarrow> bool" where
  "members_left f ps kvs it ks \<longleftrightarrow> visits f (doc ps @ [value_code CHILDREN]) (mi_iter it f) ks \<and>
     (ks \<noteq> [] \<longrightarrow> mi_item it = fst (kvs ! (hd ks - 1)))"

lemma members_left_end: "members_left f ps kvs it ks \<Longrightarrow> member_at_end it \<longleftrightarrow> ks = []"
proof -
  assume "members_left f ps kvs it ks"
  then have v: "visits f (doc ps @ [value_code CHILDREN]) (mi_iter it f) ks" by (simp add: members_left_def)
  then have "mi_is_end it = (ks = [])" by (simp add: visits_def mi_iter_def)
  moreover have "stack_eq (mi_stack it) stack_new \<longleftrightarrow> ks = []" using visits_end [OF v] by (simp add: iterator_eq_def iterator_end_def mi_iter_def)
  ultimately show ?thesis by (auto simp: member_at_end_def member_end_def)
qed

lemma object_numbers:
  assumes "object_ok f ps n" and "\<And>k. 1 \<le> k \<Longrightarrow> k \<le> n \<Longrightarrow> \<exists>s. placed f ps s k"
  shows "numbers f (doc ps @ [value_code CHILDREN]) = {1..n}"
proof -
  have "k \<in> numbers f (doc ps @ [value_code CHILDREN]) \<longleftrightarrow> k \<in> {1..n}" for k
  proof (cases "1 \<le> k \<and> k \<le> n")
    case True
    with assms(2) obtain s where "placed f ps s k" by blast
    with object_okD(3,8) [OF assms(1)] True show ?thesis by (auto simp: own_id_def numbers_def doc_snoc)
  next
    case False
    then have "k = 0 \<or> n < k" by auto
    with object_okD(9,10) [OF assms(1)] have "node f (doc (ps @ [k])) = None" by auto
    with False show ?thesis by (simp add: numbers_def doc_snoc)
  qed
  then show ?thesis by blast
qed

text \<open>What the loop over the properties keeps.\<close>

definition full_object :: "db_file \<Rightarrow> nat list \<Rightarrow> (bstring \<times> json_doc) list \<Rightarrow> bool" where
  "full_object f ps kvs \<longleftrightarrow> object_ok f ps (length kvs) \<and> (\<forall>i < length kvs. placed f ps (fst (kvs ! i)) (1 + i))"

lemma full_same: "full_object f ps kvs \<Longrightarrow> same_doc f g ps \<Longrightarrow> full_object g ps kvs"
  unfolding full_object_def same_doc_def by blast

lemma full_named:
  assumes "full_object f ps kvs" and "1 \<le> k" and "k \<le> length kvs"
  shows "named f ps k (fst (kvs ! (k - 1)))" and "k < 2 ^ 64" and "placed f ps (fst (kvs ! (k - 1))) k"
proof -
  show pl: "placed f ps (fst (kvs ! (k - 1))) k" using assms by (auto simp: full_object_def dest: spec [of _ "k - 1"])
  with assms(1) show "named f ps k (fst (kvs ! (k - 1)))" "k < 2 ^ 64"
    using object_okD(7) by (auto simp: full_object_def placed_def)
qed

lemma full_numbers: "full_object f ps kvs \<Longrightarrow> numbers f (doc ps @ [value_code CHILDREN]) = {1..length kvs}"
proof (rule object_numbers)
  assume f: "full_object f ps kvs"
  then show "object_ok f ps (length kvs)" by (simp add: full_object_def)
  show "\<exists>s. placed f ps s k" if "1 \<le> k" "k \<le> length kvs" for k
    using full_named(3) [OF f that] by blast
qed

lemma name_step:
  assumes db: "db_at d f" and words: "words_ok f" and at: "stands_at f p (doc ps)" and doc: "document f ps names"
    and full: "full_object f ps kvs" and k: "1 \<le> k" "k \<le> length kvs" and room: "room f 2"
  shows "\<exists>g. get_object_property d k p f = Some (fst (kvs ! (k - 1)), g) \<and> stepped d f g {} 2"
  using get_object_property_at [OF db at full_named(1,2) [OF full k] room] position_step [OF _ db words doc] by blast

lemma members_left_next:
  assumes db: "db_at d f" and words: "words_ok f" and at: "stands_at f p (doc ps)" and doc: "document f ps names"
    and full: "full_object f ps kvs" and left: "members_left f ps kvs it (k # ks)" and ks: "set ks \<subseteq> {1..length kvs}" and room: "room f 2"
  shows "\<exists>it' g. member_next d p it f = Some (it', g) \<and> members_left g ps kvs it' ks \<and> stepped d f g {} 2"
proof -
  let ?C = "doc ps @ [value_code CHILDREN]"
  note inv = db_atD [OF db]
  have place: "json_place ?C" by simp
  have fin: "finite (numbers f ?C)" using full_numbers [OF full] by simp
  from left have v: "visits f ?C (mi_iter it f) (k # ks)" by (simp add: members_left_def)
  from visits_next [OF inv(7) place fin v] obtain it2 where
    it2: "iterator_next read_index db_path_ops (mi_iter it f) = Some it2" "visits f ?C it2 ks" by blast
  from it2(2) obtain c2 where c2: "it_path it2 = Some (c2, f)" "it_is_end it2 = (ks = [])" by (auto simp: visits_def)
  from v have nend: "\<not> mi_is_end it" by (simp add: visits_def mi_iter_def)
  from it2(1) obtain c result st pos where
    c: "mi_children it = Some c" "next_item read_index db_path_ops (c, f) (mi_stack it) (mi_position it) = Some (result, (c2, f), st, pos)"
      "it2 = \<lparr>it_path = Some (c2, f), it_item = pos, it_stack = st, it_is_end = (\<not> result)\<rparr>"
    using c2(1) by (auto simp: iterator_next_def mi_iter_def split: bind_splits)
  show ?thesis
  proof (cases ks)
    case Nil
    then have r: "\<not> result" using c2(2) c(3) by simp
    let ?it = "it\<lparr>mi_stack := st, mi_is_end := True, mi_children := Some c2, mi_position := pos\<rparr>"
    have "member_next d p it f = Some (?it, f)" using nend c(1,2) r by (simp add: member_next_def)
    moreover have "mi_iter ?it f = it2" using c(3) r by (simp add: mi_iter_def)
    ultimately show ?thesis using it2(2) Nil stepped_refl [OF db words] by (auto simp: members_left_def)
  next
    case (Cons j js)
    then have r: "result" using c2(2) c(3) by simp
    have j: "1 \<le> j" "j \<le> length kvs" using ks Cons by simp_all
    have v2: "visits f ?C it2 (j # js)" using it2(2) Cons by simp
    have pos: "pos = j" using visits_item [OF v2] c(3) by simp
    from name_step [OF db words at doc full j room] obtain g where
      g: "get_object_property d j p f = Some (fst (kvs ! (j - 1)), g)" "stepped d f g {} 2" by blast
    let ?it = "it\<lparr>mi_item := fst (kvs ! (j - 1)), mi_stack := st, mi_is_end := False, mi_children := Some c2, mi_position := j\<rparr>"
    have "member_next d p it f = Some (?it, g)" using nend c(1,2) r g(1) pos by (simp add: member_next_def)
    moreover have fullg: "full_object g ps kvs" using full_same [OF full steppedD(7) [OF g(2)]] by simp
    note dbg = steppedD(1) [OF g(2)]
    have num: "numbers g ?C = numbers f ?C" using full_numbers [OF full] full_numbers [OF fullg] by simp
    from visits_same [OF v2 db_atD(1) [OF dbg] db_atD(7) [OF dbg] place num steppedD(5) [OF g(2)]]
    have "visits g ?C (it2\<lparr>it_path := Some (c2, g)\<rparr>) (j # js)" using c2(1) by auto
    moreover have "mi_iter ?it g = it2\<lparr>it_path := Some (c2, g)\<rparr>" using c(3) r pos by (simp add: mi_iter_def)
    ultimately show ?thesis using g(2) Cons by (auto simp: members_left_def)
  qed
qed

lemma member_begin_at:
  assumes db: "db_at d f" and words: "words_ok f" and at: "stands_at f p (doc ps)" and doc: "document f ps names"
    and full: "full_object f ps kvs" and ne: "kvs \<noteq> []" and room: "room f 3"
  shows "\<exists>it g. member_begin d p f = Some (it, g) \<and> members_left g ps kvs it [1..<length kvs + 1] \<and> stepped d f g {} 3"
proof -
  let ?C = "doc ps @ [value_code CHILDREN]"
  have place: "json_place ?C" by simp
  from get_children_at [OF db words at room_less [OF room], of "{}"] obtain ch f1 where
    1: "get_children p f = (ch, f1)" "stands_at f1 ch ?C" "stepped d f f1 {} 1" by auto
  note db1 = steppedD(1,2) [OF 1(3)]
  have full1: "full_object f1 ps kvs" using full_same [OF full steppedD(7) [OF 1(3)]] by simp
  have doc1: "document f1 ps names" by (rule stepped_document [OF doc 1(3)]) simp
  have "sorted_list_of_set (numbers f1 ?C) = [1..<length kvs + 1]"
    using full_numbers [OF full1] by (simp add: atLeastLessThanSuc_atLeastAtMost [symmetric] Suc_eq_plus1)
  with visits_first [OF db_atD(1) [OF db1(1)] db_atD(7) [OF db1(1)] place 1(2)] obtain found q st k where
    n: "next_item read_index db_path_ops (ch, f1) stack_new 0 = Some (found, (q, f1), st, k)"
      "visits f1 ?C \<lparr>it_path = Some (q, f1), it_item = k, it_stack = st, it_is_end = (\<not> found)\<rparr> [1..<length kvs + 1]" by auto
  have list: "[1..<length kvs + 1] = 1 # [1 + 1..<length kvs + 1]" using upt_conv_Cons [of 1 "length kvs + 1"] ne by (simp add: Suc_eq_plus1)
  note v = n(2) [unfolded list]
  have k: "k = 1" "found" using visits_item [OF v] v by (simp_all add: visits_def)
  have r1: "room f1 2" by (rule stepped_room [OF room 1(3)]) simp
  have len: "(1::nat) \<le> 1" "1 \<le> length kvs" using ne unfolding One_nat_def Suc_le_eq by simp_all
  from name_step [OF db1 steppedD(5) [OF 1(3) at] doc1 full1 len r1] obtain g where
    g: "get_object_property d 1 p f1 = Some (fst (kvs ! (1 - 1)), g)" "stepped d f1 g {} 2" by blast
  let ?it = "\<lparr>mi_item = fst (kvs ! (1 - 1)), mi_stack = st, mi_is_end = False, mi_children = Some q, mi_position = 1\<rparr>"
  have run: "member_begin d p f = Some (?it, g)" using 1(1) n(1) k g(1) by (simp add: member_begin_def)
  have fullg: "full_object g ps kvs" using full_same [OF full1 steppedD(7) [OF g(2)]] by simp
  note dbg = steppedD(1) [OF g(2)]
  have num: "numbers g ?C = numbers f1 ?C" using full_numbers [OF full1] full_numbers [OF fullg] by simp
  from visits_same [OF v db_atD(1) [OF dbg] db_atD(7) [OF dbg] place num steppedD(5) [OF g(2)]]
  have "visits g ?C (mi_iter ?it g) [1..<length kvs + 1]" using k by (simp add: mi_iter_def list)
  then have "members_left g ps kvs ?it [1..<length kvs + 1]" unfolding members_left_def list by simp
  moreover have "stepped d f g {} 3" by (rule stepped_mono [OF stepped_trans [OF 1(3) g(2)]]) simp_all
  ultimately show ?thesis using run by blast
qed

section \<open>Properties\<close>

lemma write_members_at:
  assumes IH: "\<And>v. v \<in> snd ` set kvs \<Longrightarrow> writes wr W d u v" and n: "length kvs + 1 < 2 ^ 64" and load: "loadable_members W names kvs"
    and "db_at d f" and "words_ok f" and "stands_at f p (doc ps)" and "document f ps names" and "full_object f ps kvs"
    and "stored_members f ps 1 kvs" and "no_users d f u (Members kvs)" and "i \<le> length kvs"
    and "members_left f ps kvs it [i + 1..<length kvs + 1]" and "room f (members_cost W names (drop i kvs))"
  shows "\<exists>g. write_members_loop wr clr W d u p tab it f =
      Some (render_members (tab + 1) (drop i kvs), length kvs - i, g) \<and>
    full_object g ps kvs \<and> stored_members g ps 1 kvs \<and> stepped d f g (below ps) (members_cost W names (drop i kvs))"
  using assms(4-)
proof (induction "length kvs - i" arbitrary: i it f)
  case 0
  then have "i = length kvs" by simp
  then show ?case using 0 members_left_end [OF 0(10)] stepped_refl [OF 0(2,3)]
    by (auto simp: write_members_loop.simps [of wr clr W d u p tab it f])
next
  case (Suc m)
  let ?k = "i + 1" and ?n = "length kvs"
  obtain s v where kv: "kvs ! i = (s, v)" by (cases "kvs ! i")
  let ?c = "member_cost W s names" and ?names = "names @ [Property s]"
  let ?l = "load_cost W ?names v" and ?rest = "members_cost W names (drop (i + 1) kvs)"
  have i: "i < ?n" using Suc.hyps(2) by simp
  have drop: "drop i kvs = (s, v) # drop (i + 1) kvs" using Cons_nth_drop_Suc [of i kvs] i kv by (simp add: Suc_eq_plus1)
  have list: "[i + 1..<?n + 1] = ?k # [i + 1 + 1..<?n + 1]" using upt_conv_Cons [of "i + 1" "?n + 1"] i by (simp add: Suc_eq_plus1)
  have left: "members_left f ps kvs it (?k # [i + 1 + 1..<?n + 1])" using Suc.prems(9) unfolding list .
  have mem: "(s, v) \<in> set kvs" using nth_mem [OF i] kv by simp
  have room: "room f (2 * ?c + ?l + ?rest)" by (rule room_less [OF Suc.prems(10)]) (simp add: drop)
  have item: "mi_item it = s" using left kv by (simp add: members_left_def)
  have more: "\<not> member_at_end it" using members_left_end [OF left] by simp
  have pls: "placed f ps s ?k" using Suc.prems(5) i kv by (auto simp: full_object_def add.commute)
  have con: "container f ps ?n" using Suc.prems(5) by (simp add: full_object_def container_def)
  have names: "names_ok W (drop 2 ?names)" and loadv: "loadable W ?names v" using loadable_members_nth [OF load mem] by simp_all
  have r0: "room f ?c" by (rule room_less [OF room]) simp
  from at_property_at [OF Suc.prems(1-4) con names n r0, of clr] obtain c g k where
    g: "at_property clr W d s p f = Some (c, g)" "stands_at g c (doc (ps @ [k]))" "document g (ps @ [k]) ?names"
      "object_ok g ps (max ?n k)" "placed g ps s k" "\<forall>t j. t \<noteq> s \<longrightarrow> placed g ps t j \<longleftrightarrow> placed f ps t j"
      "\<forall>j. placed f ps s j \<longrightarrow> j = k" "stepped d f g {ps} ?c" by blast
  have k: "k = ?k" using g(7) pls by blast
  have mx: "max ?n ?k = ?n" using i by simp
  have "placed g ps t j" if "placed f ps t j" for t j
    using that g(5,6,7) by (cases "t = s") blast+
  with Suc.prems(5) g(4) have fullg: "full_object g ps kvs" unfolding k mx full_object_def by blast
  have memf: "stored f (ps @ [1 + j]) (snd (kvs ! j))" if "j < ?n" for j using Suc.prems(6) that by (simp add: stored_members_nth)
  have vg: "stored g (ps @ [?k]) v" by (rule stepped_parent(1) [OF g(8)]) (use memf [OF i] kv in \<open>simp add: add.commute\<close>)
  note users = no_users_part(2) [OF Suc.prems(7) mem]
  have usersg: "no_users d g u v" by (rule no_users_step [OF _ g(8)]) (use users in simp)
  have rg: "room g (?l + ?c + ?rest)" by (rule stepped_room [OF room g(8)]) simp
  have wv: "writes wr W d u v" using IH mem by force
  from write_part_at [OF wv steppedD(1,2) [OF g(8)] g(2,3) [unfolded k] vg loadv usersg, of "tab + 1"] room_less [OF rg, of ?l]
  obtain h where h: "write_part wr (tab + 1) c g = Some (if doc_type v = UNDEFINED then ''null'' else render (tab + 1) v, h)"
    "stored h (ps @ [?k]) v" "stepped d g h (below (ps @ [?k])) ?l" by auto
  have fh: "stepped d f h (insert ps (below (ps @ [?k]))) (?c + ?l)" by (rule stepped_then [OF g(8) h(3)]) auto
  have fullh: "full_object h ps kvs" by (rule full_same [OF fullg stepped_child(1) [OF h(3)]])
  note dbh = steppedD(1,2) [OF fh]
  have place: "json_place (doc ps @ [value_code CHILDREN])" by simp
  have num: "numbers h (doc ps @ [value_code CHILDREN]) = numbers f (doc ps @ [value_code CHILDREN])"
    using full_numbers [OF fullh] full_numbers [OF Suc.prems(5)] by simp
  have lefth: "members_left h ps kvs it (?k # [i + 1 + 1..<?n + 1])"
  proof -
    from left have V: "visits f (doc ps @ [value_code CHILDREN]) (mi_iter it f) (?k # [i + 1 + 1..<?n + 1])" by (simp add: members_left_def)
    from visits_same [OF V db_atD(1) [OF dbh(1)] db_atD(7) [OF dbh(1)] place num steppedD(5) [OF fh]] obtain q where
      q: "it_path (mi_iter it f) = Some (q, f)"
        "visits h (doc ps @ [value_code CHILDREN]) ((mi_iter it f)\<lparr>it_path := Some (q, h)\<rparr>) (?k # [i + 1 + 1..<?n + 1])" by blast
    from q(1) have "(mi_iter it f)\<lparr>it_path := Some (q, h)\<rparr> = mi_iter it h" by (auto simp: mi_iter_def)
    with q(2) left show ?thesis by (simp add: members_left_def)
  qed
  have doch: "document h ps names" using stepped_child(2) [OF h(3)] stepped_parent(2) [OF g(8) Suc.prems(4)] by blast
  have c2: "2 \<le> ?c" by (simp add: member_cost_def)
  have rh: "room h (2 + ?rest)" by (rule stepped_room [OF room fh]) (use c2 in simp)
  have sub: "set [i + 1 + 1..<?n + 1] \<subseteq> {1..?n}" by auto
  from members_left_next [OF dbh steppedD(5) [OF fh Suc.prems(3)] doch fullh lefth sub room_less [OF rh]] obtain it' h2 where
    h2: "member_next d p it h = Some (it', h2)" "members_left h2 ps kvs it' [i + 1 + 1..<?n + 1]" "stepped d h h2 {} 2" by auto
  have fh2: "stepped d f h2 (insert ps (below (ps @ [?k]))) (?c + ?l + 2)" by (rule stepped_then [OF fh h2(3)]) auto
  have fullh2: "full_object h2 ps kvs" using full_same [OF fullh steppedD(7) [OF h2(3)]] by simp
  have "stored h2 (ps @ [1 + j]) (snd (kvs ! j))" if "j < ?n" for j
  proof (cases "j = i")
    case True
    have "stored h2 (ps @ [?k]) v" by (rule stored_same(1) [OF h(2)]) (rule steppedD(7) [OF h2(3)], simp)
    with True kv show ?thesis by (simp add: add.commute)
  next
    case False
    then show ?thesis by (intro stored_other [OF memf [OF that] fh2]) simp
  qed
  then have memh: "stored_members h2 ps 1 kvs" using fullh2 by (simp add: stored_members_nth full_object_def)
  have doch2: "document h2 ps names" by (rule stepped_document [OF doch h2(3)]) simp
  have rh2: "room h2 ?rest" by (rule stepped_room [OF rh h2(3)]) simp
  have "m = ?n - (i + 1)" "i + 1 \<le> ?n" using Suc.hyps(2) by simp_all
  from Suc.hyps(1) [OF this(1) steppedD(1,2) [OF h2(3)] steppedD(5) [OF fh2 Suc.prems(3)] doch2 fullh2 memh
      no_users_step [OF Suc.prems(7) fh2] this(2) h2(2) rh2] obtain e where
    e: "write_members_loop wr clr W d u p tab it' h2 = Some (render_members (tab + 1) (drop (i + 1) kvs), ?n - (i + 1), e)"
      "full_object e ps kvs" "stored_members e ps 1 kvs" "stepped d h2 e (below ps) ?rest" by blast
  have sep: "(if \<not> member_at_end it' then '','' @ newline else []) = (if drop (i + 1) kvs \<noteq> [] then '','' @ newline else [])"
    using members_left_end [OF h2(2)] by (simp add: Suc_eq_plus1 not_le)
  have count: "?n - (i + 1) + 1 = ?n - i" using i by simp
  have run: "write_members_loop wr clr W d u p tab it f = Some (render_members (tab + 1) (drop i kvs), ?n - i, e)"
    unfolding write_members_loop.simps [of wr clr W d u p tab it f] item drop
    using more users g(1) h(1) h2(1) e(1) sep count by (simp add: Let_def)
  have "insert ps (below (ps @ [?k])) \<subseteq> below ps" using below_simps(1,2) by blast
  from stepped_then [OF fh2 e(4) this] have st: "stepped d f e (below ps) (?c + ?l + 2 + ?rest)" by simp
  have "stepped d f e (below ps) (members_cost W names (drop i kvs))"
    by (rule stepped_mono [OF st order_refl]) (use c2 in \<open>simp add: drop\<close>)
  with run e(2,3) show ?case by blast
qed

end
