(* ===== verification/JSON_Results.thy ===== *)
theory JSON_Results
  imports JSON_Reading
begin

text \<open>
  The properties of JSON documents that rest on the whole development: types, elements, parents, words, and loading a text.
\<close>

text \<open>A new database is ready for a value at its root.\<close>

lemma new_ready: "ready (fst (json_db_new [])) (snd (json_db_new [])) (jd_json (fst (json_db_new []))) [] []"
  using new_json_db(1-3,6) by (simp add: ready_def blank_doc_def container_def) (use new_json_db(4) in
    \<open>auto simp: container_def object_ok_def blank_doc_def type_at_def\<close>)

text \<open>A document two levels down, in a new database.\<close>

lemma new_document:
  "\<exists>p f. db_at (fst (json_db_new [])) f \<and> words_ok f \<and> stands_at f p (doc [1, 1]) \<and>
     document f [1, 1] [Property ''a'', Property ''b''] \<and> blank_doc f [1, 1] \<and> room f (2 ^ 39)"
proof -
  let ?d = "fst (json_db_new [])" and ?f = "snd (json_db_new [])" and ?c = "\<lambda>_. Some"
  let ?A = "[Property ''a'']" and ?B = "[Property ''a'', Property ''b'']"
  have cost: "member_cost ascii_ctype ''a'' [] \<le> 2 ^ 38" "member_cost ascii_ctype ''b'' ?A \<le> 2 ^ 38"
    by (simp_all add: member_cost_def property_cost_def)
  have r0: "room ?f (2 ^ 38 + (2 ^ 38 + 2 ^ 39))" using new_json_db(5) by simp
  have new: "\<forall>j. \<not> placed ?f [] s j" for s using blank_unplaced [OF new_json_db(6)] by blast
  from at_property_at [OF new_json_db(1-3) document.root new_json_db(4), of ascii_ctype "''a''" ?c] cost(1) new
    room_less [OF new_json_db(5), of "member_cost ascii_ctype ''a'' []"] obtain p g where
    g: "stands_at g p (doc [1])" "document g [1] ?A" "blank_doc g [1]" "stepped ?d ?f g {[]} (member_cost ascii_ctype ''a'' [])"
    by (auto simp: names_ok_def)
  have r1: "room g (2 ^ 38 + 2 ^ 39)" by (rule stepped_room [OF r0 g(4)]) (use cost(1) in simp)
  have con: "container g [1] 0" using g(3) document_own_id [OF g(2)] by (simp add: container_def)
  have new': "\<forall>j. \<not> placed g [1] s j" for s using blank_unplaced [OF g(3)] by blast
  have names: "names_ok ascii_ctype (drop 2 (?A @ [Property ''b'']))" by (simp add: names_ok_def)
  from at_property_at [OF steppedD(1,2) [OF g(4)] g(1,2) con names, of ?c] new' room_less [OF r1, of "member_cost ascii_ctype ''b'' ?A"]
    cost(2) obtain q h where
    h: "stands_at h q (doc [1, 1])" "document h [1, 1] ?B" "blank_doc h [1, 1]"
      "stepped ?d g h {[1]} (member_cost ascii_ctype ''b'' ?A)" by auto
  have "room h (2 ^ 39)" by (rule stepped_room [OF r1 h(4)]) (use cost(2) in simp)
  with h(1-3) steppedD(1,2) [OF h(4)] show ?thesis by blast
qed

section \<open>Types\<close>

text \<open>
  Property C14: giving a type to a document without a value makes it the type of the document, gives the document its own
  branch as identifier, lists it with every document it is in, leaves it without parts, and changes no other document.
\<close>

theorem json_set_type:
  assumes "ready d f p ps names" and "room f (5 + 2 * length names)"
  shows "\<exists>g i. set_type clr d t p f = Some g \<and> json_type_of g p = Some t \<and> json_id p g = Some (path_index p, i) \<and>
    listed g (path_index p) ps \<and> bare_doc g ps \<and> db_at d g \<and> words_ok g \<and> (\<forall>qs. qs \<noteq> ps \<longrightarrow> same_doc f g qs)"
proof -
  note r = readyD [OF assms(1)]
  from set_type_bare [OF r(1-6)] assms(2) r(7) obtain g where
    g: "set_type clr d t p f = Some g" "type_at g ps t" "bare_doc g ps" "own_id g ps" "listed g (path_index p) ps"
      "stepped d f g {ps} (5 + 2 * length ps)" by auto
  have at: "stands_at g p (doc ps)" by (rule steppedD(5) [OF g(6) r(3)])
  note st = db_atD(1) [OF steppedD(1) [OF g(6)]]
  have "json_type_of g p = Some t" by (rule type_of_at(3) [OF st at g(2)])
  moreover have "\<exists>i. json_id p g = Some (path_index p, i)"
  proof -
    from g(4) at have d: "data g (doc ps @ [value_code ID]) = Some (index_bytes (path_index p))"
      by (auto simp: own_id_def stands_at_def)
    then have "node g (doc ps @ [value_code ID]) \<noteq> None" using data_node by simp
    from sub_index_there [OF at this] obtain q where q: "sub_index ID (p, g) = (q, g)" "stands_at g q (doc ps @ [value_code ID])"
      by blast
    have "path_index p < 2 ^ 64" using node_bound [OF st] at by (force simp: stands_at_def)
    from get_index_at [OF st q(2) d this] q(1) show ?thesis by (simp add: json_id_def)
  qed
  ultimately show ?thesis using g steppedD(1,2,7) [OF g(6)] by auto
qed

theorem json_set_type_witness:
  "\<exists>g. set_type (\<lambda>_. Some) (fst (json_db_new [])) OBJECT (jd_json (fst (json_db_new []))) (snd (json_db_new [])) = Some g \<and>
     json_type_of g (jd_json (fst (json_db_new []))) = Some OBJECT"
  using json_set_type [OF new_ready, of "\<lambda>_. Some" OBJECT] room_less [OF new_json_db(5), of 5] by auto

section \<open>Elements\<close>

text \<open>
  Property C10: \<open>json[index]\<close> on an array, or on a document without a value, makes all elements up to the index: the ones
  that are new are documents without a value, those that were there stay, the count is the maximum of the old one and
  the index, and no other document and no value changes.
\<close>

theorem json_at_index:
  assumes "db_at d f" and "words_ok f" and "stands_at f p (doc ps)" and "document f ps names" and "sequence f ps n"
    and "1 \<le> k" and "k < 2 ^ 64" and "names_ok W (drop 2 names)" and "room f (index_op_cost W names n k)"
  shows "\<exists>c g. at_index clr W d k p f = Some (c, g) \<and> stands_at g c (doc (ps @ [k])) \<and> array_ok g ps (max n k) \<and>
    (\<forall>j. n < j \<longrightarrow> j \<le> k \<longrightarrow> document g (ps @ [j]) (names @ [Element j]) \<and> blank_doc g (ps @ [j])) \<and>
    stepped d f g {ps} (index_op_cost W names n k)"
  by (rule at_index_at [OF assms])

theorem json_at_index_witness:
  "\<exists>c g. at_index (\<lambda>_. Some) ascii_ctype (fst (json_db_new [])) 3 (jd_json (fst (json_db_new []))) (snd (json_db_new [])) =
     Some (c, g) \<and> array_ok g [] 3 \<and> blank_doc g [2]"
proof -
  have "sequence (snd (json_db_new [])) [] 0" using new_json_db(6) readyD(6) [OF new_ready] by (simp add: sequence_def)
  moreover have "room (snd (json_db_new [])) (index_op_cost ascii_ctype [] 0 3)"
    by (rule room_less [OF new_json_db(5)]) (simp add: index_op_cost_def element_cost_def)
  ultimately obtain c g where "at_index (\<lambda>_. Some) ascii_ctype (fst (json_db_new [])) 3 (jd_json (fst (json_db_new [])))
      (snd (json_db_new [])) = Some (c, g)" "array_ok g [] (max 0 3)"
    "\<forall>j. 0 < j \<longrightarrow> j \<le> 3 \<longrightarrow> document g ([] @ [j]) ([] @ [Element j]) \<and> blank_doc g ([] @ [j])"
    using json_at_index [OF new_json_db(1-3) document.root, of 0 3 ascii_ctype "\<lambda>_. Some"] by (auto simp: names_ok_def)
  then show ?thesis by auto
qed

text \<open>
  Property C11: an index of zero is refused, on every document and before anything is written, and so is an index beyond
  the number of properties of an object: the code throws.
\<close>

theorem json_at_index_refused:
  "at_index clr W d 0 p f = None \<and>
   (db_at d f \<and> stands_at f p (doc ps) \<and> object_ok f ps n \<and> n < k \<and> room f 1 \<longrightarrow> at_index clr W d k p f = None)"
proof (intro conjI)
  show "at_index clr W d 0 p f = None" by (simp add: at_index_def)
  show "db_at d f \<and> stands_at f p (doc ps) \<and> object_ok f ps n \<and> n < k \<and> room f 1 \<longrightarrow> at_index clr W d k p f = None"
  proof (intro impI, elim conjE)
    assume db: "db_at d f" and at: "stands_at f p (doc ps)" and ok: "object_ok f ps n" and n: "n < k" and room: "room f 1"
    let ?C = "doc ps @ [value_code CHILDREN]"
    from sub_index_step [OF db_atD(1) [OF db] at _ room, of CHILDREN] obtain ch g where
      g: "get_children p f = (ch, g)" "grows f g {} {?C} 1" "stands_at g ch ?C" by (auto simp: get_children_def)
    have type: "json_type_of g p = Some OBJECT"
      using type_of_at(3) [OF growsD(1) [OF g(2)] growsD(6) [OF g(2) at] type_at_grows [OF object_okD(1) [OF ok] g(2)]] by simp
    have "count_at g ?C n" by (rule count_at_grows [OF object_okD(2) [OF ok] g(2)]) simp_all
    with get_data_at(2) [OF growsD(1) [OF g(2)] g(3)] get_index_at [OF growsD(1) [OF g(2)] g(3)]
    have "(if path_has_data g ch then path_get_index g ch else Some 0) = Some n" by (auto simp: count_at_def)
    with g(1) type n show "at_index clr W d k p f = None" by (simp add: at_index_def)
  qed
qed

theorem json_at_index_refused_witness:
  "\<exists>g. set_type (\<lambda>_. Some) (fst (json_db_new [])) OBJECT (jd_json (fst (json_db_new []))) (snd (json_db_new [])) = Some g \<and>
     at_index (\<lambda>_. Some) ascii_ctype (fst (json_db_new [])) 1 (jd_json (fst (json_db_new []))) g = None"
proof -
  let ?d = "fst (json_db_new [])" and ?f = "snd (json_db_new [])"
  have "room ?f (5 + 2 * length ([] :: nat list))" by (rule room_less [OF new_json_db(5)]) simp
  from make_object [OF new_json_db(1,3) document.root new_json_db(4,2) this, of "\<lambda>_. Some"] obtain g where
    g: "set_type (\<lambda>_. Some) ?d OBJECT (jd_json ?d) ?f = Some g" "object_ok g [] 0" "stands_at g (jd_json ?d) (doc [])" "db_at ?d g"
      "length g \<le> length ?f + 5 * 2 ^ 17" by auto
  have "room g 1" using new_json_db(5) g(5) by (simp add: room_def)
  with json_at_index_refused [of "\<lambda>_. Some" ascii_ctype ?d "jd_json ?d" g "[]" 0 1] g show ?thesis by auto
qed

section \<open>Parents\<close>

text \<open>
  Property C12: \<open>parent\<close> undoes \<open>operator []\<close>: from a part of a document it returns the path of the document, with the name of
  the property, or the number of the element, and the type of this key; no document changes.
\<close>

theorem json_parent_of_part:
  assumes "db_at d f" and "words_ok f" and "stands_at f p (doc (ps @ [k]))" and "document f (ps @ [k]) (names @ [key])" and "room f 2"
  shows "\<exists>q g. json_parent_key d u t p f = Some (q, key_bytes key, Some (key_type_of key), g) \<and> stands_at g q (doc ps) \<and>
    path_index q = the (node f (doc ps)) \<and> stepped d f g {} 2"
proof -
  have part: "part_key f ps k key" and doc: "document f ps names" using assms(4) by (auto simp: document_snoc)
  from json_parent_key_at [OF assms(1,3) part assms(5)] obtain q g where
    g: "json_parent_key d u t p f = Some (q, key_bytes key, Some (key_type_of key), g)" "stands_at g q (doc ps)"
      "grows f g {} (position_places ps k) 2" by blast
  have there: "node f (doc ps) \<noteq> None" by (rule document_there [OF assms(1) doc]) simp
  with growsD(2) [OF g(3)] g(2) have "path_index q = the (node f (doc ps))" by (auto simp: stands_at_def)
  moreover have "stepped d f g {} 2" by (rule position_step [OF g(3) assms(1,2) doc])
  ultimately show ?thesis using g(1,2) by blast
qed

theorem json_parent_of_part_witness:
  "\<exists>p f q g. json_parent_key (fst (json_db_new [])) [] None p f = Some (q, ''b'', Some STRING, g) \<and> stands_at g q (doc [1])"
proof -
  from new_document obtain p f where "db_at (fst (json_db_new [])) f" "words_ok f" "stands_at f p (doc ([1] @ [1]))"
    "document f ([1] @ [1]) ([Property ''a''] @ [Property ''b''])" "room f (2 ^ 39)" by auto
  from json_parent_of_part [OF this(1-4) room_less [OF this(5)], of "[]" None] show ?thesis by auto
qed

section \<open>The words of a text\<close>

text \<open>
  Property C13: \<open>addWords\<close> counts every word of the text once for the document and for every document it is in, but
  the two outermost levels; the counts of all other words and documents stay, and no document changes.
\<close>

theorem json_add_words:
  assumes "db_at d f" and "stands_at f p (doc ps)" and "document f ps names" and "words_ok f"
    and "tokenise W val part final whole = Some (ws, part')" and "room f (length ps * words_cost ws)"
  shows "\<exists>g. add_words W d val part whole final p f = Some (part', g) \<and>
    (\<forall>w i. hits g w i = (hits f w i + (if indexed f ps i then count_list ws w else 0)) mod 2 ^ 64) \<and>
    stepped d f g {} (length ps * words_cost ws)"
  using add_words_step [OF assms] by (auto simp: words_added_def)

lemma tokenise_example: "tokenise ascii_ctype ''b'' [] True False = Some ([''b''], [])"
  by code_simp

theorem json_add_words_witness:
  "\<exists>p f g i. add_words ascii_ctype (fst (json_db_new [])) ''b'' [] False True p f = Some ([], g) \<and> node f (doc [1, 1]) = Some i \<and>
     hits g ''b'' i = (hits f ''b'' i + 1) mod 2 ^ 64"
proof -
  from new_document obtain p f where f: "db_at (fst (json_db_new [])) f" "stands_at f p (doc [1, 1])"
    "document f [1, 1] [Property ''a'', Property ''b'']" "words_ok f" "room f (2 ^ 39)" by blast
  from f(2) obtain i where i: "node f (doc [1, 1]) = Some i" by (auto simp: stands_at_def)
  then have "indexed f [1, 1] i" by (auto simp: indexed_def)
  from json_add_words [OF f(1-4) tokenise_example room_less [OF f(5)]] obtain g where
    g: "add_words ascii_ctype (fst (json_db_new [])) ''b'' [] False True p f = Some ([], g)"
      "hits g ''b'' i = (hits f ''b'' i + (if indexed f [1, 1] i then count_list [''b''] ''b'' else 0)) mod 2 ^ 64" by auto
  from g(2) \<open>indexed f [1, 1] i\<close> have "hits g ''b'' i = (hits f ''b'' i + 1) mod 2 ^ 64" by simp
  with g(1) i show ?thesis by blast
qed

section \<open>Loading and reading\<close>


definition sample_doc :: json_doc where
  "sample_doc = Members [(''a'', Items [Scalar INTEGER ''1'', Scalar NULL ''null'', Text [''data:,x'', ''y'']]), (''b'', Scalar BOOLEAN ''true'')]"

lemma sample_loadable: "loadable ascii_ctype [] sample_doc" "load_cost ascii_ctype [] sample_doc \<le> 2 ^ 39"
proof -
  have t: "tokenise ascii_ctype [] [] True False = Some ([], [])" by code_simp
  have d: "is_data ''data:,x''" by code_simp
  show "loadable ascii_ctype [] sample_doc"
    by (simp add: sample_doc_def names_ok_def text_words_def d t)
  show "load_cost ascii_ctype [] sample_doc \<le> 2 ^ 39"
    by (simp add: sample_doc_def text_words_def d t page_cost_def end_cost_def member_cost_def property_cost_def index_op_cost_def
        element_cost_def key_words_def)
qed


text \<open>
  Property C5: what is stored is read back: the type of the document; the text of a number or a truth value; the whole text of
  a string that came in parts; the elements an array contains, and the properties an object contains, and no others.
\<close>

theorem json_read_stored:
  assumes "db_at d f" and "words_ok f" and "stands_at f p (doc ps)" and "stored f ps v" and "room f 1"
  shows "json_type_of f p = Some (doc_type v) \<and>
    (case v of
       Scalar t x \<Rightarrow> t \<in> {BOOLEAN, INTEGER, NUMBER} \<longrightarrow> get_json_value p f = Some (x, f)
     | Text ss \<Rightarrow> get_string_value p f = Some (concat ss, f)
     | Items vs \<Rightarrow> \<forall>k. \<exists>g. contains_element k p f = Some (1 \<le> k \<and> k \<le> length vs, g) \<and> stepped d f g {} 1
     | Members kvs \<Rightarrow> \<forall>s. \<exists>g. contains_property d s p f = Some (s \<in> fst ` set kvs, g) \<and> stepped d f g {} 1)"
proof -
  note st = db_atD(1) [OF assms(1)]
  note type = type_of_at(3) [OF st assms(3)]
  show ?thesis
  proof (cases v)
    case (Scalar t x)
    show ?thesis
    proof (cases "t = UNDEFINED")
      case True
      then show ?thesis using type_of_none(2) [OF st assms(3)] assms(4) Scalar by (simp add: blank_doc_def)
    next
      case False
      then show ?thesis using type [of t] get_value_at [OF assms(1,3)] assms(4) Scalar by auto
    qed
  next
    case (Text ss)
    then show ?thesis using type [of STRING] get_string_at [OF assms(1,3)] assms(4) by (simp add: string_ok_def)
  next
    case (Items vs)
    then have "array_ok f ps (length vs)" using assms(4) by simp
    with type [of ARRAY] contains_element_at [OF assms(1-3) _ assms(5)] array_okD(1) Items show ?thesis by auto
  next
    case (Members kvs)
    then have ok: "object_ok f ps (length kvs)" using assms(4) by simp
    have "\<exists>g. contains_property d s p f = Some (s \<in> fst ` set kvs, g) \<and> stepped d f g {} 1" for s
      using contains_property_at [OF assms(1-3) ok assms(5), of s] members_keys [OF st, of ps kvs s] assms(4) Members by simp
    with type [of OBJECT] object_okD(1) [OF ok] Members show ?thesis by simp
  qed
qed

theorem json_read_stored_witness:
  "\<exists>g h. stored g [] sample_doc \<and>
     contains_property (fst (json_db_new [])) ''b'' (jd_json (fst (json_db_new []))) g = Some (True, h)"
proof -
  let ?d = "fst (json_db_new [])" and ?f = "snd (json_db_new [])"
  have r: "room ?f (2 ^ 39 + 1)" by (rule room_less [OF new_json_db(5)]) simp
  from load_at [OF new_ready sample_loadable(1) room_less [OF r], of "\<lambda>_. Some" "''u''"] sample_loadable(2) obtain g where
    g: "stored g [] sample_doc" "stepped ?d ?f g (below []) (load_cost ascii_ctype [] sample_doc)" by auto
  have "room g 1" by (rule stepped_room [OF r g(2)]) (use sample_loadable(2) in simp)
  from json_read_stored [OF steppedD(1,2) [OF g(2)] steppedD(5) [OF g(2) new_json_db(3)] g(1) this] g(1) show ?thesis
    by (auto simp: sample_doc_def dest!: spec [of _ "''b''"])
qed

end
