(* ===== verification/JSON_Output.thy ===== *)
theory JSON_Output
  imports JSON_Written JSON_Results
begin

text \<open>
  \<open>write\<close> on every stored value, by induction on the value, and the round trip through loading and writing.
\<close>

declare One_nat_def [simp del]

section \<open>Arrays and objects\<close>

lemma write_array_at:
  assumes IH: "\<And>v. v \<in> set vs \<Longrightarrow> writes wr W d u v" and load: "loadable W names (Items vs)"
    and db: "db_at d f" and words: "words_ok f" and at: "stands_at f p (doc ps)" and doc: "document f ps names"
    and st: "stored f ps (Items vs)" and users: "no_users d f u (Items vs)" and room: "room f (load_cost W names (Items vs))"
  shows "\<exists>g. write_array wr clr W d p tab f = Some (render tab (Items vs), g) \<and> stored g ps (Items vs) \<and>
    stepped d f g (below ps) (load_cost W names (Items vs))"
proof -
  let ?C = "doc ps @ [value_code CHILDREN]" and ?n = "length vs" and ?c = "items_cost W names 1 vs"
  have place: "json_place ?C" by simp
  have n: "?n < 2 ^ 64" "names_ok W (drop 2 names)" "loadable_items W names 1 vs" using load by simp_all
  have room: "room f (1 + ?c)" by (rule room_less [OF room]) simp
  from get_children_at [OF db words at room_less [OF room], of "{}"] obtain ch g where
    g: "get_children p f = (ch, g)" "stands_at g ch ?C" "stepped d f g {} 1" by auto
  note dbg = steppedD(1,2) [OF g(3)]
  note inv = db_atD [OF dbg(1)]
  have stg: "stored g ps (Items vs)" by (rule stored_same(1) [OF st]) (rule steppedD(7) [OF g(3)], simp)
  then have ok: "array_ok g ps ?n" and items: "stored_items g ps 1 vs" by simp_all
  have docg: "document g ps names" by (rule stepped_document [OF doc g(3)]) simp
  have "count_at g ?C ?n" by (rule array_okD(2) [OF ok])
  with get_data_at(2) [OF inv(1) g(2)] get_index_at [OF inv(1) g(2)]
  have count: "(if path_has_data g ch then path_get_index g ch else Some 0) = Some ?n" by (auto simp: count_at_def)
  from visits_begin [OF inv(1,7) place g(2)] obtain it where
    it: "iterator_begin read_index db_path_ops (ch, g) 0 = Some it" "visits g ?C it [0 + 1..<?n + 1]"
    unfolding array_numbers_list [OF ok] by auto
  have r: "room g (items_cost W names (0 + 1) (drop 0 vs))" using stepped_room [OF room g(3), of ?c] by simp
  from write_items_at [OF IH refl n dbg steppedD(5) [OF g(3) at] docg ok items no_users_step [OF users g(3)] _ it(2) r, of clr tab]
  obtain h where h: "write_items_loop wr clr W d p tab ?n it g =
      Some (render_items (if ?n = 1 then tab else tab + 1) (newline @ tabs (tab + 1)) vs, h)"
    "array_ok h ps ?n" "stored_items h ps 1 vs" "stepped d g h (below ps) ?c" by auto
  have "write_array wr clr W d p tab f = Some (render tab (Items vs), h)"
    using g(1) count it(1) h(1) by (simp add: write_array_def)
  moreover have "stepped d f h (below ps) (1 + ?c)" by (rule stepped_then [OF g(3) h(4) empty_subsetI order_refl])
  then have "stepped d f h (below ps) (load_cost W names (Items vs))" by (rule stepped_mono) simp_all
  ultimately show ?thesis using h(2,3) by auto
qed

lemma full_stored: "stored f ps (Members kvs) \<longleftrightarrow> full_object f ps kvs \<and> stored_members f ps 1 kvs"
  by (auto simp: full_object_def stored_members_nth)

lemma write_object_at:
  assumes IH: "\<And>v. v \<in> snd ` set kvs \<Longrightarrow> writes wr W d u v" and load: "loadable W names (Members kvs)"
    and db: "db_at d f" and words: "words_ok f" and at: "stands_at f p (doc ps)" and doc: "document f ps names"
    and st: "stored f ps (Members kvs)" and users: "no_users d f u (Members kvs)"
    and room: "room f (load_cost W names (Members kvs))"
  shows "\<exists>g. write_object wr clr W d u p tab f = Some (render tab (Members kvs), g) \<and> stored g ps (Members kvs) \<and>
    stepped d f g (below ps) (load_cost W names (Members kvs))"
proof -
  let ?C = "doc ps @ [value_code CHILDREN]" and ?n = "length kvs" and ?c = "members_cost W names kvs"
  have place: "json_place ?C" by simp
  have n: "?n + 1 < 2 ^ 64" "loadable_members W names kvs" using load by simp_all
  have room: "room f (1 + (3 + ?c))" by (rule room_less [OF room]) simp
  from get_children_at [OF db words at room_less [OF room], of "{}"] obtain ch g where
    g: "get_children p f = (ch, g)" "stands_at g ch ?C" "stepped d f g {} 1" by auto
  note dbg = steppedD(1,2) [OF g(3)]
  have "stored g ps (Members kvs)" by (rule stored_same(1) [OF st]) (rule steppedD(7) [OF g(3)], simp)
  then have full: "full_object g ps kvs" and mem: "stored_members g ps 1 kvs" unfolding full_stored by simp_all
  have docg: "document g ps names" by (rule stepped_document [OF doc g(3)]) simp
  have dead: "path_dead_end g ch \<longleftrightarrow> kvs = []"
    using dead_end_at [OF db_atD(7) [OF dbg(1)] place g(2)] full_numbers [OF full] by (auto simp: Suc_le_eq One_nat_def)
  have rg: "room g (3 + ?c)" by (rule stepped_room [OF room g(3)]) simp
  show ?thesis
  proof (cases "kvs = []")
    case True
    have "write_object wr clr W d u p tab f = Some (render tab (Members kvs), g)"
      using g(1) dead True by (simp add: write_object_def)
    moreover have "stepped d f g (below ps) (load_cost W names (Members kvs))" by (rule stepped_mono [OF g(3)]) simp_all
    ultimately show ?thesis using full mem unfolding full_stored by blast
  next
    case False
    note atg = steppedD(5) [OF g(3) at]
    from member_begin_at [OF dbg atg docg full False room_less [OF rg]] obtain it h where
      h: "member_begin d p g = Some (it, h)" "members_left h ps kvs it [0 + 1..<?n + 1]" "stepped d g h {} 3" by auto
    have fullh: "full_object h ps kvs" by (rule full_same [OF full steppedD(7) [OF h(3)]]) simp
    have "stored g ps (Members kvs)" using full mem unfolding full_stored by simp
    then have "stored h ps (Members kvs)" by (rule stored_same(1)) (rule steppedD(7) [OF h(3)], simp)
    then have memh: "stored_members h ps 1 kvs" unfolding full_stored by simp
    have doch: "document h ps names" by (rule stepped_document [OF docg h(3)]) simp
    have rh: "room h (members_cost W names (drop 0 kvs))" using stepped_room [OF rg h(3), of ?c] by simp
    have usersh: "no_users d h u (Members kvs)" by (rule no_users_step [OF no_users_step [OF users g(3)] h(3)])
    from write_members_at [OF IH n steppedD(1,2) [OF h(3)] steppedD(5) [OF h(3) atg] doch fullh memh usersh _ h(2) rh, of clr tab]
    obtain e where e: "write_members_loop wr clr W d u p tab it h = Some (render_members (tab + 1) kvs, ?n, e)"
      "full_object e ps kvs" "stored_members e ps 1 kvs" "stepped d h e (below ps) ?c" by auto
    have "write_object wr clr W d u p tab f = Some (render tab (Members kvs), e)"
      using g(1) dead False h(1) e(1) by (simp add: write_object_def)
    moreover have "stepped d f e (below ps) (1 + 3 + ?c)"
      by (rule stepped_then [OF stepped_trans [OF g(3) h(3)] e(4) empty_subsetI order_refl])
    then have "stepped d f e (below ps) (load_cost W names (Members kvs))" by (rule stepped_mono) simp_all
    ultimately show ?thesis using e(2,3) unfolding full_stored by blast
  qed
qed

section \<open>All values\<close>

lemma json_write_at: "size v < n \<Longrightarrow> writes (json_write n clr W d u) W d u v"
proof (induction v arbitrary: n rule: json_doc_induct)
  case (Scalar t x)
  then obtain m where n: "n = Suc m" by (cases n) simp_all
  show ?case unfolding writes_def
  proof (intro allI impI)
    fix tab f p ps names
    assume a: "db_at d f" "words_ok f" "stands_at f p (doc ps)" "stored f ps (Scalar t x)" "loadable W names (Scalar t x)"
    note st = db_atD(1) [OF a(1)]
    have "json_write n clr W d u tab p f = Some (render tab (Scalar t x), f)"
    proof (cases "t \<in> {UNDEFINED, NULL}")
      case True
      then show ?thesis using type_of_none(2) [OF st a(3)] type_of_at(3) [OF st a(3), of t] a(4) n by (auto simp: blank_doc_def)
    next
      case False
      then have t: "type_at f ps t" "data f (doc ps @ [value_code VALUE]) = Some x" "t \<in> {BOOLEAN, INTEGER, NUMBER}"
        using a(4,5) by auto
      from sub_index_there [OF a(3)] t(2) data_node obtain q where
        q: "sub_index VALUE (p, f) = (q, f)" "stands_at f q (doc ps @ [value_code VALUE])" by (metis option.distinct(1))
      from get_data_at [OF st q(2)] t q(1) type_of_at(3) [OF st a(3) t(1)] n show ?thesis by auto
    qed
    with a(4) stepped_refl [OF a(1,2)]
    show "\<exists>g. json_write n clr W d u tab p f = Some (render tab (Scalar t x), g) \<and> stored g ps (Scalar t x) \<and>
        stepped d f g (below ps) (load_cost W names (Scalar t x))" by blast
  qed
next
  case (Text ss)
  then obtain m where n: "n = Suc m" by (cases n) simp_all
  show ?case unfolding writes_def
  proof (intro allI impI)
    fix tab f p ps names
    assume a: "db_at d f" "words_ok f" "stands_at f p (doc ps)" "stored f ps (Text ss)"
    have ok: "string_ok f ps ss" using a(4) by simp
    have "json_type_of f p = Some STRING"
      using type_of_at(3) [OF db_atD(1) [OF a(1)] a(3)] ok by (simp add: string_ok_def)
    then have "json_write n clr W d u tab p f = Some (render tab (Text ss), f)"
      using write_string_at [OF a(1,3) ok] n by simp
    with a(4) stepped_refl [OF a(1,2)]
    show "\<exists>g. json_write n clr W d u tab p f = Some (render tab (Text ss), g) \<and> stored g ps (Text ss) \<and>
        stepped d f g (below ps) (load_cost W names (Text ss))" by blast
  qed
next
  case (Items vs)
  then obtain m where n: "n = Suc m" by (cases n) simp_all
  have IH: "writes (json_write m clr W d u) W d u v" if "v \<in> set vs" for v
  proof (rule Items.IH [OF that])
    have "size v \<le> size_list size vs" by (rule size_list_estimation' [OF that order_refl])
    then show "size v < m" using Items.prems n by simp
  qed
  show ?case unfolding writes_def
  proof (intro allI impI)
    fix tab f p ps names
    assume a: "db_at d f" "words_ok f" "stands_at f p (doc ps)" "document f ps names" "stored f ps (Items vs)"
      "loadable W names (Items vs)" "no_users d f u (Items vs)" "room f (load_cost W names (Items vs))"
    have "json_type_of f p = Some ARRAY" using type_of_at(3) [OF db_atD(1) [OF a(1)] a(3)] array_okD(1) a(5) by auto
    with write_array_at [OF IH a(6,1-5,7,8), of clr tab] n
    show "\<exists>g. json_write n clr W d u tab p f = Some (render tab (Items vs), g) \<and> stored g ps (Items vs) \<and>
        stepped d f g (below ps) (load_cost W names (Items vs))" by simp
  qed
next
  case (Members kvs)
  then obtain m where n: "n = Suc m" by (cases n) simp_all
  have IH: "writes (json_write m clr W d u) W d u v" if "v \<in> snd ` set kvs" for v
  proof -
    from that obtain s where s: "(s, v) \<in> set kvs" by auto
    have "size_prod (\<lambda>_. 0) size (s, v) \<le> members_size kvs" by (rule size_list_estimation' [OF s order_refl])
    then have "size v < m" using Members.prems n by simp
    with Members.IH [OF s] show ?thesis .
  qed
  show ?case unfolding writes_def
  proof (intro allI impI)
    fix tab f p ps names
    assume a: "db_at d f" "words_ok f" "stands_at f p (doc ps)" "document f ps names" "stored f ps (Members kvs)"
      "loadable W names (Members kvs)" "no_users d f u (Members kvs)" "room f (load_cost W names (Members kvs))"
    have "json_type_of f p = Some OBJECT" using type_of_at(3) [OF db_atD(1) [OF a(1)] a(3)] object_okD(1) a(5) by auto
    with write_object_at [OF IH a(6,1-5,7,8), of clr tab] n
    show "\<exists>g. json_write n clr W d u tab p f = Some (render tab (Members kvs), g) \<and> stored g ps (Members kvs) \<and>
        stepped d f g (below ps) (load_cost W names (Members kvs))" by simp
  qed
qed

section \<open>Results\<close>

text \<open>
  Property C7: \<open>write\<close> on a stored value ends and writes the text of the value at any level of indentation, its elements and its
  properties in their order, whatever the pages and positions that hold it; the value stays stored, and no document outside
  changes. A bound on the calls above the size of the value is enough.
\<close>

theorem json_write_stored:
  assumes "db_at d f" and "words_ok f" and "stands_at f p (doc ps)" and "document f ps names" and "stored f ps v"
    and "loadable W names v" and "no_users d f u v" and "room f (load_cost W names v)" and "size v < n"
  shows "\<exists>g. json_write n clr W d u tab p f = Some (render tab v, g) \<and> stored g ps v \<and>
    (\<forall>qs. \<not> prefix ps qs \<longrightarrow> same_doc f g qs) \<and> db_at d g \<and> words_ok g"
proof -
  from json_write_at [OF assms(9), unfolded writes_def, rule_format, OF assms(1-8), of clr tab] obtain g where
    g: "json_write n clr W d u tab p f = Some (render tab v, g)" "stored g ps v" "stepped d f g (below ps) (load_cost W names v)" by blast
  with steppedD(1,2,7) [OF g(3)] show ?thesis by auto
qed

lemma sample_users: "no_users (fst (json_db_new [])) (snd (json_db_new [])) ''u'' sample_doc"
  using new_json_db(7,8) by (simp add: no_users_def sample_doc_def)

lemma sample_text:
  "render 0 sample_doc =
     ''{'' @ newline @ ''   '' @ quote @ ''a'' @ quote @ '': ['' @ newline @ ''      1,'' @ newline @ ''      null,'' @ newline @
     ''      '' @ quote @ ''data:,xy'' @ quote @ newline @ ''   ],'' @ newline @ ''   '' @ quote @ ''b'' @ quote @ '': true'' @
     newline @ ''}''"
  by code_simp

theorem json_write_stored_witness:
  "\<exists>g h. stored g [] sample_doc \<and>
     json_write 100 (\<lambda>_. Some) ascii_ctype (fst (json_db_new [])) ''u'' 0 (jd_json (fst (json_db_new []))) g = Some (render 0 sample_doc, h)"
proof -
  let ?d = "fst (json_db_new [])" and ?f = "snd (json_db_new [])"
  have r: "room ?f (2 ^ 39 + 2 ^ 39)" by (rule room_less [OF new_json_db(5)]) simp
  from load_at [OF new_ready sample_loadable(1) room_less [OF r], of "\<lambda>_. Some" "''u''"] sample_loadable(2) obtain g where
    g: "stored g [] sample_doc" "stepped ?d ?f g (below []) (load_cost ascii_ctype [] sample_doc)" by auto
  have "room g (load_cost ascii_ctype [] sample_doc)" by (rule stepped_room [OF r g(2)]) (use sample_loadable(2) in simp)
  moreover have "size sample_doc < 100" by (simp add: sample_doc_def)
  ultimately show ?thesis
    using json_write_stored [OF steppedD(1,2) [OF g(2)] steppedD(5) [OF g(2) new_json_db(3)] document.root g(1) sample_loadable(1)
      no_users_step [OF sample_users g(2)], of 100 "\<lambda>_. Some" 0] g(1) by blast
qed

text \<open>
  Property C6: loading and writing: what is loaded into a document without a value is written back as the text of the same value, and no
  document outside changes.
\<close>

theorem json_load_write:
  assumes "ready d f p ps names" and "loadable W names v" and "no_users d f u v" and "room f (2 * load_cost W names v)" and "size v < n"
  shows "\<exists>st g h. import_events clr W d u (load_events v) (import_new p) f = Some (st, g) \<and> import_close clr W d st g = Some g \<and>
    json_write n clr W d u tab p g = Some (render tab v, h) \<and> stored h ps v \<and> (\<forall>qs. \<not> prefix ps qs \<longrightarrow> same_doc f h qs)"
proof -
  let ?c = "load_cost W names v"
  note r = readyD [OF assms(1)]
  from load_at [OF assms(1,2) room_less [OF assms(4)], of clr u] obtain st g where
    g: "import_events clr W d u (load_events v) (import_new p) f = Some (st, g)" "import_close clr W d st g = Some g"
      "stored g ps v" "stepped d f g (below ps) ?c" by auto
  have room: "room g ?c" by (rule stepped_room [OF assms(4) g(4)]) simp
  have doc: "document g ps names" by (rule stepped_document [OF r(4) g(4)]) (auto simp: strict_prefix_def dest: prefix_order.antisym)
  from json_write_at [OF assms(5), unfolded writes_def, rule_format, OF steppedD(1,2) [OF g(4)] steppedD(5) [OF g(4) r(3)] doc g(3)
    assms(2) no_users_step [OF assms(3) g(4)] room, of clr tab] obtain h where
    h: "json_write n clr W d u tab p g = Some (render tab v, h)" "stored h ps v" "stepped d g h (below ps) ?c" by blast
  have "stepped d f h (below ps) (?c + ?c)" by (rule stepped_trans [OF g(4) h(3)])
  with g(1,2) h(1,2) steppedD(7) show ?thesis by fastforce
qed

theorem json_load_write_witness:
  "\<exists>st g h. import_events (\<lambda>_. Some) ascii_ctype (fst (json_db_new [])) ''u'' (load_events sample_doc)
       (import_new (jd_json (fst (json_db_new [])))) (snd (json_db_new [])) = Some (st, g) \<and>
     json_write 100 (\<lambda>_. Some) ascii_ctype (fst (json_db_new [])) ''u'' 0 (jd_json (fst (json_db_new []))) g =
       Some (''{'' @ newline @ ''   '' @ quote @ ''a'' @ quote @ '': ['' @ newline @ ''      1,'' @ newline @ ''      null,'' @ newline @
         ''      '' @ quote @ ''data:,xy'' @ quote @ newline @ ''   ],'' @ newline @ ''   '' @ quote @ ''b'' @ quote @ '': true'' @
         newline @ ''}'', h)"
proof -
  have "room (snd (json_db_new [])) (2 * load_cost ascii_ctype [] sample_doc)"
    by (rule room_less [OF new_json_db(5)]) (use sample_loadable(2) in simp)
  moreover have "size sample_doc < 100" by (simp add: sample_doc_def)
  ultimately show ?thesis
    using json_load_write [OF new_ready sample_loadable(1) sample_users, of 100 "\<lambda>_. Some" 0] unfolding sample_text by blast
qed

text \<open>
  Property C8: a string in pages is written as one JSON string: between the quotes is the escaped whole text, which unescapes to the
  text, when no page ends within a character. Nothing is written to the database.
\<close>

theorem json_write_string_roundtrip:
  assumes "db_at d f" and "stands_at f p (doc ps)" and "string_ok f ps pages" and "\<forall>s \<in> set pages. whole_chars s"
  shows "json_write (n + 1) clr W d u tab p f = Some (quote @ escape (concat pages) @ quote, f) \<and>
    unescape (escape (concat pages)) = Some (concat pages)"
proof -
  from escape_whole_parts [OF assms(4)] obtain us where
    us: "\<forall>u \<in> set us. utf8_char u" "concat pages = concat us" "escape_parts [] pages = concat (map escape_char us)" by blast
  note esc = escape_chars [OF us(1)]
  have "json_type_of f p = Some STRING"
    using type_of_at(3) [OF db_atD(1) [OF assms(1)] assms(2)] assms(3) by (simp add: string_ok_def)
  then have "json_write (n + 1) clr W d u tab p f = Some (quote @ escape_parts [] pages @ quote, f)"
    using write_string_at [OF assms(1-3)] by (simp add: Suc_eq_plus1 [symmetric])
  with us(2,3) esc unescape_chars [OF us(1)] show ?thesis by simp
qed

theorem json_write_string_roundtrip_witness:
  "\<exists>g. get_string_value (jd_json (fst (json_db_new []))) g = Some (''data:,x'' @ quote, g) \<and>
     json_write 1 (\<lambda>_. Some) ascii_ctype (fst (json_db_new [])) [] 0 (jd_json (fst (json_db_new []))) g =
       Some (quote @ ''data:,x'' @ [CHR 0x5C] @ quote @ quote, g)"
proof -
  let ?d = "fst (json_db_new [])" and ?f = "snd (json_db_new [])" and ?v = "Text [''data:,x'', quote]"
  have t: "tokenise ascii_ctype [] [] True False = Some ([], [])" and i: "is_data ''data:,x''" by code_simp+
  have l: "loadable ascii_ctype [] ?v" by (simp add: text_words_def i t)
  have "load_cost ascii_ctype [] ?v \<le> 2 ^ 39" by (simp add: text_words_def i t page_cost_def end_cost_def)
  then have r: "room ?f (load_cost ascii_ctype [] ?v)" by (intro room_less [OF new_json_db(5)]) simp
  from load_at [OF new_ready l r, of "\<lambda>_. Some" "[]"] obtain g where
    g: "string_ok g [] [''data:,x'', quote]" "stepped ?d ?f g (below []) (load_cost ascii_ctype [] ?v)" by auto
  note at = steppedD(5) [OF g(2) new_json_db(3)]
  have w: "\<forall>s \<in> set [''data:,x'', quote]. whole_chars s" by (simp add: whole_chars_ascii)
  with json_write_string_roundtrip [OF steppedD(1) [OF g(2)] at g(1) w, of 0 "\<lambda>_. Some" ascii_ctype "[]" 0]
  have "json_write 1 (\<lambda>_. Some) ascii_ctype ?d [] 0 (jd_json ?d) g = Some (quote @ escape (''data:,x'' @ quote) @ quote, g)" by simp
  moreover have "escape (''data:,x'' @ quote) = ''data:,x'' @ [CHR 0x5C] @ quote" by code_simp
  moreover have "get_string_value (jd_json ?d) g = Some (''data:,x'' @ quote, g)"
    using get_string_at [OF steppedD(1) [OF g(2)] at g(1)] by simp
  ultimately show ?thesis by auto
qed

end
