(* ===== verification/Parser_Runs.thy ===== *)
theory Parser_Runs
  imports Parser_Facts
begin

text \<open>
  Runs of matchers over several characters. \<open>feed\<close> is a step as \<open>And\<close> makes it, which goes round its loop while a part neither takes
  the character nor decides. \<open>taken\<close> is a run over characters that are all taken, \<open>ends\<close> one that decides at a last
  character, and \<open>reads\<close> a success, either with the last character or at the one behind it, which is left to the next matcher.
\<close>

section \<open>Steps that are repeated\<close>

inductive feed :: "'a grammar \<Rightarrow> 'a matcher \<Rightarrow> bstring \<Rightarrow> bool \<Rightarrow> 'a matcher \<Rightarrow> 'a call list \<Rightarrow> bool" for g where
  feed_step: "step g m ch ok m' c \<Longrightarrow> ok \<or> result m' \<noteq> None \<Longrightarrow> feed g m ch ok m' c"
| feed_again: "step g m ch False m1 c1 \<Longrightarrow> result m1 = None \<Longrightarrow> feed g m1 ch ok m' c2 \<Longrightarrow> feed g m ch ok m' (c1 @ c2)"

lemma feed_decides: "feed g m ch ok m' c \<Longrightarrow> ok \<or> result m' \<noteq> None"
  by (induction rule: feed.induct) simp_all

text \<open>The matchers that never need to be repeated.\<close>

fun prompt :: "'a matcher \<Rightarrow> bool" where
  "prompt (MCapture m v refused r) = prompt m"
| "prompt (MMatch m r) = prompt m"
| "prompt (MInvoke m name r) = prompt m"
| "prompt (MGroup m calls r) = prompt m"
| "prompt (MOptional m r) = False"
| "prompt (MRepeat new lo hi n item r) = False"
| "prompt (MLoad name item r) = False"
| "prompt _ = True"

lemma once_decided [simp]: "once r b \<noteq> None" "\<exists>c. once r b = Some c"
  by (simp_all add: once_def)

lemma prompt_set_result [simp]: "prompt (set_result b m) = prompt m"
  by (cases m) simp_all

lemma result_set_result [simp]: "result (set_result b m) \<noteq> None" "\<exists>c. result (set_result b m) = Some c"
  by (cases m; simp)+

lemma succeed_set: "\<exists>b c. succeed g m = (set_result b m, c)"
  by (cases m) (auto simp del: set_result.simps)

lemma prompt_decide: "decide g b m = (k, c) \<Longrightarrow> (b = None \<longrightarrow> k = m) \<and> prompt k = prompt m \<and> (b \<noteq> None \<longrightarrow> result k \<noteq> None)"
  using succeed_set [of g m] by (auto simp: decide_def simp del: not_None_eq split: option.splits bool.splits)

lemma and_prompt: "match_char g n (MAnd ms i r) ch = Some (ok, m', c) \<Longrightarrow> prompt m' \<and> (ok \<or> result m' \<noteq> None)"
proof (induction n arbitrary: ms i r ok m' c)
  case (Suc n)
  from Suc.prems show ?case
    by (auto simp: match_with_def and_match_def Let_def split: if_splits bind_splits option.splits bool.splits dest: Suc.IH)
qed simp

lemma or_prompt: "or_match rec ms item r ch = Some (ok, m', c) \<Longrightarrow> prompt m' \<and> (ok \<or> result m' \<noteq> None)"
  by (auto simp: or_match_def split: if_splits bind_splits)

lemma match_prompt: "match_char g n m ch = Some (ok, m', c) \<Longrightarrow> prompt m \<Longrightarrow> prompt m' \<and> (ok \<or> result m' \<noteq> None)"
proof (induction n arbitrary: m ok m' c)
  case (Suc n)
  note IH = Suc.IH
  show ?case
  proof (cases m)
    case (MAnd ms i r)
    then show ?thesis using and_prompt Suc.prems(1) by blast
  next
    case (MOr ms item r)
    then have "or_match (match_char g n) ms item r ch = Some (ok, m', c)" using Suc.prems(1) by (simp add: match_with_def)
    then show ?thesis by (rule or_prompt)
  next
    case (MCapture k v refused r)
    then show ?thesis using Suc.prems
      by (auto simp: match_with_def capture_match_def split: if_splits bind_splits prod.splits dest: IH prompt_decide)
        (metis IH prompt_decide prompt.simps(1) option.distinct(1) result.simps(9) match_result_def)+
  next
    case (MMatch k r)
    then show ?thesis using Suc.prems
      by (auto simp: match_with_def match_match_def split: if_splits bind_splits prod.splits dest: IH prompt_decide)
        (metis IH prompt_decide prompt.simps(2) option.distinct(1) result.simps(10) match_result_def)+
  next
    case (MInvoke k name r)
    then show ?thesis using Suc.prems
      by (auto simp: match_with_def match_match_def split: if_splits bind_splits prod.splits dest: IH prompt_decide)
        (metis IH prompt_decide prompt.simps(3) option.distinct(1) result.simps(11) match_result_def)+
  next
    case (MGroup k calls r)
    then show ?thesis using Suc.prems
      by (auto simp: match_with_def group_match_def split: if_splits bind_splits prod.splits dest: IH prompt_decide)
        (metis IH prompt_decide prompt.simps(4) option.distinct(1) result.simps(13) match_result_def)+
  next
    case (MNot k r)
    then show ?thesis using Suc.prems by (auto simp: match_with_def not_match_def split: if_splits bind_splits option.splits)
  next
    case (MWord ci w i r)
    then show ?thesis using Suc.prems
      by (auto simp: match_with_def word_match_def Let_def split: if_splits prod.splits)
  qed (use Suc.prems in \<open>auto simp: match_with_def character_match_def range_match_def Let_def once_def split: if_splits\<close>)
qed simp

lemma step_prompt: "step g m ch ok m' c \<Longrightarrow> prompt m \<Longrightarrow> prompt m' \<and> (ok \<or> result m' \<noteq> None)"
  unfolding step_def using match_prompt by blast

lemma feed_prompt: "feed g m ch ok m' c \<Longrightarrow> prompt m \<Longrightarrow> step g m ch ok m' c \<and> prompt m'"
  by (induction rule: feed.induct) (auto dest: step_prompt)

lemma feed_to: "step g m ch True m' c \<Longrightarrow> feed g m ch True m' c"
  by (rule feed_step) simp_all

section \<open>Runs\<close>

inductive taken :: "'a grammar \<Rightarrow> 'a matcher \<Rightarrow> bstring list \<Rightarrow> 'a matcher \<Rightarrow> 'a call list \<Rightarrow> bool" for g where
  taken_Nil: "result m = None \<Longrightarrow> taken g m [] m []"
| taken_Cons: "result m = None \<Longrightarrow> feed g m ch True m1 c1 \<Longrightarrow> taken g m1 cs m' c2 \<Longrightarrow> taken g m (ch # cs) m' (c1 @ c2)"

inductive_cases taken_NilE: "taken g m [] m' c"
inductive_cases taken_ConsE: "taken g m (ch # cs) m' c"

lemma taken_result: "taken g m cs m' c \<Longrightarrow> result m = None \<and> result m' = None"
  by (induction rule: taken.induct) simp_all

lemma taken_append: "taken g m cs m1 c1 \<Longrightarrow> taken g m1 cs' m' c2 \<Longrightarrow> taken g m (cs @ cs') m' (c1 @ c2)"
  by (induction rule: taken.induct) (auto intro: taken_Cons)

lemma taken_prompt: "taken g m cs m' c \<Longrightarrow> prompt m \<Longrightarrow> prompt m'"
  by (induction rule: taken.induct) (auto dest: feed_prompt)

definition ends ::
    "'a grammar \<Rightarrow> 'a matcher \<Rightarrow> bstring list \<Rightarrow> bstring \<Rightarrow> bool \<Rightarrow> bool \<Rightarrow> 'a matcher \<Rightarrow> 'a call list \<Rightarrow> bool" where
  "ends g m cs ch ok b m' c \<longleftrightarrow>
     (\<exists>m1 c1 c2. taken g m cs m1 c1 \<and> feed g m1 ch ok m' c2 \<and> result m' = Some b \<and> c = c1 @ c2)"

lemma endsI: "taken g m cs m1 c1 \<Longrightarrow> feed g m1 ch ok m' c2 \<Longrightarrow> result m' = Some b \<Longrightarrow> ends g m cs ch ok b m' (c1 @ c2)"
  by (auto simp: ends_def)

lemma endsE:
  assumes "ends g m cs ch ok b m' c"
  obtains m1 c1 c2 where "taken g m cs m1 c1" "feed g m1 ch ok m' c2" "result m' = Some b" "c = c1 @ c2" "result m1 = None" "result m = None"
  using assms taken_result unfolding ends_def by blast

lemma ends_result: "ends g m cs ch ok b m' c \<Longrightarrow> result m = None \<and> result m' = Some b"
  by (auto elim!: endsE)

lemma ends_after: "taken g m cs m1 c1 \<Longrightarrow> ends g m1 cs' ch ok b m' c2 \<Longrightarrow> ends g m (cs @ cs') ch ok b m' (c1 @ c2)"
  unfolding ends_def by (metis append.assoc taken_append)

lemma ends_one: "result m = None \<Longrightarrow> step g m ch ok m' c \<Longrightarrow> result m' = Some b \<Longrightarrow> ends g m [] ch ok b m' c"
  unfolding ends_def by (intro exI conjI, erule taken_Nil, erule feed_step) simp_all

lemma ends_Cons: "result m = None \<Longrightarrow> step g m ch True m1 c1 \<Longrightarrow> ends g m1 cs ch' ok b m' c2 \<Longrightarrow> ends g m (ch # cs) ch' ok b m' (c1 @ c2)"
  using ends_after [OF taken_Cons [OF _ feed_to taken_Nil]] ends_result by fastforce

definition reads :: "'a grammar \<Rightarrow> 'a matcher \<Rightarrow> bstring list \<Rightarrow> bstring \<Rightarrow> 'a matcher \<Rightarrow> 'a call list \<Rightarrow> bool" where
  "reads g m cs ch m' c \<longleftrightarrow> ends g m cs ch False True m' c \<or> (cs \<noteq> [] \<and> ends g m (butlast cs) (last cs) True True m' c)"

lemma reads_before: "ends g m cs ch False True m' c \<Longrightarrow> reads g m cs ch m' c"
  by (simp add: reads_def)

lemma reads_with: "ends g m cs e True True m' c \<Longrightarrow> reads g m (cs @ [e]) ch m' c"
  by (simp add: reads_def)

lemma reads_result: "reads g m cs ch m' c \<Longrightarrow> result m = None \<and> result m' = Some True"
  by (auto simp: reads_def dest: ends_result)

section \<open>Classes with one part\<close>

lemma feed_invoke:
  "feed g m ch ok m' c \<Longrightarrow> result m = None \<Longrightarrow>
     feed g (MInvoke m name None) ch ok (MInvoke m' name (result m')) (c @ (if result m' = Some True then [(name, m')] else []))"
proof (induction rule: feed.induct)
  case (feed_step m ch ok m' c)
  then show ?case by (intro feed.feed_step step_invoke) auto
next
  case (feed_again m ch m1 c1 ok m' c2)
  from step_invoke [OF feed_again(1,5), of name] feed_again(2)
  have "step g (MInvoke m name None) ch False (MInvoke m1 name None) c1" by simp
  from feed.feed_again [OF this _ feed_again(4)] feed_again(2) show ?case by simp
qed

lemma feed_match:
  "feed g m ch ok m' c \<Longrightarrow> result m = None \<Longrightarrow> feed g (MMatch m None) ch ok (MMatch m' (result m')) c"
proof (induction rule: feed.induct)
  case (feed_step m ch ok m' c)
  then show ?case by (intro feed.feed_step step_match) auto
next
  case (feed_again m ch m1 c1 ok m' c2)
  from step_match [OF feed_again(1,5)] feed_again(2) have "step g (MMatch m None) ch False (MMatch m1 None) c1" by simp
  from feed.feed_again [OF this _ feed_again(4)] feed_again(2) show ?case by simp
qed

lemma feed_optional:
  "feed g m ch ok m' c \<Longrightarrow> feed g (MOptional m None) ch ok (MOptional m' (if result m' \<noteq> None then Some True else None)) c"
proof (induction rule: feed.induct)
  case (feed_step m ch ok m' c)
  then show ?case by (intro feed.feed_step step_optional) auto
next
  case (feed_again m ch m1 c1 ok m' c2)
  from step_optional [OF feed_again(1)] feed_again(2) have "step g (MOptional m None) ch False (MOptional m1 None) c1" by simp
  from feed.feed_again [OF this _ feed_again(4)] feed_again(2) show ?case by simp
qed

lemma feed_load: "feed g m ch ok m' c \<Longrightarrow> feed g (MLoad name (Some m) None) ch ok (MLoad name (Some m') None) c"
proof (induction rule: feed.induct)
  case (feed_step m ch ok m' c)
  then show ?case by (intro feed.feed_step step_load) auto
next
  case (feed_again m ch m1 c1 ok m' c2)
  have "step g (MLoad name (Some m) None) ch False (MLoad name (Some m1) None) c1" by (rule step_load) (use feed_again(1) in simp)
  from feed.feed_again [OF this _ feed_again(4)] feed_again(2) show ?case by simp
qed

lemma feed_load_first:
  assumes "feed g (on_demand g name) ch ok m' c"
  shows "feed g (MLoad name None None) ch ok (MLoad name (Some m') None) c"
  using assms
proof (cases rule: feed.cases)
  case feed_step
  then show ?thesis by (intro feed.feed_step step_load) auto
next
  case (feed_again m1 c1 c2)
  have "step g (MLoad name None None) ch False (MLoad name (Some m1) None) c1" by (rule step_load) (use feed_again(2) in simp)
  from feed.feed_again [OF this _ feed_load [OF feed_again(4)]] feed_again(1,3) show ?thesis by simp
qed

lemma taken_wrap:
  assumes "taken g m cs m' c"
    and "\<And>m ch m1 c. feed g m ch True m1 c \<Longrightarrow> result m = None \<Longrightarrow> result m1 = None \<Longrightarrow> feed g (W m) ch True (W m1) c"
    and "\<And>m. result m = None \<Longrightarrow> result (W m) = None"
  shows "taken g (W m) cs (W m') c"
  using assms(1)
proof (induction rule: taken.induct)
  case (taken_Nil m)
  then show ?case by (intro taken.taken_Nil assms(3))
next
  case (taken_Cons m ch m1 c1 cs m' c2)
  then have r: "result m1 = None" using taken_result by blast
  from taken.taken_Cons [OF assms(3) [OF taken_Cons(1)] assms(2) [OF taken_Cons(2,1) r] taken_Cons(4)] show ?case .
qed

lemma ends_invoke:
  assumes "ends g m cs ch ok b m' c"
  shows "ends g (MInvoke m name None) cs ch ok b (MInvoke m' name (Some b)) (c @ (if b then [(name, m')] else []))"
proof -
  from assms obtain m1 c1 c2 where e: "taken g m cs m1 c1" "feed g m1 ch ok m' c2" "result m' = Some b" "c = c1 @ c2" "result m1 = None"
    by (rule endsE)
  have "taken g (MInvoke m name None) cs (MInvoke m1 name None) c1"
    by (rule taken_wrap [OF e(1)]) (use feed_invoke [of g _ _ _ _ _ name] in fastforce, simp)
  from endsI [OF this feed_invoke [OF e(2,5)]] e(3,4) show ?thesis by simp
qed

lemma ends_match:
  assumes "ends g m cs ch ok b m' c"
  shows "ends g (MMatch m None) cs ch ok b (MMatch m' (Some b)) c"
proof -
  from assms obtain m1 c1 c2 where e: "taken g m cs m1 c1" "feed g m1 ch ok m' c2" "result m' = Some b" "c = c1 @ c2" "result m1 = None"
    by (rule endsE)
  have "taken g (MMatch m None) cs (MMatch m1 None) c1"
    by (rule taken_wrap [OF e(1)]) (use feed_match in fastforce, simp)
  from endsI [OF this feed_match [OF e(2,5)]] e(3,4) show ?thesis by simp
qed

lemma ends_optional:
  assumes "ends g m cs ch ok b m' c"
  shows "ends g (MOptional m None) cs ch ok True (MOptional m' (Some True)) c"
proof -
  from assms obtain m1 c1 c2 where e: "taken g m cs m1 c1" "feed g m1 ch ok m' c2" "result m' = Some b" "c = c1 @ c2" "result m1 = None"
    by (rule endsE)
  have "taken g (MOptional m None) cs (MOptional m1 None) c1"
    by (rule taken_wrap [OF e(1)]) (use feed_optional in fastforce, simp)
  from endsI [OF this feed_optional [OF e(2)]] e(3,4) show ?thesis by simp
qed

lemma ends_load:
  assumes "ends g (on_demand g name) cs ch ok b m' c"
  shows "ends g (MLoad name None None) cs ch ok b (MLoad name (Some m') None) c"
proof -
  from assms obtain m1 c1 c2 where e: "taken g (on_demand g name) cs m1 c1" "feed g m1 ch ok m' c2" "result m' = Some b" "c = c1 @ c2"
    by (rule endsE)
  show ?thesis
  proof (cases cs)
    case Nil
    with e(1) have "m1 = on_demand g name" "c1 = []" by (auto elim: taken_NilE)
    with endsI [OF taken_Nil feed_load_first] e(2-4) Nil show ?thesis by fastforce
  next
    case (Cons k ks)
    with e(1) obtain n d1 d2 where n: "feed g (on_demand g name) k True n d1" "taken g n ks m1 d2" "c1 = d1 @ d2"
      by (auto elim: taken_ConsE)
    have "taken g (MLoad name (Some n) None) ks (MLoad name (Some m1) None) d2"
      by (rule taken_wrap [OF n(2)]) (use feed_load in fastforce, simp)
    from taken_Cons [OF _ feed_load_first [OF n(1)] this] have "taken g (MLoad name None None) cs (MLoad name (Some m1) None) c1"
      using Cons n(3) by simp
    from endsI [OF this feed_load [OF e(2)]] e(3,4) show ?thesis by simp
  qed
qed

text \<open>A success of the part is one of the class.\<close>

lemma reads_invoke: "reads g m cs ch m' c \<Longrightarrow> reads g (MInvoke m name None) cs ch (MInvoke m' name (Some True)) (c @ [(name, m')])"
  unfolding reads_def using ends_invoke [of g m _ _ _ True m' c name] by auto

lemma reads_match: "reads g m cs ch m' c \<Longrightarrow> reads g (MMatch m None) cs ch (MMatch m' (Some True)) c"
  unfolding reads_def using ends_match by blast

lemma reads_optional: "reads g m cs ch m' c \<Longrightarrow> reads g (MOptional m None) cs ch (MOptional m' (Some True)) c"
  unfolding reads_def using ends_optional by blast

lemma reads_absent: "ends g m [] ch False False m' c \<Longrightarrow> reads g (MOptional m None) [] ch (MOptional m' (Some True)) c"
  by (intro reads_before ends_optional)

lemma reads_load: "reads g (on_demand g name) cs ch m' c \<Longrightarrow> reads g (MLoad name None None) cs ch (MLoad name (Some m') None) c"
  unfolding reads_def using ends_load [of g name] by auto

section \<open>\<open>And\<close>\<close>

text \<open>What one character does at the current part, when the part is done with it.\<close>

lemma feed_and:
  assumes "feed g m ch ok m' c" and "result m = None"
  shows "result m' = None \<Longrightarrow> feed g (MAnd (pre @ m # post) (length pre) None) ch True (MAnd (pre @ m' # post) (length pre) None) c"
    and "result m' = Some False \<Longrightarrow>
      feed g (MAnd (pre @ m # post) (length pre) None) ch False (MAnd (pre @ m' # post) (length pre) (Some False)) c"
    and "result m' = Some True \<Longrightarrow> post = [] \<Longrightarrow>
      feed g (MAnd (pre @ m # post) (length pre) None) ch ok (MAnd (pre @ m' # post) (length pre + 1) (Some True)) c"
    and "result m' = Some True \<Longrightarrow> post \<noteq> [] \<Longrightarrow> ok \<Longrightarrow>
      feed g (MAnd (pre @ m # post) (length pre) None) ch True (MAnd (pre @ m' # post) (length pre + 1) None) c"
  using assms
proof (induction rule: feed.induct)
  case (feed_step m ch ok m' c)
  let ?ms = "pre @ m # post"
  have at: "step g (?ms ! length pre) ch ok m' c" "length pre < length ?ms" "?ms[length pre := m'] = pre @ m' # post"
    using feed_step(1) by simp_all
  note s = step_and [OF at(1,2), unfolded at(3)]
  {
    case 1
    then show ?case using s(2) feed_step(2) by (intro feed.feed_step) auto
  next
    case 2
    then show ?case using s(1) by (intro feed.feed_step) auto
  next
    case 3
    then show ?case using s(3) by (intro feed.feed_step) auto
  next
    case 4
    then show ?case using s(4) by (intro feed.feed_step) auto
  }
next
  case (feed_again m ch m1 c1 ok m' c2)
  let ?ms = "pre @ m # post"
  have at: "step g (?ms ! length pre) ch False m1 c1" "length pre < length ?ms" "?ms[length pre := m1] = pre @ m1 # post"
    using feed_again(1) by simp_all
  have again: "feed g (MAnd ?ms (length pre) None) ch k M (c1 @ c2)" if "feed g (MAnd (pre @ m1 # post) (length pre) None) ch k M c2" for k M
  proof -
    from feed_prompt [OF that] have "step g (MAnd (?ms[length pre := m1]) (length pre) None) ch k M c2" unfolding at(3) by simp
    from step_and_again [OF at(1,2) feed_again(2) this] feed_decides [OF that] show ?thesis by (rule feed.feed_step)
  qed
  {
    case 1
    then show ?case using feed_again.IH(1) feed_again(2) by (intro again) simp
  next
    case 2
    then show ?case using feed_again.IH(2) feed_again(2) by (intro again) simp
  next
    case 3
    then show ?case using feed_again.IH(3) feed_again(2) by (intro again) simp
  next
    case 4
    then show ?case using feed_again.IH(4) feed_again(2) by (intro again) simp
  }
qed

text \<open>A character that a part did not take is passed on.\<close>

lemma feed_and_pass:
  assumes "feed g m ch False m' c" and "result m = None" and "result m' = Some True" and "post \<noteq> []"
    and "feed g (MAnd (pre @ m' # post) (length pre + 1) None) ch ok M d"
  shows "feed g (MAnd (pre @ m # post) (length pre) None) ch ok M (c @ d)"
  using assms(1,2,3,5)
proof (induction m ch "False" m' c rule: feed.induct)
  case (feed_step m ch m' c)
  let ?ms = "pre @ m # post"
  have at: "step g (?ms ! length pre) ch False m' c" "length pre < length ?ms" "length pre + 1 < length ?ms"
    "?ms[length pre := m'] = pre @ m' # post" using feed_step(1) assms(4) by simp_all
  from feed_prompt [OF feed_step(5)] have "step g (MAnd (?ms[length pre := m']) (length pre + 1) None) ch ok M d" unfolding at(4) by simp
  from step_and_pass [OF at(1,2) feed_step(4) at(3) this] feed_decides [OF feed_step(5)] show ?case by (rule feed.feed_step)
next
  case (feed_again m ch m1 c1 m' c2)
  let ?ms = "pre @ m # post"
  have at: "step g (?ms ! length pre) ch False m1 c1" "length pre < length ?ms" "?ms[length pre := m1] = pre @ m1 # post"
    using feed_again(1) by simp_all
  have f: "feed g (MAnd (pre @ m1 # post) (length pre) None) ch ok M (c2 @ d)" using feed_again by blast
  from feed_prompt [OF f] have "step g (MAnd (?ms[length pre := m1]) (length pre) None) ch ok M (c2 @ d)" unfolding at(3) by simp
  from step_and_again [OF at(1,2) feed_again(2) this] feed_decides [OF f]
  have "feed g (MAnd ?ms (length pre) None) ch ok M (c1 @ c2 @ d)" by (rule feed.feed_step)
  then show ?case by simp
qed

lemma taken_and:
  "taken g m cs m' c \<Longrightarrow>
     taken g (MAnd (pre @ m # post) (length pre) None) cs (MAnd (pre @ m' # post) (length pre) None) c"
  by (rule taken_wrap) (auto intro: feed_and(1))

text \<open>The parts from the current one on, each with the characters it reads; the next one starts with the character behind them.\<close>

inductive parts :: "'a grammar \<Rightarrow> 'a matcher list \<Rightarrow> bstring list \<Rightarrow> bstring \<Rightarrow> bool \<Rightarrow> bool \<Rightarrow> 'a matcher list \<Rightarrow> 'a call list \<Rightarrow> bool" for g where
  parts_last: "ends g m cs ch ok b m' c \<Longrightarrow> ok \<longrightarrow> b \<Longrightarrow> parts g [m] cs ch ok b [m'] c"
| parts_fail: "ends g m cs ch ok False m' c \<Longrightarrow> parts g (m # ms) cs ch False False (m' # ms) c"
| parts_reads: "reads g m cs (hd (cs' @ [ch])) m' c \<Longrightarrow> ms \<noteq> [] \<Longrightarrow> parts g ms cs' ch ok b ms' d \<Longrightarrow>
    parts g (m # ms) (cs @ cs') ch ok b (m' # ms') (c @ d)"

lemma parts_and:
  assumes "parts g ms cs ch ok b ms' c"
  shows "\<exists>i. ends g (MAnd (pre @ ms) (length pre) None) cs ch ok b (MAnd (pre @ ms') i (Some b)) c"
  using assms
proof (induction arbitrary: pre rule: parts.induct)
  case (parts_last m cs ch ok b m' c)
  from parts_last(1) obtain m1 c1 c2 where
    e: "taken g m cs m1 c1" "feed g m1 ch ok m' c2" "result m' = Some b" "c = c1 @ c2" "result m1 = None" by (rule endsE)
  have "\<exists>i. feed g (MAnd (pre @ [m1]) (length pre) None) ch ok (MAnd (pre @ [m']) i (Some b)) c2"
  proof (cases b)
    case True
    with feed_and(3) [OF e(2,5)] e(3) show ?thesis by auto
  next
    case False
    with feed_and(2) [OF e(2,5)] e(3) parts_last(2) show ?thesis by auto
  qed
  with endsI [OF taken_and [OF e(1)]] e(4) show ?case by fastforce
next
  case (parts_fail m cs ch ok m' c ms)
  from parts_fail obtain m1 c1 c2 where
    e: "taken g m cs m1 c1" "feed g m1 ch ok m' c2" "result m' = Some False" "c = c1 @ c2" "result m1 = None" by (rule endsE)
  from endsI [OF taken_and [OF e(1)] feed_and(2) [OF e(2,5,3)]] e(4) show ?case by fastforce
next
  case (parts_reads m cs cs' ch m' c ms ok b ms' d)
  obtain i where "ends g (MAnd ((pre @ [m']) @ ms) (length (pre @ [m'])) None) cs' ch ok b (MAnd ((pre @ [m']) @ ms') i (Some b)) d"
    using parts_reads.IH by blast
  then have next_part: "ends g (MAnd (pre @ m' # ms) (length pre + 1) None) cs' ch ok b (MAnd (pre @ m' # ms') i (Some b)) d" by simp
  from parts_reads(1) show ?case unfolding reads_def
  proof (elim disjE conjE)
    assume "ends g m cs (hd (cs' @ [ch])) False True m' c"
    then obtain m1 c1 c2 where e: "taken g m cs m1 c1" "feed g m1 (hd (cs' @ [ch])) False m' c2" "result m' = Some True" "c = c1 @ c2"
      "result m1 = None" by (rule endsE)
    note pass = feed_and_pass [OF e(2,5,3) parts_reads(2)]
    have "ends g (MAnd (pre @ m1 # ms) (length pre) None) cs' ch ok b (MAnd (pre @ m' # ms') i (Some b)) (c2 @ d)"
    proof (cases cs')
      case Nil
      from next_part obtain n d1 d2 where "taken g (MAnd (pre @ m' # ms) (length pre + 1) None) cs' n d1"
        "feed g n ch ok (MAnd (pre @ m' # ms') i (Some b)) d2" "d = d1 @ d2" by (rule endsE)
      with Nil have "feed g (MAnd (pre @ m' # ms) (length pre + 1) None) ch ok (MAnd (pre @ m' # ms') i (Some b)) d"
        by (auto elim: taken_NilE)
      with pass Nil have "feed g (MAnd (pre @ m1 # ms) (length pre) None) ch ok (MAnd (pre @ m' # ms') i (Some b)) (c2 @ d)" by simp
      from endsI [OF taken_Nil this] e(5) Nil show ?thesis by simp
    next
      case (Cons k ks)
      from next_part obtain n d1 d2 where n: "taken g (MAnd (pre @ m' # ms) (length pre + 1) None) cs' n d1"
        "feed g n ch ok (MAnd (pre @ m' # ms') i (Some b)) d2" "d = d1 @ d2" by (rule endsE)
      from n(1) Cons obtain n1 e1 e2 where n1: "feed g (MAnd (pre @ m' # ms) (length pre + 1) None) k True n1 e1"
        "taken g n1 ks n e2" "d1 = e1 @ e2" by (auto elim: taken_ConsE)
      from pass [of pre True n1 e1] Cons n1(1) have "feed g (MAnd (pre @ m1 # ms) (length pre) None) k True n1 (c2 @ e1)" by simp
      from taken_Cons [OF _ this n1(2)] e(5) Cons have "taken g (MAnd (pre @ m1 # ms) (length pre) None) cs' n ((c2 @ e1) @ e2)" by simp
      from endsI [OF this n(2)] n(3) n1(3) show ?thesis by simp
    qed
    from ends_after [OF taken_and [OF e(1)] this] e(4) show ?thesis by auto
  next
    assume "cs \<noteq> []" and "ends g m (butlast cs) (last cs) True True m' c"
    then obtain m1 c1 c2 where e: "taken g m (butlast cs) m1 c1" "feed g m1 (last cs) True m' c2" "result m' = Some True" "c = c1 @ c2"
      "result m1 = None" by (blast elim: endsE)
    have "feed g (MAnd (pre @ m1 # ms) (length pre) None) (last cs) True (MAnd (pre @ m' # ms) (length pre + 1) None) c2"
      by (rule feed_and(4) [OF e(2,5,3) parts_reads(2)]) simp
    from taken_append [OF taken_and [OF e(1)] taken_Cons [OF _ this taken_Nil]]
    have "taken g (MAnd (pre @ m # ms) (length pre) None) (butlast cs @ [last cs]) (MAnd (pre @ m' # ms) (length pre + 1) None) c"
      using e(4,5) ends_result [OF next_part] by simp
    from ends_after [OF this next_part] \<open>cs \<noteq> []\<close> show ?thesis by auto
  qed
qed

lemma ends_and: "parts g ms cs ch ok b ms' c \<Longrightarrow> \<exists>i. ends g (MAnd ms 0 None) cs ch ok b (MAnd ms' i (Some b)) c"
  using parts_and [of g ms cs ch ok b ms' c "[]"] by simp

text \<open>All parts succeed.\<close>

inductive all_read :: "'a grammar \<Rightarrow> 'a matcher list \<Rightarrow> bstring list \<Rightarrow> bstring \<Rightarrow> 'a matcher list \<Rightarrow> 'a call list \<Rightarrow> bool" for g where
  all_read_last: "reads g m cs ch m' c \<Longrightarrow> all_read g [m] cs ch [m'] c"
| all_read_Cons: "reads g m cs (hd (cs' @ [ch])) m' c \<Longrightarrow> all_read g ms cs' ch ms' d \<Longrightarrow>
    all_read g (m # ms) (cs @ cs') ch (m' # ms') (c @ d)"

lemma all_read_parts:
  assumes "all_read g ms cs ch ms' c"
  shows "ms \<noteq> [] \<and> (parts g ms cs ch False True ms' c \<or> (cs \<noteq> [] \<and> parts g ms (butlast cs) (last cs) True True ms' c))"
  using assms
proof (induction rule: all_read.induct)
  case (all_read_last m cs ch m' c)
  then show ?case unfolding reads_def using parts_last by blast
next
  case (all_read_Cons m cs cs' ch m' c ms ms' d)
  then show ?case
  proof (elim conjE disjE, goal_cases)
    case 1
    then show ?case using parts_reads [of g m cs cs' ch m' c ms False True ms' d] by simp
  next
    case 2
    then have "hd (butlast cs' @ [last cs']) = hd (cs' @ [ch])" "butlast (cs @ cs') = cs @ butlast cs'" "last (cs @ cs') = last cs'"
      by (simp_all add: butlast_append)
    with 2 parts_reads [of g m cs "butlast cs'" "last cs'" m' c ms True True ms' d] show ?case by simp
  qed
qed

lemma reads_and: "all_read g ms cs ch ms' c \<Longrightarrow> \<exists>i. reads g (MAnd ms 0 None) cs ch (MAnd ms' i (Some True)) c"
  using all_read_parts [of g ms cs ch ms' c] ends_and unfolding reads_def by meson

end
