(* ===== verification/Parser_Choice.thy ===== *)
theory Parser_Choice
  imports Parser_Runs
begin

text \<open>
  Runs of captures, groups, choices with one part that goes on, and repetitions.
\<close>

section \<open>Captures and groups\<close>

lemma feed_capture:
  "feed g m ch ok m' c \<Longrightarrow> result m = None \<Longrightarrow>
     feed g (MCapture m v [] None) ch ok (MCapture m' (if ok then v @ ch else v) [] (result m')) c"
proof (induction rule: feed.induct)
  case (feed_step m ch ok m' c)
  from step_capture [OF feed_step(1,3), of v "[]"] feed_step(2) show ?case
    by (intro feed.feed_step) (auto split: option.splits)
next
  case (feed_again m ch m1 c1 ok m' c2)
  from step_capture [OF feed_again(1,5), of v "[]"] feed_again(2)
  have "step g (MCapture m v [] None) ch False (MCapture m1 v [] None) c1" by simp
  from feed.feed_again [OF this _ feed_again(4)] feed_again(2) show ?case by simp
qed

lemma taken_capture: "taken g m cs m' c \<Longrightarrow> taken g (MCapture m v [] None) cs (MCapture m' (v @ concat cs) [] None) c"
proof (induction arbitrary: v rule: taken.induct)
  case (taken_Cons m ch m1 c1 cs m' c2)
  then have r: "result m1 = None" using taken_result by blast
  have "feed g (MCapture m v [] None) ch True (MCapture m1 (v @ ch) [] None) c1" using feed_capture [OF taken_Cons(2,1), of v] r by simp
  from taken.taken_Cons [OF _ this taken_Cons(4)] taken_Cons(1) show ?case by simp
qed (simp add: taken.taken_Nil)

lemma ends_capture:
  assumes "ends g m cs ch ok b m' c"
  shows "ends g (MCapture m v [] None) cs ch ok b (MCapture m' (v @ concat cs @ (if ok then ch else [])) [] (Some b)) c"
proof -
  from assms obtain m1 c1 c2 where e: "taken g m cs m1 c1" "feed g m1 ch ok m' c2" "result m' = Some b" "c = c1 @ c2" "result m1 = None"
    by (rule endsE)
  from endsI [OF taken_capture [OF e(1), of v] feed_capture [OF e(2,5)]] e(3,4) show ?thesis by (cases ok) simp_all
qed

lemma concat_butlast_last: "cs \<noteq> [] \<Longrightarrow> concat (butlast cs) @ last cs = concat cs"
  by (metis append_butlast_last_id concat.simps concat_append self_append_conv)

lemma reads_capture:
  assumes "reads g m cs ch m' c"
  shows "reads g (MCapture m [] [] None) cs ch (MCapture m' (concat cs) [] (Some True)) c"
  using assms unfolding reads_def
proof (elim disjE conjE)
  assume "ends g m cs ch False True m' c"
  from ends_capture [OF this, of "[]"] show "ends g (MCapture m [] [] None) cs ch False True (MCapture m' (concat cs) [] (Some True)) c \<or>
      cs \<noteq> [] \<and> ends g (MCapture m [] [] None) (butlast cs) (last cs) True True (MCapture m' (concat cs) [] (Some True)) c" by simp
next
  assume "cs \<noteq> []" and "ends g m (butlast cs) (last cs) True True m' c"
  from ends_capture [OF this(2), of "[]"] concat_butlast_last [OF this(1)] this(1)
  show "ends g (MCapture m [] [] None) cs ch False True (MCapture m' (concat cs) [] (Some True)) c \<or>
      cs \<noteq> [] \<and> ends g (MCapture m [] [] None) (butlast cs) (last cs) True True (MCapture m' (concat cs) [] (Some True)) c" by simp
qed

text \<open>A group that accepts every list of calls keeps those made in it.\<close>

lemma feed_group:
  assumes "feed g m ch ok m' c" and "result m = None" and "prompt m" and "\<And>calls. accepts g calls"
  shows "feed g (MGroup m before None) ch ok (MGroup m' (before @ c) (result m')) []"
proof -
  from step_group [OF feed_prompt [OF assms(1,3), THEN conjunct1] assms(2), of before] assms(4)
  have "step g (MGroup m before None) ch ok (MGroup m' (before @ c) (result m')) []" by (simp split: option.splits)
  then show ?thesis using feed_decides [OF assms(1)] by (intro feed_step) auto
qed

lemma taken_group:
  "taken g m cs m' c \<Longrightarrow> prompt m \<Longrightarrow> (\<And>calls. accepts g calls) \<Longrightarrow>
     taken g (MGroup m before None) cs (MGroup m' (before @ c) None) []"
proof (induction arbitrary: before rule: taken.induct)
  case (taken_Cons m ch m1 c1 cs m' c2)
  then have r: "result m1 = None" using taken_result by blast
  have "prompt m1" using feed_prompt [OF taken_Cons(2,5)] by simp
  note rest = taken_Cons(4) [OF this taken_Cons(6), of "before @ c1"]
  have "feed g (MGroup m before None) ch True (MGroup m1 (before @ c1) None) []"
    using feed_group [OF taken_Cons(2,1,5,6), of before] r by simp
  from taken.taken_Cons [OF _ this rest] taken_Cons(1) show ?case by simp
qed (simp add: taken.taken_Nil)

lemma ends_group:
  assumes "ends g m cs ch ok b m' c" and "prompt m" and "\<And>calls. accepts g calls"
  shows "ends g (MGroup m [] None) cs ch ok b (MGroup m' c (Some b)) []"
proof -
  from assms(1) obtain m1 c1 c2 where e: "taken g m cs m1 c1" "feed g m1 ch ok m' c2" "result m' = Some b" "c = c1 @ c2" "result m1 = None"
    by (rule endsE)
  have "prompt m1" using taken_prompt [OF e(1) assms(2)] .
  from endsI [OF taken_group [OF e(1) assms(2,3)] feed_group [OF e(2,5) this assms(3)], of "[]" b] e(3,4) show ?thesis by simp
qed

lemma reads_group:
  "reads g m cs ch m' c \<Longrightarrow> prompt m \<Longrightarrow> (\<And>calls. accepts g calls) \<Longrightarrow> reads g (MGroup m [] None) cs ch (MGroup m' c (Some True)) []"
  unfolding reads_def using ends_group by blast

section \<open>Choices\<close>

text \<open>A matcher that fails at its first character.\<close>

definition refuses :: "'a grammar \<Rightarrow> 'a matcher \<Rightarrow> bstring \<Rightarrow> bool" where
  "refuses g m ch \<longleftrightarrow> prompt m \<and> (\<exists>m'. ends g m [] ch False False m' [])"

lemma ends_NilE:
  assumes "ends g m [] ch ok b m' c"
  obtains "feed g m ch ok m' c" "result m = None" "result m' = Some b"
  using assms by (auto elim!: endsE taken_NilE)

lemma refuses_step: "refuses g m ch \<Longrightarrow> result m = None \<and> (\<exists>m'. step g m ch False m' [] \<and> result m' = Some False)"
  unfolding refuses_def by (auto elim!: ends_NilE dest: feed_prompt)

lemma refusesI: "step g m ch False m' [] \<Longrightarrow> result m' = Some False \<Longrightarrow> prompt m \<Longrightarrow> result m = None \<Longrightarrow> refuses g m ch"
  unfolding refuses_def using ends_one by blast

lemma refuses_feed: "refuses g m ch \<Longrightarrow> \<exists>m'. ends g m [] ch False False m' []"
  by (simp add: refuses_def)

definition failed :: "'a matcher list \<Rightarrow> bool" where
  "failed ms \<longleftrightarrow> (\<forall>m \<in> set ms. result m = Some False)"

lemma failed_simps [simp]: "failed []" "failed (m # ms) \<longleftrightarrow> result m = Some False \<and> failed ms"
  by (auto simp: failed_def)

lemma or_failed: "failed ms \<Longrightarrow> or_step g ms ch False ms None []"
proof (induction ms)
  case (Cons m ms)
  then show ?case using or_step_failed [of m g ms ch False ms None "[]"] by simp
qed (simp add: or_step_Nil)

lemma or_refused:
  "\<forall>m \<in> set ms. refuses g m ch \<Longrightarrow> \<exists>ms'. or_step g ms ch False ms' None [] \<and> length ms' = length ms \<and> failed ms'"
proof (induction ms)
  case (Cons m ms)
  then obtain ms' where ms': "or_step g ms ch False ms' None []" "length ms' = length ms" "failed ms'" by auto
  from Cons obtain m' where m': "result m = None" "step g m ch False m' []" "result m' = Some False" using refuses_step by force
  from or_step_next [OF m'(2,1) _ ms'(1)] m'(3) have "or_step g (m # ms) ch False (m' # ms') None []" by simp
  with ms' m'(3) show ?case by (intro exI [of _ "m' # ms'"]) simp
qed (simp add: or_step_Nil)

lemma or_part_failed:
  assumes "step g m ch ok m' c" and "result m = None" and "failed pre" and "failed post"
  shows "or_step g (pre @ m # post) ch ok (pre @ m' # post) (if result m' = Some True then Some (length pre) else None) c"
  using assms(3)
proof (induction pre)
  case Nil
  show ?case
  proof (cases "result m' = Some True")
    case True
    with or_step_found [OF assms(1,2)] show ?thesis by simp
  next
    case False
    with or_step_next [OF assms(1,2) _ or_failed [OF assms(4)]] show ?thesis by simp
  qed
next
  case (Cons x pre)
  then have "or_step g (pre @ m # post) ch ok (pre @ m' # post) (if result m' = Some True then Some (length pre) else None) c" by simp
  from or_step_failed [OF _ this, of x] Cons.prems show ?case by (simp split: if_splits)
qed

lemma or_part_first:
  assumes "step g m ch ok m' c" and "result m = None" and "\<forall>x \<in> set pre. refuses g x ch"
    and "result m' = Some True \<or> (\<forall>x \<in> set post. refuses g x ch)"
  shows "\<exists>pre' post'. or_step g (pre @ m # post) ch ok (pre' @ m' # post') (if result m' = Some True then Some (length pre) else None) c \<and>
    length pre' = length pre \<and> length post' = length post \<and> failed pre' \<and> (result m' \<noteq> Some True \<longrightarrow> failed post')"
  using assms(3)
proof (induction pre)
  case Nil
  show ?case
  proof (cases "result m' = Some True")
    case True
    with or_step_found [OF assms(1,2)] show ?thesis by (intro exI [of _ "[]"] exI [of _ post]) simp
  next
    case False
    then obtain post' where p: "or_step g post ch False post' None []" "length post' = length post" "failed post'"
      using or_refused assms(4) by blast
    from or_step_next [OF assms(1,2) False p(1)] False p(2,3) show ?thesis by (intro exI [of _ "[]"] exI [of _ post']) simp
  qed
next
  case (Cons x pre)
  then obtain pre' post' where
    p: "or_step g (pre @ m # post) ch ok (pre' @ m' # post') (if result m' = Some True then Some (length pre) else None) c"
      "length pre' = length pre" "length post' = length post" "failed pre'" "result m' \<noteq> Some True \<longrightarrow> failed post'" by auto
  from Cons obtain x' where x': "result x = None" "step g x ch False x' []" "result x' = Some False" using refuses_step by force
  from or_step_next [OF x'(2,1) _ p(1)] x'(3)
  have "or_step g ((x # pre) @ m # post) ch ok ((x' # pre') @ m' # post') (if result m' = Some True then Some (length (x # pre)) else None) c"
    by (simp split: if_splits)
  with p(2-5) x'(3) show ?case by (intro exI [of _ "x' # pre'"] exI [of _ post']) simp
qed

text \<open>The parts but one have failed: the choice does what the one does.\<close>

lemma taken_or:
  "taken g m cs m' c \<Longrightarrow> prompt m \<Longrightarrow> failed pre \<Longrightarrow> failed post \<Longrightarrow>
     taken g (MOr (pre @ m # post) None None) cs (MOr (pre @ m' # post) None None) c"
proof (induction rule: taken.induct)
  case (taken_Cons m ch m1 c1 cs m' c2)
  then have r: "result m1 = None" using taken_result by blast
  from feed_prompt [OF taken_Cons(2,5)] have m1: "step g m ch True m1 c1" "prompt m1" by simp_all
  from step_or [OF or_part_failed [OF m1(1) taken_Cons(1,6,7)]] r
  have "step g (MOr (pre @ m # post) None None) ch True (MOr (pre @ m1 # post) None None) c1" by simp
  from taken.taken_Cons [OF _ feed_to [OF this] taken_Cons(4) [OF m1(2) taken_Cons(6,7)]] show ?case by simp
qed (simp add: taken.taken_Nil)

lemma ends_or_failed:
  assumes "ends g m cs ch ok b m' c" and "prompt m" and "failed pre" and "failed post" and "ok \<longrightarrow> b"
  shows "ends g (MOr (pre @ m # post) None None) cs ch ok b
    (MOr (pre @ m' # post) (if b then Some (length pre) else None) (Some b)) c"
proof -
  from assms(1) obtain m1 c1 c2 where e: "taken g m cs m1 c1" "feed g m1 ch ok m' c2" "result m' = Some b" "c = c1 @ c2" "result m1 = None"
    by (rule endsE)
  from feed_prompt [OF e(2) taken_prompt [OF e(1) assms(2)]] have "step g m1 ch ok m' c2" by simp
  from step_or [OF or_part_failed [OF this e(5) assms(3,4)]] e(3) assms(5)
  have "step g (MOr (pre @ m1 # post) None None) ch ok (MOr (pre @ m' # post) (if b then Some (length pre) else None) (Some b)) c2"
    by (cases b) auto
  from endsI [OF taken_or [OF e(1) assms(2-4)] feed_step [OF this]] e(4) show ?thesis by simp
qed

text \<open>The other parts refuse the first character.\<close>

lemma ends_or:
  assumes "ends g m cs ch ok b m' c" and "prompt m" and "\<forall>x \<in> set pre. refuses g x (hd (cs @ [ch]))"
    and "cs = [] \<and> b \<or> (\<forall>x \<in> set post. refuses g x (hd (cs @ [ch])))" and "ok \<longrightarrow> b"
  shows "\<exists>pre' post'. ends g (MOr (pre @ m # post) None None) cs ch ok b
      (MOr (pre' @ m' # post') (if b then Some (length pre) else None) (Some b)) c \<and>
    length pre' = length pre \<and> length post' = length post"
proof (cases cs)
  case Nil
  from assms(1) Nil have f: "feed g m ch ok m' c" "result m = None" "result m' = Some b" by (auto elim: ends_NilE)
  note step = feed_prompt [OF f(1) assms(2), THEN conjunct1]
  from or_part_first [OF step f(2), of pre post] assms(3,4) f(3) Nil obtain pre' post' where
    p: "or_step g (pre @ m # post) ch ok (pre' @ m' # post') (if b then Some (length pre) else None) c"
      "length pre' = length pre" "length post' = length post" by auto
  from step_or [OF p(1)] assms(5)
  have "step g (MOr (pre @ m # post) None None) ch ok (MOr (pre' @ m' # post') (if b then Some (length pre) else None) (Some b)) c"
    by (cases b) auto
  from ends_one [OF _ this, of b] p(2,3) Nil show ?thesis by - (rule exI [of _ pre'], rule exI [of _ post'], simp)
next
  case (Cons k ks)
  from assms(1) obtain m1 c1 c2 where e: "taken g m cs m1 c1" "feed g m1 ch ok m' c2" "result m' = Some b" "c = c1 @ c2" "result m1 = None"
    by (rule endsE)
  from e(1) Cons obtain n d1 d2 where n: "result m = None" "feed g m k True n d1" "taken g n ks m1 d2" "c1 = d1 @ d2"
    by (auto elim: taken_ConsE)
  have r: "result n = None" using taken_result [OF n(3)] by simp
  from feed_prompt [OF n(2) assms(2)] have s: "step g m k True n d1" "prompt n" by simp_all
  from or_part_first [OF s(1) n(1), of pre post] assms(3,4) r Cons obtain pre' post' where
    p: "or_step g (pre @ m # post) k True (pre' @ n # post') None d1" "length pre' = length pre" "length post' = length post"
      "failed pre'" "failed post'" by auto
  have "step g (MOr (pre @ m # post) None None) k True (MOr (pre' @ n # post') None None) d1" using step_or [OF p(1)] by simp
  moreover have "ends g n ks ch ok b m' (d2 @ c2)" using endsI [OF n(3) e(2,3)] .
  note rest = ends_or_failed [OF this s(2) p(4,5) assms(5)]
  ultimately have "ends g (MOr (pre @ m # post) None None) (k # ks) ch ok b
      (MOr (pre' @ m' # post') (if b then Some (length pre') else None) (Some b)) (d1 @ d2 @ c2)"
    by (intro ends_Cons) simp_all
  with p(2,3) Cons e(4) n(4) show ?thesis by - (rule exI [of _ pre'], rule exI [of _ post'], cases b, simp_all)
qed

lemma reads_or:
  assumes "reads g m cs ch m' c" and "prompt m" and "\<forall>x \<in> set pre. refuses g x (hd (cs @ [ch]))"
    and "length cs = 1 \<and> ends g m [] (hd cs) True True m' c \<or> (\<forall>x \<in> set post. refuses g x (hd (cs @ [ch])))"
  shows "\<exists>pre' post'. reads g (MOr (pre @ m # post) None None) cs ch (MOr (pre' @ m' # post') (Some (length pre)) (Some True)) c \<and>
    length pre' = length pre \<and> length post' = length post"
proof (cases "cs \<noteq> [] \<and> ends g m (butlast cs) (last cs) True True m' c")
  case True
  then have h: "hd (butlast cs @ [last cs]) = hd (cs @ [ch])" by simp
  from True assms(4) have "butlast cs = [] \<or> (\<forall>x \<in> set post. refuses g x (hd (butlast cs @ [last cs])))" by (cases cs) auto
  with ends_or [of g m "butlast cs" "last cs" True True m' c pre post] assms(2,3) True h show ?thesis unfolding reads_def by auto
next
  case False
  with assms(1) have e: "ends g m cs ch False True m' c" by (simp add: reads_def)
  from assms(4) show ?thesis
  proof
    assume one: "length cs = 1 \<and> ends g m [] (hd cs) True True m' c"
    then have "cs \<noteq> [] \<and> ends g m (butlast cs) (last cs) True True m' c" by (cases cs) auto
    with False show ?thesis by blast
  next
    assume "\<forall>x \<in> set post. refuses g x (hd (cs @ [ch]))"
    with ends_or [OF e assms(2,3)] obtain pre' post' where
      "ends g (MOr (pre @ m # post) None None) cs ch False True (MOr (pre' @ m' # post') (Some (length pre)) (Some True)) c"
      "length pre' = length pre" "length post' = length post" by fastforce
    then show ?thesis unfolding reads_def by blast
  qed
qed

lemma refuses_or:
  assumes "\<forall>m \<in> set ms. refuses g m ch"
  shows "refuses g (MOr ms None None) ch"
proof -
  from or_refused [OF assms] obtain ms' where "or_step g ms ch False ms' None []" by blast
  from step_or [OF this] have "step g (MOr ms None None) ch False (MOr ms' None (Some False)) []" by simp
  from ends_one [OF _ this, of False] show ?thesis by (auto simp: refuses_def)
qed

section \<open>Repetitions\<close>

text \<open>The items, and the failure of the one behind them.\<close>

inductive items :: "'a grammar \<Rightarrow> 'a matcher \<Rightarrow> bstring list \<Rightarrow> bstring \<Rightarrow> nat \<Rightarrow> 'a call list \<Rightarrow> bool" for g new where
  items_end: "ends g new cs ch False False m' c \<Longrightarrow> items g new cs ch 0 c"
| items_reads: "reads g new cs (hd (cs' @ [ch])) m' c \<Longrightarrow> items g new cs' ch n d \<Longrightarrow> items g new (cs @ cs') ch (n + 1) (c @ d)"

abbreviation repeat_state :: "'a matcher \<Rightarrow> nat \<Rightarrow> nat \<Rightarrow> 'a matcher option \<Rightarrow> 'a matcher" where
  "repeat_state new lo k item \<equiv> MRepeat new lo 0 k item None"

definition at_item :: "'a matcher \<Rightarrow> 'a matcher option \<Rightarrow> 'a matcher \<Rightarrow> bool" where
  [simp]: "at_item new item m \<longleftrightarrow> m = (case item of None \<Rightarrow> new | Some m \<Rightarrow> m)"

lemma feed_repeat:
  assumes "feed g m ch ok m' c" and "at_item new item m"
  shows "result m' = Some True \<Longrightarrow> ok \<Longrightarrow> result new = None \<Longrightarrow>
      feed g (repeat_state new lo k item) ch True (repeat_state new lo (k + 1) (Some new)) c"
    and "result m' = Some False \<Longrightarrow>
      feed g (repeat_state new lo k item) ch False (MRepeat new lo 0 k (Some m') (Some (lo \<le> k))) c"
    and "result m' = None \<Longrightarrow> feed g (repeat_state new lo k item) ch True (repeat_state new lo k (Some m')) c"
    and "result m' = Some True \<Longrightarrow> \<not> ok \<Longrightarrow> result new = None \<Longrightarrow>
      feed g (repeat_state new lo (k + 1) (Some new)) ch ok' M d \<Longrightarrow> feed g (repeat_state new lo k item) ch ok' M (c @ d)"
  using assms
proof (induction arbitrary: item rule: feed.induct)
  case (feed_step m ch ok m' c)
  then have s: "at_item new item m \<Longrightarrow> step g (case item of None \<Rightarrow> new | Some m \<Rightarrow> m) ch ok m' c" for item by simp
  {
    case 1
    from step_repeat(1) [OF s [OF 1(4)] 1(1)] 1 show ?case by (intro feed.feed_step) auto
  next
    case 2
    from step_repeat(2) [OF s [OF 2(2)] 2(1)] show ?case by (intro feed.feed_step) auto
  next
    case 3
    from step_repeat(3) [OF s [OF 3(2)] 3(1)] 3 feed_step(2) show ?case by (intro feed.feed_step) auto
  next
    case 4
    from step_repeat(1) [OF s [OF 4(5)] 4(1)] 4 show ?case by (intro feed.feed_again [OF _ _ 4(4)]) auto
  }
next
  case (feed_again m ch m1 c1 ok m' c2)
  have s: "feed g (repeat_state new lo k item) ch ok' M (c1 @ d)"
    if "at_item new item m" "feed g (repeat_state new lo k (Some m1)) ch ok' M d" for item ok' M d
  proof -
    have "step g (case item of None \<Rightarrow> new | Some m \<Rightarrow> m) ch False m1 c1" using that(1) feed_again(1) by simp
    from feed.feed_again [OF step_repeat(3) [OF this feed_again(2)] _ that(2)] feed_again(2) show ?thesis by simp
  qed
  have i: "at_item new (Some m1) m1" by simp
  {
    case 1
    show ?case by (rule s [OF 1(4) feed_again.IH(1) [OF 1(1-3) i]])
  next
    case 2
    show ?case by (rule s [OF 2(2) feed_again.IH(2) [OF 2(1) i]])
  next
    case 3
    show ?case by (rule s [OF 3(2) feed_again.IH(3) [OF 3(1) i]])
  next
    case 4
    from s [OF 4(5) feed_again.IH(4) [OF 4(1-4) i]] show ?case by simp
  }
qed

lemma taken_repeat:
  assumes "taken g m cs m' c" and "at_item new item m"
  shows "\<exists>item'. taken g (repeat_state new lo k item) cs (repeat_state new lo k item') c \<and> at_item new item' m'"
  using assms
proof (induction arbitrary: item rule: taken.induct)
  case (taken_Nil m)
  then have "taken g (repeat_state new lo k item) [] (repeat_state new lo k item) []"
    by (intro taken.taken_Nil) (auto split: option.splits)
  with taken_Nil(2) show ?case by blast
next
  case (taken_Cons m ch m1 c1 cs m' c2)
  then have r: "result m1 = None" using taken_result by blast
  have "at_item new (Some m1) m1" by simp
  from taken_Cons(4) [OF this] obtain item' where
    i: "taken g (repeat_state new lo k (Some m1)) cs (repeat_state new lo k item') c2" "at_item new item' m'" by blast
  have "result (repeat_state new lo k item) = None" using taken_Cons(1,5) by (auto split: option.splits)
  from taken.taken_Cons [OF this feed_repeat(3) [OF taken_Cons(2,5) r] i(1)] i(2) show ?case by blast
qed

lemma ends_repeat:
  assumes "items g new cs ch n c" and "item = None \<or> item = Some new"
  shows "\<exists>m. ends g (repeat_state new lo k item) cs ch False (lo \<le> k + n) m c"
  using assms
proof (induction arbitrary: k item rule: items.induct)
  case (items_end cs ch m' c)
  from items_end(1) obtain m1 c1 c2 where e: "taken g new cs m1 c1" "feed g m1 ch False m' c2" "result m' = Some False" "c = c1 @ c2"
    by (rule endsE)
  have "at_item new item new" using items_end(2) by auto
  from taken_repeat [OF e(1) this] obtain item' where
    i: "taken g (repeat_state new lo k item) cs (repeat_state new lo k item') c1" "at_item new item' m1" by blast
  from endsI [OF i(1) feed_repeat(2) [OF e(2) i(2) e(3)], of "lo \<le> k"] e(4) show ?case by auto
next
  case (items_reads cs cs' ch m' c n d)
  have new: "result new = None" using reads_result [OF items_reads(1)] by simp
  from items_reads.IH [of "Some new" "k + 1"] obtain m where
    next_item: "ends g (repeat_state new lo (k + 1) (Some new)) cs' ch False (lo \<le> k + 1 + n) m d" by auto
  have at: "at_item new item new" using items_reads(4) by auto
  from items_reads(1) show ?case unfolding reads_def
  proof (elim disjE conjE)
    assume "ends g new cs (hd (cs' @ [ch])) False True m' c"
    then obtain m1 c1 c2 where e: "taken g new cs m1 c1" "feed g m1 (hd (cs' @ [ch])) False m' c2" "result m' = Some True" "c = c1 @ c2"
      "result m1 = None" by (rule endsE)
    from taken_repeat [OF e(1) at] obtain item' where
      i: "taken g (repeat_state new lo k item) cs (repeat_state new lo k item') c1" "at_item new item' m1" by blast
    note pass = feed_repeat(4) [OF e(2) i(2) e(3) _ new]
    have r: "result (repeat_state new lo k item') = None" using taken_result [OF i(1)] by simp
    have "ends g (repeat_state new lo k item') cs' ch False (lo \<le> k + 1 + n) m (c2 @ d)"
    proof (cases cs')
      case Nil
      from next_item Nil have "feed g (repeat_state new lo (k + 1) (Some new)) ch False m d" "result m = Some (lo \<le> k + 1 + n)"
        by (auto elim: ends_NilE)
      with pass [of lo k False m d] Nil have "feed g (repeat_state new lo k item') ch False m (c2 @ d)" by simp
      from endsI [OF taken_Nil this] r Nil \<open>result m = Some (lo \<le> k + 1 + n)\<close> show ?thesis by fastforce
    next
      case (Cons x xs)
      from next_item obtain p d1 d2 where p: "taken g (repeat_state new lo (k + 1) (Some new)) cs' p d1"
        "feed g p ch False m d2" "result m = Some (lo \<le> k + 1 + n)" "d = d1 @ d2" by (rule endsE)
      from p(1) Cons obtain q e1 e2 where q: "feed g (repeat_state new lo (k + 1) (Some new)) x True q e1" "taken g q xs p e2"
        "d1 = e1 @ e2" by (auto elim: taken_ConsE)
      from pass [of lo k True q e1] q(1) Cons have "feed g (repeat_state new lo k item') x True q (c2 @ e1)" by simp
      from endsI [OF taken_Cons [OF r this q(2)] p(2,3)] p(4) q(3) Cons show ?thesis by simp
    qed
    from ends_after [OF i(1) this] e(4) show ?thesis by (auto simp: add_ac)
  next
    assume "cs \<noteq> []" and "ends g new (butlast cs) (last cs) True True m' c"
    then obtain m1 c1 c2 where e: "taken g new (butlast cs) m1 c1" "feed g m1 (last cs) True m' c2" "result m' = Some True" "c = c1 @ c2"
      by (blast elim: endsE)
    from taken_repeat [OF e(1) at] obtain item' where
      i: "taken g (repeat_state new lo k item) (butlast cs) (repeat_state new lo k item') c1" "at_item new item' m1" by blast
    have r: "result (repeat_state new lo k item') = None" using taken_result [OF i(1)] by simp
    have "taken g (repeat_state new lo (k + 1) (Some new)) [] (repeat_state new lo (k + 1) (Some new)) []"
      by (rule taken_Nil) (simp add: new)
    from taken_append [OF i(1) taken_Cons [OF r feed_repeat(1) [OF e(2) i(2) e(3) _ new] this]] e(4) \<open>cs \<noteq> []\<close>
    have "taken g (repeat_state new lo k item) cs (repeat_state new lo (k + 1) (Some new)) c" by simp
    from ends_after [OF this next_item] show ?thesis by (auto simp: add_ac)
  qed
qed

lemma reads_repeat:
  assumes "items g new cs ch n c" and "lo \<le> n"
  shows "\<exists>m. reads g (MRepeat new lo 0 0 None None) cs ch m c"
  using ends_repeat [OF assms(1), of None lo 0] assms(2) reads_before by fastforce

end
