(* ===== verification/JSON_Grammar.thy ===== *)
theory JSON_Grammar
  imports Parser_Match JSON_Import
begin

text \<open>
  The grammar of JSON texts (code/json) over the matchers of the parser, the stream of pages of a string (code/b-string/stream.h),
  and the calls of \<open>JSONParser\<close> that a text makes, as events. No callbacks are registered for single properties
  (\<open>_onkeys\<close>, \<open>_onvalues\<close>).
\<close>

section \<open>Names of the callbacks\<close>

datatype json_call =
    JSON_On_Demand
  | On_Value
  | Item_Type json_type
  | Item_Number
  | On_Begin_Array
  | On_Array_Value
  | On_End_Array
  | On_Begin_Object
  | On_Object_Key
  | On_Seperator
  | On_Key_Value
  | On_Object_Value
  | On_End_Object
  | On_Begin_String
  | On_Character
  | On_End_String
  | On_Hex

section \<open>Blanks, words and numbers\<close>

definition character :: "char \<Rightarrow> json_call matcher" where
  "character c = MChar (Some [c]) None"

definition blank_space_character :: "json_call matcher" where
  "blank_space_character =
     MOr (map character [CHR 0x20, CHR 0x0A, CHR 0x0D, CHR 0x09, CHR 0x0D, CHR 0x0A]) None None"

definition blank_space :: "nat \<Rightarrow> json_call matcher" where
  "blank_space minimum = MRepeat blank_space_character minimum 0 0 None None"

definition undefined_matcher :: "json_call matcher" where
  "undefined_matcher = MWord False ''undefined'' 0 None"

definition null_matcher :: "json_call matcher" where
  "null_matcher = MWord False ''null'' 0 None"

definition boolean_matcher :: "json_call matcher" where
  "boolean_matcher =
     MMatch (MCapture (MOr [MWord False ''true'' 0 None, MWord False ''false'' 0 None] None None) [] [] None) None"

definition integer_character :: "json_call matcher" where
  "integer_character = MRange ''0'' ''9'' None"

text \<open>
  The own methods \<open>eof\<close> of \<open>Integer\<close> and \<open>Number\<close> decide as \<open>Match::eof\<close> does: an integer has succeeded when it has a digit, and a number
  when its integer has, since the parts behind it are optional.
\<close>

definition integer_matcher :: "json_call matcher" where
  "integer_matcher = MMatch (MCapture (MRepeat integer_character 1 0 0 None None) [] [] None) None"

definition sign_matcher :: "json_call matcher" where
  "sign_matcher = MCapture (MOr [character CHR ''+'', character CHR ''-''] None None) [] [] None"

definition fraction_matcher :: "json_call matcher" where
  "fraction_matcher = MAnd [character CHR ''.'', integer_matcher] 0 None"

definition exponent_matcher :: "json_call matcher" where
  "exponent_matcher =
     MAnd [MOr [character CHR ''E'', character CHR ''e''] None None, MOptional sign_matcher None, integer_matcher] 0 None"

definition number_matcher :: "json_call matcher" where
  "number_matcher =
     MMatch (MCapture (MAnd [MOptional (character CHR ''-'') None, integer_matcher, MOptional fraction_matcher None,
       MOptional exponent_matcher None] 0 None) [] [] None) None"

section \<open>Strings\<close>

text \<open>
  \<open>PlainCharacter\<close> keeps the character it has taken, which decides it, as a capture does. \<open>EscapedCharacter\<close> keeps the output of the
  \<open>CaptureCharacter\<close> that succeeded, or the value of \<open>Hex\<close>.
\<close>

definition plain_character :: "json_call matcher" where
  "plain_character =
     MCapture (MNot (MOr (map character [CHR 0x5C, CHR 0x22, CHR 0x0D, CHR 0x0A, CHR 0x08, CHR 0x0C]) None None) None) [] [] None"

definition hex_character :: "json_call matcher" where
  "hex_character = MOr [MRange ''0'' ''9'' None, MRange ''a'' ''f'' None, MRange ''A'' ''F'' None] None None"

definition hex_matcher :: "json_call matcher" where
  "hex_matcher = MMatch (MCapture (MRepeat hex_character 2 4 0 None None) [] [] None) None"

definition escapes :: "(char \<times> char) list" where
  "escapes =
     [(CHR ''0'', CHR 0x00), (CHR 0x22, CHR 0x22), (CHR 0x5C, CHR 0x5C), (CHR ''b'', CHR 0x08), (CHR ''f'', CHR 0x0C),
      (CHR ''r'', CHR 0x0D), (CHR ''n'', CHR 0x0A), (CHR ''t'', CHR 0x09), (CHR ''v'', CHR 0x0B)]"

definition escaped_character :: "json_call matcher" where
  "escaped_character =
     MMatch (MAnd [character CHR 0x5C,
       MOr (map (\<lambda>(c, out). character c) escapes @
         [MAnd [plain_character, MNot hex_matcher None] 0 None,
          MAnd [character CHR ''u'', MInvoke hex_matcher On_Hex None] 0 None]) None None] 0 None) None"

definition string_character :: "json_call matcher" where
  "string_character = MMatch (MOr [plain_character, escaped_character] None None) None"

text \<open>The call of an item stands for \<open>matchedItem\<close>.\<close>

definition string_characters :: "json_call matcher" where
  "string_characters = MRepeat (MInvoke string_character On_Character None) 0 0 0 None None"

definition string_parts :: "json_call matcher" where
  "string_parts =
     MAnd [MInvoke (character CHR 0x22) On_Begin_String None, string_characters, MInvoke (character CHR 0x22) On_End_String None] 0 None"

definition string_matcher :: "json_call matcher" where
  "string_matcher = MMatch string_parts None"

text \<open>The methods \<open>on...\<close> of an \<open>ObjectKey\<close> do nothing: its calls stay with it, for its value.\<close>

definition object_key :: "json_call matcher" where
  "object_key = MGroup string_parts [] None"

section \<open>Arrays and objects\<close>

definition json_on_demand :: "json_call matcher" where
  "json_on_demand = MLoad JSON_On_Demand None None"

definition set_seperator :: "json_call matcher \<Rightarrow> json_call matcher" where
  "set_seperator seperator = MAnd [MOptional (blank_space 1) None, seperator, MOptional (blank_space 1) None] 0 None"

definition subsequent_item :: "json_call matcher \<Rightarrow> json_call \<Rightarrow> json_call matcher \<Rightarrow> json_call matcher" where
  "subsequent_item item onsetvalue seperator = MAnd [set_seperator seperator, MInvoke item onsetvalue None] 0 None"

definition set_matcher ::
    "json_call matcher \<Rightarrow> json_call \<Rightarrow> json_call matcher \<Rightarrow> json_call \<Rightarrow> json_call matcher \<Rightarrow> json_call matcher \<Rightarrow> json_call \<Rightarrow>
     json_call matcher" where
  "set_matcher open_brace onbeginset item onsetvalue seperator close_brace onendset =
     MMatch (MAnd
       [MInvoke open_brace onbeginset None,
        MOptional (MAnd
          [MInvoke item onsetvalue None,
           MOptional (MRepeat (subsequent_item item onsetvalue seperator) 0 0 0 None None) None] 0 None) None,
        MInvoke close_brace onendset None] 0 None) None"

definition array_open_brace :: "json_call matcher" where
  "array_open_brace = MAnd [character CHR ''['', blank_space 0] 0 None"

definition array_close_brace :: "json_call matcher" where
  "array_close_brace = MAnd [blank_space 0, character CHR '']''] 0 None"

definition array_seperator :: "json_call matcher" where
  "array_seperator = MAnd [blank_space 0, character CHR '','', blank_space 0] 0 None"

definition array_matcher :: "json_call matcher" where
  "array_matcher =
     set_matcher array_open_brace On_Begin_Array json_on_demand On_Array_Value array_seperator array_close_brace On_End_Array"

definition object_open_brace :: "json_call matcher" where
  "object_open_brace = MAnd [blank_space 0, character CHR ''{'', blank_space 0] 0 None"

definition object_close_brace :: "json_call matcher" where
  "object_close_brace = MAnd [blank_space 0, character CHR ''}''] 0 None"

definition object_field_seperator :: "json_call matcher" where
  "object_field_seperator = MAnd [blank_space 0, character CHR '','', blank_space 0] 0 None"

definition object_key_value_seperator :: "json_call matcher" where
  "object_key_value_seperator = MAnd [blank_space 0, character CHR '':'', blank_space 0] 0 None"

text \<open>
  The callback of the value of a property also needs the key. It is taken from the call of the whole \<open>KeyValue\<close>, which succeeds with its value
  in the same step.
\<close>

definition key_value :: "json_call matcher" where
  "key_value =
     MMatch (MAnd [MInvoke object_key On_Object_Key None, MInvoke object_key_value_seperator On_Seperator None,
       MInvoke json_on_demand On_Key_Value None] 0 None) None"

definition object_matcher :: "json_call matcher" where
  "object_matcher =
     set_matcher object_open_brace On_Begin_Object key_value On_Object_Value object_field_seperator object_close_brace On_End_Object"

definition json_items :: "json_call matcher list" where
  "json_items =
     [MInvoke undefined_matcher (Item_Type UNDEFINED) None, MInvoke null_matcher (Item_Type NULL) None,
      MInvoke boolean_matcher (Item_Type BOOLEAN) None, MInvoke number_matcher Item_Number None,
      MInvoke string_matcher (Item_Type STRING) None, MInvoke array_matcher (Item_Type ARRAY) None,
      MInvoke object_matcher (Item_Type OBJECT) None]"

text \<open>The call of \<open>JSON\<close> stands for its method \<open>success\<close>.\<close>

definition json_matcher :: "json_call matcher" where
  "json_matcher = MInvoke (MAnd [blank_space 0, MOr json_items None None] 0 None) On_Value None"

definition json_grammar :: "json_call grammar" where
  "json_grammar = \<lparr>on_demand = (\<lambda>name. json_matcher), accepts = (\<lambda>calls. True), lower_case = (\<lambda>s. s)\<rparr>"

section \<open>Characters of strings\<close>

text \<open>\<open>Hex::success\<close>: up to two zeros are skipped, and the rest is read in pairs.\<close>

fun hex_chunks :: "bstring \<Rightarrow> bstring" where
  "hex_chunks (a # b # s) = char_of (hex_number 0 [a, b]) # hex_chunks s"
| "hex_chunks [a] = [char_of (hex_number 0 [a])]"
| "hex_chunks [] = []"

definition hex_character_value :: "bstring \<Rightarrow> bstring" where
  "hex_character_value hex = hex_chunks (drop (length (takeWhile (\<lambda>c. c = CHR ''0'') (take 2 hex))) hex)"

definition escaped_value :: "json_call matcher \<Rightarrow> bstring" where
  "escaped_value m =
     (case m of
        MMatch (MAnd [_, MOr ms (Some i) _] _ _) _ \<Rightarrow>
          if i < length escapes then [snd (escapes ! i)]
          else if i = length escapes + 1 then hex_character_value (matched_value (case ms ! i of MAnd [_, hex] _ _ \<Rightarrow> hex | m \<Rightarrow> m))
          else []
      | _ \<Rightarrow> [])"

text \<open>\<open>StringCharacter::character\<close>.\<close>

definition string_character_value :: "json_call matcher \<Rightarrow> bstring" where
  "string_character_value m =
     (case m of
        MMatch (MOr [plain, escaped] (Some i) _) _ \<Rightarrow> if i = 0 then matched_value plain else escaped_value escaped
      | _ \<Rightarrow> [])"

section \<open>The stream of a string\<close>

text \<open>
  The bytes in the page of the stream, the \<open>BString\<close> of \<open>StringCharacters\<close>, and \<open>_value\<close> of \<open>String\<close>. A full page is passed on,
  and \<open>clear\<close> empties the \<open>BString\<close> with it.
\<close>

record string_state =
  sm_bytes :: bstring
  sm_string :: bstring
  sm_value :: bstring

definition string_new :: string_state where
  "string_new = \<lparr>sm_bytes = [], sm_string = [], sm_value = []\<rparr>"

definition on_buffer :: "string_state \<Rightarrow> string_state \<times> bstring list" where
  "on_buffer st = (st\<lparr>sm_value := sm_string st, sm_bytes := [], sm_string := []\<rparr>, [sm_bytes st])"

definition stream_push_back :: "nat \<Rightarrow> char \<Rightarrow> string_state \<Rightarrow> string_state \<times> bstring list" where
  "stream_push_back page c st =
     (let st = st\<lparr>sm_bytes := sm_bytes st @ [c]\<rparr> in if page \<le> length (sm_bytes st) then on_buffer st else (st, []))"

fun stream_write :: "nat \<Rightarrow> bstring \<Rightarrow> string_state \<Rightarrow> string_state \<times> bstring list" where
  "stream_write page [] st = (st, [])"
| "stream_write page (c # cs) st =
     (let (st, parts) = stream_push_back page c st; (st, more) = stream_write page cs st in (st, parts @ more))"

definition stream_flush :: "string_state \<Rightarrow> string_state \<times> bstring list" where
  "stream_flush st = (if sm_bytes st \<noteq> [] then on_buffer st else (st, []))"

definition matched_item :: "nat \<Rightarrow> bstring \<Rightarrow> string_state \<Rightarrow> string_state \<times> bstring list" where
  "matched_item page ch st = stream_write page ch (st\<lparr>sm_string := sm_string st @ ch\<rparr>)"

text \<open>The calls of a string; each string has its own stream.\<close>

definition string_call :: "nat \<Rightarrow> json_call call \<Rightarrow> string_state \<Rightarrow> string_state \<times> bstring list" where
  "string_call page call st =
     (case call of (name, m) \<Rightarrow>
        if name = On_Begin_String then (string_new, [])
        else if name = On_Character then matched_item page (string_character_value m) st
        else if name = On_End_String then stream_flush st
        else (st, []))"

fun string_calls :: "nat \<Rightarrow> json_call call list \<Rightarrow> string_state \<Rightarrow> string_state" where
  "string_calls page [] st = st"
| "string_calls page (call # calls) st = string_calls page calls (fst (string_call page call st))"

definition key_text :: "nat \<Rightarrow> json_call matcher \<Rightarrow> bstring" where
  "key_text page m = (case m of MGroup _ calls _ \<Rightarrow> sm_value (string_calls page calls string_new) | _ \<Rightarrow> [])"

section \<open>The events\<close>

definition number_type :: "bstring \<Rightarrow> json_type" where
  "number_type s = (if list_ex (\<lambda>c. c \<in> set ''-+eE.'') s then NUMBER else INTEGER)"

text \<open>The type and the value of a \<open>JSON\<close>: those of its item. The value of a string is that of its stream.\<close>

definition json_item :: "json_call matcher \<Rightarrow> string_state \<Rightarrow> json_type \<times> bstring" where
  "json_item m st =
     (case m of
        MAnd [_, MOr ms (Some i) _] _ _ \<Rightarrow>
          (case ms ! i of
             MInvoke item (Item_Type t) _ \<Rightarrow> (t, if t = STRING then sm_value st else matched_value item)
           | MInvoke item Item_Number _ \<Rightarrow> (number_type (matched_value item), matched_value item)
           | _ \<Rightarrow> (UNDEFINED, []))
      | _ \<Rightarrow> (UNDEFINED, []))"

definition loaded_json :: "json_call matcher \<Rightarrow> json_call matcher" where
  "loaded_json m = (case m of MLoad _ (Some (MInvoke json _ _)) _ \<Rightarrow> json | _ \<Rightarrow> m)"

definition key_value_parts :: "json_call matcher \<Rightarrow> json_call matcher \<times> json_call matcher" where
  "key_value_parts m =
     (case m of MMatch (MAnd [MInvoke key _ _, _, MInvoke val _ _] _ _) _ \<Rightarrow> (key, val) | _ \<Rightarrow> (m, m))"

definition json_event :: "nat \<Rightarrow> json_call call \<Rightarrow> string_state \<Rightarrow> string_state \<times> import_event list" where
  "json_event page call st =
     (let (name, m) = call; (st', parts) = string_call page call st
      in (st',
          case name of
            On_Begin_String \<Rightarrow> [Begin_String]
          | On_Character \<Rightarrow> map Part_String parts
          | On_End_String \<Rightarrow> map Part_String parts @ [End_String]
          | On_Value \<Rightarrow> [case_prod Value (json_item m st)]
          | On_Begin_Array \<Rightarrow> [Begin_Array]
          | On_Array_Value \<Rightarrow> [case_prod Array_Value (json_item (loaded_json m) st)]
          | On_End_Array \<Rightarrow> [End_Array]
          | On_Begin_Object \<Rightarrow> [Begin_Object]
          | On_Object_Key \<Rightarrow> [Object_Key (key_text page m)]
          | On_Object_Value \<Rightarrow>
              [case_prod (Object_Value (key_text page (fst (key_value_parts m)))) (json_item (loaded_json (snd (key_value_parts m))) st)]
          | On_End_Object \<Rightarrow> [End_Object]
          | _ \<Rightarrow> []))"

fun json_events :: "nat \<Rightarrow> json_call call list \<Rightarrow> string_state \<Rightarrow> string_state \<times> import_event list" where
  "json_events page [] st = (st, [])"
| "json_events page (call # calls) st =
     (let (st, es) = json_event page call st; (st, more) = json_events page calls st in (st, es @ more))"

text \<open>A text, from its first character to the end of the input.\<close>

definition parse_json :: "nat \<Rightarrow> nat \<Rightarrow> bstring \<Rightarrow> (bool option \<times> import_event list) option" where
  "parse_json page n s =
     do { (r, m, calls) \<leftarrow> parse json_grammar n json_matcher s; Some (r, snd (json_events page calls string_new)) }"

end
