(* ===== verification/JSON_Tokens.thy ===== *)
theory JSON_Tokens
  imports Parser_Choice JSON_Grammar
begin

text \<open>
  What the matchers of JSON read: blanks, words and numbers.
\<close>

section \<open>Characters\<close>

abbreviation chars :: "bstring \<Rightarrow> bstring list" where "chars \<equiv> map (\<lambda>c. [c])"

lemma concat_chars [simp]: "concat (chars s) = s"
  by (induction s) simp_all

lemma result_character [simp]: "result (character c) = None" and prompt_character [simp]: "prompt (character c)"
  by (simp_all add: character_def)

lemma ends_character: "ends g (character c) [] [c] True True (MChar (Some [c]) (Some True)) []"
  using step_char [of g "Some [c]" "[c]"] by (intro ends_one) (simp_all add: character_def)

lemma reads_character: "reads g (character c) [[c]] ch (MChar (Some [c]) (Some True)) []"
  using reads_with [OF ends_character] by simp

lemma refuses_character: "ch \<noteq> [c] \<Longrightarrow> refuses g (character c) ch"
  using step_char [of g "Some [c]" ch] by (intro refusesI) (auto simp: character_def)

lemma ends_characters:
  assumes "c \<in> set cs"
  shows "\<exists>m. ends g (MOr (map character cs) None None) [] [c] True True m []"
proof -
  from split_list_first [OF assms] obtain pre post where cs: "cs = pre @ c # post" "c \<notin> set pre" by blast
  have "\<forall>x \<in> set (map character pre). refuses g x (hd ([] @ [[c]]))" using cs(2) by (auto intro!: refuses_character)
  from ends_or [OF ends_character _ this] cs(1) show ?thesis by fastforce
qed

lemma refuses_characters: "(\<And>c. c \<in> set cs \<Longrightarrow> ch \<noteq> [c]) \<Longrightarrow> refuses g (MOr (map character cs) None None) ch"
  by (rule refuses_or) (auto intro: refuses_character)

section \<open>Blanks\<close>

definition blanks :: bstring where
  "blanks = [CHR 0x20, CHR 0x0A, CHR 0x0D, CHR 0x09]"

definition blank_char :: "bstring \<Rightarrow> bool" where
  "blank_char u \<longleftrightarrow> u \<in> set (chars blanks)"

lemma ends_blank: "blank_char u \<Longrightarrow> \<exists>m. ends g blank_space_character [] u True True m []"
  unfolding blank_char_def blank_space_character_def blanks_def
  using ends_characters [of _ "[CHR 0x20, CHR 0x0A, CHR 0x0D, CHR 0x09, CHR 0x0D, CHR 0x0A]" g] by auto

lemma refuses_blank: "\<not> blank_char u \<Longrightarrow> refuses g blank_space_character u"
  unfolding blank_space_character_def by (rule refuses_characters) (auto simp: blank_char_def blanks_def)

lemma items_blanks: "\<forall>w \<in> set ws. blank_char w \<Longrightarrow> \<not> blank_char ch \<Longrightarrow> items g blank_space_character ws ch (length ws) []"
proof (induction ws)
  case Nil
  then show ?case using refuses_feed [OF refuses_blank] items_end by fastforce
next
  case (Cons w ws)
  from Cons.prems(1) ends_blank obtain m where "ends g blank_space_character [] w True True m []" by fastforce
  from reads_with [OF this] have "reads g blank_space_character [w] (hd (ws @ [ch])) m []" by simp
  from items_reads [OF this Cons.IH] Cons.prems show ?case by simp
qed

lemma reads_blanks:
  assumes "\<forall>w \<in> set ws. blank_char w" and "\<not> blank_char ch" and "lo \<le> length ws"
  shows "\<exists>m. reads g (blank_space lo) ws ch m []"
  unfolding blank_space_def by (rule reads_repeat [OF items_blanks [OF assms(1,2)] assms(3)])

lemma optional_blanks:
  assumes "\<forall>w \<in> set ws. blank_char w" and "\<not> blank_char ch"
  shows "\<exists>m. reads g (MOptional (blank_space 1) None) ws ch m []"
proof (cases ws)
  case Nil
  from ends_repeat [OF items_blanks [of "[]" ch g], of None 1 0] assms(2)
  obtain m where "ends g (blank_space 1) [] ch False False m []" by (auto simp: blank_space_def)
  from reads_absent [OF this] Nil show ?thesis by blast
next
  case Cons
  with reads_blanks [OF assms, of 1 g] reads_optional show ?thesis by (fastforce simp: Suc_le_eq)
qed

section \<open>Words\<close>

lemma match_bytes_one: "i < length w \<Longrightarrow> word_match_char w i [c] = (c = w ! i, if c = w ! i then i + 1 else i)"
  by (simp add: word_match_char_def)

lemma step_word_at:
  assumes "i < length w"
  shows "step g (MWord False w i None) [w ! i] True (MWord False w (i + 1) (if i + 1 = length w then Some True else None)) []"
  using assms by (intro step_word) (simp add: word_match_def match_bytes_one)

lemma ends_word:
  assumes "i < length w"
  shows "ends g (MWord False w i None) (chars (butlast (drop i w))) [last w] True True (MWord False w (length w) (Some True)) []"
  using assms
proof (induction "length w - i" arbitrary: i)
  case (Suc n)
  note s = step_word_at [OF Suc.prems, of g]
  have drop: "drop i w = w ! i # drop (i + 1) w" using Cons_nth_drop_Suc [OF Suc.prems] by simp
  show ?case
  proof (cases "i + 1 = length w")
    case True
    then have "length w - 1 = i" "w \<noteq> []" using Suc.prems by auto
    then have "last w = w ! i" by (simp add: last_conv_nth)
    with ends_one [OF _ s, of True] True drop show ?thesis by simp
  next
    case False
    then have i: "i + 1 < length w" using Suc.prems by simp
    have "n = length w - (i + 1)" using Suc.hyps(2) by simp
    from ends_Cons [OF _ _ Suc.hyps(1) [OF this i]] s False drop i show ?thesis by simp
  qed
qed simp

lemma reads_whole_word:
  assumes "w \<noteq> []"
  shows "reads g (MWord False w 0 None) (chars w) ch (MWord False w (length w) (Some True)) []"
proof -
  have "chars (butlast w) @ [[last w]] = chars w" using arg_cong [OF append_butlast_last_id [OF assms], of chars] by simp
  with reads_with [OF ends_word [of 0 w g], of ch] assms show ?thesis by simp
qed

lemma refuses_word:
  assumes "w \<noteq> []" and "c \<noteq> hd w"
  shows "refuses g (MWord False w 0 None) (c # cs)"
proof -
  have "word_match_char w 0 (c # cs) = (False, 0)" using assms by (cases w) (simp_all add: word_match_char_def)
  then have "step g (MWord False w 0 None) (c # cs) False (MWord False w 0 (Some False)) []"
    by (intro step_word) (simp add: word_match_def)
  from ends_one [OF _ this, of False] show ?thesis by (auto simp: refuses_def)
qed

lemma reads_boolean:
  assumes "x \<in> {''true'', ''false''}"
  shows "\<exists>m. reads g boolean_matcher (chars x) ch m [] \<and> matched_value m = x"
proof -
  let ?T = "MWord False ''true'' 0 None :: json_call matcher" and ?F = "MWord False ''false'' 0 None :: json_call matcher"
  have "\<exists>m. reads g (MOr [?T, ?F] None None) (chars x) ch m []"
  proof (cases "x = ''true''")
    case True
    have r: "reads g ?T (chars x) ch (MWord False x (length x) (Some True)) []" using reads_whole_word [of x g ch] True by simp
    show ?thesis using reads_or [OF r, of "[]" "[?F]"] refuses_word [of "''false''" "CHR ''t''" g "[]"] True by fastforce
  next
    case False
    with assms have x: "x = ''false''" by simp
    have r: "reads g ?F (chars x) ch (MWord False x (length x) (Some True)) []" using reads_whole_word [of x g ch] x by simp
    show ?thesis using reads_or [OF r, of "[?T]" "[]"] refuses_word [of "''true''" "CHR ''f''" g "[]"] x by fastforce
  qed
  then obtain m where "reads g (MOr [?T, ?F] None None) (chars x) ch m []" by blast
  from reads_match [OF reads_capture [OF this]] show ?thesis by (fastforce simp: boolean_matcher_def)
qed

lemma refuses_match: "refuses g m ch \<Longrightarrow> refuses g (MMatch m None) ch"
  unfolding refuses_def using ends_match by fastforce

lemma refuses_capture: "refuses g m ch \<Longrightarrow> refuses g (MCapture m v [] None) ch"
  unfolding refuses_def using ends_capture by fastforce

lemma refuses_invoke: "refuses g m ch \<Longrightarrow> refuses g (MInvoke m name None) ch"
  unfolding refuses_def using ends_invoke [of g m "[]" ch False False _ "[]" name] by fastforce

lemma refuses_boolean: "c \<noteq> CHR ''t'' \<Longrightarrow> c \<noteq> CHR ''f'' \<Longrightarrow> refuses g boolean_matcher (c # cs)"
  unfolding boolean_matcher_def by (intro refuses_match refuses_capture refuses_or) (auto intro: refuses_word)

section \<open>Numbers\<close>

lemma step_range: "step g (MRange lo hi None) ch (lo \<le> ch \<and> ch \<le> hi) (MRange lo hi (Some (lo \<le> ch \<and> ch \<le> hi))) []"
  by (rule stepI [of _ 0]) (simp add: match_with_def range_match_def Let_def once_def)

lemma in_digits: "''0'' \<le> [c] \<and> [c] \<le> ''9'' \<longleftrightarrow> is_digit c"
  by (auto simp: is_digit_def)

lemma ends_digit: "is_digit c \<Longrightarrow> ends g integer_character [] [c] True True (MRange ''0'' ''9'' (Some True)) []"
  using step_range [of g "''0''" "''9''" "[c]"] in_digits [of c] by (intro ends_one) (auto simp: integer_character_def)

lemma refuses_digit: "\<not> is_digit c \<Longrightarrow> refuses g integer_character [c]"
  using step_range [of g "''0''" "''9''" "[c]"] in_digits [of c] by (intro refusesI) (auto simp: integer_character_def)

lemma items_digits: "list_all is_digit ds \<Longrightarrow> \<not> is_digit c \<Longrightarrow> items g integer_character (chars ds) [c] (length ds) []"
proof (induction ds)
  case Nil
  then show ?case using refuses_feed [OF refuses_digit] items_end by fastforce
next
  case (Cons d ds)
  from Cons.prems(1) have "ends g integer_character [] [d] True True (MRange ''0'' ''9'' (Some True)) []" by (intro ends_digit) simp
  from reads_with [OF this] have "reads g integer_character [[d]] (hd (chars ds @ [[c]])) (MRange ''0'' ''9'' (Some True)) []" by simp
  from items_reads [OF this Cons.IH] Cons.prems show ?case by simp
qed

lemma reads_integer:
  assumes "is_digits_only ds" and "\<not> is_digit c"
  shows "\<exists>m. reads g integer_matcher (chars ds) [c] m []"
proof -
  have "1 \<le> length ds" using assms(1) by (cases ds) (simp_all add: is_digits_only_def)
  from reads_repeat [OF items_digits [of ds c g] this] assms obtain m where
    "reads g (MRepeat integer_character 1 0 0 None None) (chars ds) [c] m []" by (auto simp: is_digits_only_def)
  from reads_match [OF reads_capture [OF this]] show ?thesis by (auto simp: integer_matcher_def)
qed

lemma integer_absent:
  assumes "\<not> is_digit c"
  shows "\<exists>m. ends g integer_matcher [] [c] False False m []"
proof -
  from ends_repeat [OF items_digits [of "[]" c g], of None 1 0] assms obtain m where
    "ends g (MRepeat integer_character 1 0 0 None None) [] [c] False False m []" by auto
  from ends_match [OF ends_capture [OF this]] show ?thesis by (auto simp: integer_matcher_def)
qed

text \<open>The character behind a number.\<close>

definition stops :: "bstring \<Rightarrow> bool" where
  "stops u \<longleftrightarrow> u \<in> set (chars ('',]}'' @ blanks))"

lemma stops_not: "stops u \<Longrightarrow> \<exists>c. u = [c] \<and> \<not> is_digit c \<and> c \<notin> set ''.eE+-''"
proof -
  have "\<forall>c \<in> set ('',]}'' @ blanks). \<not> is_digit c \<and> c \<notin> set ''.eE+-''" by code_simp
  then show "stops u \<Longrightarrow> ?thesis" unfolding stops_def by fastforce
qed

definition number_text :: "bstring \<Rightarrow> bool" where
  "number_text x \<longleftrightarrow>
     (\<exists>s i f e. x = s @ i @ f @ e \<and> s \<in> {'''', ''-''} \<and> is_digits_only i \<and>
        (f = [] \<or> (\<exists>d. f = ''.'' @ d \<and> is_digits_only d)) \<and>
        (e = [] \<or> (\<exists>c t d. e = [c] @ t @ d \<and> c \<in> set ''eE'' \<and> t \<in> {'''', ''+'', ''-''} \<and> is_digits_only d)))"

lemma digits_hd: "is_digits_only d \<Longrightarrow> \<exists>c r. d = c # r \<and> is_digit c"
  by (cases d) (auto simp: is_digits_only_def)

lemma reads_fraction:
  assumes "is_digits_only d" and "\<not> is_digit c"
  shows "\<exists>m. reads g fraction_matcher (chars (''.'' @ d)) [c] m []"
proof -
  from reads_integer [OF assms] obtain m where m: "reads g integer_matcher (chars d) [c] m []" by blast
  have "reads g (character CHR ''.'') [''.''] (hd (chars d @ [[c]])) (MChar (Some ''.'') (Some True)) []" by (rule reads_character)
  from reads_and [OF all_read_Cons [OF this all_read_last [OF m]]] show ?thesis by (auto simp: fraction_matcher_def)
qed

lemma reads_sign:
  assumes "c \<in> set ''+-''"
  shows "\<exists>m. reads g sign_matcher [[c]] ch m []"
proof -
  from ends_characters [of c "''+-''" g] assms obtain m where "ends g (MOr (map character ''+-'') None None) [] [c] True True m []" by auto
  from reads_capture [OF reads_with [OF this]] show ?thesis by (auto simp: sign_matcher_def)
qed

lemma sign_absent:
  assumes "c \<notin> set ''+-''"
  shows "\<exists>m. ends g sign_matcher [] [c] False False m []"
proof -
  have "refuses g (MOr (map character ''+-'') None None) [c]" by (rule refuses_characters) (use assms in auto)
  from refuses_feed [OF refuses_capture [OF this]] show ?thesis by (simp add: sign_matcher_def)
qed

lemma reads_exponent:
  assumes "c \<in> set ''eE''" and "t \<in> {'''', ''+'', ''-''}" and "is_digits_only d" and "\<not> is_digit e"
  shows "\<exists>m. reads g exponent_matcher (chars ([c] @ t @ d)) [e] m []"
proof -
  from reads_integer [OF assms(3,4)] obtain m where m: "reads g integer_matcher (chars d) [e] m []" by blast
  from digits_hd [OF assms(3)] obtain k r where d: "d = k # r" "is_digit k" by blast
  have "\<exists>m. reads g (MOptional sign_matcher None) (chars t) [k] m []"
  proof (cases "t = []")
    case True
    have "k \<notin> set ''+-''" using d(2) by (auto simp: is_digit_def)
    from sign_absent [OF this] reads_absent True show ?thesis by fastforce
  next
    case False
    with assms(2) obtain x where "t = [x]" "x \<in> set ''+-''" by auto
    with reads_sign reads_optional show ?thesis by fastforce
  qed
  then obtain s where s: "reads g (MOptional sign_matcher None) (chars t) (hd (chars d @ [[e]])) s []" by (auto simp: d(1))
  from ends_characters [of c "''Ee''" g] assms(1) obtain l where
    "ends g (MOr [character CHR ''E'', character CHR ''e''] None None) [] [c] True True l []" by auto
  from reads_with [OF this] have l: "reads g (MOr [character CHR ''E'', character CHR ''e''] None None) [[c]] (hd ((chars t @ chars d) @ [[e]])) l []"
    by simp
  from reads_and [OF all_read_Cons [OF l all_read_Cons [OF s all_read_last [OF m]]]] show ?thesis by (auto simp: exponent_matcher_def)
qed

lemma fraction_absent:
  assumes "c \<noteq> CHR ''.''"
  shows "\<exists>m. ends g fraction_matcher [] [c] False False m []"
proof -
  have "refuses g (character CHR ''.'') [c]" by (rule refuses_character) (use assms in simp)
  from refuses_feed [OF this] parts_fail ends_and show ?thesis unfolding fraction_matcher_def by blast
qed

lemma exponent_absent:
  assumes "c \<notin> set ''eE''"
  shows "\<exists>m. ends g exponent_matcher [] [c] False False m []"
proof -
  have "refuses g (MOr (map character ''Ee'') None None) [c]" by (rule refuses_characters) (use assms in auto)
  then have "refuses g (MOr [character CHR ''E'', character CHR ''e''] None None) [c]" by simp
  from refuses_feed [OF this] parts_fail ends_and show ?thesis unfolding exponent_matcher_def by blast
qed

lemma optional_fraction:
  assumes "f = [] \<or> (\<exists>d. f = ''.'' @ d \<and> is_digits_only d)" and "\<not> is_digit c" and "c \<noteq> CHR ''.''"
  shows "\<exists>m. reads g (MOptional fraction_matcher None) (chars f) [c] m []"
proof (cases "f = []")
  case True
  with fraction_absent [OF assms(3)] reads_absent show ?thesis by fastforce
next
  case False
  with assms(1) obtain d where "f = ''.'' @ d" "is_digits_only d" by blast
  with reads_fraction [OF this(2) assms(2), of g] show ?thesis by (auto intro: reads_optional)
qed

lemma optional_exponent:
  assumes "e = [] \<or> (\<exists>c t d. e = [c] @ t @ d \<and> c \<in> set ''eE'' \<and> t \<in> {'''', ''+'', ''-''} \<and> is_digits_only d)"
    and "\<not> is_digit x" and "x \<notin> set ''eE''"
  shows "\<exists>m. reads g (MOptional exponent_matcher None) (chars e) [x] m []"
proof (cases "e = []")
  case True
  with exponent_absent [OF assms(3)] reads_absent show ?thesis by fastforce
next
  case False
  with assms(1) obtain c t d where "e = [c] @ t @ d" "c \<in> set ''eE''" "t \<in> {'''', ''+'', ''-''}" "is_digits_only d" by blast
  with reads_exponent [OF this(2-4) assms(2), of g] show ?thesis by (auto intro: reads_optional)
qed

lemma minus_not_digit: "\<not> is_digit CHR ''-''"
  by code_simp

lemma optional_minus:
  assumes "s \<in> {'''', ''-''}" and "is_digit c"
  shows "\<exists>m. reads g (MOptional (character CHR ''-'') None) (chars s) [c] m []"
proof (cases "s = []")
  case True
  have "refuses g (character CHR ''-'') [c]" by (rule refuses_character) (use assms(2) minus_not_digit in auto)
  from refuses_feed [OF this] reads_absent True show ?thesis by fastforce
next
  case False
  with assms(1) reads_optional [OF reads_character [of g "CHR ''-''" "[c]"]] show ?thesis by auto
qed

lemma hd_chars: "hd (chars s @ [[c]]) = [hd (s @ [c])]"
  by (cases s) simp_all

lemma reads_number:
  assumes "number_text x" and "stops ch"
  shows "\<exists>m. reads g number_matcher (chars x) ch m [] \<and> matched_value m = x"
proof -
  from stops_not [OF assms(2)] obtain z where z: "ch = [z]" "\<not> is_digit z" "z \<notin> set ''.eE+-''" by blast
  from assms(1) obtain s i f e where x: "x = s @ i @ f @ e" "s \<in> {'''', ''-''}" "is_digits_only i"
    and f: "f = [] \<or> (\<exists>d. f = ''.'' @ d \<and> is_digits_only d)"
    and e: "e = [] \<or> (\<exists>c t d. e = [c] @ t @ d \<and> c \<in> set ''eE'' \<and> t \<in> {'''', ''+'', ''-''} \<and> is_digits_only d)"
    unfolding number_text_def by blast
  have marks: "\<not> is_digit CHR ''e''" "\<not> is_digit CHR ''E''" "\<not> is_digit CHR ''.''" by code_simp+
  let ?a = "hd (e @ [z])" and ?b = "hd ((f @ e) @ [z])"
  have a: "\<not> is_digit ?a" "?a \<noteq> CHR ''.''" using e z marks by auto
  have b: "\<not> is_digit ?b" using f a(1) marks by auto
  from digits_hd [OF x(3)] obtain k r where i: "i = k # r" "is_digit k" by blast
  from optional_exponent [OF e z(2), of g] z(3) obtain me where
    me: "reads g (MOptional exponent_matcher None) (chars e) ch me []" by (auto simp: z(1))
  from optional_fraction [OF f a] obtain mf where
    mf: "reads g (MOptional fraction_matcher None) (chars f) (hd (chars e @ [ch])) mf []" by (auto simp: z(1) hd_chars)
  from reads_integer [OF x(3) b] obtain mi where
    mi: "reads g integer_matcher (chars i) (hd ((chars f @ chars e) @ [ch])) mi []"
    using hd_chars [of "f @ e" z] by (auto simp: z(1))
  from optional_minus [OF x(2) i(2)] obtain ms where
    ms: "reads g (MOptional (character CHR ''-'') None) (chars s) (hd ((chars i @ chars f @ chars e) @ [ch])) ms []" by (auto simp: i(1))
  from reads_and [OF all_read_Cons [OF ms all_read_Cons [OF mi all_read_Cons [OF mf all_read_last [OF me]]]]] obtain j where
    "reads g (MAnd [MOptional (character CHR ''-'') None, integer_matcher, MOptional fraction_matcher None, MOptional exponent_matcher None] 0 None)
      (chars x) ch (MAnd [ms, mi, mf, me] j (Some True)) []" by (auto simp: x(1))
  from reads_match [OF reads_capture [OF this]] show ?thesis by (fastforce simp: number_matcher_def)
qed

lemma refuses_number:
  assumes "\<not> is_digit c" and "c \<noteq> CHR ''-''"
  shows "refuses g number_matcher [c]"
proof -
  have "refuses g (character CHR ''-'') [c]" by (rule refuses_character) (use assms(2) in simp)
  from refuses_feed [OF this] reads_absent obtain a where
    a: "reads g (MOptional (character CHR ''-'') None) [] (hd ([] @ [[c]])) a []" by fastforce
  from integer_absent [OF assms(1)] obtain b where b: "ends g integer_matcher [] [c] False False b []" by blast
  from ends_and [OF parts_reads [OF a _ parts_fail [OF b]]]
  have "refuses g (MAnd [MOptional (character CHR ''-'') None, integer_matcher, MOptional fraction_matcher None,
       MOptional exponent_matcher None] 0 None) [c]" by (fastforce simp: refuses_def)
  then show ?thesis unfolding number_matcher_def by (intro refuses_match refuses_capture)
qed

end
