(* ===== verification/JSON_Chars.thy ===== *)
theory JSON_Chars
  imports JSON_Tokens
begin

text \<open>
  The characters of a JSON string: each character that \<open>escape\<close> writes is read back by \<open>StringCharacter\<close>.
\<close>

section \<open>Plain characters\<close>

definition excluded :: bstring where
  "excluded = [CHR 0x5C, CHR 0x22, CHR 0x0D, CHR 0x0A, CHR 0x08, CHR 0x0C]"

lemma plain_excluded: "plain_character = MCapture (MNot (MOr (map character excluded) None None) None) [] [] None"
  by (simp add: plain_character_def excluded_def)

lemma ends_plain:
  assumes "u \<notin> set (chars excluded)"
  shows "\<exists>m. ends g plain_character [] u True True m [] \<and> matched_value m = u"
proof -
  have "refuses g (MOr (map character excluded) None None) u" by (rule refuses_characters) (use assms in auto)
  with refuses_step obtain m where m: "step g (MOr (map character excluded) None None) u False m []" "result m = Some False" by blast
  from step_not [OF m(1)] have "step g (MNot (MOr (map character excluded) None None) None) u True (MNot m (Some True)) []" by simp
  from ends_one [OF _ this, of True] have "ends g (MNot (MOr (map character excluded) None None) None) [] u True True (MNot m (Some True)) []"
    by simp
  from ends_capture [OF this, of "[]"] show ?thesis unfolding plain_excluded by fastforce
qed

lemma refuses_plain:
  assumes "c \<in> set excluded"
  shows "refuses g plain_character [c]"
proof -
  from ends_characters [OF assms] obtain m where "ends g (MOr (map character excluded) None None) [] [c] True True m []" by blast
  then have s: "step g (MOr (map character excluded) None None) [c] True m []" "result m = Some True"
    using feed_prompt [of g "MOr (map character excluded) None None" "[c]" True m "[]"] by (auto elim: ends_NilE)
  from step_not [OF s(1)] s(2) have "step g (MNot (MOr (map character excluded) None None) None) [c] False (MNot m (Some False)) []" by simp
  then have "refuses g (MNot (MOr (map character excluded) None None) None) [c]" by (rule refusesI) simp_all
  then show ?thesis unfolding plain_excluded by (rule refuses_capture)
qed

section \<open>Escaped characters\<close>

definition hex_pair :: "json_call matcher list" where
  "hex_pair =
     [MAnd [plain_character, MNot hex_matcher None] 0 None, MAnd [character CHR ''u'', MInvoke hex_matcher On_Hex None] 0 None]"

lemma escaped_parts:
  "escaped_character = MMatch (MAnd [character CHR 0x5C, MOr (map (\<lambda>(c, out). character c) escapes @ hex_pair) None None] 0 None) None"
  by (simp add: escaped_character_def hex_pair_def)

text \<open>A backslash and a character that stands for another.\<close>

lemma ends_escape:
  assumes "i < length escapes"
  shows "\<exists>m. ends g escaped_character [[CHR 0x5C]] [fst (escapes ! i)] True True m [] \<and> escaped_value m = [snd (escapes ! i)]"
proof -
  let ?es = "map (\<lambda>(c, out). character c) escapes :: json_call matcher list" and ?c = "fst (escapes ! i)"
  have d: "distinct (map fst escapes)" by (simp add: escapes_def)
  have split: "?es @ hex_pair = take i ?es @ character ?c # (drop (i + 1) ?es @ hex_pair)"
    using id_take_nth_drop [of i ?es] assms by (simp add: case_prod_beta)
  have "refuses g x (hd ([] @ [[?c]]))" if x: "x \<in> set (take i ?es)" for x
  proof -
    from x obtain j where j: "j < i" "x = ?es ! j" unfolding in_set_conv_nth by auto
    then have "fst (escapes ! j) \<noteq> ?c" using nth_eq_iff_index_eq [OF d, of j i] assms by simp
    then show ?thesis using j assms by (simp add: case_prod_beta refuses_character)
  qed
  with ends_or [where pre = "take i ?es" and post = "drop (i + 1) ?es @ hex_pair", OF ends_character [of g ?c]] obtain pre post where
    o: "ends g (MOr (?es @ hex_pair) None None) [] [?c] True True (MOr (pre @ MChar (Some [?c]) (Some True) # post) (Some (length (take i ?es))) (Some True)) []"
    unfolding split by auto
  have r: "reads g (character CHR 0x5C) [[CHR 0x5C]] (hd ([] @ [[?c]])) (MChar (Some [CHR 0x5C]) (Some True)) []" by (rule reads_character)
  from ends_and [OF parts_reads [OF r _ parts_last [OF o]]] obtain k where
    "ends g (MAnd [character CHR 0x5C, MOr (?es @ hex_pair) None None] 0 None) [[CHR 0x5C]] [?c] True True
      (MAnd [MChar (Some [CHR 0x5C]) (Some True), MOr (pre @ MChar (Some [?c]) (Some True) # post) (Some (length (take i ?es))) (Some True)]
        k (Some True)) []" by auto
  from ends_match [OF this] assms show ?thesis unfolding escaped_parts by (fastforce simp: escaped_value_def)
qed

lemma refuses_escaped: "u \<noteq> [CHR 0x5C] \<Longrightarrow> refuses g escaped_character u"
  unfolding escaped_parts
  using refuses_feed [OF refuses_character, of u "CHR 0x5C" g] parts_fail ends_and by (intro refuses_match) (fastforce simp: refuses_def)

end
