(* ===== verification/JSON_Escaped.thy ===== *)
theory JSON_Escaped
  imports JSON_Chars
begin

text \<open>
  Hexadecimal escapes, and every character of a JSON string.
\<close>

section \<open>Hexadecimal digits\<close>

definition is_hex :: "char \<Rightarrow> bool" where
  "is_hex c \<longleftrightarrow> is_digit c \<or> (CHR ''a'' \<le> c \<and> c \<le> CHR ''f'')"

lemma ends_range: "lo \<le> [c] \<Longrightarrow> [c] \<le> hi \<Longrightarrow> ends g (MRange lo hi None) [] [c] True True (MRange lo hi (Some True)) []"
  using step_range [of g lo hi "[c]"] by (intro ends_one) auto

lemma refuses_range: "\<not> (lo \<le> u \<and> u \<le> hi) \<Longrightarrow> refuses g (MRange lo hi None) u"
  using step_range [of g lo hi u] by (intro refusesI) auto

lemma ends_hex_character:
  assumes "is_hex c"
  shows "\<exists>m. step g hex_character [c] True m [] \<and> result m = Some True"
proof -
  let ?ms = "[MRange ''0'' ''9'' None, MRange ''a'' ''f'' None, MRange ''A'' ''F'' None] :: json_call matcher list"
  have "\<exists>m. ends g (MOr ?ms None None) [] [c] True True m []"
  proof (cases "is_digit c")
    case True
    with in_digits [of c] have e: "ends g (MRange ''0'' ''9'' None) [] [c] True True (MRange ''0'' ''9'' (Some True)) []" by (intro ends_range) auto
    from ends_or [where pre = "[]" and post = "tl ?ms", OF e] show ?thesis by fastforce
  next
    case False
    with assms have "CHR ''a'' \<le> c" "c \<le> CHR ''f''" by (auto simp: is_hex_def)
    then have e: "ends g (MRange ''a'' ''f'' None) [] [c] True True (MRange ''a'' ''f'' (Some True)) []" by (intro ends_range) auto
    have "refuses g (MRange ''0'' ''9'' None) [c]" using False in_digits [of c] by (intro refuses_range) simp
    with ends_or [where pre = "[MRange ''0'' ''9'' None]" and post = "[MRange ''A'' ''F'' None]", OF e] show ?thesis by fastforce
  qed
  then obtain m where "ends g hex_character [] [c] True True m []" unfolding hex_character_def by blast
  then show ?thesis using feed_prompt [of g hex_character "[c]" True m "[]"] by (auto simp: hex_character_def elim: ends_NilE)
qed

definition hex_state :: "nat \<Rightarrow> bstring \<Rightarrow> json_call matcher" where
  "hex_state k v = MMatch (MCapture (MRepeat hex_character 2 4 k (if k = 0 then None else Some hex_character) None) v [] None) None"

lemma hex_state_0: "hex_matcher = hex_state 0 []"
  by (simp add: hex_matcher_def hex_state_def)

lemma result_hex_state [simp]: "result (hex_state k v) = None"
  by (simp add: hex_state_def hex_character_def)

lemma step_repeat_max:
  assumes "step g (case item of None \<Rightarrow> new | Some m \<Rightarrow> m) ch ok m c" and "result m = Some True"
  shows "step g (MRepeat new lo hi k item None) ch ok (MRepeat new lo hi (k + 1) (Some new)
    (if 0 < hi \<and> k + 1 = hi then Some True else if 0 < hi \<and> hi < k + 1 then Some False else None)) c"
proof -
  obtain n where n: "match_char g n (case item of None \<Rightarrow> new | Some m \<Rightarrow> m) ch = Some (ok, m, c)" using assms(1) by (auto simp: step_def)
  show ?thesis by (rule stepI [of _ n]) (simp add: match_with_def repeat_match_def n assms(2))
qed

lemma step_hex_repeat:
  assumes "is_hex c"
  shows "step g (MRepeat hex_character 2 4 k (if k = 0 then None else Some hex_character) None) [c] True
    (MRepeat hex_character 2 4 (k + 1) (Some hex_character) (if k + 1 = 4 then Some True else if 4 < k + 1 then Some False else None)) []"
proof -
  from ends_hex_character [OF assms] obtain m where m: "step g hex_character [c] True m []" "result m = Some True" by blast
  have "step g (case (if k = 0 then None else Some hex_character) of None \<Rightarrow> hex_character | Some m \<Rightarrow> m) [c] True m []" using m(1) by simp
  from step_repeat_max [OF this m(2), of 2 4 k] show ?thesis by (simp only: zero_less_numeral simp_thms)
qed

lemma step_hex:
  assumes "is_hex c" and "k < 3"
  shows "step g (hex_state k v) [c] True (hex_state (k + 1) (v @ [c])) []"
proof -
  have r: "result (MRepeat hex_character 2 4 k (if k = 0 then None else Some hex_character) None) = None" by (simp add: hex_character_def)
  from step_match [OF step_capture [OF step_hex_repeat [OF assms(1), of g k] r, of v "[]"]] assms(2) show ?thesis
    by (simp add: hex_state_def hex_character_def)
qed

lemma step_hex_last:
  assumes "is_hex c"
  shows "\<exists>m. step g (hex_state 3 v) [c] True m [] \<and> result m = Some True \<and> matched_value m = v @ [c]"
proof -
  have r: "result (MRepeat hex_character 2 4 3 (Some hex_character) None) = None" by (simp add: hex_character_def)
  have s: "step g (MRepeat hex_character 2 4 3 (Some hex_character) None) [c] True (MRepeat hex_character 2 4 4 (Some hex_character) (Some True)) []"
    using step_hex_repeat [OF assms, of g 3] by simp
  have r': "result (MCapture (MRepeat hex_character 2 4 3 (Some hex_character) None) v [] None) = None" using r by simp
  from step_match [OF step_capture [OF s r, of v "[]"] r'] show ?thesis by (fastforce simp: hex_state_def)
qed

section \<open>The two parts that read a hexadecimal escape\<close>

definition not_hex_state :: "json_call matcher \<Rightarrow> nat \<Rightarrow> bstring \<Rightarrow> json_call matcher" where
  "not_hex_state p k v = MAnd [p, MNot (hex_state k v) None] 1 None"

definition hex_call_state :: "json_call matcher \<Rightarrow> nat \<Rightarrow> bstring \<Rightarrow> json_call matcher" where
  "hex_call_state p k v = MAnd [p, MInvoke (hex_state k v) On_Hex None] 1 None"

lemma result_hex_parts [simp]: "result (not_hex_state p k v) = None" "result (hex_call_state p k v) = None"
  by (simp_all add: not_hex_state_def hex_call_state_def)

lemma step_hex_parts:
  assumes "is_hex c" and "k < 3"
  shows "step g (not_hex_state p k v) [c] True (not_hex_state p (k + 1) (v @ [c])) []"
    and "step g (hex_call_state p k v) [c] True (hex_call_state p (k + 1) (v @ [c])) []"
proof -
  note s = step_hex [OF assms, of g v]
  have "step g ([p, MNot (hex_state k v) None] ! 1) [c] True (MNot (hex_state (k + 1) (v @ [c])) None) []" using step_not [OF s] by simp
  from step_and(2) [OF this] show "step g (not_hex_state p k v) [c] True (not_hex_state p (k + 1) (v @ [c])) []"
    by (simp add: not_hex_state_def)
  have "step g ([p, MInvoke (hex_state k v) On_Hex None] ! 1) [c] True (MInvoke (hex_state (k + 1) (v @ [c])) On_Hex None) []"
    using step_invoke [OF s, of On_Hex] by simp
  from step_and(2) [OF this] show "step g (hex_call_state p k v) [c] True (hex_call_state p (k + 1) (v @ [c])) []"
    by (simp add: hex_call_state_def)
qed

lemma step_hex_parts_last:
  assumes "is_hex c"
  shows "\<exists>m. step g (not_hex_state p 3 v) [c] False m [] \<and> result m = Some False"
    and "\<exists>q m. step g (hex_call_state p 3 v) [c] True (MAnd [p, m] 2 (Some True)) [(On_Hex, q)] \<and> matched_value m = v @ [c]"
proof -
  from step_hex_last [OF assms] obtain m where m: "step g (hex_state 3 v) [c] True m []" "result m = Some True" "matched_value m = v @ [c]" by blast
  have "step g ([p, MNot (hex_state 3 v) None] ! 1) [c] False (MNot m (Some False)) []" using step_not [OF m(1)] m(2) by simp
  from step_and(1) [OF this] show "\<exists>m. step g (not_hex_state p 3 v) [c] False m [] \<and> result m = Some False"
    by (fastforce simp: not_hex_state_def)
  have "step g ([p, MInvoke (hex_state 3 v) On_Hex None] ! 1) [c] True (MInvoke m On_Hex (Some True)) [(On_Hex, m)]"
    using step_invoke [OF m(1), of On_Hex] m(2) by simp
  from step_and(3) [OF this] m(3)
  have "step g (hex_call_state p 3 v) [c] True (MAnd [p, MInvoke m On_Hex (Some True)] 2 (Some True)) [(On_Hex, m)]"
    "matched_value (MInvoke m On_Hex (Some True)) = v @ [c]" by (simp_all add: hex_call_state_def numeral_2_eq_2)
  then show "\<exists>q m. step g (hex_call_state p 3 v) [c] True (MAnd [p, m] 2 (Some True)) [(On_Hex, q)] \<and> matched_value m = v @ [c]" by blast
qed

lemma step_hex_start:
  "\<exists>p. step g (MAnd [plain_character, MNot hex_matcher None] 0 None) ''u'' True (not_hex_state p 0 []) []"
  "step g (MAnd [character CHR ''u'', MInvoke hex_matcher On_Hex None] 0 None) ''u'' True
     (hex_call_state (MChar (Some ''u'') (Some True)) 0 []) []"
proof -
  from ends_plain [of "''u''" g] obtain p where p: "ends g plain_character [] ''u'' True True p []" by (auto simp: excluded_def)
  have "prompt plain_character" by (simp add: plain_character_def)
  with p have "step g ([plain_character, MNot hex_matcher None] ! 0) ''u'' True p []" "result p = Some True"
    using feed_prompt [of g plain_character "''u''" True p "[]"] by (auto elim: ends_NilE)
  from step_and(4) [OF this(1) _ this(2)] show "\<exists>p. step g (MAnd [plain_character, MNot hex_matcher None] 0 None) ''u'' True (not_hex_state p 0 []) []"
    by (auto simp: not_hex_state_def hex_state_0)
  have "step g ([character CHR ''u'', MInvoke hex_matcher On_Hex None] ! 0) ''u'' True (MChar (Some ''u'') (Some True)) []"
    using step_char [of g "Some ''u''" "''u''"] by (simp add: character_def)
  from step_and(4) [OF this] show "step g (MAnd [character CHR ''u'', MInvoke hex_matcher On_Hex None] 0 None) ''u'' True
     (hex_call_state (MChar (Some ''u'') (Some True)) 0 []) []" by (simp add: hex_call_state_def hex_state_0)
qed

section \<open>A hexadecimal escape\<close>

lemma or_step_behind:
  "failed pre \<Longrightarrow> or_step g ms ch ok ms' item c \<Longrightarrow>
     or_step g (pre @ ms) ch ok (pre @ ms') (map_option (\<lambda>i. length pre + i) item) c"
proof (induction pre)
  case (Cons x pre)
  then have "or_step g (pre @ ms) ch ok (pre @ ms') (map_option (\<lambda>i. length pre + i) item) c" by simp
  from or_step_failed [OF _ this, of x] Cons.prems show ?case by (simp add: option.map_comp comp_def)
qed (cases item, simp_all)

lemma or_step_refused:
  "\<forall>x \<in> set pre. refuses g x ch \<Longrightarrow> or_step g ms ch ok ms' item c \<Longrightarrow>
     \<exists>pre'. or_step g (pre @ ms) ch ok (pre' @ ms') (map_option (\<lambda>i. length pre + i) item) c \<and> length pre' = length pre \<and> failed pre'"
proof (induction pre)
  case (Cons x pre)
  then obtain pre' where p: "or_step g (pre @ ms) ch ok (pre' @ ms') (map_option (\<lambda>i. length pre + i) item) c"
    "length pre' = length pre" "failed pre'" by auto
  from Cons obtain x' where x: "result x = None" "step g x ch False x' []" "result x' = Some False" using refuses_step by force
  from or_step_next [OF x(2,1) _ p(1)] x(3)
  have "or_step g ((x # pre) @ ms) ch ok ((x' # pre') @ ms') (map_option (\<lambda>i. length (x # pre) + i) item) c"
    by (simp add: option.map_comp comp_def)
  with p(2,3) x(3) show ?case by (intro exI [of _ "x' # pre'"]) simp
qed (cases item, simp_all)

definition hex_choice :: "json_call matcher list \<Rightarrow> json_call matcher \<Rightarrow> nat \<Rightarrow> bstring \<Rightarrow> json_call matcher" where
  "hex_choice pre p k v = MOr (pre @ [not_hex_state p k v, hex_call_state (MChar (Some ''u'') (Some True)) k v]) None None"

lemma result_hex_choice [simp]: "result (hex_choice pre p k v) = None"
  by (simp add: hex_choice_def)

lemma step_hex_choice:
  assumes "failed pre" and "is_hex c" and "k < 3"
  shows "step g (hex_choice pre p k v) [c] True (hex_choice pre p (k + 1) (v @ [c])) []"
proof -
  note s = step_hex_parts [OF assms(2,3), of g _ v]
  from or_step_next [OF s(2) _ _ or_step_Nil]
  have "or_step g [hex_call_state (MChar (Some ''u'') (Some True)) k v] [c] True [hex_call_state (MChar (Some ''u'') (Some True)) (k + 1) (v @ [c])] None []"
    by fastforce
  from or_step_behind [OF assms(1) or_step_next [OF s(1) _ _ this]]
  show ?thesis using step_or by (fastforce simp: hex_choice_def)
qed

lemma step_hex_choice_last:
  assumes "failed pre" and "is_hex c"
  shows "\<exists>ms m q. step g (hex_choice pre p 3 v) [c] True (MOr (pre @ [ms, MAnd [MChar (Some ''u'') (Some True), m] 2 (Some True)]) (Some (length pre + 1)) (Some True))
    [(On_Hex, q)] \<and> matched_value m = v @ [c]"
proof -
  from step_hex_parts_last [OF assms(2), of g] obtain ms q m where
    m: "step g (not_hex_state p 3 v) [c] False ms []" "result ms = Some False"
      "step g (hex_call_state (MChar (Some ''u'') (Some True)) 3 v) [c] True (MAnd [MChar (Some ''u'') (Some True), m] 2 (Some True)) [(On_Hex, q)]"
      "matched_value m = v @ [c]" by meson
  from or_step_found [OF m(3)] have "or_step g [hex_call_state (MChar (Some ''u'') (Some True)) 3 v] [c] True
      [MAnd [MChar (Some ''u'') (Some True), m] 2 (Some True)] (Some 0) [(On_Hex, q)]" by simp
  from or_step_next [OF m(1) _ _ this] m(2) have "or_step g [not_hex_state p 3 v, hex_call_state (MChar (Some ''u'') (Some True)) 3 v] [c] True
      [ms, MAnd [MChar (Some ''u'') (Some True), m] 2 (Some True)] (Some 1) [(On_Hex, q)]" by simp
  from step_or [OF or_step_behind [OF assms(1) this]] m(4) show ?thesis by (fastforce simp: hex_choice_def)
qed

lemma step_hex_choice_start:
  "\<exists>pre p. step g (MOr (map (\<lambda>(c, out). character c) escapes @ hex_pair) None None) ''u'' True (hex_choice pre p 0 []) [] \<and>
     length pre = length escapes \<and> failed pre"
proof -
  let ?A = "MAnd [plain_character, MNot hex_matcher None] 0 None" and ?B = "MAnd [character CHR ''u'', MInvoke hex_matcher On_Hex None] 0 None"
  from step_hex_start(1) obtain p where p: "step g ?A ''u'' True (not_hex_state p 0 []) []" by blast
  have r: "result ?A = None" "result ?B = None" by simp_all
  from or_step_next [OF step_hex_start(2) r(2) _ or_step_Nil]
  have "or_step g [?B] ''u'' True [hex_call_state (MChar (Some ''u'') (Some True)) 0 []] None []" by fastforce
  from or_step_next [OF p r(1) _ this]
  have two: "or_step g hex_pair ''u'' True [not_hex_state p 0 [], hex_call_state (MChar (Some ''u'') (Some True)) 0 []] None []"
    by (simp add: hex_pair_def)
  have "\<forall>x \<in> set (map (\<lambda>(c, out). character c) escapes). refuses g x ''u''"
    by (simp add: escapes_def refuses_character)
  from or_step_refused [OF this two] show ?thesis using step_or by (fastforce simp: hex_choice_def)
qed

lemma ends_hex_escape:
  assumes "is_hex a" and "is_hex b" and "is_hex c" and "is_hex d"
  shows "\<exists>m q. ends g escaped_character [[CHR 0x5C], ''u'', [a], [b], [c]] [d] True True m [(On_Hex, q)] \<and>
    escaped_value m = hex_character_value [a, b, c, d]"
proof -
  let ?E = "MOr (map (\<lambda>(c, out). character c) escapes @ hex_pair) None None"
  from step_hex_choice_start obtain pre p where
    s: "step g ?E ''u'' True (hex_choice pre p 0 []) []" "length pre = length escapes" "failed pre" by blast
  note h = step_hex_choice [OF s(3)]
  have h1: "step g (hex_choice pre p 0 []) [a] True (hex_choice pre p 1 [a]) []"
    and h2: "step g (hex_choice pre p 1 [a]) [b] True (hex_choice pre p 2 [a, b]) []"
    and h3: "step g (hex_choice pre p 2 [a, b]) [c] True (hex_choice pre p 3 [a, b, c]) []"
    using h [OF assms(1), of 0 g p "[]"] h [OF assms(2), of 1 g p "[a]"] h [OF assms(3), of 2 g p "[a, b]"]
    by (simp_all add: numeral_2_eq_2 numeral_3_eq_3)
  from step_hex_choice_last [OF s(3) assms(4), of g p "[a, b, c]"] obtain ms m q where
    l: "step g (hex_choice pre p 3 [a, b, c]) [d] True
        (MOr (pre @ [ms, MAnd [MChar (Some ''u'') (Some True), m] 2 (Some True)]) (Some (length pre + 1)) (Some True)) [(On_Hex, q)]"
      "matched_value m = [a, b, c, d]" by auto
  let ?M = "MOr (pre @ [ms, MAnd [MChar (Some ''u'') (Some True), m] 2 (Some True)]) (Some (length pre + 1)) (Some True)"
  have "ends g (hex_choice pre p 3 [a, b, c]) [] [d] True True ?M [(On_Hex, q)]" using l(1) by (intro ends_one) simp_all
  from ends_Cons [OF _ s(1) ends_Cons [OF _ h1 ends_Cons [OF _ h2 ends_Cons [OF _ h3 this]]]]
  have o: "ends g ?E [''u'', [a], [b], [c]] [d] True True ?M [(On_Hex, q)]" by simp
  have r: "reads g (character CHR 0x5C) [[CHR 0x5C]] (hd ([''u'', [a], [b], [c]] @ [[d]])) (MChar (Some [CHR 0x5C]) (Some True)) []"
    by (rule reads_character)
  from ends_and [OF parts_reads [OF r _ parts_last [OF o]]] obtain k where
    "ends g (MAnd [character CHR 0x5C, ?E] 0 None) [[CHR 0x5C], ''u'', [a], [b], [c]] [d] True True
      (MAnd [MChar (Some [CHR 0x5C]) (Some True), ?M] k (Some True)) [(On_Hex, q)]" by auto
  from ends_match [OF this] s(2) l(2) show ?thesis unfolding escaped_parts by (fastforce simp: escaped_value_def nth_append)
qed

section \<open>Characters of a string\<close>

text \<open>The characters that \<open>escape\<close> writes for one.\<close>

definition written_chars :: "bstring \<Rightarrow> bstring list" where
  "written_chars u = (if escape_char u = u then [u] else chars (escape_char u))"

lemma concat_written_chars [simp]: "concat (written_chars u) = escape_char u"
  by (simp add: written_chars_def)

text \<open>A call that says nothing.\<close>

definition silent :: "json_call call list \<Rightarrow> bool" where
  "silent c \<longleftrightarrow> (\<forall>call \<in> set c. fst call \<in> {On_Hex, On_Seperator, On_Key_Value, Item_Number} \<union> range Item_Type)"

lemma silent_simps [simp]: "silent []" "silent ((name, m) # c) \<longleftrightarrow> name \<in> {On_Hex, On_Seperator, On_Key_Value, Item_Number} \<union> range Item_Type \<and> silent c"
  "silent (c @ d) \<longleftrightarrow> silent c \<and> silent d"
  by (auto simp: silent_def)

lemma plain_string_character:
  assumes "u \<notin> set (chars excluded)"
  shows "\<exists>m. ends g string_character [] u True True m [] \<and> string_character_value m = u"
proof -
  from ends_plain [OF assms] obtain p where p: "ends g plain_character [] u True True p []" "matched_value p = u" by blast
  have "prompt plain_character" by (simp add: plain_character_def)
  from ends_or [where pre = "[]" and post = "[escaped_character]", OF p(1) this] obtain e where
    "ends g (MOr [plain_character, escaped_character] None None) [] u True True (MOr [p, e] (Some 0) (Some True)) []"
    by (auto simp: length_Suc_conv)
  from ends_match [OF this] p(2) show ?thesis by (fastforce simp: string_character_def string_character_value_def)
qed

lemma escaped_string_character:
  assumes "ends g escaped_character ([CHR 0x5C] # cs) ch True True m c"
  shows "\<exists>k. ends g string_character ([CHR 0x5C] # cs) ch True True k c \<and> string_character_value k = escaped_value m"
proof -
  have "refuses g plain_character [CHR 0x5C]" by (rule refuses_plain) (simp add: excluded_def)
  moreover have "prompt escaped_character" by (simp add: escaped_character_def)
  ultimately obtain p where
    "ends g (MOr [plain_character, escaped_character] None None) ([CHR 0x5C] # cs) ch True True (MOr [p, m] (Some 1) (Some True)) c"
    using ends_or [where pre = "[plain_character]" and post = "[]", OF assms] by (auto simp: length_Suc_conv)
  from ends_match [OF this] show ?thesis by (fastforce simp: string_character_def string_character_value_def)
qed

lemma escape_index:
  assumes "(c, u) \<in> set escapes"
  shows "\<exists>m. ends g string_character [[CHR 0x5C]] [c] True True m [] \<and> string_character_value m = [u]"
proof -
  from assms obtain i where i: "i < length escapes" "escapes ! i = (c, u)" by (auto simp: in_set_conv_nth)
  with ends_escape [OF i(1), of g] obtain m where "ends g escaped_character [[CHR 0x5C]] [c] True True m []" "escaped_value m = [u]" by auto
  with escaped_string_character [of g "[]"] show ?thesis by fastforce
qed

lemma is_hex_digit: "d < 16 \<Longrightarrow> is_hex (hex_digits ! d)"
proof -
  have "\<forall>c \<in> set hex_digits. is_hex c" by code_simp
  moreover assume "d < 16"
  then have "hex_digits ! d \<in> set hex_digits" by (intro nth_mem) (simp add: hex_digits_def)
  ultimately show ?thesis by blast
qed

lemma hex_escape_value:
  "hex_character_value (''00'' @ to_hex [c]) = [c]"
proof -
  let ?n = "of_char c :: nat"
  have d: "hex_value (hex_digits ! (?n div 16)) = Some (?n div 16)" "hex_value (hex_digits ! (?n mod 16)) = Some (?n mod 16)"
    using of_char_less [of c] by (simp_all add: digit_table less_mult_imp_div_less)
  have "hex_number 0 [hex_digits ! (?n div 16), hex_digits ! (?n mod 16)] = ?n" by (simp add: d mult.commute)
  then show ?thesis by (simp add: hex_character_value_def to_hex_def numeral_2_eq_2)
qed

lemma escape_char_cases:
  assumes "u \<noteq> []" and "escape_char u \<noteq> u"
  shows "(\<exists>c d. (c, d) \<in> set escapes \<and> u = [d] \<and> escape_char u = [CHR 0x5C, c]) \<or>
    (\<exists>c. u = [c] \<and> escape_char u = [CHR 0x5C, CHR ''u'', CHR ''0'', CHR ''0''] @ to_hex u)"
proof (cases "u \<in> set (chars [CHR 0x22, CHR 0x5C, CHR 0x08, CHR 0x0C, CHR 0x0D, CHR 0x0A, CHR 0x09, CHR 0x0B])")
  case True
  then have "\<exists>c d. (c, d) \<in> set escapes \<and> u = [d] \<and> escape_char u = [CHR 0x5C, c]"
    by (simp add: escapes_def) (elim disjE; simp add: escape_char_def)
  then show ?thesis by blast
next
  case False
  then have "escape_char u = (if length u = 1 \<and> (of_char (u ! 0) :: nat) < 128 then u
      else if length u = 1 then [CHR 0x5C, CHR ''u'', CHR ''0'', CHR ''0''] @ to_hex u else u)"
    using assms(1) by (simp add: escape_char_def)
  with assms(2) have "length u = 1" "escape_char u = [CHR 0x5C, CHR ''u'', CHR ''0'', CHR ''0''] @ to_hex u" by (simp_all split: if_splits)
  then show ?thesis by (cases u) simp_all
qed

lemma string_character_reads:
  assumes "utf8_char u"
  shows "\<exists>m c. ends g string_character (butlast (written_chars u)) (last (written_chars u)) True True m c \<and>
    string_character_value m = u \<and> silent c"
proof (cases "escape_char u = u")
  case True
  then have e: "written_chars u = [u]" by (simp add: written_chars_def)
  have "u \<notin> set (chars excluded)"
  proof
    assume "u \<in> set (chars excluded)"
    then have "escape_char u \<noteq> u" by (auto simp: excluded_def escape_char_def)
    with True show False by blast
  qed
  from plain_string_character [OF this] e show ?thesis by fastforce
next
  case False
  then have e: "written_chars u = chars (escape_char u)" by (simp add: written_chars_def)
  have ne: "u \<noteq> []" using assms by (simp add: utf8_char_def)
  show ?thesis
  proof (cases "\<exists>c d. (c, d) \<in> set escapes \<and> u = [d] \<and> escape_char u = [CHR 0x5C, c]")
    case True
    then obtain c d where c: "(c, d) \<in> set escapes" "u = [d]" "escape_char u = [CHR 0x5C, c]" by blast
    with escape_index [OF c(1), of g] e show ?thesis by fastforce
  next
    case other: False
    from escape_char_cases [OF ne False] other obtain c where
      c: "u = [c]" and u: "escape_char u = [CHR 0x5C, CHR ''u'', CHR ''0'', CHR ''0''] @ to_hex u" by blast
    let ?a = "hex_digits ! (of_char c div 16)" and ?b = "hex_digits ! (of_char c mod 16)"
    have "is_hex CHR ''0''" by code_simp
    then have h: "is_hex CHR ''0''" "is_hex ?a" "is_hex ?b"
      using of_char_less [of c] by (simp_all add: is_hex_digit less_mult_imp_div_less)
    from ends_hex_escape [OF h(1,1,2,3), of g] obtain m q where
      m: "ends g escaped_character [[CHR 0x5C], ''u'', ''0'', ''0'', [?a]] [?b] True True m [(On_Hex, q)]"
        "escaped_value m = hex_character_value (''00'' @ to_hex [c])" by (auto simp: to_hex_def)
    from escaped_string_character [OF m(1)] m(2) hex_escape_value [of c] e u c show ?thesis by (fastforce simp: to_hex_def)
  qed
qed

end
