(* ===== verification/JSON_Pages.thy ===== *)
theory JSON_Pages
  imports JSON_Escaped
begin

text \<open>
  The strings of a JSON text: what is read between the quotes, and the pages in which the stream passes it on.
\<close>

section \<open>Events of calls\<close>

lemma json_events_append:
  "json_events page (c @ d) st =
     (let (st, es) = json_events page c st; (st, more) = json_events page d st in (st, es @ more))"
  by (induction c arbitrary: st) (auto simp: Let_def split: prod.splits)

lemma json_events_silent: "silent c \<Longrightarrow> json_events page c st = (st, [])"
proof (induction c)
  case (Cons call c)
  obtain name m where call: "call = (name, m)" by (cases call)
  with Cons have "name \<in> {On_Hex, On_Seperator, On_Key_Value, Item_Number} \<union> range Item_Type" "json_events page c st = (st, [])" by simp_all
  then show ?case by (auto simp: call json_event_def string_call_def)
qed simp

text \<open>The state of the stream does not depend on the other calls.\<close>

lemma string_calls_events: "string_calls page c st = fst (json_events page c st)"
proof (induction c arbitrary: st)
  case (Cons call c)
  have "fst (json_event page call st) = fst (string_call page call st)"
    by (cases call) (simp add: json_event_def Let_def split: prod.splits)
  with Cons show ?case by (simp add: Let_def split: prod.splits) (metis fst_conv)
qed simp

section \<open>Pages\<close>

text \<open>The calls that spell characters.\<close>

inductive spells :: "bstring list \<Rightarrow> json_call call list \<Rightarrow> bool" where
  spells_Nil: "spells [] []"
| spells_Cons: "silent c \<Longrightarrow> string_character_value m = u \<Longrightarrow> spells us d \<Longrightarrow> spells (u # us) (c @ (On_Character, m) # d)"

lemma spells_append: "spells (us @ vs) c \<Longrightarrow> \<exists>d e. c = d @ e \<and> spells us d \<and> spells vs e"
proof (induction us arbitrary: c)
  case Nil
  then show ?case using spells_Nil by (intro exI [of _ "[]"] exI [of _ c]) simp
next
  case (Cons u us)
  from Cons.prems obtain s m d where c: "c = s @ (On_Character, m) # d" "silent s" "string_character_value m = u" "spells (us @ vs) d"
    by (auto elim: spells.cases)
  from Cons.IH [OF c(4)] obtain x y where "d = x @ y" "spells us x" "spells vs y" by blast
  with c spells_Cons [OF c(2,3)] show ?case by (intro exI [of _ "s @ (On_Character, m) # x"] exI [of _ y]) simp
qed

abbreviation stream_state :: "bstring \<Rightarrow> bstring \<Rightarrow> string_state" where
  "stream_state b v \<equiv> \<lparr>sm_bytes = b, sm_string = b, sm_value = v\<rparr>"

lemma stream_write_less:
  "length (sm_bytes st) + length cs < page \<Longrightarrow> stream_write page cs st = (st\<lparr>sm_bytes := sm_bytes st @ cs\<rparr>, [])"
proof (induction cs arbitrary: st)
  case (Cons c cs)
  then have "stream_write page cs (st\<lparr>sm_bytes := sm_bytes st @ [c]\<rparr>) = (st\<lparr>sm_bytes := sm_bytes st @ c # cs\<rparr>, [])" by simp
  with Cons.prems show ?case by (simp add: stream_push_back_def Let_def)
qed simp

lemma stream_write_full:
  "cs \<noteq> [] \<Longrightarrow> length (sm_bytes st) + length cs = page \<Longrightarrow> stream_write page cs st = on_buffer (st\<lparr>sm_bytes := sm_bytes st @ cs\<rparr>)"
proof (induction cs arbitrary: st)
  case (Cons c cs)
  show ?case
  proof (cases "cs = []")
    case True
    with Cons.prems show ?thesis by (simp add: stream_push_back_def Let_def split: prod.splits)
  next
    case False
    with Cons.IH [of "st\<lparr>sm_bytes := sm_bytes st @ [c]\<rparr>"] Cons.prems
    have "stream_write page cs (st\<lparr>sm_bytes := sm_bytes st @ [c]\<rparr>) = on_buffer (st\<lparr>sm_bytes := sm_bytes st @ c # cs\<rparr>)" by simp
    moreover have "\<not> page \<le> length (sm_bytes st @ [c])" using Cons.prems False by (cases cs) auto
    then have "stream_push_back page c st = (st\<lparr>sm_bytes := sm_bytes st @ [c]\<rparr>, [])" by (simp add: stream_push_back_def Let_def)
    ultimately show ?thesis by (cases "on_buffer (st\<lparr>sm_bytes := sm_bytes st @ c # cs\<rparr>)") simp
  qed
qed simp

lemma character_event:
  "json_events page ((On_Character, m) # d) st =
     (let (st, parts) = matched_item page (string_character_value m) st; (st, more) = json_events page d st in (st, map Part_String parts @ more))"
  by (simp add: json_event_def string_call_def Let_def split: prod.splits)

lemma spells_less:
  "spells us c \<Longrightarrow> length b + length (concat us) < page \<Longrightarrow>
     json_events page c (stream_state b v) = (stream_state (b @ concat us) v, [])"
proof (induction arbitrary: b rule: spells.induct)
  case (spells_Cons c m u us d)
  have "matched_item page u (stream_state b v) = (stream_state (b @ u) v, [])"
    using stream_write_less [of "\<lparr>sm_bytes = b, sm_string = b @ u, sm_value = v\<rparr>" u page] spells_Cons.prems by (simp add: matched_item_def)
  moreover have "json_events page d (stream_state (b @ u) v) = (stream_state ((b @ u) @ concat us) v, [])"
    by (rule spells_Cons.IH) (use spells_Cons.prems in simp)
  ultimately show ?case using spells_Cons(1,2)
    by (simp add: json_events_append json_events_silent character_event del: json_events.simps)
qed simp

lemma spells_full:
  "spells us c \<Longrightarrow> us \<noteq> [] \<Longrightarrow> \<forall>u \<in> set us. u \<noteq> [] \<Longrightarrow> length b + length (concat us) = page \<Longrightarrow>
     json_events page c (stream_state b v) = (stream_state [] (b @ concat us), [Part_String (b @ concat us)])"
proof (induction arbitrary: b rule: spells.induct)
  case (spells_Cons c m u us d)
  show ?case
  proof (cases "us = []")
    case True
    with spells_Cons(3) have "d = []" by (auto elim: spells.cases)
    moreover have "matched_item page u (stream_state b v) = (stream_state [] (b @ u), [b @ u])"
      using stream_write_full [of u "\<lparr>sm_bytes = b, sm_string = b @ u, sm_value = v\<rparr>" page] spells_Cons.prems True
      by (simp add: matched_item_def on_buffer_def)
    ultimately show ?thesis using spells_Cons(1,2) True
      by (simp add: json_events_append json_events_silent character_event del: json_events.simps)
  next
    case False
    then have "concat us \<noteq> []" using spells_Cons.prems(2) by (cases us) auto
    then have "0 < length (concat us)" by blast
    then have "length b + length u < page" using spells_Cons.prems(3) unfolding concat.simps length_append by linarith
    then have "matched_item page u (stream_state b v) = (stream_state (b @ u) v, [])"
      using stream_write_less [of "\<lparr>sm_bytes = b, sm_string = b @ u, sm_value = v\<rparr>" u page] by (simp add: matched_item_def)
    moreover have "json_events page d (stream_state (b @ u) v) =
        (stream_state [] ((b @ u) @ concat us), [Part_String ((b @ u) @ concat us)])"
      by (rule spells_Cons.IH) (use spells_Cons.prems False in simp_all)
    ultimately show ?thesis using spells_Cons(1,2)
      by (simp add: json_events_append json_events_silent character_event del: json_events.simps)
  qed
qed simp

text \<open>Texts in pages that end between characters.\<close>

definition paged :: "nat \<Rightarrow> bstring list \<Rightarrow> bool" where
  "paged page ss \<longleftrightarrow> (\<forall>s \<in> set ss. whole_chars s \<and> s \<noteq> [] \<and> length s \<le> page) \<and> (\<forall>s \<in> set (butlast ss). length s = page)"

lemma end_event:
  "json_events page [(On_End_String, m)] st = (let (st, parts) = stream_flush st in (st, map Part_String parts @ [End_String]))"
  by (simp add: json_event_def string_call_def Let_def split: prod.splits)

lemma spells_pages:
  assumes "spells (concat uss) c" and "\<forall>us \<in> set uss. \<forall>u \<in> set us. u \<noteq> []"
    and "\<forall>us \<in> set uss. us \<noteq> [] \<and> length (concat us) \<le> page" and "\<forall>us \<in> set (butlast uss). length (concat us) = page"
  shows "json_events page (c @ [(On_End_String, m)]) (stream_state [] v) =
    (stream_state [] (if uss = [] then v else concat (last uss)), map Part_String (map concat uss) @ [End_String])"
  using assms
proof (induction uss arbitrary: c v)
  case Nil
  then have "c = []" by (auto elim: spells.cases)
  then show ?case by (simp add: end_event stream_flush_def del: json_events.simps)
next
  case (Cons us uss)
  from spells_append [of us "concat uss" c] Cons.prems(1) obtain d e where c: "c = d @ e" "spells us d" "spells (concat uss) e" by auto
  have ne: "concat us \<noteq> []" using Cons.prems(2,3) by (cases us) auto
  show ?case
  proof (cases "length (concat us) = page")
    case True
    from spells_full [OF c(2), of "[]" page v] Cons.prems(2,3) True
    have d: "json_events page d (stream_state [] v) = (stream_state [] (concat us), [Part_String (concat us)])" by simp
    have "\<forall>us \<in> set (butlast uss). length (concat us) = page" using Cons.prems(4) by (cases uss) auto
    with Cons.IH [OF c(3)] Cons.prems(2,3)
    have "json_events page (e @ [(On_End_String, m)]) (stream_state [] (concat us)) =
        (stream_state [] (if uss = [] then concat us else concat (last uss)), map Part_String (map concat uss) @ [End_String])" by simp
    with d show ?thesis by (simp add: c(1) json_events_append del: json_events.simps)
  next
    case False
    with Cons.prems(4) have uss: "uss = []" by (cases uss) auto
    with c(3) have e: "e = []" by (auto elim: spells.cases)
    from False Cons.prems(3) have "length [] + length (concat us) < page" by (simp add: le_neq_implies_less)
    from spells_less [OF c(2) this] have "json_events page d (stream_state [] v) = (stream_state (concat us) v, [])" by simp
    with ne show ?thesis
      by (simp add: c(1) e uss json_events_append end_event stream_flush_def on_buffer_def del: json_events.simps)
  qed
qed

section \<open>Strings\<close>

definition string_chars :: "bstring list \<Rightarrow> bstring list" where
  "string_chars us = [[CHR 0x22]] @ concat (map written_chars us) @ [[CHR 0x22]]"

lemma refuses_string_character: "refuses g string_character [CHR 0x22]"
  unfolding string_character_def
  by (intro refuses_match refuses_or) (auto intro: refuses_plain refuses_escaped simp: excluded_def)

lemma written_chars_ne: "utf8_char u \<Longrightarrow> written_chars u \<noteq> []"
  by (auto simp: written_chars_def utf8_char_def escape_char_def to_hex_def split: if_splits)

lemma items_string:
  "\<forall>u \<in> set us. utf8_char u \<Longrightarrow>
     \<exists>c. items g (MInvoke string_character On_Character None) (concat (map written_chars us)) [CHR 0x22] (length us) c \<and> spells us c"
proof (induction us)
  case Nil
  from refuses_feed [OF refuses_invoke [OF refuses_string_character]] obtain m where
    "ends g (MInvoke string_character On_Character None) [] [CHR 0x22] False False m []" by blast
  from items_end [OF this] spells_Nil show ?case by auto
next
  case (Cons u us)
  from string_character_reads [of u g] Cons.prems obtain m s where
    m: "ends g string_character (butlast (written_chars u)) (last (written_chars u)) True True m s" "string_character_value m = u" "silent s"
    by auto
  from reads_with [OF ends_invoke [OF m(1), of On_Character]] written_chars_ne [of u] Cons.prems
  have r: "reads g (MInvoke string_character On_Character None) (written_chars u) ch (MInvoke m On_Character (Some True)) (s @ [(On_Character, m)])" for ch
    by simp
  from Cons obtain c where c: "items g (MInvoke string_character On_Character None) (concat (map written_chars us)) [CHR 0x22] (length us) c"
    "spells us c" by auto
  from items_reads [OF r c(1)] spells_Cons [OF m(3,2) c(2)] show ?case by auto
qed

lemma reads_string:
  assumes "\<forall>u \<in> set us. utf8_char u"
  shows "\<exists>m a b c. reads g string_parts (string_chars us) ch m ((On_Begin_String, a) # c @ [(On_End_String, b)]) \<and> spells us c"
proof -
  from items_string [OF assms, of g] obtain c where
    c: "items g (MInvoke string_character On_Character None) (concat (map written_chars us)) [CHR 0x22] (length us) c" "spells us c" by blast
  from reads_repeat [OF c(1), of 0] obtain s where
    s: "reads g string_characters (concat (map written_chars us)) (hd ([[CHR 0x22]] @ [ch])) s c" by (auto simp: string_characters_def)
  let ?q = "MChar (Some [CHR 0x22]) (Some True) :: json_call matcher"
  have q: "reads g (MInvoke (character CHR 0x22) name None) [[CHR 0x22]] x (MInvoke ?q name (Some True)) [(name, ?q)]" for name x
    using reads_invoke [OF reads_character, where name = name] by fastforce
  from reads_and [OF all_read_Cons [OF q all_read_Cons [OF s all_read_last [OF q]]]] c(2) show ?thesis
    by (fastforce simp: string_parts_def string_chars_def)
qed

lemma begin_event: "json_events page ((On_Begin_String, m) # c) st = (let (st, es) = json_events page c string_new in (st, Begin_String # es))"
  by (simp add: json_event_def string_call_def Let_def split: prod.splits)

lemma whole_pages:
  assumes "paged page ss"
  shows "\<exists>uss. ss = map concat uss \<and> (\<forall>us \<in> set uss. \<forall>u \<in> set us. utf8_char u) \<and>
    (\<forall>us \<in> set uss. us \<noteq> [] \<and> length (concat us) \<le> page) \<and> (\<forall>us \<in> set (butlast uss). length (concat us) = page)"
proof -
  from whole_chars_split [of ss] assms obtain uss where
    u: "\<forall>us \<in> set uss. \<forall>u \<in> set us. utf8_char u" "ss = map concat uss" by (auto simp: paged_def)
  have "us \<noteq> [] \<and> length (concat us) \<le> page" if "us \<in> set uss" for us
    using assms that u(2) by (cases us) (auto simp: paged_def simp del: length_concat)
  moreover have "\<forall>us \<in> set (butlast uss). length (concat us) = page"
    using assms u(2) by (simp add: paged_def map_butlast [symmetric] del: length_concat)
  ultimately show ?thesis using u by blast
qed

text \<open>A string is read, and its pages are passed on.\<close>

lemma string_reads:
  assumes "paged page ss"
  shows "\<exists>us. (\<forall>u \<in> set us. utf8_char u) \<and> concat us = concat ss \<and>
    (\<forall>ch. \<exists>m c. reads g string_parts (string_chars us) ch m c \<and>
      (\<forall>st. json_events page c st =
        (stream_state [] (if ss = [] then [] else last ss), Begin_String # map Part_String ss @ [End_String])))"
proof -
  from whole_pages [OF assms] obtain uss where u: "ss = map concat uss" "\<forall>us \<in> set uss. \<forall>u \<in> set us. utf8_char u"
    "\<forall>us \<in> set uss. us \<noteq> [] \<and> length (concat us) \<le> page" "\<forall>us \<in> set (butlast uss). length (concat us) = page" by blast
  have utf8: "\<forall>u \<in> set (concat uss). utf8_char u" using u(2) by auto
  have ne: "\<forall>us \<in> set uss. \<forall>u \<in> set us. u \<noteq> []" using u(2) by (auto simp: utf8_char_def)
  have all: "concat (concat uss) = concat ss" unfolding u(1) by (induction uss) simp_all
  have "\<exists>m c. reads g string_parts (string_chars (concat uss)) ch m c \<and>
      (\<forall>st. json_events page c st = (stream_state [] (if ss = [] then [] else last ss), Begin_String # map Part_String ss @ [End_String]))" for ch
  proof -
    from reads_string [OF utf8, of g ch] obtain m a b c where
      r: "reads g string_parts (string_chars (concat uss)) ch m ((On_Begin_String, a) # c @ [(On_End_String, b)])" "spells (concat uss) c" by blast
    from spells_pages [OF r(2) ne u(3,4), of b "[]"]
    have "json_events page ((On_Begin_String, a) # c @ [(On_End_String, b)]) st =
        (stream_state [] (if ss = [] then [] else last ss), Begin_String # map Part_String ss @ [End_String])" for st
      by (simp add: begin_event string_new_def u(1) last_map del: json_events.simps)
    with r(1) show ?thesis by blast
  qed
  with utf8 all show ?thesis by blast
qed

end
