(* ===== verification/JSON_Sets.thy ===== *)
theory JSON_Sets
  imports JSON_Pages
begin

text \<open>
  Braces, separators and the items between them: the runs of \<open>Set\<close>, for arrays and for objects.
\<close>

section \<open>Braces and separators\<close>

lemma refuses_and: "refuses g m ch \<Longrightarrow> refuses g (MAnd (m # ms) 0 None) ch"
  using refuses_feed [of g m ch] ends_and [OF parts_fail [of g m "[]" ch False]] by (fastforce simp: refuses_def)

lemma no_blanks: "\<not> blank_char ch \<Longrightarrow> \<exists>m. reads g (blank_space 0) [] ch m []"
  using reads_blanks [of "[]" ch 0 g] by simp

lemma refuses_blank_and:
  assumes "\<not> blank_char ch" and "refuses g m ch"
  shows "refuses g (MAnd (blank_space 0 # m # ms) 0 None) ch"
proof -
  from no_blanks [OF assms(1)] obtain b where "reads g (blank_space 0) [] (hd ([] @ [ch])) b []" by fastforce
  moreover from refuses_feed [OF assms(2)] obtain k where "ends g m [] ch False False k []" by blast
  ultimately have "\<exists>i k. ends g (MAnd (blank_space 0 # m # ms) 0 None) [] ch False False (MAnd k i (Some False)) []"
    using ends_and [OF parts_reads [OF _ _ parts_fail]] by fastforce
  then show ?thesis by (auto simp: refuses_def)
qed

definition open_mark :: "char \<Rightarrow> json_call matcher" where
  "open_mark c = MAnd [blank_space 0, character c, blank_space 0] 0 None"

definition close_mark :: "char \<Rightarrow> json_call matcher" where
  "close_mark c = MAnd [blank_space 0, character c] 0 None"

lemma marks:
  "object_open_brace = open_mark CHR ''{''" "object_close_brace = close_mark CHR ''}''" "object_field_seperator = open_mark CHR '',''"
  "object_key_value_seperator = open_mark CHR '':''" "array_close_brace = close_mark CHR '']''" "array_seperator = open_mark CHR '',''"
  by (simp_all add: open_mark_def close_mark_def object_open_brace_def object_close_brace_def object_field_seperator_def
      object_key_value_seperator_def array_close_brace_def array_seperator_def)

lemma reads_open_mark:
  assumes "\<not> blank_char [c]" and "\<forall>w \<in> set ws. blank_char w" and "\<not> blank_char ch"
  shows "\<exists>m. reads g (open_mark c) ([c] # ws) ch m []"
proof -
  from no_blanks [OF assms(1)] obtain a where a: "reads g (blank_space 0) [] (hd (([[c]] @ ws) @ [ch])) a []" by fastforce
  from reads_blanks [OF assms(2,3), of 0 g] obtain b where b: "reads g (blank_space 0) ws ch b []" by auto
  have c: "reads g (character c) [[c]] (hd (ws @ [ch])) (MChar (Some [c]) (Some True)) []" by (rule reads_character)
  from reads_and [OF all_read_Cons [OF a all_read_Cons [OF c all_read_last [OF b]]]] show ?thesis by (auto simp: open_mark_def)
qed

lemma reads_open_bracket:
  assumes "\<forall>w \<in> set ws. blank_char w" and "\<not> blank_char ch"
  shows "\<exists>m. reads g array_open_brace (''['' # ws) ch m []"
proof -
  from reads_blanks [OF assms, of 0 g] obtain b where b: "reads g (blank_space 0) ws ch b []" by auto
  have c: "reads g (character CHR ''['') [''[''] (hd (ws @ [ch])) (MChar (Some ''['') (Some True)) []" by (rule reads_character)
  from reads_and [OF all_read_Cons [OF c all_read_last [OF b]]] show ?thesis by (auto simp: array_open_brace_def)
qed

lemma reads_close_mark:
  assumes "\<not> blank_char [c]"
  shows "\<exists>m. reads g (close_mark c) [[c]] ch m []"
proof -
  from no_blanks [OF assms] obtain a where a: "reads g (blank_space 0) [] (hd ([[c]] @ [ch])) a []" by fastforce
  from reads_and [OF all_read_Cons [OF a all_read_last [OF reads_character]]] show ?thesis by (auto simp: close_mark_def)
qed

abbreviation comma :: "json_call matcher" where "comma \<equiv> open_mark CHR '',''"

lemma comma_not_blank: "\<not> blank_char '',''"
  by (simp add: blank_char_def blanks_def)

lemma reads_seperator:
  assumes "\<forall>w \<in> set ws. blank_char w" and "\<not> blank_char ch"
  shows "\<exists>m. reads g (set_seperator comma) ('','' # ws) ch m []"
proof -
  from optional_blanks [of "[]" "'',''" g] comma_not_blank obtain a where
    a: "reads g (MOptional (blank_space 1) None) [] (hd ((('','' # ws) @ []) @ [ch])) a []" by auto
  from reads_open_mark [OF comma_not_blank assms, of g] obtain b where b: "reads g comma ('','' # ws) (hd ([] @ [ch])) b []" by auto
  from optional_blanks [of "[]" ch g] assms(2) obtain c where c: "reads g (MOptional (blank_space 1) None) [] ch c []" by auto
  from reads_and [OF all_read_Cons [OF a all_read_Cons [OF b all_read_last [OF c]]]] show ?thesis by (auto simp: set_seperator_def)
qed

lemma no_seperator:
  assumes "\<forall>w \<in> set ws. blank_char w" and "\<not> blank_char [z]" and "z \<noteq> CHR '',''"
  shows "\<exists>m. ends g (set_seperator comma) ws [z] False False m []"
proof -
  from optional_blanks [OF assms(1,2), of g] obtain a where a: "reads g (MOptional (blank_space 1) None) ws (hd ([] @ [[z]])) a []" by auto
  have "refuses g comma [z]" unfolding open_mark_def
    by (rule refuses_blank_and [OF assms(2)], rule refuses_character) (use assms(3) in simp)
  from refuses_feed [OF this] obtain b where b: "ends g comma [] [z] False False b []" by blast
  from ends_and [OF parts_reads [OF a _ parts_fail [OF b]]] show ?thesis by (auto simp: set_seperator_def)
qed

section \<open>Items\<close>

text \<open>
  \<open>P\<close> is what an item says, with its call of the name \<open>n\<close>. An item is its characters with what it stands for.
\<close>

inductive said :: "('x \<Rightarrow> json_call call list \<Rightarrow> bool) \<Rightarrow> 'x list \<Rightarrow> json_call call list \<Rightarrow> bool" for P where
  said_Nil: "said P [] []"
| said_Cons: "P x c \<Longrightarrow> said P xs d \<Longrightarrow> said P (x # xs) (c @ d)"

definition item_ok ::
    "json_call grammar \<Rightarrow> json_call matcher \<Rightarrow> json_call \<Rightarrow> ('x \<Rightarrow> json_call call list \<Rightarrow> bool) \<Rightarrow> bstring list \<times> 'x \<Rightarrow> bool" where
  "item_ok g item n P y \<longleftrightarrow> fst y \<noteq> [] \<and> \<not> blank_char (hd (fst y)) \<and>
     (\<forall>ch. stops ch \<longrightarrow> (\<exists>m c. reads g item (fst y) ch m c \<and> P (snd y) (c @ [(n, m)])))"

definition rest_chars :: "bstring list \<Rightarrow> (bstring list \<times> 'x) list \<Rightarrow> bstring list" where
  "rest_chars ws ys = concat (map (\<lambda>y. '','' # ws @ fst y) ys)"

lemma rest_chars_simps [simp]: "rest_chars ws [] = []" "rest_chars ws (y # ys) = '','' # ws @ fst y @ rest_chars ws ys"
  by (simp_all add: rest_chars_def)

lemma blank_stops: "blank_char u \<Longrightarrow> stops u"
  by (auto simp: blank_char_def stops_def)

lemma rest_stops:
  assumes "\<forall>w \<in> set ws'. blank_char w" and "stops z"
  shows "stops (hd (rest_chars ws ys @ ws' @ [z]))"
proof (cases ys)
  case Nil
  with assms show ?thesis by (cases ws') (auto intro: blank_stops)
next
  case Cons
  then show ?thesis by (simp add: stops_def)
qed

lemma items_rest:
  assumes "\<forall>w \<in> set ws. blank_char w" and "\<forall>w \<in> set ws'. blank_char w" and "stops [z]" and "\<not> blank_char [z]" and "z \<noteq> CHR '',''"
    and "\<forall>y \<in> set ys. item_ok g item n P y"
  shows "\<exists>c. items g (subsequent_item item n comma) (rest_chars ws ys @ ws') [z] (length ys) c \<and> said P (map snd ys) c"
  using assms(6)
proof (induction ys)
  case Nil
  from no_seperator [OF assms(2,4,5), of g] ends_and [OF parts_fail] obtain m where
    "ends g (subsequent_item item n comma) ws' [z] False False m []" unfolding subsequent_item_def by blast
  from items_end [OF this] said_Nil show ?case by auto
next
  case (Cons y ys)
  then obtain d where d: "items g (subsequent_item item n comma) (rest_chars ws ys @ ws') [z] (length ys) d" "said P (map snd ys) d" by auto
  let ?next = "hd ((rest_chars ws ys @ ws') @ [[z]])"
  have "stops ?next" using rest_stops [OF assms(2,3), of ws ys] by simp
  with Cons.prems obtain m c where m: "reads g item (fst y) ?next m c" "P (snd y) (c @ [(n, m)])" by (auto simp: item_ok_def)
  have "fst y \<noteq> []" "\<not> blank_char (hd (fst y))" using Cons.prems by (simp_all add: item_ok_def)
  then have "\<not> blank_char (hd (fst y @ [?next]))" by simp
  from reads_seperator [OF assms(1) this, of g] obtain s where
    s: "reads g (set_seperator comma) ('','' # ws) (hd (fst y @ [?next])) s []" by blast
  from reads_and [OF all_read_Cons [OF s all_read_last [OF reads_invoke [OF m(1), of n]]]] obtain k where
    "reads g (subsequent_item item n comma) (('','' # ws) @ fst y) ?next k (c @ [(n, m)])" by (auto simp: subsequent_item_def)
  from items_reads [OF this d(1)] said_Cons [of P "snd y" "c @ [(n, m)]", OF m(2) d(2)] show ?case by auto
qed

text \<open>The whole set.\<close>

lemma reads_set:
  assumes op: "\<And>x. \<not> blank_char x \<Longrightarrow> \<exists>m. reads g op os x m []" and ws: "\<forall>w \<in> set ws. blank_char w" "\<forall>w \<in> set ws'. blank_char w"
    and z: "stops [z]" "\<not> blank_char [z]" "z \<noteq> CHR '',''" and ok: "\<forall>y \<in> set (y # ys). item_ok g item n P y"
  shows "\<exists>m a d c. reads g (set_matcher op b item n comma (close_mark z) e) (os @ fst y @ rest_chars ws ys @ ws' @ [[z]]) ch m
    ((b, a) # c @ [(e, d)]) \<and> said P (map snd (y # ys)) c \<and> matched_value m = []"
proof -
  let ?tail = "rest_chars ws ys @ ws'"
  from items_rest [OF ws z, of ys g item n P] ok obtain d where
    d: "items g (subsequent_item item n comma) ?tail [z] (length ys) d" "said P (map snd ys) d" by auto
  from reads_repeat [OF d(1), of 0] obtain r where
    "reads g (MRepeat (subsequent_item item n comma) 0 0 0 None None) ?tail [z] r d" by auto
  note r = reads_optional [OF this]
  have "stops (hd (?tail @ [[z]]))" using rest_stops [OF ws(2) z(1), of ws ys] by simp
  with ok obtain m c where m: "reads g item (fst y) (hd (?tail @ [[z]])) m c" "P (snd y) (c @ [(n, m)])" by (auto simp: item_ok_def)
  from reads_and [OF all_read_Cons [OF reads_invoke [OF m(1), of n] all_read_last [OF r]]] obtain k where
    "reads g (MAnd [MInvoke item n None, MOptional (MRepeat (subsequent_item item n comma) 0 0 0 None None) None] 0 None)
      (fst y @ ?tail) (hd ([[z]] @ [ch])) k ((c @ [(n, m)]) @ d)" by auto
  note body = reads_optional [OF this]
  have y: "fst y \<noteq> []" "\<not> blank_char (hd (fst y))" using ok by (simp_all add: item_ok_def)
  from op [of "hd (fst y)"] y obtain a where "reads g op os (hd (((fst y @ ?tail) @ [[z]]) @ [ch])) a []" by auto
  note a = reads_invoke [OF this, of b]
  from reads_close_mark [OF z(2), of g ch] obtain q where "reads g (close_mark z) [[z]] ch q []" by blast
  note q = reads_invoke [OF this, of e]
  from reads_and [OF all_read_Cons [OF a all_read_Cons [OF body all_read_last [OF q]]]] obtain i ms where
    "reads g (MAnd [MInvoke op b None, MOptional (MAnd [MInvoke item n None,
        MOptional (MRepeat (subsequent_item item n comma) 0 0 0 None None) None] 0 None) None, MInvoke (close_mark z) e None] 0 None)
      (os @ (fst y @ ?tail) @ [[z]]) ch (MAnd ms i (Some True)) (([] @ [(b, a)]) @ ((c @ [(n, m)]) @ d) @ ([] @ [(e, q)]))" by blast
  from reads_match [OF this]
  have "reads g (set_matcher op b item n comma (close_mark z) e) (os @ fst y @ rest_chars ws ys @ ws' @ [[z]]) ch
      (MMatch (MAnd ms i (Some True)) (Some True)) ((b, a) # ((c @ [(n, m)]) @ d) @ [(e, q)])" unfolding set_matcher_def by simp
  moreover have "said P (map snd (y # ys)) ((c @ [(n, m)]) @ d)" using said_Cons [of P "snd y" "c @ [(n, m)]", OF m(2) d(2)] by simp
  moreover have "matched_value (MMatch (MAnd ms i (Some True)) (Some True) :: json_call matcher) = []" by simp
  ultimately show ?thesis by blast
qed

lemma reads_empty_set:
  assumes op: "\<And>x. \<not> blank_char x \<Longrightarrow> \<exists>m. reads g op os x m []" and z: "\<not> blank_char [z]" and none: "\<exists>m. ends g item [] [z] False False m []"
  shows "\<exists>m a d. reads g (set_matcher op b item n comma (close_mark z) e) (os @ [[z]]) ch m [(b, a), (e, d)] \<and>
    matched_value m = []"
proof -
  from none ends_invoke [of g item "[]" "[z]" False False _ "[]" n] obtain k where "ends g (MInvoke item n None) [] [z] False False k []" by fastforce
  from ends_and [OF parts_fail [OF this]] reads_absent obtain k where
    k: "reads g (MOptional (MAnd [MInvoke item n None, MOptional (MRepeat (subsequent_item item n comma) 0 0 0 None None) None] 0 None) None)
      [] (hd ([[z]] @ [ch])) k []" by fastforce
  from op [OF z] obtain a where "reads g op os (hd (([] @ [[z]]) @ [ch])) a []" by auto
  note a = reads_invoke [OF this, of b]
  from reads_close_mark [OF z, of g ch] obtain q where "reads g (close_mark z) [[z]] ch q []" by blast
  note q = reads_invoke [OF this, of e]
  from reads_and [OF all_read_Cons [OF a all_read_Cons [OF k all_read_last [OF q]]]] obtain i ms where
    "reads g (MAnd [MInvoke op b None, MOptional (MAnd [MInvoke item n None,
        MOptional (MRepeat (subsequent_item item n comma) 0 0 0 None None) None] 0 None) None, MInvoke (close_mark z) e None] 0 None)
      (os @ [] @ [[z]]) ch (MAnd ms i (Some True)) (([] @ [(b, a)]) @ [] @ ([] @ [(e, q)]))" by blast
  from reads_match [OF this] show ?thesis unfolding set_matcher_def by fastforce
qed

end
