(* ===== verification/Spec2Isabelle.thy ===== *)
theory Spec2Isabelle
  imports Reverse_Gap Query_Search JSON_Output JSON_Sets
begin

text \<open>
  A model of bee.fish, a database of bit tries with a query language, in C++ (src/code).

  \<^bold>\<open>The program.\<close> Every key of the database is a sequence of bits. Class \<open>PowerEncoding\<close>
  (code/power-encoding) turns numbers, strings and identifiers (code/Id) into self-delimiting bit sequences: a
  running count of ones against zeros is zero exactly at the end of a value. Class \<open>Database\<close> (code/Database/File.hpp,
  Branch.hpp, DatabaseBase.hpp) keeps a binary trie in a file; its nodes hold the offsets of the two
  children, of the parent and of a block of data. Class \<open>Path\<close> (Path.hpp) is a position in the trie with
  the running count; it is a sink and a source of bits, so that writing a key to it walks down the trie. Class
  \<open>PathBase\<close> (PathBase.hpp) visits the values of a trie in order through a few virtual methods, and the
  iterators (Iterable.hpp) read the values back. A search (code/query) builds intersections, unions and
  differences of such paths without computing them, and the same iterators visit the results. The text of a query is
  split by the streaming parser (code/parser), which is fed one character at a time; the words of a text
  are found by \<open>BString::tokenise\<close> (code/b-string), which also has the byte strings and their escaped forms.

  \<^bold>\<open>Theories, and what they model.\<close>
  \<^item> \<open>Prelude\<close>: bit sequences, balance and complete codes; collections of simp rules; generic lemmas.
  \<^item> \<open>Power_Encoding\<close> (power-encoding-base.h), \<open>Encoding\<close> (encoding.h): numbers, strings and the text stream of bits. The
    locale \<open>bit_source\<close> states what a reader of bits owes its client; it is interpreted on lists, on the text stream and on
    \<open>Stack\<close>.
  \<^item> \<open>Bit_Stack\<close>, \<open>Stack_Data\<close> (Miscellaneous/Stack.hpp): the vector of bits with a read position, and its bytes.
  \<^item> \<open>Base64_Codec\<close> (Miscellaneous/Base64.hpp), \<open>Identifiers\<close> (Id/Id.hpp): timestamps, names, keys.
  \<^item> \<open>Trie_Database\<close> (File.hpp, Branch.hpp, DatabaseBase.hpp): the bytes of the file and the operations on branches.
    \<open>Database_Invariant\<close> has the invariant (extents that do not overlap, links that agree) and its
    preservation; \<open>Trie_Walk\<close> what the branches mean.
  \<^item> \<open>Trie_Path\<close> (Path.hpp), with \<open>Path_Facts\<close>, \<open>Path_Data\<close> and \<open>Path_Properties\<close>: every operation of a path and its
    contract. The abstract view is the set of the positions of the trie (\<open>entries\<close>) and a map from positions to values.
  \<^item> \<open>Path_Cursor\<close> (PathBase.hpp), \<open>Path_Iterable\<close> (Iterable.hpp), \<open>Path_Iteration\<close>, \<open>Reverse_Gap\<close>: the
    cursor over the values of any trie. The locale \<open>path_cursor\<close> states what the virtual methods of a subclass owe the cursor; it is
    interpreted on the paths of the database and on the trees of query paths.
  \<^item> \<open>Query_Paths\<close> (AndPath.hpp, OrPath.hpp, NotPath.hpp, WordPath.hpp), \<open>Query_Expression\<close>, \<open>Query_Evaluation\<close>,
    \<open>Query_Results\<close> (Query.hpp, class \<open>Expression\<close>): the paths of a search and the stack machine that builds them.
  \<^item> \<open>Byte_Strings\<close>, \<open>Byte_Escape\<close>, \<open>Byte_Tokens\<close>, \<open>Byte_Words\<close> (b-string-base.h): byte strings, UTF-8, escape sequences, and
    the words of a text with a reference definition of them.
  \<^item> \<open>Parser_Match\<close>, \<open>Parser_Facts\<close> (code/parser): the matchers with their state, and rules of one step.
  \<^item> \<open>Query_Parser\<close>, \<open>Query_Tokens\<close>, \<open>Query_Text\<close>, \<open>Query_Search\<close> (Query.hpp): the grammar of queries, what it does to every
    text of tokens, and the theorem from the text of a query to its results.

  \<^bold>\<open>How state and failure are represented.\<close> An object is a record or a datatype, and a method that changes it returns the
  new one. The file is a list of bytes and every access is by offset. A virtual method is a field of a record of
  functions (\<open>path_ops\<close>) and a class hierarchy a datatype with one constructor per class. \<open>None\<close> stands for
  what the code leaves undefined (access out of range, a cast to the wrong class) and for an exception where nothing catches
  it; for a \<open>partial_function\<close> it also stands for not returning, so a property that ends in \<open>Some\<close> states that the code returns.

  \<^bold>\<open>Bounds and fuel.\<close> Offsets are natural numbers below \<open>2 ^ 64\<close>; an operation that grows the file is
  stated for files that stay below that bound. Counters wrap modulo \<open>2 ^ 64\<close>. \<open>PowerEncoding\<close> computes logarithms and powers in double
  precision; the model uses exact arithmetic, which \<open>double_exact\<close> states to be the same. The loops of paths and
  cursors are \<open>partial_function (option)\<close>, proved to return where they do. The matchers of the parser recurse along the
  grammar, which may be recursive (\<open>LoadOnDemand\<close>); the model bounds the depth of calls, a property holds
  for all depths from some depth on, and \<open>step\<close> of \<open>Parser_Facts\<close> hides it.

  \<^bold>\<open>What is assumed.\<close> Characters are signed and pages little-endian, as on x86-64. The functions of the C
  library that depend on the locale (\<open>tolower\<close>, \<open>iswalnum\<close>, \<open>towlower\<close>) are parameters, with what the code relies on
  as named hypotheses, and the clock is the sequence of its readings. One process uses the file at a time.

  \<^bold>\<open>What the properties show.\<close> Inserting, finding, storing, clearing and deleting keys refine operations on a set of
  keys and a map of values; forward iteration visits exactly the keys in order; the paths of a search denote intersection, union
  and complement, and a query text finds exactly the identifiers its boolean meaning selects; encodings are
  restored by their decoders; words of a text are those of a reference definition. Other properties pin down where the code
  departs from what it means to do: the reverse iterators, timestamps when the clock steps back, a
  counter that is missing, queries that begin with an operator, words that begin with one, and texts that are read in pages.

  \<^bold>\<open>Not modelled.\<close> Locks between processes (LockFile.hpp, Locks.hpp, BranchLock.hpp) and failures of the operating system;
  JSON documents in the database (JSONPath.hpp, JSONPathParser.hpp, JSONDatabase.hpp), the cache
  (LeastRecentlyUsedCache.hpp), the JSON grammar (code/json), the interpreter (code/Script), and the servers
  (code/https, WebServer, DBServer, web-request, Authentication), which are mostly input and output over boost; the byte mode of
  the parser, which only web requests use. Tests, archives and the client are not part of the program modelled.
\<close>

end
